(* ===== verification/Gotst_Prelude.thy ===== *)
theory Gotst_Prelude
  imports Main "HOL-Library.AList" "HOL-Library.Multiset" "HOL-Library.Sublist"
    "HOL-Library.List_Lexorder" "HOL-Library.Char_ord"
begin

text \<open>
  What every component of the development shares: the names of the model's basic types, Go
  maps as association lists, the sorting functions of Go's \<open>slices\<close> package over a comparison
  function, truncating division, loops whose body can panic, and reachability with its
  invariant rule. The comparison contract that \<open>slices.SortFunc\<close> asks for and the invariant
  rule are locales; the components interpret them on their own comparison functions and
  step relations.
\<close>

section \<open>Basic types\<close>

text \<open>
  A \<open>time.Duration\<close> is a number of nanoseconds. A \<open>time.Time\<close> is the number of nanoseconds
  since Go's zero time, so that \<open>IsZero\<close> is a comparison with 0. Both are unbounded here;
  where the code multiplies or adds durations the bounds involved are stated with the
  operation. Go's \<open>int\<close> counters are \<open>int\<close>.
\<close>

type_synonym duration = int
type_synonym time = int
type_synonym gopath = string
type_synonym ('k, 'v) gomap = "('k \<times> 'v) list"

definition millisecond :: duration where
  "millisecond = 1000000"

definition second :: duration where
  "second = 1000000000"

named_theorems panic_free
named_theorems frame_simps

section \<open>Go maps\<close>

text \<open>
  A Go map is an association list with distinct keys. Its order stands for the order in which
  \<open>range\<close> visits it, which Go leaves unspecified: no theorem depends on it.
\<close>

abbreviation gokeys :: "('k, 'v) gomap \<Rightarrow> 'k list" where
  "gokeys m \<equiv> map fst m"

definition gomap_ok :: "('k, 'v) gomap \<Rightarrow> bool" where
  "gomap_ok m \<longleftrightarrow> distinct (gokeys m)"

lemma gomap_ok_Nil [simp]: "gomap_ok []"
  by (simp add: gomap_ok_def)

lemma map_of_update [simp]: "map_of (AList.update k v m) = (map_of m)(k \<mapsto> v)"
  by (rule update_conv')

lemma map_of_delete [simp]: "map_of (AList.delete k m) = (map_of m)(k := None)"
  by (rule delete_conv')

lemma gomap_ok_update [simp]: "gomap_ok m \<Longrightarrow> gomap_ok (AList.update k v m)"
  by (simp add: gomap_ok_def distinct_update)

lemma gomap_ok_delete [simp]: "gomap_ok m \<Longrightarrow> gomap_ok (AList.delete k m)"
  by (simp add: gomap_ok_def distinct_delete)

lemma gokeys_update:
  "gokeys (AList.update k v m) = (if k \<in> set (gokeys m) then gokeys m else gokeys m @ [k])"
  by (induction m) auto

lemma gokeys_update_present: "map_of m k = Some v \<Longrightarrow> gokeys (AList.update k w m) = gokeys m"
  by (auto simp: gokeys_update dest: map_of_SomeD intro: rev_image_eqI)

lemma gomap_entry_iff: "gomap_ok m \<Longrightarrow> (k, v) \<in> set m \<longleftrightarrow> map_of m k = Some v"
  by (simp add: gomap_ok_def)

lemma gomap_ball:
  "gomap_ok m \<Longrightarrow> (\<forall>(k, v) \<in> set m. P k v) \<longleftrightarrow> (\<forall>k v. map_of m k = Some v \<longrightarrow> P k v)"
  by (auto simp: gomap_entry_iff [symmetric])

lemma length_update_present:
  "map_of m k = Some v \<Longrightarrow> length (AList.update k w m) = length m"
  using gokeys_update_present [of m k v w] by (metis length_map)

section \<open>Arithmetic\<close>

text \<open>Go's \<open>/\<close> on integers truncates towards zero.\<close>

definition goDiv :: "int \<Rightarrow> int \<Rightarrow> int" where
  "goDiv a b = sgn a * sgn b * (\<bar>a\<bar> div \<bar>b\<bar>)"

lemma goDiv_nonneg [simp]: "0 \<le> a \<Longrightarrow> 0 < b \<Longrightarrow> goDiv a b = a div b"
  by (cases "a = 0") (simp_all add: goDiv_def)

section \<open>Sorting with a comparison function\<close>

text \<open>
  \<open>cmpOf\<close> is \<open>cmp.Compare\<close> and, on byte strings, \<open>strings.Compare\<close>. \<open>SortFunc\<close> is
  \<open>slices.SortStableFunc\<close>; it also stands for \<open>slices.SortFunc\<close>, whose result is the same list
  whenever elements that compare equal are equal (\<open>SortFunc_unique\<close>).
\<close>

definition cmpOf :: "'a::linorder \<Rightarrow> 'a \<Rightarrow> int" where
  "cmpOf a b = (if a < b then -1 else if a = b then 0 else 1)"

fun insertFunc :: "('a \<Rightarrow> 'a \<Rightarrow> int) \<Rightarrow> 'a \<Rightarrow> 'a list \<Rightarrow> 'a list" where
  "insertFunc cmp x [] = [x]"
| "insertFunc cmp x (y # ys) = (if cmp x y \<le> 0 then x # y # ys else y # insertFunc cmp x ys)"

definition SortFunc :: "('a \<Rightarrow> 'a \<Rightarrow> int) \<Rightarrow> 'a list \<Rightarrow> 'a list" where
  "SortFunc cmp xs = foldr (insertFunc cmp) xs []"

lemma SortFunc_simps [simp]:
  "SortFunc cmp [] = []"
  "SortFunc cmp (x # xs) = insertFunc cmp x (SortFunc cmp xs)"
  by (simp_all add: SortFunc_def)

lemma mset_insertFunc [simp]: "mset (insertFunc cmp x xs) = add_mset x (mset xs)"
  by (induction xs) auto

lemma set_insertFunc [simp]: "set (insertFunc cmp x xs) = insert x (set xs)"
  by (induction xs) auto

lemma mset_SortFunc [simp]: "mset (SortFunc cmp xs) = mset xs"
  by (induction xs) auto

lemma set_SortFunc [simp]: "set (SortFunc cmp xs) = set xs"
  by (induction xs) auto

lemma length_SortFunc [simp]: "length (SortFunc cmp xs) = length xs"
  by (metis mset_SortFunc size_mset)

lemma distinct_SortFunc [simp]: "distinct (SortFunc cmp xs) = distinct xs"
  by (metis mset_SortFunc mset_eq_imp_distinct_iff)

lemma distinct_map_SortFunc [simp]: "distinct (map f (SortFunc cmp xs)) = distinct (map f xs)"
  by (metis mset_SortFunc mset_eq_imp_distinct_iff mset_map)

lemma SortFunc_eq_Nil [simp]: "SortFunc cmp xs = [] \<longleftrightarrow> xs = []"
  by (metis length_0_conv length_SortFunc)

lemma sorted_wrt_mset_unique:
  assumes "sorted_wrt R xs" and "sorted_wrt R ys" and "mset xs = mset ys"
    and "\<And>a b. a \<in> set xs \<Longrightarrow> b \<in> set xs \<Longrightarrow> R a b \<Longrightarrow> R b a \<Longrightarrow> a = b"
  shows "xs = ys"
  using assms
proof (induction xs arbitrary: ys)
  case Nil
  then show ?case by simp
next
  case (Cons x xs)
  then obtain y ys' where ys: "ys = y # ys'" by (cases ys) auto
  have sets: "set (x # xs) = set (y # ys')"
    using Cons.prems(3) ys by (metis set_mset_mset)
  have "x = y"
  proof (rule ccontr)
    assume "x \<noteq> y"
    with sets have "y \<in> set xs" and "x \<in> set ys'" by auto
    with Cons.prems(1,2) ys have "R x y" and "R y x" by auto
    with Cons.prems(4) \<open>y \<in> set xs\<close> have "x = y" by auto
    with \<open>x \<noteq> y\<close> show False ..
  qed
  moreover have "xs = ys'"
    by (rule Cons.IH) (use Cons.prems ys \<open>x = y\<close> in auto)
  ultimately show ?case using ys by simp
qed

text \<open>
  The contract \<open>slices.SortFunc\<close> documents for its comparison function, stated for the
  relation "does not sort after".
\<close>

locale go_compare =
  fixes cmp :: "'a \<Rightarrow> 'a \<Rightarrow> int"
  assumes cmp_total: "cmp a b \<le> 0 \<or> cmp b a \<le> 0"
    and cmp_trans: "cmp a b \<le> 0 \<Longrightarrow> cmp b c \<le> 0 \<Longrightarrow> cmp a c \<le> 0"
begin

lemma sorted_insertFunc:
  "sorted_wrt (\<lambda>a b. cmp a b \<le> 0) xs \<Longrightarrow> sorted_wrt (\<lambda>a b. cmp a b \<le> 0) (insertFunc cmp x xs)"
proof (induction xs)
  case Nil
  then show ?case by simp
next
  case (Cons y ys)
  show ?case
  proof (cases "cmp x y \<le> 0")
    case True
    with Cons.prems show ?thesis by (auto intro: cmp_trans)
  next
    case False
    then have "cmp y x \<le> 0" using cmp_total by blast
    with False Cons show ?thesis by auto
  qed
qed

lemma sorted_SortFunc: "sorted_wrt (\<lambda>a b. cmp a b \<le> 0) (SortFunc cmp xs)"
  by (induction xs) (auto intro: sorted_insertFunc)

lemma SortFunc_unique:
  assumes "mset ys = mset xs" and "sorted_wrt (\<lambda>a b. cmp a b \<le> 0) ys"
    and "\<And>a b. a \<in> set xs \<Longrightarrow> b \<in> set xs \<Longrightarrow> cmp a b \<le> 0 \<Longrightarrow> cmp b a \<le> 0 \<Longrightarrow> a = b"
  shows "ys = SortFunc cmp xs"
proof (rule sorted_wrt_mset_unique [of "\<lambda>a b. cmp a b \<le> 0"])
  show "mset ys = mset (SortFunc cmp xs)" using assms(1) by simp
  have "set ys = set xs" using assms(1) by (metis set_mset_mset)
  then show "\<And>a b. a \<in> set ys \<Longrightarrow> b \<in> set ys \<Longrightarrow> cmp a b \<le> 0 \<Longrightarrow> cmp b a \<le> 0 \<Longrightarrow> a = b"
    using assms(3) by simp
qed (use assms(2) sorted_SortFunc in auto)

lemma SortFunc_perm:
  assumes "mset ys = mset xs"
    and "\<And>a b. a \<in> set xs \<Longrightarrow> b \<in> set xs \<Longrightarrow> cmp a b \<le> 0 \<Longrightarrow> cmp b a \<le> 0 \<Longrightarrow> a = b"
  shows "SortFunc cmp ys = SortFunc cmp xs"
  by (rule SortFunc_unique) (use assms sorted_SortFunc in auto)

text \<open>The first elements in order do not depend on elements that sort after them.\<close>

lemma take_SortFunc_between:
  assumes "set (take n (SortFunc cmp xs)) \<subseteq> set ys" and "set ys \<subseteq> set xs" and "distinct xs" and "distinct ys"
    and "\<And>a b. a \<in> set xs \<Longrightarrow> b \<in> set xs \<Longrightarrow> cmp a b \<le> 0 \<Longrightarrow> cmp b a \<le> 0 \<Longrightarrow> a = b"
  shows "take n (SortFunc cmp ys) = take n (SortFunc cmp xs)"
proof -
  let ?A = "take n (SortFunc cmp xs)" and ?B = "filter (\<lambda>x. x \<in> set ys) (drop n (SortFunc cmp xs))"
  have split: "set ?A \<union> set (drop n (SortFunc cmp xs)) = set xs"
    by (metis append_take_drop_id set_append set_SortFunc)
  have sub: "filter (\<lambda>x. x \<in> set ys) (SortFunc cmp xs) = ?A @ ?B"
  proof -
    have "filter (\<lambda>x. x \<in> set ys) ?A = ?A" using assms(1) by (simp add: subset_iff)
    then show ?thesis by (metis append_take_drop_id filter_append)
  qed
  have "distinct (?A @ ?B)" using assms(3) by (metis sub distinct_SortFunc distinct_filter)
  moreover have "set (?A @ ?B) = set ys" using assms(2) by (subst sub [symmetric]) auto
  ultimately have "mset (?A @ ?B) = mset ys" using assms(4) by (metis set_eq_iff_mset_eq_distinct)
  moreover have "sorted_wrt (\<lambda>a b. cmp a b \<le> 0) (?A @ ?B)"
    using sorted_SortFunc [of xs] by (subst sub [symmetric]) (rule sorted_wrt_filter)
  ultimately have eq: "?A @ ?B = SortFunc cmp ys"
    by (rule SortFunc_unique) (use assms(2,5) in blast)
  show ?thesis
  proof (cases "n \<le> length xs")
    case True
    then show ?thesis by (subst eq [symmetric]) simp
  next
    case False
    then have "?B = []" by simp
    then show ?thesis by (subst eq [symmetric]) simp
  qed
qed

end

lemma cmpOf_le: "cmpOf a b \<le> 0 \<longleftrightarrow> a \<le> b"
  by (auto simp: cmpOf_def)

lemma cmpOf_eq0 [simp]: "cmpOf a b = 0 \<longleftrightarrow> a = b"
  by (auto simp: cmpOf_def)

interpretation str_compare: go_compare "cmpOf :: string \<Rightarrow> string \<Rightarrow> int"
  by unfold_locales (auto simp: cmpOf_le)

text \<open>\<open>sort.Strings\<close> and \<open>slices.Sort\<close>.\<close>

abbreviation sortStrings :: "string list \<Rightarrow> string list" where
  "sortStrings \<equiv> SortFunc cmpOf"

lemma sortStrings_perm: "mset ys = mset xs \<Longrightarrow> sortStrings ys = sortStrings xs"
  by (rule str_compare.SortFunc_perm) (auto simp: cmpOf_le)

section \<open>Loops whose body can panic\<close>

text \<open>
  \<open>None\<close> is a run-time panic (a nil dereference). \<open>foldO\<close> is a \<open>range\<close> loop over such bodies.
\<close>

fun foldO :: "('a \<Rightarrow> 's \<Rightarrow> 's option) \<Rightarrow> 'a list \<Rightarrow> 's \<Rightarrow> 's option" where
  "foldO f [] s = Some s"
| "foldO f (x # xs) s = (case f x s of None \<Rightarrow> None | Some t \<Rightarrow> foldO f xs t)"

lemma foldO_append:
  "foldO f (xs @ ys) s = (case foldO f xs s of None \<Rightarrow> None | Some t \<Rightarrow> foldO f ys t)"
  by (induction xs arbitrary: s) (auto split: option.splits)

lemma foldO_inv:
  assumes "I s" and "\<And>x s. x \<in> set xs \<Longrightarrow> I s \<Longrightarrow> \<exists>t. f x s = Some t \<and> I t"
  shows "\<exists>t. foldO f xs s = Some t \<and> I t"
  using assms
proof (induction xs arbitrary: s)
  case Nil
  then show ?case by simp
next
  case (Cons x xs)
  from Cons.prems(2) [of x s] Cons.prems(1) obtain t where t: "f x s = Some t" "I t" by auto
  with Cons.IH [of t] Cons.prems(2) show ?case by auto
qed

lemma foldO_preserves:
  assumes "foldO f xs s = Some t" and "I s"
    and "\<And>x s t. x \<in> set xs \<Longrightarrow> I s \<Longrightarrow> f x s = Some t \<Longrightarrow> I t"
  shows "I t"
  using assms
proof (induction xs arbitrary: s)
  case Nil
  then show ?case by simp
next
  case (Cons x xs)
  then obtain u where u: "f x s = Some u" "foldO f xs u = Some t"
    by (auto split: option.splits)
  show ?case
    by (rule Cons.IH [OF u(2)]) (use Cons.prems u in auto)
qed

section \<open>Reachable states\<close>

inductive reach :: "('s \<Rightarrow> bool) \<Rightarrow> ('s \<Rightarrow> 's \<Rightarrow> bool) \<Rightarrow> 's \<Rightarrow> bool"
  for start :: "'s \<Rightarrow> bool" and step :: "'s \<Rightarrow> 's \<Rightarrow> bool"
  where
    reach_start: "start s \<Longrightarrow> reach start step s"
  | reach_step: "reach start step s \<Longrightarrow> step s t \<Longrightarrow> reach start step t"

locale invariant_system =
  fixes start :: "'s \<Rightarrow> bool" and step :: "'s \<Rightarrow> 's \<Rightarrow> bool" and inv :: "'s \<Rightarrow> bool"
  assumes inv_start: "start s \<Longrightarrow> inv s"
    and inv_step: "inv s \<Longrightarrow> step s t \<Longrightarrow> inv t"
begin

lemma reach_inv: "reach start step s \<Longrightarrow> inv s"
  by (induction rule: reach.induct) (auto intro: inv_start inv_step)

end

end
