(* ===== verification/Go_Strings.thy ===== *)
theory Go_Strings
  imports Gotst_Prelude
begin

text \<open>
  The string functions of Go's standard library that the program uses, on byte strings
  (\<open>string\<close> is \<open>char list\<close>, one \<open>char\<close> a byte): \<open>strings.HasPrefix\<close>, \<open>CutPrefix\<close>, \<open>Cut\<close>,
  \<open>Split\<close>, \<open>Fields\<close>, \<open>Join\<close>, \<open>TrimSpace\<close>, decimal formatting, \<open>strconv.Quote\<close> (\<open>%q\<close>) and
  \<open>encoding/hex\<close>. The Unicode classes are the ASCII ones: white space is the six ASCII
  characters, and \<open>Quote\<close> writes every byte from 0x80 as \<open>\xNN\<close>, which is what Go does with a
  byte that is not part of a valid UTF-8 sequence.
\<close>

section \<open>Prefixes and cutting\<close>

abbreviation nl :: char where "nl \<equiv> CHR 0x0A"
abbreviation nul :: char where "nul \<equiv> CHR 0x00"

definition HasPrefix :: "string \<Rightarrow> string \<Rightarrow> bool" where
  "HasPrefix s p = (take (length p) s = p)"

definition HasSuffix :: "string \<Rightarrow> string \<Rightarrow> bool" where
  "HasSuffix s p = HasPrefix (rev s) (rev p)"

definition CutPrefix :: "string \<Rightarrow> string \<Rightarrow> string option" where
  "CutPrefix s p = (if HasPrefix s p then Some (drop (length p) s) else None)"

definition TrimPrefix :: "string \<Rightarrow> string \<Rightarrow> string" where
  "TrimPrefix s p = (case CutPrefix s p of None \<Rightarrow> s | Some r \<Rightarrow> r)"

lemma HasPrefix_iff: "HasPrefix s p \<longleftrightarrow> (\<exists>r. s = p @ r)"
  by (auto simp: HasPrefix_def) (metis append_take_drop_id)

lemma HasPrefix_append [simp]: "HasPrefix (p @ r) p"
  by (simp add: HasPrefix_def)

lemma HasPrefix_trans: "HasPrefix s (p @ q) \<Longrightarrow> HasPrefix s p"
  by (auto simp: HasPrefix_iff)

lemma CutPrefix_Some_iff: "CutPrefix s p = Some r \<longleftrightarrow> s = p @ r"
  by (auto simp: CutPrefix_def HasPrefix_def) (metis append_take_drop_id)

text \<open>\<open>strings.Cut\<close> at a one-byte separator: \<open>None\<close> when the separator does not occur.\<close>

fun CutByte :: "char \<Rightarrow> string \<Rightarrow> (string \<times> string) option" where
  "CutByte c [] = None"
| "CutByte c (x # xs) =
     (if x = c then Some ([], xs)
      else map_option (\<lambda>(a, b). (x # a, b)) (CutByte c xs))"

lemma CutByte_None_iff: "CutByte c s = None \<longleftrightarrow> c \<notin> set s"
  by (induction s) auto

lemma CutByte_Some_iff: "CutByte c s = Some (a, b) \<longleftrightarrow> s = a @ c # b \<and> c \<notin> set a"
proof (induction s arbitrary: a)
  case Nil
  then show ?case by simp
next
  case (Cons x xs)
  note IH = Cons.IH
  show ?case
  proof (cases a)
    case Nil
    then show ?thesis by auto
  next
    case (Cons y a')
    have "map_option (\<lambda>(a, b). (x # a, b)) (CutByte c xs) = Some (y # a', b)
        \<longleftrightarrow> x = y \<and> CutByte c xs = Some (a', b)"
      by (cases "CutByte c xs") auto
    with Cons show ?thesis by (auto simp: IH)
  qed
qed

text \<open>Cutting at the last occurrence (\<open>strings.LastIndexByte\<close> and the two slices around it).\<close>

definition CutLast :: "char \<Rightarrow> string \<Rightarrow> (string \<times> string) option" where
  "CutLast c s = map_option (\<lambda>(a, b). (rev b, rev a)) (CutByte c (rev s))"

lemma CutLast_Some_iff: "CutLast c s = Some (a, b) \<longleftrightarrow> s = a @ c # b \<and> c \<notin> set b"
proof -
  have "CutLast c s = Some (a, b) \<longleftrightarrow> CutByte c (rev s) = Some (rev b, rev a)"
    by (auto simp: CutLast_def)
  also have "\<dots> \<longleftrightarrow> s = a @ c # b \<and> c \<notin> set b"
    by (auto simp: CutByte_Some_iff rev_swap)
  finally show ?thesis .
qed

lemma CutLast_None_iff: "CutLast c s = None \<longleftrightarrow> c \<notin> set s"
  by (simp add: CutLast_def CutByte_None_iff)

section \<open>Splitting and joining\<close>

fun SplitByte :: "char \<Rightarrow> string \<Rightarrow> string list" where
  "SplitByte c [] = [[]]"
| "SplitByte c (x # xs) =
     (if x = c then [] # SplitByte c xs
      else (case SplitByte c xs of [] \<Rightarrow> [[x]] | y # ys \<Rightarrow> (x # y) # ys))"

fun Join :: "string \<Rightarrow> string list \<Rightarrow> string" where
  "Join sep [] = []"
| "Join sep [x] = x"
| "Join sep (x # y # xs) = x @ sep @ Join sep (y # xs)"

lemma SplitByte_not_Nil [simp]: "SplitByte c s \<noteq> []"
  by (induction s) (auto split: list.splits)

lemma Join_SplitByte: "Join [c] (SplitByte c s) = s"
proof (induction s)
  case Nil
  then show ?case by simp
next
  case (Cons x xs)
  then show ?case
    by (cases "SplitByte c xs"; cases "tl (SplitByte c xs)") auto
qed

lemma SplitByte_no_sep: "\<forall>w \<in> set (SplitByte c s). c \<notin> set w"
  by (induction s) (auto split: list.splits)

definition isSpace :: "char \<Rightarrow> bool" where
  "isSpace c \<longleftrightarrow> c \<in> {CHR 0x09, CHR 0x0A, CHR 0x0B, CHR 0x0C, CHR 0x0D, CHR 0x20}"

text \<open>\<open>strings.FieldsFunc\<close>: the maximal runs of bytes that do not satisfy \<open>p\<close>.\<close>

function FieldsFunc :: "(char \<Rightarrow> bool) \<Rightarrow> string \<Rightarrow> string list" where
  "FieldsFunc p s =
     (case dropWhile p s of
        [] \<Rightarrow> []
      | c # cs \<Rightarrow> (c # takeWhile (Not \<circ> p) cs) # FieldsFunc p (dropWhile (Not \<circ> p) cs))"
  by pat_completeness auto
termination
proof (relation "measure (\<lambda>(p, s). length s)")
  fix p :: "char \<Rightarrow> bool" and s c cs
  assume "dropWhile p s = c # cs"
  then have "length cs < length s"
    using length_dropWhile_le [of p s] by simp
  then show "((p, dropWhile (Not \<circ> p) cs), p, s) \<in> measure (\<lambda>(p, s). length s)"
    using length_dropWhile_le [of "Not \<circ> p" cs] by simp
qed simp

declare FieldsFunc.simps [simp del]

abbreviation Fields :: "string \<Rightarrow> string list" where
  "Fields \<equiv> FieldsFunc isSpace"

lemma FieldsFunc_words: "\<forall>w \<in> set (FieldsFunc p s). w \<noteq> [] \<and> (\<forall>c \<in> set w. \<not> p c)"
proof (induction p s rule: FieldsFunc.induct)
  case (1 p s)
  show ?case
  proof (cases "dropWhile p s")
    case Nil
    have "FieldsFunc p s = []" by (subst FieldsFunc.simps) (simp only: Nil list.case)
    then show ?thesis by simp
  next
    case (Cons c cs)
    then have "\<not> p c" by (metis hd_dropWhile list.distinct(1) list.sel(1))
    moreover have eq: "FieldsFunc p s = (c # takeWhile (Not \<circ> p) cs) # FieldsFunc p (dropWhile (Not \<circ> p) cs)"
      by (subst FieldsFunc.simps) (simp only: Cons list.case)
    moreover have "\<forall>d \<in> set (takeWhile (Not \<circ> p) cs). \<not> p d"
      by (auto dest: set_takeWhileD)
    moreover have "\<forall>w \<in> set (FieldsFunc p (dropWhile (Not \<circ> p) cs)). w \<noteq> [] \<and> (\<forall>c \<in> set w. \<not> p c)"
      by (rule 1 [OF Cons])
    ultimately show ?thesis unfolding eq by (metis list.distinct(1) set_ConsD)
  qed
qed

lemma FieldsFunc_single:
  assumes "w \<noteq> []" and "\<forall>c \<in> set w. \<not> p c"
  shows "FieldsFunc p w = [w]"
proof -
  from assms(1) obtain c cs where w: "w = c # cs" by (cases w) auto
  with assms(2) have "dropWhile p w = c # cs" and "takeWhile (Not \<circ> p) cs = cs"
    and "dropWhile (Not \<circ> p) cs = []"
    by (auto simp: takeWhile_eq_all_conv)
  moreover have "FieldsFunc p [] = []" by (subst FieldsFunc.simps) simp
  ultimately show ?thesis by (subst FieldsFunc.simps) (simp only: list.case w)
qed

definition TrimSpace :: "string \<Rightarrow> string" where
  "TrimSpace s = rev (dropWhile isSpace (rev (dropWhile isSpace s)))"

section \<open>Numbers\<close>

definition digitChar :: "nat \<Rightarrow> char" where
  "digitChar n = char_of (48 + n)"

fun showNat :: "nat \<Rightarrow> string" where
  "showNat n = (if n < 10 then [digitChar n] else showNat (n div 10) @ [digitChar (n mod 10)])"

declare showNat.simps [simp del]

definition showInt :: "int \<Rightarrow> string" where
  "showInt i = (if i < 0 then ''-'' @ showNat (nat (- i)) else showNat (nat i))"

definition readNat :: "string \<Rightarrow> nat" where
  "readNat s = foldl (\<lambda>n c. 10 * n + (of_char c - 48)) 0 s"

lemma of_char_digitChar: "n < 10 \<Longrightarrow> of_char (digitChar n) = 48 + n"
  by (simp add: digitChar_def)

lemma readNat_showNat [simp]: "readNat (showNat n) = n"
proof (induction n rule: showNat.induct)
  case (1 n)
  show ?case
  proof (cases "n < 10")
    case True
    then show ?thesis
      by (simp add: showNat.simps [of n] readNat_def of_char_digitChar)
  next
    case False
    with 1 have "readNat (showNat (n div 10)) = n div 10" by simp
    with False show ?thesis
      by (simp add: showNat.simps [of n] readNat_def of_char_digitChar)
  qed
qed

lemma showNat_inject [simp]: "showNat m = showNat n \<longleftrightarrow> m = n"
  by (metis readNat_showNat)

lemma showNat_digits: "c \<in> set (showNat n) \<Longrightarrow> 48 \<le> (of_char c :: nat) \<and> (of_char c :: nat) < 58"
proof (induction n rule: showNat.induct)
  case (1 n)
  then show ?case
    by (cases "n < 10") (auto simp: showNat.simps [of n] of_char_digitChar)
qed

lemma showNat_not_Nil [simp]: "showNat n \<noteq> []"
  by (subst showNat.simps) simp

lemma showNat_no_sign: "showNat n \<noteq> CHR ''-'' # s"
  using showNat_digits [of "CHR ''-''" n] by force

lemma showInt_inject [simp]: "showInt a = showInt b \<longleftrightarrow> a = b"
  using showNat_no_sign by (auto simp: showInt_def split: if_splits) metis+

text \<open>\<open>time.Duration.String\<close>: nanoseconds as \<open>1h2m3.5s\<close>, \<open>1.5ms\<close>, \<open>0s\<close>.\<close>

definition fracString :: "nat \<Rightarrow> nat \<Rightarrow> string" where
  "fracString prec v =
     (let digits = showNat (10 ^ prec + v mod 10 ^ prec);
          kept = rev (dropWhile (\<lambda>c. c = CHR ''0'') (rev (tl digits)))
      in if kept = [] then [] else CHR ''.'' # kept)"

definition durationString :: "duration \<Rightarrow> string" where
  "durationString d =
     (let u = nat \<bar>d\<bar>;
          secs = u div 1000000000;
          mins = secs div 60;
          hours = mins div 60;
          body =
            (if u = 0 then ''0s''
             else if u < 1000 then showNat u @ ''ns''
             else if u < 1000000 then showNat (u div 1000) @ fracString 3 u @ [CHR 0xC2, CHR 0xB5, CHR ''s'']
             else if u < 1000000000 then showNat (u div 1000000) @ fracString 6 u @ ''ms''
             else (if hours = 0 then [] else showNat hours @ ''h'')
                  @ (if mins = 0 then [] else showNat (mins mod 60) @ ''m'')
                  @ showNat (secs mod 60) @ fracString 9 u @ ''s'')
      in if d < 0 then CHR ''-'' # body else body)"

section \<open>Quoting\<close>

definition hexDigit :: "nat \<Rightarrow> char" where
  "hexDigit n = (if n < 10 then char_of (48 + n) else char_of (87 + n))"

definition quoteByte :: "char \<Rightarrow> string" where
  "quoteByte c =
     (if c = CHR 0x22 \<or> c = CHR 0x5C then [CHR 0x5C, c]
      else if 32 \<le> (of_char c :: nat) \<and> (of_char c :: nat) < 127 then [c]
      else if c = CHR 0x07 then [CHR 0x5C, CHR ''a'']
      else if c = CHR 0x08 then [CHR 0x5C, CHR ''b'']
      else if c = CHR 0x0C then [CHR 0x5C, CHR ''f'']
      else if c = CHR 0x0A then [CHR 0x5C, CHR ''n'']
      else if c = CHR 0x0D then [CHR 0x5C, CHR ''r'']
      else if c = CHR 0x09 then [CHR 0x5C, CHR ''t'']
      else if c = CHR 0x0B then [CHR 0x5C, CHR ''v'']
      else [CHR 0x5C, CHR ''x'', hexDigit (of_char c div 16), hexDigit (of_char c mod 16)])"

definition Quote :: "string \<Rightarrow> string" where
  "Quote s = CHR 0x22 # concat (map quoteByte s) @ [CHR 0x22]"

text \<open>
  The scanner that inverts one quoted byte; it makes \<open>Quote\<close> a uniquely decodable prefix code.
\<close>

definition hexVal :: "char \<Rightarrow> nat" where
  "hexVal c = (if of_char c < (97::nat) then of_char c - 48 else of_char c - 87)"

fun unquoteByte :: "string \<Rightarrow> (char \<times> string) option" where
  "unquoteByte [] = None"
| "unquoteByte (c # cs) =
     (if c = CHR 0x22 then None
      else if c \<noteq> CHR 0x5C then Some (c, cs)
      else (case cs of
              [] \<Rightarrow> None
            | d # ds \<Rightarrow>
                if d = CHR ''x''
                then (case ds of h # l # r \<Rightarrow> Some (char_of (hexVal h * 16 + hexVal l), r) | _ \<Rightarrow> None)
                else Some (if d = CHR ''a'' then CHR 0x07 else if d = CHR ''b'' then CHR 0x08
                           else if d = CHR ''f'' then CHR 0x0C else if d = CHR ''n'' then CHR 0x0A
                           else if d = CHR ''r'' then CHR 0x0D else if d = CHR ''t'' then CHR 0x09
                           else if d = CHR ''v'' then CHR 0x0B else d, ds)))"

lemma hexVal_hexDigit: "n < 16 \<Longrightarrow> hexVal (hexDigit n) = n"
  by (auto simp: hexVal_def hexDigit_def)

lemma unquoteByte_quoteByte: "unquoteByte (quoteByte c @ r) = Some (c, r)"
proof -
  have n: "(of_char c :: nat) < 256" by simp
  then have "(of_char c :: nat) div 16 < 16" by (intro less_mult_imp_div_less) simp
  then have "char_of (hexVal (hexDigit (of_char c div 16)) * 16 + hexVal (hexDigit (of_char c mod 16))) = c"
    by (simp add: hexVal_hexDigit mult.commute)
  then show ?thesis by (simp add: quoteByte_def)
qed

lemma quoteByte_not_quote: "\<exists>d ds. quoteByte c = d # ds \<and> d \<noteq> CHR 0x22"
  by (auto simp: quoteByte_def)

lemma Quote_prefix_free: "Quote s @ r = Quote t @ r' \<Longrightarrow> s = t \<and> r = r'"
proof -
  have aux: "concat (map quoteByte s) @ CHR 0x22 # r = concat (map quoteByte t) @ CHR 0x22 # r'
    \<Longrightarrow> s = t \<and> r = r'" for s t
  proof (induction s arbitrary: t)
    case Nil
    then show ?case
      using quoteByte_not_quote [of "hd t"] by (cases t) auto
  next
    case (Cons a s)
    show ?case
    proof (cases t)
      case Nil
      with Cons.prems show ?thesis using quoteByte_not_quote [of a] by auto
    next
      case (Cons b t')
      have "unquoteByte (quoteByte a @ concat (map quoteByte s) @ CHR 0x22 # r)
          = unquoteByte (quoteByte b @ concat (map quoteByte t') @ CHR 0x22 # r')"
        using Cons.prems Cons by simp
      with Cons Cons.IH [of t'] show ?thesis by (simp add: unquoteByte_quoteByte)
    qed
  qed
  assume "Quote s @ r = Quote t @ r'"
  then show ?thesis by (intro aux) (simp add: Quote_def)
qed

lemma Quote_inject [simp]: "Quote s = Quote t \<longleftrightarrow> s = t"
  using Quote_prefix_free [of s "[]" t "[]"] by auto

section \<open>Hexadecimal\<close>

definition hexEncode :: "string \<Rightarrow> string" where
  "hexEncode s = concat (map (\<lambda>c. [hexDigit (of_char c div 16), hexDigit (of_char c mod 16)]) s)"

definition isHexDigit :: "char \<Rightarrow> bool" where
  "isHexDigit c \<longleftrightarrow> (48 \<le> (of_char c :: nat) \<and> (of_char c :: nat) < 58)
     \<or> (97 \<le> (of_char c :: nat) \<and> (of_char c :: nat) < 103)
     \<or> (65 \<le> (of_char c :: nat) \<and> (of_char c :: nat) < 71)"

definition hexNibble :: "char \<Rightarrow> nat" where
  "hexNibble c = (if of_char c < (58::nat) then of_char c - 48 else if of_char c < (71::nat) then of_char c - 55 else of_char c - 87)"

text \<open>\<open>hex.DecodeString\<close>.\<close>

fun hexDecode :: "string \<Rightarrow> string option" where
  "hexDecode [] = Some []"
| "hexDecode [c] = None"
| "hexDecode (c # d # s) =
     (if isHexDigit c \<and> isHexDigit d
      then map_option (Cons (char_of (16 * hexNibble c + hexNibble d))) (hexDecode s) else None)"

lemma length_hexEncode [simp]: "length (hexEncode s) = 2 * length s"
  by (induction s) (auto simp: hexEncode_def)

section \<open>Runes\<close>

text \<open>
  \<open>range\<close> over a string decodes UTF-8. \<open>decodeRune\<close> gives the code point and its width in bytes;
  a byte that starts no valid encoding is U+FFFD of width 1.
\<close>

definition byteAt :: "string \<Rightarrow> nat \<Rightarrow> nat" where
  "byteAt s i = (if i < length s then of_char (s ! i) else 0)"

definition inRange :: "nat \<Rightarrow> nat \<Rightarrow> nat \<Rightarrow> bool" where
  "inRange lo hi b \<longleftrightarrow> lo \<le> b \<and> b \<le> hi"

definition decodeRune :: "string \<Rightarrow> nat \<times> nat" where
  "decodeRune s =
     (let b0 = byteAt s 0; b1 = byteAt s 1; b2 = byteAt s 2; b3 = byteAt s 3;
          cont = inRange 0x80 0xBF
      in if b0 < 0x80 then (b0, 1)
         else if inRange 0xC2 0xDF b0 \<and> cont b1 then ((b0 - 0xC0) * 64 + (b1 - 0x80), 2)
         else if ((b0 = 0xE0 \<and> inRange 0xA0 0xBF b1) \<or> (b0 = 0xED \<and> inRange 0x80 0x9F b1)
                  \<or> ((inRange 0xE1 0xEC b0 \<or> inRange 0xEE 0xEF b0) \<and> cont b1)) \<and> cont b2
           then ((b0 - 0xE0) * 4096 + (b1 - 0x80) * 64 + (b2 - 0x80), 3)
         else if ((b0 = 0xF0 \<and> inRange 0x90 0xBF b1) \<or> (b0 = 0xF4 \<and> inRange 0x80 0x8F b1)
                  \<or> (inRange 0xF1 0xF3 b0 \<and> cont b1)) \<and> cont b2 \<and> cont b3
           then ((b0 - 0xF0) * 262144 + (b1 - 0x80) * 4096 + (b2 - 0x80) * 64 + (b3 - 0x80), 4)
         else (0xFFFD, 1))"

lemma decodeRune_width: "1 \<le> snd (decodeRune s)"
  by (simp add: decodeRune_def Let_def)

function runes :: "string \<Rightarrow> nat list" where
  "runes [] = []"
| "runes (c # cs) = fst (decodeRune (c # cs)) # runes (drop (snd (decodeRune (c # cs)) - 1) cs)"
  by pat_completeness auto
termination
  by (relation "measure length") auto

lemma runes_not_Nil [simp]: "s \<noteq> [] \<Longrightarrow> runes s \<noteq> []"
  by (cases s) auto

end
