(* ===== verification/Go_Paths.thy ===== *)
theory Go_Paths
  imports Go_Strings
begin

text \<open>
  The functions of \<open>path/filepath\<close> on Unix that the program uses: \<open>Clean\<close>, \<open>Join\<close>, \<open>IsAbs\<close>,
  \<open>Dir\<close>, \<open>Base\<close> and \<open>Rel\<close>.
\<close>

section \<open>Cleaning\<close>

abbreviation slash :: char where "slash \<equiv> CHR ''/''"

definition pathIsAbs :: "gopath \<Rightarrow> bool" where
  "pathIsAbs p \<longleftrightarrow> p \<noteq> [] \<and> hd p = slash"

text \<open>
  The stack of cleaned components after one more component: \<open>.\<close> and the empty component are
  dropped, \<open>..\<close> removes the component before it, and at the root of an absolute path it
  disappears.
\<close>

definition pushComp :: "bool \<Rightarrow> string \<Rightarrow> string list \<Rightarrow> string list" where
  "pushComp rooted c st =
     (if c = [] \<or> c = ''.'' then st
      else if c = ''..''
        then (if st \<noteq> [] \<and> last st \<noteq> ''..'' then butlast st
              else if rooted then st else st @ [c])
        else st @ [c])"

definition cleanComps :: "gopath \<Rightarrow> string list" where
  "cleanComps p = fold (pushComp (pathIsAbs p)) (SplitByte slash p) []"

definition pathClean :: "gopath \<Rightarrow> gopath" where
  "pathClean p =
     (let body = Join ''/'' (cleanComps p)
      in if pathIsAbs p then slash # body else if body = [] then ''.'' else body)"

definition pathJoin :: "string list \<Rightarrow> gopath" where
  "pathJoin elems =
     (let es = filter (\<lambda>e. e \<noteq> []) elems in if es = [] then [] else pathClean (Join ''/'' es))"

section \<open>Parts of a path\<close>

text \<open>\<open>filepath.Dir\<close> on cleaned paths, and \<open>filepath.Base\<close>.\<close>

definition pathDir :: "gopath \<Rightarrow> gopath" where
  "pathDir p = (case CutLast slash p of
                  None \<Rightarrow> ''.'' | Some (a, _) \<Rightarrow> if a = [] then ''/'' else a)"

definition pathBase :: "gopath \<Rightarrow> string" where
  "pathBase p =
     (if p = [] then ''.''
      else let q = rev (dropWhile (\<lambda>c. c = slash) (rev p))
           in if q = [] then ''/''
              else (case CutLast slash q of None \<Rightarrow> q | Some (_, b) \<Rightarrow> b))"

definition pathRank :: "gopath \<Rightarrow> nat" where
  "pathRank p = (if slash \<in> set p then 2 + length p else if p = ''.'' then 0 else 1)"

lemma pathDir_decreases: "pathDir p \<noteq> p \<Longrightarrow> pathRank (pathDir p) < pathRank p"
proof (cases "CutLast slash p")
  case None
  then have "slash \<notin> set p" by (simp add: CutLast_None_iff)
  moreover assume "pathDir p \<noteq> p"
  ultimately show ?thesis using None by (auto simp: pathDir_def pathRank_def)
next
  case (Some ab)
  then obtain a b where ab: "CutLast slash p = Some (a, b)" by (cases ab) auto
  then have "p = a @ slash # b" by (simp add: CutLast_Some_iff)
  moreover assume "pathDir p \<noteq> p"
  ultimately show ?thesis using ab by (auto simp: pathDir_def pathRank_def)
qed

section \<open>Relative paths\<close>

text \<open>
  The components left of two lists after their common prefix, and \<open>filepath.Rel\<close>: \<open>None\<close> is its
  error (one path is absolute and the other is not, or the base goes up from an unknown place).
\<close>

fun dropCommon :: "string list \<Rightarrow> string list \<Rightarrow> string list \<times> string list" where
  "dropCommon (x # xs) (y # ys) = (if x = y then dropCommon xs ys else (x # xs, y # ys))"
| "dropCommon xs ys = (xs, ys)"

definition pathRel :: "gopath \<Rightarrow> gopath \<Rightarrow> gopath option" where
  "pathRel base targ =
     (if pathIsAbs base \<noteq> pathIsAbs targ then None
      else let (b, t) = dropCommon (cleanComps base) (cleanComps targ)
           in if b \<noteq> [] \<and> hd b = ''..'' then None
              else if b = [] \<and> t = [] then Some ''.''
              else Some (Join ''/'' (replicate (length b) ''..'' @ t)))"

lemma dropCommon_prefix: "fst (dropCommon xs ys) = [] \<longleftrightarrow> prefix xs ys"
  by (induction xs ys rule: dropCommon.induct) (auto simp: prefix_def)

lemma dropCommon_suffix: "prefix xs ys \<Longrightarrow> ys = xs @ snd (dropCommon xs ys)"
  by (induction xs ys rule: dropCommon.induct) auto

lemma set_dropCommon:
  "set (fst (dropCommon xs ys)) \<subseteq> set xs \<and> set (snd (dropCommon xs ys)) \<subseteq> set ys"
  by (induction xs ys rule: dropCommon.induct) auto

lemma set_pushComp: "set (pushComp r c st) \<subseteq> set st \<union> (if c = [] \<or> (c = ''..'' \<and> r) then {} else {c})"
proof -
  have "set (butlast st) \<subseteq> set st" by (meson in_set_butlastD subsetI)
  then show ?thesis unfolding pushComp_def by (simp split: if_split) blast
qed

lemma fold_pushComp_no_dot: "''.'' \<notin> set st \<Longrightarrow> ''.'' \<notin> set (fold (pushComp r) cs st)"
proof (induction cs arbitrary: st)
  case Nil
  then show ?case by simp
next
  case (Cons c cs)
  have "''.'' \<notin> set (pushComp r c st)"
    using Cons.prems by (auto simp: pushComp_def dest: in_set_butlastD)
  then show ?case using Cons.IH by simp
qed

lemma cleanComps_no_dot: "''.'' \<notin> set (cleanComps p)"
  unfolding cleanComps_def by (rule fold_pushComp_no_dot) simp

lemma pushComp_rooted_ok: "''..'' \<notin> set st \<Longrightarrow> ''..'' \<notin> set (pushComp True c st)"
  using set_pushComp [of True c st] by (cases "c = ''..''") (auto split: if_splits)

lemma fold_pushComp_rooted_ok: "''..'' \<notin> set st \<Longrightarrow> ''..'' \<notin> set (fold (pushComp True) cs st)"
  by (induction cs arbitrary: st) (simp_all add: pushComp_rooted_ok)

lemma cleanComps_rooted: "pathIsAbs p \<Longrightarrow> ''..'' \<notin> set (cleanComps p)"
  using fold_pushComp_rooted_ok [of "[]"] by (simp add: cleanComps_def)

lemma pushComp_parts:
  "\<forall>c \<in> set st. c \<noteq> [] \<and> slash \<notin> set c \<Longrightarrow> slash \<notin> set c
    \<Longrightarrow> \<forall>c \<in> set (pushComp r c st). c \<noteq> [] \<and> slash \<notin> set c"
  using set_pushComp [of r c st] by (cases "c = []") (auto split: if_splits)

lemma fold_pushComp_parts:
  "\<forall>c \<in> set st. c \<noteq> [] \<and> slash \<notin> set c \<Longrightarrow> \<forall>c \<in> set cs. slash \<notin> set c
    \<Longrightarrow> \<forall>c \<in> set (fold (pushComp r) cs st). c \<noteq> [] \<and> slash \<notin> set c"
proof (induction cs arbitrary: st)
  case Nil
  then show ?case by simp
next
  case (Cons c cs)
  have "\<forall>d \<in> set (pushComp r c st). d \<noteq> [] \<and> slash \<notin> set d"
    by (rule pushComp_parts) (use Cons.prems in auto)
  moreover have "\<forall>d \<in> set cs. slash \<notin> set d" using Cons.prems(2) by simp
  ultimately have "\<forall>d \<in> set (fold (pushComp r) cs (pushComp r c st)). d \<noteq> [] \<and> slash \<notin> set d"
    by (rule Cons.IH)
  then show ?case by (metis comp_apply fold_Cons)
qed

lemma cleanComps_parts: "\<forall>c \<in> set (cleanComps p). c \<noteq> [] \<and> slash \<notin> set c"
  unfolding cleanComps_def by (rule fold_pushComp_parts) (use SplitByte_no_sep in auto)

lemma Join_head:
  "c \<noteq> [] \<Longrightarrow> \<exists>r. Join ''/'' (c # cs) = c @ r \<and> (cs = [] \<longrightarrow> r = []) \<and> (cs \<noteq> [] \<longrightarrow> (\<exists>r'. r = slash # r'))"
  by (cases cs) auto

lemma SplitByte_single: "sep \<notin> set l \<Longrightarrow> SplitByte sep l = [l]"
  by (induction l) auto

lemma SplitByte_append: "SplitByte sep (a @ sep # l) = SplitByte sep a @ SplitByte sep l"
proof (induction a)
  case Nil
  then show ?case by simp
next
  case (Cons x xs)
  then show ?case using SplitByte_not_Nil [of sep xs]
    by (cases "SplitByte sep xs") auto
qed

lemma SplitByte_Join:
  "cs \<noteq> [] \<Longrightarrow> \<forall>c \<in> set cs. slash \<notin> set c \<Longrightarrow> SplitByte slash (Join ''/'' cs) = cs"
proof (induction cs)
  case (Cons c cs)
  show ?case
  proof (cases cs)
    case Nil
    then show ?thesis using Cons.prems SplitByte_single by simp
  next
    case (Cons d ds)
    then show ?thesis using Cons.IH Cons.prems SplitByte_append [of slash c "Join ''/'' cs"] SplitByte_single
      by simp
  qed
qed simp

lemma Join_inject:
  assumes "\<forall>c \<in> set t. c \<noteq> [] \<and> slash \<notin> set c" and "\<forall>c \<in> set t'. c \<noteq> [] \<and> slash \<notin> set c"
  shows "Join ''/'' t = Join ''/'' t' \<longleftrightarrow> t = t'"
proof -
  have empty: "Join ''/'' t = [] \<longleftrightarrow> t = []" if "\<forall>c \<in> set t. c \<noteq> [] \<and> slash \<notin> set c" for t
    using that by (cases t rule: remdups_adj.cases) auto
  show ?thesis
    using empty [OF assms(1)] empty [OF assms(2)] SplitByte_Join [of t] SplitByte_Join [of t'] assms
    by (cases "t = [] \<or> t' = []") metis+
qed

lemma cleanComps_append:
  assumes "a \<noteq> []" and "slash \<notin> set l" and "l \<notin> {[], ''.'', ''..''}"
  shows "cleanComps (a @ slash # l) = cleanComps a @ [l]"
proof -
  have "pathIsAbs (a @ slash # l) = pathIsAbs a" using assms(1) by (auto simp: pathIsAbs_def)
  then show ?thesis
    using assms SplitByte_single [OF assms(2)]
    by (simp add: cleanComps_def SplitByte_append pushComp_def)
qed

lemma cleanComps_single:
  assumes "slash \<notin> set l" and "l \<notin> {[], ''.'', ''..''}"
  shows "cleanComps l = [l]"
  using assms SplitByte_single [OF assms(1)] by (simp add: cleanComps_def pushComp_def)

section \<open>The last component\<close>

definition lastComp :: "gopath \<Rightarrow> string" where
  "lastComp p = rev (takeWhile (\<lambda>c. c \<noteq> slash) (rev p))"

lemma lastComp_append: "slash \<notin> set l \<Longrightarrow> lastComp (x @ slash # l) = l"
proof -
  assume "slash \<notin> set l"
  then have "takeWhile (\<lambda>c. c \<noteq> slash) (rev l @ slash # rev x) = rev l"
    by (subst takeWhile_append2) auto
  then show ?thesis by (simp add: lastComp_def)
qed

lemma lastComp_single: "slash \<notin> set l \<Longrightarrow> lastComp l = l"
proof -
  assume "slash \<notin> set l"
  then have "takeWhile (\<lambda>c. c \<noteq> slash) (rev l) = rev l" by (subst takeWhile_eq_all_conv) auto
  then show ?thesis by (simp only: lastComp_def rev_rev_ident)
qed

lemma Join_snoc: "cs \<noteq> [] \<Longrightarrow> Join ''/'' (cs @ [l]) = Join ''/'' cs @ slash # l"
proof (induction cs)
  case Nil
  then show ?case by simp
next
  case (Cons c cs)
  then show ?case by (cases cs) auto
qed

lemma lastComp_clean:
  assumes "cleanComps p = cs @ [l]" and "slash \<notin> set l" and "l \<noteq> []"
  shows "lastComp (pathClean p) = l"
proof (cases "cs = []")
  case True
  with assms have "pathClean p = (if pathIsAbs p then [] @ slash # l else l)"
    by (simp add: pathClean_def)
  with assms(2) show ?thesis by (metis lastComp_append lastComp_single)
next
  case False
  with assms have "pathClean p = (if pathIsAbs p then slash # Join ''/'' cs else Join ''/'' cs) @ slash # l"
    by (simp add: pathClean_def Join_snoc)
  with assms(2) show ?thesis by (metis lastComp_append)
qed

lemma lastComp_pathJoin:
  assumes "slash \<notin> set l" and "l \<notin> {[], ''.'', ''..''}"
  shows "lastComp (pathJoin (es @ [l])) = l"
proof -
  let ?es = "filter (\<lambda>e. e \<noteq> []) es"
  have pj: "pathJoin (es @ [l]) = pathClean (Join ''/'' (?es @ [l]))"
    using assms(2) by (simp add: pathJoin_def)
  have "\<exists>cs. cleanComps (Join ''/'' (?es @ [l])) = cs @ [l]"
  proof (cases "?es = []")
    case True
    then show ?thesis using cleanComps_single [OF assms] by (simp only: append_Nil Join.simps) blast
  next
    case False
    then obtain e r where e: "?es = e # r" by (cases ?es) auto
    then have "e \<in> set ?es" by (metis list.set_intros(1))
    then have "e \<noteq> []" by simp
    then have "Join ''/'' ?es \<noteq> []" using e by (cases r) simp_all
    with cleanComps_append [OF _ assms] show ?thesis by (metis Join_snoc False)
  qed
  then show ?thesis using pj lastComp_clean [OF _ assms(1)] assms(2) by auto
qed

end
