(* ===== verification/Profile.thy ===== *)
theory Profile
  imports Go_Paths
begin

text \<open>
  \<open>profile.go\<close>: the profiles of \<open>.gotst.yml\<close>, their merging, and the depth-first resolution of
  \<open>include\<close> lists with its memo table, its stack and its cycle check. \<open>time.ParseDuration\<close> and
  the YAML decoder are arguments of the definitions that call them. The recursion of \<open>visit\<close>
  runs on fuel; \<open>resolveProfile\<close> gives it one unit more than there are profiles, and
  \<open>resolveProfile_returns\<close> shows that this is always enough. The reference semantics is the
  inductive \<open>resolves\<close>, which knows no memo table and no cycle check.
\<close>

section \<open>Data\<close>

record rawProfile =
  raw_Include :: "string list"
  raw_Packages :: "string list"
  raw_ExcludePackages :: "string list"
  raw_Tags :: "string list"
  raw_TestFlags :: "string list"
  raw_Short :: "bool option"
  raw_Race :: "bool option"
  raw_Timeout :: "string option"

record profileFile =
  pf_Version :: int
  pf_Profiles :: "(string, rawProfile) gomap"

record runProfile =
  Name :: string
  Root :: gopath
  Packages :: "string list"
  ExcludePackages :: "string list"
  Tags :: "string list"
  TestFlags :: "string list"
  Short :: bool
  Race :: bool
  Timeout :: duration
  shortSet :: bool
  raceSet :: bool

record profileDefinitions =
  defs_path :: gopath
  defs_root :: gopath
  profiles :: "(string, rawProfile) gomap"
  implicit :: bool

datatype profileError =
    UnknownProfile string "string list"
  | IncludeCycle "string list"
  | InvalidTimeout string
  | TimeoutNotPositive duration
  | InProfile string profileError
  | InConfig gopath profileError
  | OsError string
  | YamlError string
  | MultipleDocuments
  | BadVersion int
  | NoProfiles

type_synonym parseDuration = "string \<Rightarrow> duration option"

definition zeroProfile :: runProfile where
  "zeroProfile = \<lparr>Name = [], Root = [], Packages = [], ExcludePackages = [], Tags = [], TestFlags = [],
     Short = False, Race = False, Timeout = 0, shortSet = False, raceSet = False\<rparr>"

definition emptyRaw :: rawProfile where
  "emptyRaw = \<lparr>raw_Include = [], raw_Packages = [], raw_ExcludePackages = [], raw_Tags = [],
     raw_TestFlags = [], raw_Short = None, raw_Race = None, raw_Timeout = None\<rparr>"

section \<open>Merging\<close>

definition appendUnique :: "string list \<Rightarrow> string list \<Rightarrow> string list" where
  "appendUnique dst values =
     foldl (\<lambda>d v. if v \<noteq> [] \<and> v \<notin> set d then d @ [v] else d) dst values"

definition mergeRunProfile :: "runProfile \<Rightarrow> runProfile \<Rightarrow> runProfile" where
  "mergeRunProfile dst src =
     (let d1 = dst\<lparr>Packages := appendUnique (Packages dst) (Packages src),
                   ExcludePackages := appendUnique (ExcludePackages dst) (ExcludePackages src),
                   Tags := appendUnique (Tags dst) (Tags src),
                   TestFlags := appendUnique (TestFlags dst) (TestFlags src)\<rparr>;
          d2 = (if shortSet src then d1\<lparr>Short := Short src, shortSet := True\<rparr> else d1);
          d3 = (if raceSet src then d2\<lparr>Race := Race src, raceSet := True\<rparr> else d2)
      in if Timeout src \<noteq> 0 then d3\<lparr>Timeout := Timeout src\<rparr> else d3)"

definition mergeRawProfile ::
  "parseDuration \<Rightarrow> runProfile \<Rightarrow> rawProfile \<Rightarrow> profileError + runProfile" where
  "mergeRawProfile parse dst src =
     (let d1 = dst\<lparr>Packages := appendUnique (Packages dst) (raw_Packages src),
                   ExcludePackages := appendUnique (ExcludePackages dst) (raw_ExcludePackages src),
                   Tags := appendUnique (Tags dst) (raw_Tags src),
                   TestFlags := appendUnique (TestFlags dst) (raw_TestFlags src)\<rparr>;
          d2 = (case raw_Short src of None \<Rightarrow> d1 | Some b \<Rightarrow> d1\<lparr>Short := b, shortSet := True\<rparr>);
          d3 = (case raw_Race src of None \<Rightarrow> d2 | Some b \<Rightarrow> d2\<lparr>Race := b, raceSet := True\<rparr>)
      in case raw_Timeout src of
           None \<Rightarrow> Inr d3
         | Some t \<Rightarrow>
             (case parse t of
                None \<Rightarrow> Inl (InvalidTimeout t)
              | Some d \<Rightarrow> if d \<le> 0 then Inl (TimeoutNotPositive d) else Inr (d3\<lparr>Timeout := d\<rparr>)))"

section \<open>Resolution\<close>

text \<open>The variables the closure \<open>visit\<close> shares with its caller.\<close>

record visitState =
  stack :: "string list"
  resolved :: "(string, runProfile) gomap"
  visiting :: "(string, bool) gomap"

fun visit :: "nat \<Rightarrow> parseDuration \<Rightarrow> (string, rawProfile) gomap \<Rightarrow> string \<Rightarrow> visitState
      \<Rightarrow> (profileError + runProfile \<times> visitState) option"
  and visitIncludes :: "nat \<Rightarrow> parseDuration \<Rightarrow> (string, rawProfile) gomap \<Rightarrow> string list
      \<Rightarrow> runProfile \<Rightarrow> visitState \<Rightarrow> (profileError + runProfile \<times> visitState) option"
  where
    "visit 0 parse profs cur st = None"
  | "visit (Suc n) parse profs cur st =
       (case map_of (resolved st) cur of
          Some p \<Rightarrow> Some (Inr (p, st))
        | None \<Rightarrow>
       (case map_of profs cur of
          None \<Rightarrow> Some (Inl (UnknownProfile cur (sortStrings (gokeys profs))))
        | Some raw \<Rightarrow>
       (if map_of (visiting st) cur = Some True
        then Some (Inl (IncludeCycle (dropWhile (\<lambda>x. x \<noteq> cur) (stack st) @ [cur])))
        else
       (case visitIncludes n parse profs (raw_Include raw) zeroProfile
               (st\<lparr>visiting := AList.update cur True (visiting st), stack := stack st @ [cur]\<rparr>) of
          None \<Rightarrow> None
        | Some (Inl e) \<Rightarrow> Some (Inl e)
        | Some (Inr (out, st')) \<Rightarrow>
       (case mergeRawProfile parse out raw of
          Inl e \<Rightarrow> Some (Inl (InProfile cur e))
        | Inr out' \<Rightarrow>
            Some (Inr (out', st'\<lparr>stack := butlast (stack st'),
                                 visiting := AList.update cur False (visiting st'),
                                 resolved := AList.update cur out' (resolved st')\<rparr>)))))))"
  | "visitIncludes n parse profs [] out st = Some (Inr (out, st))"
  | "visitIncludes n parse profs (inc # incs) out st =
       (case visit n parse profs inc st of
          None \<Rightarrow> None
        | Some (Inl e) \<Rightarrow> Some (Inl e)
        | Some (Inr (p, st')) \<Rightarrow> visitIncludes n parse profs incs (mergeRunProfile out p) st')"

definition resolveProfile ::
  "parseDuration \<Rightarrow> (string, rawProfile) gomap \<Rightarrow> string \<Rightarrow> (profileError + runProfile) option" where
  "resolveProfile parse profs name =
     map_option (map_sum id fst)
       (visit (Suc (length profs)) parse profs name \<lparr>stack = [], resolved = [], visiting = []\<rparr>)"

definition resolve :: "parseDuration \<Rightarrow> profileDefinitions \<Rightarrow> string \<Rightarrow> (profileError + runProfile) option" where
  "resolve parse d name0 =
     (let name = (if name0 = [] then ''default'' else name0)
      in case resolveProfile parse (profiles d) name of
           None \<Rightarrow> None
         | Some (Inl e) \<Rightarrow> Some (Inl (if defs_path d \<noteq> [] then InConfig (defs_path d) e else e))
         | Some (Inr r) \<Rightarrow>
             Some (Inr (r\<lparr>Name := name, Root := defs_root d,
                          Packages := (if Packages r = [] then [''./...''] else Packages r)\<rparr>)))"

section \<open>Finding and loading the configuration\<close>

text \<open>
  \<open>os.Stat\<close> answers with
  \<open>None\<close> (the file exists) or an error; \<open>''not exist''\<close> stands for \<open>os.ErrNotExist\<close>.
\<close>

definition ErrNotExist :: string where "ErrNotExist = ''not exist''"

definition profileConfigName :: string where "profileConfigName = ''.gotst.yml''"

function findProfileConfig :: "(gopath \<Rightarrow> string option) \<Rightarrow> gopath \<Rightarrow> string + gopath" where
  "findProfileConfig stat dir =
     (let path = pathJoin [dir, profileConfigName]
      in case stat path of
           None \<Rightarrow> Inr path
         | Some e \<Rightarrow>
             if e \<noteq> ErrNotExist then Inl e
             else let parent = pathDir dir
                  in if parent = dir then Inl ErrNotExist
                     else findProfileConfig stat parent)"
  by pat_completeness auto
termination
  by (relation "measure (\<lambda>(stat, dir). pathRank dir)")
    (auto simp: pathDir_decreases)

declare findProfileConfig.simps [simp del]

text \<open>What the YAML decoder returned for the first and for a second document.\<close>

datatype yamlNext = YamlEOF | YamlMore | YamlBad string

definition loadProfileDefinitions ::
  "(gopath \<Rightarrow> string option) \<Rightarrow> gopath \<Rightarrow> (gopath \<Rightarrow> string + gopath)
    \<Rightarrow> (gopath \<Rightarrow> string + ((string + profileFile) \<times> yamlNext))
    \<Rightarrow> gopath \<Rightarrow> profileError + profileDefinitions" where
  "loadProfileDefinitions stat wd absPath openYaml configPath =
     (let load = (\<lambda>cp.
        case absPath cp of
          Inl e \<Rightarrow> Inl (OsError e)
        | Inr absConfig \<Rightarrow>
            (case openYaml absConfig of
               Inl e \<Rightarrow> Inl (OsError e)
             | Inr (Inl e, _) \<Rightarrow> Inl (YamlError e)
             | Inr (Inr pf, nextDoc) \<Rightarrow>
                 (case nextDoc of
                    YamlMore \<Rightarrow> Inl MultipleDocuments
                  | YamlBad e \<Rightarrow> Inl (YamlError e)
                  | YamlEOF \<Rightarrow>
                      if pf_Version pf \<noteq> 1 then Inl (BadVersion (pf_Version pf))
                      else if pf_Profiles pf = [] then Inl NoProfiles
                      else Inr \<lparr>defs_path = absConfig, defs_root = pathDir absConfig,
                                profiles = pf_Profiles pf, implicit = False\<rparr>)))
      in if configPath = []
         then (case findProfileConfig stat wd of
                 Inr p \<Rightarrow> load p
               | Inl e \<Rightarrow>
                   if e = ErrNotExist
                   then Inr \<lparr>defs_path = [], defs_root = wd,
                             profiles = [(''default'', emptyRaw\<lparr>raw_Packages := [''./...'']\<rparr>)],
                             implicit = True\<rparr>
                   else Inl (OsError e))
         else load configPath)"

section \<open>Reference semantics\<close>

inductive resolves :: "parseDuration \<Rightarrow> (string, rawProfile) gomap \<Rightarrow> string \<Rightarrow> runProfile \<Rightarrow> bool"
  and resolvesAll :: "parseDuration \<Rightarrow> (string, rawProfile) gomap \<Rightarrow> string list \<Rightarrow> runProfile
        \<Rightarrow> runProfile \<Rightarrow> bool"
  for parse :: parseDuration and profs :: "(string, rawProfile) gomap"
  where
    resolves_profile: "map_of profs cur = Some raw
      \<Longrightarrow> resolvesAll parse profs (raw_Include raw) zeroProfile out
      \<Longrightarrow> mergeRawProfile parse out raw = Inr p \<Longrightarrow> resolves parse profs cur p"
  | resolvesAll_Nil: "resolvesAll parse profs [] out out"
  | resolvesAll_Cons: "resolves parse profs inc p
      \<Longrightarrow> resolvesAll parse profs incs (mergeRunProfile out p) out'
      \<Longrightarrow> resolvesAll parse profs (inc # incs) out out'"

inductive_cases resolvesE: "resolves parse profs cur p"
inductive_cases resolvesAll_NilE: "resolvesAll parse profs [] out out'"
inductive_cases resolvesAll_ConsE: "resolvesAll parse profs (inc # incs) out out'"

text \<open>\<open>includesProfile profs a b\<close>: profile \<open>a\<close> lists \<open>b\<close> in its \<open>include\<close> field.\<close>

definition includesProfile :: "(string, rawProfile) gomap \<Rightarrow> string \<Rightarrow> string \<Rightarrow> bool" where
  "includesProfile profs a b \<longleftrightarrow> (\<exists>raw. map_of profs a = Some raw \<and> b \<in> set (raw_Include raw))"

section \<open>Merging: lemmas\<close>

lemma appendUnique_Nil [simp]: "appendUnique dst [] = dst"
  by (simp add: appendUnique_def)

lemma appendUnique_Cons:
  "appendUnique dst (v # vs) =
     appendUnique (if v \<noteq> [] \<and> v \<notin> set dst then dst @ [v] else dst) vs"
  by (simp add: appendUnique_def)

lemma set_appendUnique [simp]: "set (appendUnique dst vs) = set dst \<union> (set vs - {[]})"
  by (induction vs arbitrary: dst) (auto simp: appendUnique_Cons)

lemma distinct_appendUnique [simp]: "distinct dst \<Longrightarrow> distinct (appendUnique dst vs)"
  by (induction vs arbitrary: dst) (auto simp: appendUnique_Cons)

lemma appendUnique_prefix: "\<exists>new. appendUnique dst vs = dst @ new"
proof (induction vs arbitrary: dst)
  case Nil
  then show ?case by simp
next
  case (Cons v vs)
  then obtain new where
    "appendUnique (if v \<noteq> [] \<and> v \<notin> set dst then dst @ [v] else dst) vs
       = (if v \<noteq> [] \<and> v \<notin> set dst then dst @ [v] else dst) @ new" by blast
  then show ?case by (auto simp: appendUnique_Cons)
qed

lemma mergeRunProfile_sel [simp]:
  "Packages (mergeRunProfile d s) = appendUnique (Packages d) (Packages s)"
  "ExcludePackages (mergeRunProfile d s) = appendUnique (ExcludePackages d) (ExcludePackages s)"
  "Tags (mergeRunProfile d s) = appendUnique (Tags d) (Tags s)"
  "TestFlags (mergeRunProfile d s) = appendUnique (TestFlags d) (TestFlags s)"
  "Timeout (mergeRunProfile d s) = (if Timeout s \<noteq> 0 then Timeout s else Timeout d)"
  by (simp_all add: mergeRunProfile_def Let_def)

lemma mergeRawProfile_sel:
  assumes "mergeRawProfile parse d s = Inr p"
  shows "Packages p = appendUnique (Packages d) (raw_Packages s)"
    and "ExcludePackages p = appendUnique (ExcludePackages d) (raw_ExcludePackages s)"
    and "Tags p = appendUnique (Tags d) (raw_Tags s)"
    and "TestFlags p = appendUnique (TestFlags d) (raw_TestFlags s)"
  using assms
  by (auto simp: mergeRawProfile_def Let_def split: option.splits if_splits)

lemma mergeRawProfile_Timeout:
  assumes "mergeRawProfile parse d s = Inr p" and "0 \<le> Timeout d"
  shows "0 \<le> Timeout p"
  using assms
  by (auto simp: mergeRawProfile_def Let_def split: option.splits if_splits)

section \<open>Resolution: termination\<close>

definition visitingSet :: "visitState \<Rightarrow> string set" where
  "visitingSet st = {x. map_of (visiting st) x = Some True}"

lemma visitingSet_enter [simp]:
  "visitingSet (st\<lparr>visiting := AList.update cur True (visiting st), stack := stk\<rparr>)
     = insert cur (visitingSet st)"
  by (auto simp: visitingSet_def)

lemma visitingSet_leave [simp]:
  "visitingSet (st\<lparr>stack := stk, visiting := AList.update cur False (visiting st), resolved := r\<rparr>)
     = visitingSet st - {cur}"
  by (auto simp: visitingSet_def split: if_splits)

definition unvisited :: "(string, rawProfile) gomap \<Rightarrow> visitState \<Rightarrow> nat" where
  "unvisited profs st = card (dom (map_of profs) - visitingSet st)"

lemma unvisited_enter:
  assumes "map_of profs cur = Some raw" and "cur \<notin> visitingSet st"
  shows "unvisited profs (st\<lparr>visiting := AList.update cur True (visiting st), stack := stk\<rparr>)
    < unvisited profs st"
proof -
  have "dom (map_of profs) - insert cur (visitingSet st) \<subset> dom (map_of profs) - visitingSet st"
    using assms by blast
  then show ?thesis
    by (simp add: unvisited_def psubset_card_mono finite_dom_map_of)
qed

lemma visit_terminates:
  shows "unvisited profs st < n \<Longrightarrow>
      \<exists>r. visit n parse profs cur st = Some r
        \<and> (\<forall>p st'. r = Inr (p, st') \<longrightarrow> visitingSet st' = visitingSet st)"
    and "unvisited profs st < n \<Longrightarrow>
      \<exists>r. visitIncludes n parse profs incs out st = Some r
        \<and> (\<forall>p st'. r = Inr (p, st') \<longrightarrow> visitingSet st' = visitingSet st)"
proof (induction n parse profs cur st and n parse profs incs out st
    rule: visit_visitIncludes.induct)
  case (1 parse profs cur st)
  then show ?case by simp
next
  case (2 n parse profs cur st)
  show ?case
  proof (cases "map_of (resolved st) cur = None \<and> map_of profs cur \<noteq> None \<and> cur \<notin> visitingSet st")
    case True
    then obtain raw where raw: "map_of (resolved st) cur = None" "map_of profs cur = Some raw"
      and fresh: "cur \<notin> visitingSet st" by auto
    let ?st1 = "st\<lparr>visiting := AList.update cur True (visiting st), stack := stack st @ [cur]\<rparr>"
    from fresh have nv: "map_of (visiting st) cur \<noteq> Some True" by (simp add: visitingSet_def)
    have "unvisited profs ?st1 < n"
      using unvisited_enter [OF raw(2) fresh] "2.prems" by (meson le_less_trans less_Suc_eq_le order_less_le_trans)
    from "2.IH" [OF raw nv this] obtain r where
      r: "visitIncludes n parse profs (raw_Include raw) zeroProfile ?st1 = Some r"
      "\<And>p st'. r = Inr (p, st') \<Longrightarrow> visitingSet st' = visitingSet ?st1" by blast
    show ?thesis
    proof (cases r)
      case (Inl e)
      with r(1) raw nv show ?thesis by simp
    next
      case (Inr q)
      obtain o1 st1 where q: "q = (o1, st1)" by (cases q)
      with r(2) Inr have "visitingSet st1 = insert cur (visitingSet st)" by simp
      with fresh r(1) raw nv Inr q show ?thesis
        by (auto split: sum.splits)
    qed
  next
    case False
    then show ?thesis by (auto simp: visitingSet_def split: option.splits)
  qed
next
  case (3 n parse profs out st)
  then show ?case by simp
next
  case (4 n parse profs inc incs out st)
  from "4.IH"(1) [OF "4.prems"] obtain r where
    r: "visit n parse profs inc st = Some r"
    "\<And>p st'. r = Inr (p, st') \<Longrightarrow> visitingSet st' = visitingSet st" by blast
  show ?case
  proof (cases r)
    case (Inl e)
    with r(1) show ?thesis by simp
  next
    case (Inr q)
    obtain p1 st1 where q: "q = (p1, st1)" by (cases q)
    with r(2) Inr have vs: "visitingSet st1 = visitingSet st" by simp
    with "4.prems" have "unvisited profs st1 < n" by (simp add: unvisited_def)
    from "4.IH"(2) [OF r(1) Inr q [symmetric] this] r(1) Inr q vs show ?thesis by simp
  qed
qed

lemma unvisited_le_length: "unvisited profs st \<le> length profs"
proof -
  have "unvisited profs st \<le> card (dom (map_of profs))"
    by (simp add: unvisited_def card_mono finite_dom_map_of)
  also have "\<dots> \<le> length profs"
    by (metis card_length dom_map_of_conv_image_fst length_map set_map)
  finally show ?thesis .
qed

lemma visit_enough_fuel: "\<exists>r. visit (Suc (length profs)) parse profs cur st = Some r"
  using visit_terminates(1) [of profs st "Suc (length profs)" parse cur] unvisited_le_length [of profs st]
  by auto

section \<open>Resolution: correctness\<close>

abbreviation reaches :: "(string, rawProfile) gomap \<Rightarrow> string \<Rightarrow> string \<Rightarrow> bool" where
  "reaches profs \<equiv> (includesProfile profs)\<^sup>+\<^sup>+"

lemma resolves_acyclic:
  shows "resolves parse profs cur p \<Longrightarrow> \<not> reaches profs cur cur"
    and "resolvesAll parse profs incs out out' \<Longrightarrow> \<forall>inc \<in> set incs. \<not> reaches profs inc inc"
proof (induction rule: resolves_resolvesAll.inducts)
  case (resolves_profile cur raw out p)
  show ?case
  proof
    assume "reaches profs cur cur"
    then obtain inc where inc: "includesProfile profs cur inc" "(includesProfile profs)\<^sup>*\<^sup>* inc cur"
      by (meson tranclpD)
    from inc have "reaches profs inc inc" by (meson rtranclp_into_tranclp1)
    moreover from inc(1) resolves_profile(1) have "inc \<in> set (raw_Include raw)"
      by (auto simp: includesProfile_def)
    ultimately show False using resolves_profile.IH by blast
  qed
qed auto

lemma resolves_deterministic:
  shows "resolves parse profs cur p \<Longrightarrow> (\<And>q. resolves parse profs cur q \<Longrightarrow> q = p)"
    and "resolvesAll parse profs incs out out'
      \<Longrightarrow> (\<And>out''. resolvesAll parse profs incs out out'' \<Longrightarrow> out'' = out')"
proof (induction rule: resolves_resolvesAll.inducts)
  case (resolves_profile cur raw out p)
  from \<open>resolves parse profs cur q\<close> obtain raw' out' where
    q: "map_of profs cur = Some raw'" "resolvesAll parse profs (raw_Include raw') zeroProfile out'"
      "mergeRawProfile parse out' raw' = Inr q" by (rule resolvesE)
  from q(1) resolves_profile(1) have "raw' = raw" by simp
  with q(2) resolves_profile.IH have "out' = out" by simp
  with q(3) \<open>raw' = raw\<close> \<open>mergeRawProfile parse out raw = Inr p\<close> show ?case by simp
next
  case (resolvesAll_Nil out)
  then show ?case by (auto elim: resolvesAll_NilE)
next
  case (resolvesAll_Cons inc p incs out out')
  from \<open>resolvesAll parse profs (inc # incs) out out''\<close> obtain p' where
    "resolves parse profs inc p'" "resolvesAll parse profs incs (mergeRunProfile out p') out''"
    by (rule resolvesAll_ConsE)
  with resolvesAll_Cons.IH show ?case by simp
qed

definition memoOK :: "parseDuration \<Rightarrow> (string, rawProfile) gomap \<Rightarrow> visitState \<Rightarrow> bool" where
  "memoOK parse profs st \<longleftrightarrow> (\<forall>x p. map_of (resolved st) x = Some p \<longrightarrow> resolves parse profs x p)"

lemma memoOK_frame [simp]:
  "memoOK parse profs (st\<lparr>visiting := v, stack := stk\<rparr>) = memoOK parse profs st"
  by (simp add: memoOK_def)

lemma not_resolves_unknown: "map_of profs cur = None \<Longrightarrow> \<not> resolves parse profs cur p"
  by (auto elim: resolvesE)

lemma resolves_via_includes:
  assumes "map_of profs cur = Some raw" and "resolvesAll parse profs (raw_Include raw) zeroProfile out"
  shows "resolves parse profs cur p \<longleftrightarrow> mergeRawProfile parse out raw = Inr p"
proof
  assume "resolves parse profs cur p"
  then obtain raw' out' where "map_of profs cur = Some raw'"
    "resolvesAll parse profs (raw_Include raw') zeroProfile out'" "mergeRawProfile parse out' raw' = Inr p"
    by (rule resolvesE)
  with assms resolves_deterministic(2) [OF assms(2)] show "mergeRawProfile parse out raw = Inr p"
    by auto
next
  assume "mergeRawProfile parse out raw = Inr p"
  with assms show "resolves parse profs cur p" by (rule resolves_profile)
qed

lemma resolvesAll_via_first:
  assumes "resolves parse profs inc p"
  shows "resolvesAll parse profs (inc # incs) out out'
    \<longleftrightarrow> resolvesAll parse profs incs (mergeRunProfile out p) out'"
proof
  assume "resolvesAll parse profs (inc # incs) out out'"
  then obtain p' where "resolves parse profs inc p'"
    "resolvesAll parse profs incs (mergeRunProfile out p') out'" by (rule resolvesAll_ConsE)
  with resolves_deterministic(1) [OF assms] show "resolvesAll parse profs incs (mergeRunProfile out p) out'"
    by auto
next
  assume "resolvesAll parse profs incs (mergeRunProfile out p) out'"
  with assms show "resolvesAll parse profs (inc # incs) out out'" by (rule resolvesAll_Cons)
qed

text \<open>
  One statement covers both outcomes of \<open>visit\<close>: a profile it returns is the one the reference
  semantics gives, and where it returns an error the reference semantics has no result. Every
  profile still being visited reaches the current one, so a repeated visit is a real cycle.
\<close>

definition visitSound :: "parseDuration \<Rightarrow> (string, rawProfile) gomap \<Rightarrow> (runProfile \<Rightarrow> bool)
    \<Rightarrow> visitState \<Rightarrow> profileError + runProfile \<times> visitState \<Rightarrow> bool" where
  "visitSound parse profs P st r =
     (case r of
        Inr (p, st') \<Rightarrow> P p \<and> memoOK parse profs st' \<and> visitingSet st' = visitingSet st
      | Inl _ \<Rightarrow> \<forall>p. \<not> P p)"

lemma visit_correct:
  shows "visit n parse profs cur st = Some r \<Longrightarrow> memoOK parse profs st
      \<Longrightarrow> \<forall>x \<in> visitingSet st. reaches profs x cur
      \<Longrightarrow> visitSound parse profs (resolves parse profs cur) st r"
    and "visitIncludes n parse profs incs out st = Some r \<Longrightarrow> memoOK parse profs st
      \<Longrightarrow> \<forall>x \<in> visitingSet st. \<forall>inc \<in> set incs. reaches profs x inc
      \<Longrightarrow> visitSound parse profs (resolvesAll parse profs incs out) st r"
proof (induction n parse profs cur st and n parse profs incs out st arbitrary: r and r
    rule: visit_visitIncludes.induct)
  case (1 parse profs cur st)
  then show ?case by simp
next
  case (2 n parse profs cur st)
  show ?case
  proof (cases "map_of (resolved st) cur = None \<and> map_of profs cur \<noteq> None \<and> cur \<notin> visitingSet st")
    case False
    then consider (memo) p where "map_of (resolved st) cur = Some p"
      | (unknown) "map_of (resolved st) cur = None" "map_of profs cur = None"
      | (cycle) raw where "map_of (resolved st) cur = None" "map_of profs cur = Some raw"
          "cur \<in> visitingSet st" by auto
    then show ?thesis
    proof cases
      case memo
      with 2 show ?thesis by (auto simp: visitSound_def memoOK_def)
    next
      case unknown
      with "2.prems" show ?thesis
        by (auto simp: visitSound_def not_resolves_unknown)
    next
      case cycle
      with "2.prems"(3) have "reaches profs cur cur" by blast
      with cycle "2.prems" show ?thesis
        using resolves_acyclic(1) by (fastforce simp: visitSound_def visitingSet_def)
    qed
  next
    case True
    then obtain raw where raw: "map_of (resolved st) cur = None" "map_of profs cur = Some raw"
      and fresh: "cur \<notin> visitingSet st" by auto
    let ?st1 = "st\<lparr>visiting := AList.update cur True (visiting st), stack := stack st @ [cur]\<rparr>"
    from fresh have nv: "map_of (visiting st) cur \<noteq> Some True" by (simp add: visitingSet_def)
    have "\<forall>inc \<in> set (raw_Include raw). includesProfile profs cur inc"
      using raw(2) by (simp add: includesProfile_def)
    then have path: "\<forall>x \<in> visitingSet ?st1. \<forall>inc \<in> set (raw_Include raw). reaches profs x inc"
      using "2.prems"(3) by (auto intro: tranclp.intros)
    from "2.prems"(1) raw nv obtain r1 where
      r1: "visitIncludes n parse profs (raw_Include raw) zeroProfile ?st1 = Some r1"
      by (auto split: option.splits)
    from "2.IH" [OF raw nv r1] path "2.prems"(2)
    have s1: "visitSound parse profs (resolvesAll parse profs (raw_Include raw) zeroProfile) ?st1 r1"
      by simp
    show ?thesis
    proof (cases r1)
      case (Inl e)
      with s1 r1 raw nv "2.prems"(1) show ?thesis
        by (auto simp: visitSound_def elim!: resolvesE)
    next
      case (Inr q)
      obtain o1 st1 where q: "q = (o1, st1)" by (cases q)
      from s1 Inr q have o1: "resolvesAll parse profs (raw_Include raw) zeroProfile o1"
        "memoOK parse profs st1" "visitingSet st1 = insert cur (visitingSet st)"
        by (auto simp: visitSound_def)
      have res: "resolves parse profs cur p \<longleftrightarrow> mergeRawProfile parse o1 raw = Inr p" for p
        by (rule resolves_via_includes [OF raw(2) o1(1)])
      show ?thesis
      proof (cases "mergeRawProfile parse o1 raw")
        case (Inl e)
        with r1 raw nv Inr q "2.prems"(1) show ?thesis by (auto simp: visitSound_def res)
      next
        case Inr2: (Inr out')
        with res have "resolves parse profs cur out'" by simp
        with o1 r1 raw nv Inr q Inr2 "2.prems"(1) fresh show ?thesis
          by (auto simp: visitSound_def memoOK_def)
      qed
    qed
  qed
next
  case (3 n parse profs out st)
  then show ?case by (auto simp: visitSound_def intro: resolvesAll_Nil)
next
  case (4 n parse profs inc incs out st)
  from "4.prems"(1) obtain r1 where r1: "visit n parse profs inc st = Some r1"
    by (auto split: option.splits)
  from "4.IH"(1) [OF r1 "4.prems"(2)] "4.prems"(3)
  have s1: "visitSound parse profs (resolves parse profs inc) st r1" by simp
  show ?case
  proof (cases r1)
    case (Inl e)
    with s1 r1 "4.prems"(1) show ?thesis
      by (auto simp: visitSound_def elim!: resolvesAll_ConsE)
  next
    case (Inr q)
    obtain p1 st1 where q: "q = (p1, st1)" by (cases q)
    from s1 Inr q have p1: "resolves parse profs inc p1" "memoOK parse profs st1"
      "visitingSet st1 = visitingSet st" by (auto simp: visitSound_def)
    from "4.prems"(1) r1 Inr q
    have r2: "visitIncludes n parse profs incs (mergeRunProfile out p1) st1 = Some r" by simp
    have s2: "visitSound parse profs (resolvesAll parse profs incs (mergeRunProfile out p1)) st1 r"
      by (rule "4.IH"(2) [OF r1 Inr q [symmetric] r2 p1(2)]) (use p1(3) "4.prems"(3) in auto)
    have "resolvesAll parse profs (inc # incs) out p
        \<longleftrightarrow> resolvesAll parse profs incs (mergeRunProfile out p1) p" for p
      by (rule resolvesAll_via_first [OF p1(1)])
    with s2 p1(3) show ?thesis by (auto simp: visitSound_def split: sum.splits)
  qed
qed

section \<open>What the list fields of a resolved profile hold\<close>

text \<open>
  The four list fields are merged in the same way. The locale states that way once; it is
  interpreted for each of them.
\<close>

definition rawField :: "(rawProfile \<Rightarrow> string list) \<Rightarrow> (string, rawProfile) gomap \<Rightarrow> string \<Rightarrow> string set" where
  "rawField raw profs x = (case map_of profs x of None \<Rightarrow> {} | Some r \<Rightarrow> set (raw r))"

definition reachField :: "(rawProfile \<Rightarrow> string list) \<Rightarrow> (string, rawProfile) gomap \<Rightarrow> string \<Rightarrow> string set" where
  "reachField raw profs cur = (\<Union>x \<in> {x. (includesProfile profs)\<^sup>*\<^sup>* cur x}. rawField raw profs x) - {[]}"

lemma reachField_unfold:
  assumes "map_of profs cur = Some r"
  shows "reachField raw profs cur
    = (\<Union>inc \<in> set (raw_Include r). reachField raw profs inc) \<union> (set (raw r) - {[]})"
proof -
  have "{x. (includesProfile profs)\<^sup>*\<^sup>* cur x}
    = insert cur (\<Union>inc \<in> set (raw_Include r). {x. (includesProfile profs)\<^sup>*\<^sup>* inc x})"
  proof (intro set_eqI iffI)
    fix x assume "x \<in> {x. (includesProfile profs)\<^sup>*\<^sup>* cur x}"
    then have "(includesProfile profs)\<^sup>*\<^sup>* cur x" by simp
    then show "x \<in> insert cur (\<Union>inc \<in> set (raw_Include r). {x. (includesProfile profs)\<^sup>*\<^sup>* inc x})"
      by (rule converse_rtranclpE) (use assms in \<open>auto simp: includesProfile_def\<close>)
  next
    fix x assume "x \<in> insert cur (\<Union>inc \<in> set (raw_Include r). {x. (includesProfile profs)\<^sup>*\<^sup>* inc x})"
    moreover have "includesProfile profs cur inc" if "inc \<in> set (raw_Include r)" for inc
      using assms that by (simp add: includesProfile_def)
    ultimately show "x \<in> {x. (includesProfile profs)\<^sup>*\<^sup>* cur x}"
      by (auto intro: converse_rtranclp_into_rtranclp)
  qed
  then show ?thesis using assms by (auto simp: reachField_def rawField_def)
qed

locale list_field =
  fixes sel :: "runProfile \<Rightarrow> string list" and raw :: "rawProfile \<Rightarrow> string list"
  assumes merge_run: "sel (mergeRunProfile d s) = appendUnique (sel d) (sel s)"
    and merge_raw: "mergeRawProfile parse d r = Inr p \<Longrightarrow> sel p = appendUnique (sel d) (raw r)"
    and zero: "sel zeroProfile = []"
begin

lemma resolves_field:
  shows "resolves parse profs cur p \<Longrightarrow> set (sel p) = reachField raw profs cur \<and> distinct (sel p)"
    and "resolvesAll parse profs incs out out' \<Longrightarrow>
      set (sel out') = set (sel out) \<union> (\<Union>inc \<in> set incs. reachField raw profs inc)
        \<and> (distinct (sel out) \<longrightarrow> distinct (sel out'))"
proof (induction rule: resolves_resolvesAll.inducts)
  case (resolves_profile cur rawp out p)
  then show ?case
    using merge_raw [OF \<open>mergeRawProfile parse out rawp = Inr p\<close>]
    by (simp add: reachField_unfold zero)
next
  case (resolvesAll_Cons inc p incs out out')
  moreover have "[] \<notin> reachField raw profs inc" by (simp add: reachField_def)
  ultimately show ?case by (auto simp: merge_run)
qed simp_all

end

interpretation packages_field: list_field Packages raw_Packages
  by unfold_locales (simp_all add: mergeRawProfile_sel zeroProfile_def)

interpretation exclude_field: list_field ExcludePackages raw_ExcludePackages
  by unfold_locales (simp_all add: mergeRawProfile_sel zeroProfile_def)

interpretation tags_field: list_field Tags raw_Tags
  by unfold_locales (simp_all add: mergeRawProfile_sel zeroProfile_def)

interpretation flags_field: list_field TestFlags raw_TestFlags
  by unfold_locales (simp_all add: mergeRawProfile_sel zeroProfile_def)

lemma resolveProfile_iff_resolves:
  "resolveProfile parse profs name = Some (Inr p) \<longleftrightarrow> resolves parse profs name p"
proof -
  let ?st = "\<lparr>stack = [], resolved = [], visiting = []\<rparr>"
  obtain r where r: "visit (Suc (length profs)) parse profs name ?st = Some r"
    using visit_enough_fuel by blast
  have "visitSound parse profs (resolves parse profs name) ?st r"
    by (rule visit_correct(1) [OF r]) (simp_all add: memoOK_def visitingSet_def)
  with r show ?thesis
    using resolves_deterministic(1)
    by (fastforce simp: visitSound_def resolveProfile_def split: sum.splits)
qed

lemma resolveProfile_total: "\<exists>r. resolveProfile parse profs name = Some r"
  unfolding resolveProfile_def
  using visit_enough_fuel [of profs parse name "\<lparr>stack = [], resolved = [], visiting = []\<rparr>"]
  by (auto simp del: visit.simps)

section \<open>Properties\<close>

text \<open>
  Resolving a profile always returns: whatever the \<open>include\<close> lists say, cycles and
  unknown names included, the recursion of \<open>visit\<close> ends with a profile or an error.
\<close>

theorem resolveProfile_returns: "\<exists>r. resolveProfile parse profs name = Some r"
  by (rule resolveProfile_total)

text \<open>
  C29. The memoised depth-first resolution is the plain recursive one: it returns a profile
  exactly when the reference semantics \<open>resolves\<close>, which merges the included profiles in order
  and then the profile's own fields, gives that profile.
\<close>

theorem resolveProfile_correct:
  "resolveProfile parse profs name = Some (Inr p) \<longleftrightarrow> resolves parse profs name p"
  by (rule resolveProfile_iff_resolves)

text \<open>
  A profile that includes itself, directly or through others, is rejected with an error.
\<close>

theorem resolveProfile_rejects_cycles:
  assumes "reaches profs name name"
  shows "\<exists>e. resolveProfile parse profs name = Some (Inl e)"
proof -
  obtain r where r: "resolveProfile parse profs name = Some r"
    using resolveProfile_total by blast
  have "r \<noteq> Inr p" for p
    using assms r resolves_acyclic(1) by (auto simp: resolveProfile_iff_resolves)
  with r show ?thesis by (cases r) auto
qed

definition cyclicProfiles :: "(string, rawProfile) gomap" where
  "cyclicProfiles = [(''a'', emptyRaw\<lparr>raw_Include := [''b'']\<rparr>), (''b'', emptyRaw\<lparr>raw_Include := [''a'']\<rparr>)]"

theorem resolveProfile_rejects_cycles_witness:
  "reaches cyclicProfiles ''a'' ''a''
    \<and> (\<exists>e. resolveProfile (\<lambda>_. None) cyclicProfiles ''a'' = Some (Inl e))"
proof -
  have "includesProfile cyclicProfiles ''a'' ''b''" "includesProfile cyclicProfiles ''b'' ''a''"
    by (simp_all add: includesProfile_def cyclicProfiles_def emptyRaw_def)
  then have "reaches cyclicProfiles ''a'' ''a''" by (meson tranclp.intros)
  then show ?thesis using resolveProfile_rejects_cycles by blast
qed

text \<open>
  A resolved profile holds, in each of its four list fields, exactly the non-empty values
  that the profile or a profile it includes (at any depth) lists there, each once: merging
  loses nothing, invents nothing and repeats nothing.
\<close>

theorem resolveProfile_list_fields:
  assumes "resolveProfile parse profs name = Some (Inr p)"
  shows "set (Packages p) = reachField raw_Packages profs name \<and> distinct (Packages p)
    \<and> set (ExcludePackages p) = reachField raw_ExcludePackages profs name \<and> distinct (ExcludePackages p)
    \<and> set (Tags p) = reachField raw_Tags profs name \<and> distinct (Tags p)
    \<and> set (TestFlags p) = reachField raw_TestFlags profs name \<and> distinct (TestFlags p)"
  using assms packages_field.resolves_field(1) exclude_field.resolves_field(1)
    tags_field.resolves_field(1) flags_field.resolves_field(1)
  by (simp add: resolveProfile_iff_resolves)

definition sampleProfiles :: "(string, rawProfile) gomap" where
  "sampleProfiles =
     [(''all'', emptyRaw\<lparr>raw_Packages := [''./...''], raw_Short := Some True\<rparr>),
      (''default'', emptyRaw\<lparr>raw_Include := [''all''], raw_Tags := [''integration''],
         raw_Timeout := Some ''10m''\<rparr>)]"

definition tenMinutes :: parseDuration where
  "tenMinutes s = (if s = ''10m'' then Some (600 * second) else None)"

theorem resolveProfile_list_fields_witness:
  "set (Packages (zeroProfile\<lparr>Packages := [''./...''], Tags := [''integration''], Short := True,
      shortSet := True, Timeout := 600 * second\<rparr>)) = reachField raw_Packages sampleProfiles ''default''"
proof -
  have "resolveProfile tenMinutes sampleProfiles ''default'' =
    Some (Inr (zeroProfile\<lparr>Packages := [''./...''], Tags := [''integration''], Short := True,
      shortSet := True, Timeout := 600 * second\<rparr>))"
    by (simp add: resolveProfile_def sampleProfiles_def tenMinutes_def emptyRaw_def zeroProfile_def
        mergeRawProfile_def mergeRunProfile_def appendUnique_def second_def)
  from resolveProfile_list_fields [OF this] show ?thesis by simp
qed

end
