(* ===== verification/Invocation.thy ===== *)
theory Invocation
  imports Profile
begin

text \<open>
  \<open>invocation.go\<close>: how the command line's arguments become a profile, a package set and a
  selection of tests, and the queries on that selection. \<open>token.IsIdentifier\<close> is modelled on
  ASCII letters and digits.
\<close>

section \<open>Data\<close>

record qualifiedTest =
  packageSpec :: string
  packagePath :: string
  qname :: string

record testSelection =
  sel_unqualified :: "string list"
  sel_qualified :: "qualifiedTest list"

record invocation =
  inv_profile :: runProfile
  inv_tests :: testSelection

section \<open>Test names\<close>

definition isLetter :: "char \<Rightarrow> bool" where
  "isLetter c \<longleftrightarrow> (97 \<le> (of_char c :: nat) \<and> (of_char c :: nat) \<le> 122)
     \<or> (65 \<le> (of_char c :: nat) \<and> (of_char c :: nat) \<le> 90) \<or> c = CHR ''_''"

definition isDigit :: "char \<Rightarrow> bool" where
  "isDigit c \<longleftrightarrow> 48 \<le> (of_char c :: nat) \<and> (of_char c :: nat) \<le> 57"

definition goKeywords :: "string list" where
  "goKeywords = [''break'', ''case'', ''chan'', ''const'', ''continue'', ''default'', ''defer'',
     ''else'', ''fallthrough'', ''for'', ''func'', ''go'', ''goto'', ''if'', ''import'',
     ''interface'', ''map'', ''package'', ''range'', ''return'', ''select'', ''struct'',
     ''switch'', ''type'', ''var'']"

definition IsIdentifier :: "string \<Rightarrow> bool" where
  "IsIdentifier s \<longleftrightarrow> s \<noteq> [] \<and> s \<notin> set goKeywords
     \<and> isLetter (hd s) \<and> list_all (\<lambda>c. isLetter c \<or> isDigit c) s"

definition isTestName :: "string \<Rightarrow> bool" where
  "isTestName s \<longleftrightarrow> IsIdentifier s
     \<and> (HasPrefix s ''Test'' \<or> HasPrefix s ''Fuzz'' \<or> HasPrefix s ''Example'')"

definition isRunnableTopLevelTest :: "string \<Rightarrow> bool" where
  "isRunnableTopLevelTest name \<longleftrightarrow>
     HasPrefix name ''Test'' \<or> HasPrefix name ''Fuzz'' \<or> HasPrefix name ''Example''"

definition splitQualifiedTest :: "string \<Rightarrow> (string \<times> string) option" where
  "splitQualifiedTest arg =
     (case CutLast CHR ''.'' arg of
        None \<Rightarrow> None
      | Some (pkg, test) \<Rightarrow>
          if pkg = [] \<or> test = [] \<or> \<not> isTestName test then None else Some (pkg, test))"

section \<open>Parsing\<close>

definition addArg :: "string \<Rightarrow> string list \<times> testSelection \<Rightarrow> string list \<times> testSelection" where
  "addArg arg st =
     (let (packages, tests) = st
      in if isTestName arg
         then (packages, tests\<lparr>sel_unqualified := appendUnique (sel_unqualified tests) [arg]\<rparr>)
         else (case splitQualifiedTest arg of
                 Some (pkg, name) \<Rightarrow>
                   (let q = \<lparr>packageSpec = pkg, packagePath = [], qname = name\<rparr>
                    in (packages, if q \<in> set (sel_qualified tests) then tests
                                  else tests\<lparr>sel_qualified := sel_qualified tests @ [q]\<rparr>))
               | None \<Rightarrow> (appendUnique packages [arg], tests)))"

definition parseArgs :: "string list \<Rightarrow> string list \<times> testSelection" where
  "parseArgs args = fold addArg args ([], \<lparr>sel_unqualified = [], sel_qualified = []\<rparr>)"

definition parseInvocation ::
  "parseDuration \<Rightarrow> profileDefinitions \<Rightarrow> string list \<Rightarrow> (profileError + invocation) option" where
  "parseInvocation parse defs args0 =
     (let (profileName, args) =
            (case args0 of
               a # rest \<Rightarrow> if map_of (profiles defs) a \<noteq> None then (a, rest) else (''default'', args0)
             | [] \<Rightarrow> (''default'', args0))
      in case resolve parse defs profileName of
           None \<Rightarrow> None
         | Some (Inl e) \<Rightarrow> Some (Inl e)
         | Some (Inr profile) \<Rightarrow>
             (let (packages, tests) = parseArgs args
              in Some (Inr \<lparr>inv_profile = (if packages \<noteq> [] then profile\<lparr>Packages := packages\<rparr> else profile),
                            inv_tests = tests\<rparr>)))"

section \<open>The test selection\<close>

definition active :: "testSelection \<Rightarrow> bool" where
  "active s \<longleftrightarrow> sel_unqualified s \<noteq> [] \<or> sel_qualified s \<noteq> []"

definition requestedNames :: "testSelection \<Rightarrow> string list" where
  "requestedNames s = sel_unqualified s @ map (\<lambda>q. packageSpec q @ ''.'' @ qname q) (sel_qualified s)"

definition wants :: "testSelection \<Rightarrow> string \<Rightarrow> string \<Rightarrow> bool" where
  "wants s pkg test \<longleftrightarrow> \<not> active s \<or> test \<in> set (sel_unqualified s)
     \<or> list_ex (\<lambda>q. packagePath q = pkg \<and> qname q = test) (sel_qualified s)"

definition packageTests :: "testSelection \<Rightarrow> string \<Rightarrow> string list" where
  "packageTests s pkg =
     foldl (\<lambda>ret q. if packagePath q = pkg then appendUnique ret [qname q] else ret) [] (sel_qualified s)"

definition describeMissing :: "testSelection \<Rightarrow> string list \<Rightarrow> string option" where
  "describeMissing s found =
     (let missing = filter (\<lambda>name. name \<notin> set found) (requestedNames s)
      in if missing = [] then None
         else Some (''requested test(s) not found: '' @ Join '', '' missing))"

section \<open>Lemmas\<close>

lemma dot_not_identifier: "\<not> isLetter CHR ''.''" "\<not> isDigit CHR ''.''"
  by (simp_all add: isLetter_def isDigit_def)

lemma isTestName_no_dot: "isTestName t \<Longrightarrow> CHR ''.'' \<notin> set t"
  using dot_not_identifier by (auto simp: isTestName_def IsIdentifier_def list_all_iff)

lemma isTestName_not_Nil: "isTestName t \<Longrightarrow> t \<noteq> []"
  by (simp add: isTestName_def IsIdentifier_def)

lemma splitQualifiedTest_iff:
  "splitQualifiedTest arg = Some (p, t) \<longleftrightarrow> arg = p @ ''.'' @ t \<and> p \<noteq> [] \<and> isTestName t"
proof -
  have "splitQualifiedTest arg = Some (p, t)
      \<longleftrightarrow> CutLast CHR ''.'' arg = Some (p, t) \<and> p \<noteq> [] \<and> t \<noteq> [] \<and> isTestName t"
    by (auto simp: splitQualifiedTest_def split: option.splits if_splits)
  also have "\<dots> \<longleftrightarrow> arg = p @ ''.'' @ t \<and> p \<noteq> [] \<and> isTestName t"
    using isTestName_no_dot isTestName_not_Nil by (auto simp: CutLast_Some_iff)
  finally show ?thesis .
qed

definition isTestArg :: "string \<Rightarrow> bool" where
  "isTestArg a \<longleftrightarrow> isTestName a \<or> splitQualifiedTest a \<noteq> None"

lemma requestedNames_qualified:
  "requestedNames (s\<lparr>sel_qualified := sel_qualified s @ [q]\<rparr>)
     = requestedNames s @ [packageSpec q @ ''.'' @ qname q]"
  by (simp add: requestedNames_def)

lemma set_requestedNames:
  "set (requestedNames s) = set (sel_unqualified s) \<union> (\<lambda>q. packageSpec q @ ''.'' @ qname q) ` set (sel_qualified s)"
  by (simp add: requestedNames_def)

lemma addArg_sound:
  assumes "addArg a (pk, ts) = (pk', ts')"
  shows "set pk' = set pk \<union> (if isTestArg a \<or> a = [] then {} else {a})"
    and "set (requestedNames ts') = set (requestedNames ts) \<union> (if isTestArg a then {a} else {})"
    and "distinct pk \<Longrightarrow> distinct pk'"
proof -
  consider (test) "isTestName a" | (qual) p t where "\<not> isTestName a" "splitQualifiedTest a = Some (p, t)"
    | (package) "\<not> isTestName a" "splitQualifiedTest a = None"
    by (metis option.exhaust surj_pair)
  then have "set pk' = set pk \<union> (if isTestArg a \<or> a = [] then {} else {a})
    \<and> set (requestedNames ts') = set (requestedNames ts) \<union> (if isTestArg a then {a} else {})
    \<and> (distinct pk \<longrightarrow> distinct pk')"
  proof cases
    case test
    then have "a \<noteq> []" by (rule isTestName_not_Nil)
    with test assms show ?thesis
      by (auto simp: addArg_def isTestArg_def set_requestedNames)
  next
    case qual
    then have "a = p @ ''.'' @ t" by (simp add: splitQualifiedTest_iff)
    with qual assms show ?thesis
      by (auto simp: addArg_def isTestArg_def set_requestedNames Let_def split: if_splits
          intro: rev_image_eqI)
  next
    case package
    with assms show ?thesis by (auto simp: addArg_def isTestArg_def)
  qed
  then show "set pk' = set pk \<union> (if isTestArg a \<or> a = [] then {} else {a})"
    and "set (requestedNames ts') = set (requestedNames ts) \<union> (if isTestArg a then {a} else {})"
    and "distinct pk \<Longrightarrow> distinct pk'" by blast+
qed

lemma fold_addArg_sound:
  assumes "fold addArg args (pk, ts) = (pk', ts')"
  shows "set pk' = set pk \<union> {a \<in> set args. \<not> isTestArg a \<and> a \<noteq> []}
    \<and> set (requestedNames ts') = set (requestedNames ts) \<union> {a \<in> set args. isTestArg a}
    \<and> (distinct pk \<longrightarrow> distinct pk')"
  using assms
proof (induction args arbitrary: pk ts)
  case Nil
  then show ?case by simp
next
  case (Cons a args)
  obtain pk1 ts1 where a: "addArg a (pk, ts) = (pk1, ts1)" by (cases "addArg a (pk, ts)")
  with Cons.prems have "fold addArg args (pk1, ts1) = (pk', ts')" by (metis comp_apply fold_Cons)
  from Cons.IH [OF this] addArg_sound [OF a] show ?case by auto
qed

section \<open>Properties\<close>

text \<open>
  A qualified test argument splits at exactly one place: \<open>splitQualifiedTest\<close> accepts an
  argument if and only if it is a non-empty package, a dot and a test name, and it returns
  those two parts, however many dots the package has.
\<close>

theorem splitQualifiedTest_correct:
  "splitQualifiedTest arg = Some (pkg, test)
     \<longleftrightarrow> arg = pkg @ ''.'' @ test \<and> pkg \<noteq> [] \<and> isTestName test"
  by (rule splitQualifiedTest_iff)

text \<open>
  Parsing the command line loses no argument and counts none twice: the requested tests
  are exactly the arguments that are test names or qualified tests, and the packages are
  exactly the other non-empty arguments, each once.
\<close>

theorem parseArgs_partition:
  "set (requestedNames (snd (parseArgs args))) = {a \<in> set args. isTestArg a}
   \<and> set (fst (parseArgs args)) = {a \<in> set args. \<not> isTestArg a \<and> a \<noteq> []}
   \<and> distinct (fst (parseArgs args))"
proof -
  obtain pk ts where p: "parseArgs args = (pk, ts)" by (cases "parseArgs args")
  then have "fold addArg args ([], \<lparr>sel_unqualified = [], sel_qualified = []\<rparr>) = (pk, ts)"
    by (simp add: parseArgs_def)
  from fold_addArg_sound [OF this] p show ?thesis by (simp add: requestedNames_def)
qed

end
