(* ===== verification/Test_Args.thy ===== *)
theory Test_Args
  imports Invocation
begin

text \<open>
  The parts of \<open>gotst.go\<close> that compute on the command line of a test binary and on its output:
  the flags and their checks in \<open>main\<close>, \<open>setTestArg\<close> and the argument lists built with it,
  the capped output buffers, and the scanners for \<open>ExecSnarf\<close> and test attributes.
\<close>

section \<open>Flags\<close>

record flags =
  jobs :: int
  maxOutput :: int
  useCache :: bool
  progressEvery :: duration
  failFast :: bool
  testCount :: int
  testCountSet :: bool
  maxRetries :: int
  buildOnly :: bool
  debugUncached :: bool
  jsonSummary :: bool
  distributed :: bool
  distKey :: string
  helperAddr :: string

datatype startup = Fatal string | RunHelper | Proceed

text \<open>The checks of \<open>main\<close> between \<open>flag.Parse\<close> and \<open>loadProfileDefinitions\<close>.\<close>

definition checkFlags :: "flags \<Rightarrow> nat \<Rightarrow> startup" where
  "checkFlags fl nargs =
     (if jobs fl < 1 then Fatal ''-j must be at least 1''
      else if maxOutput fl < 0 then Fatal ''-max-output must not be negative''
      else if progressEvery fl < 0 then Fatal ''-progress must not be negative''
      else if testCount fl < 1 then Fatal ''-count must be at least 1''
      else if maxRetries fl < 0 then Fatal ''-max-retries must not be negative''
      else if debugUncached fl \<and> testCountSet fl
        then Fatal ''-debug-uncached and -count are mutually exclusive''
      else if debugUncached fl \<and> \<not> useCache fl then Fatal ''-debug-uncached requires -cache=true''
      else if debugUncached fl \<and> buildOnly fl
        then Fatal ''-debug-uncached and -build-only are mutually exclusive''
      else if debugUncached fl \<and> failFast fl
        then Fatal ''-debug-uncached and -failfast are mutually exclusive''
      else if helperAddr fl \<noteq> []
        then (if distributed fl \<or> buildOnly fl \<or> debugUncached fl \<or> nargs \<noteq> 0
              then Fatal ''-helper cannot be combined with -dist, -build-only, -debug-uncached, or package/profile/test arguments''
              else RunHelper)
      else if distributed fl \<and> (buildOnly fl \<or> debugUncached fl)
        then Fatal ''-dist cannot be combined with -build-only or -debug-uncached''
      else if distKey fl \<noteq> [] \<and> \<not> distributed fl then Fatal ''-dist-key requires -dist''
      else Proceed)"

definition flagsOK :: "flags \<Rightarrow> bool" where
  "flagsOK fl \<longleftrightarrow> 1 \<le> jobs fl \<and> 0 \<le> maxOutput fl \<and> 1 \<le> testCount fl \<and> 0 \<le> maxRetries fl"

lemma checkFlags_flagsOK: "checkFlags fl n \<noteq> Fatal msg \<Longrightarrow> checkFlags fl n \<in> {RunHelper, Proceed} \<Longrightarrow> flagsOK fl"
  by (auto simp: checkFlags_def flagsOK_def split: if_splits)

section \<open>Test binaries and their arguments\<close>

record capturedTestBinary =
  bin_pkg :: string
  absBin :: gopath
  workDir :: gopath
  bin_args :: "string list"

record testTask =
  task_bin :: capturedTestBinary
  task_test :: string

abbreviation task_pkg :: "testTask \<Rightarrow> string" where
  "task_pkg t \<equiv> bin_pkg (task_bin t)"

abbreviation task_id :: "testTask \<Rightarrow> string \<times> string" where
  "task_id t \<equiv> (task_pkg t, task_test t)"

definition binHash :: "gopath \<Rightarrow> string" where
  "binHash p = pathBase p"

definition directTestArgs :: "string list \<Rightarrow> string list" where
  "directTestArgs args = filter (\<lambda>arg. arg \<noteq> ''-test.v=test2json'') args"

definition normalizeTestFlag :: "string \<Rightarrow> string" where
  "normalizeTestFlag arg =
     (if arg \<in> {''-short'', ''-testing.short'', ''-test.short''} then ''-test.short=true''
      else (case CutPrefix arg ''-testing.'' of Some rest \<Rightarrow> ''-test.'' @ rest | None \<Rightarrow> arg))"

definition setTestArg :: "string list \<Rightarrow> string \<Rightarrow> string \<Rightarrow> string list" where
  "setTestArg args name value =
     filter (\<lambda>arg. arg \<noteq> name \<and> \<not> HasPrefix arg (name @ ''='')) args @ [name @ ''='' @ value]"

definition showBool :: "bool \<Rightarrow> string" where
  "showBool b = (if b then ''true'' else ''false'')"

definition profileTestArgs :: "string list \<Rightarrow> runProfile \<Rightarrow> string list" where
  "profileTestArgs args profile =
     (let r1 = directTestArgs args;
          r2 = (if shortSet profile then setTestArg r1 ''-test.short'' (showBool (Short profile)) else r1);
          r3 = (if Timeout profile \<noteq> 0
                then setTestArg r2 ''-test.timeout'' (durationString (Timeout profile)) else r2)
      in r3 @ map normalizeTestFlag (TestFlags profile))"

definition effectiveTestArgs :: "flags \<Rightarrow> testTask \<Rightarrow> runProfile \<Rightarrow> string list" where
  "effectiveTestArgs fl task profile =
     (let a1 = setTestArg (profileTestArgs (bin_args (task_bin task)) profile) ''-test.count'' ''1'';
          a2 = (if failFast fl then setTestArg a1 ''-test.failfast'' ''true'' else a1)
      in if jsonSummary fl then setTestArg a2 ''-test.v'' ''true'' else a2)"

text \<open>\<open>regexp.QuoteMeta\<close>, and the per-attempt arguments that \<open>runTestAttempt\<close> adds.\<close>

definition QuoteMeta :: "string \<Rightarrow> string" where
  "QuoteMeta s = concat (map (\<lambda>c.
     if c \<in> set [CHR 0x5C, CHR ''.'', CHR ''+'', CHR ''*'', CHR ''?'', CHR ''('', CHR '')'',
                 CHR 0x7C, CHR ''['', CHR '']'', CHR ''{'', CHR ''}'', CHR 0x5E, CHR ''$'']
     then [CHR 0x5C, c] else [c]) s)"

definition attemptArgs :: "string list \<Rightarrow> string \<Rightarrow> bool \<Rightarrow> gopath \<Rightarrow> string list" where
  "attemptArgs baseArgs test captureDeps logPath =
     (let args = setTestArg baseArgs ''-test.run'' (CHR 0x5E # QuoteMeta test @ ''$'')
      in if captureDeps then setTestArg args ''-test.testlogfile'' logPath else args)"

definition splitCommaList :: "string \<Rightarrow> string list" where
  "splitCommaList v = FieldsFunc (\<lambda>c. c = CHR '','') v"

section \<open>Output buffers\<close>

record cappedBuffer =
  cb_buf :: string
  cb_max :: int
  cb_truncated :: bool

definition newBuffer :: "int \<Rightarrow> cappedBuffer" where
  "newBuffer m = \<lparr>cb_buf = [], cb_max = m, cb_truncated = False\<rparr>"

definition cbWrite :: "string \<Rightarrow> cappedBuffer \<Rightarrow> cappedBuffer" where
  "cbWrite p b =
     (let n = int (length p);
          remain = cb_max b - int (length (cb_buf b));
          b1 = (if remain > 0
                then b\<lparr>cb_buf := cb_buf b @ (if n > remain then take (nat remain) p else p)\<rparr> else b)
      in if n > remain then b1\<lparr>cb_truncated := True\<rparr> else b1)"

definition cbString :: "cappedBuffer \<Rightarrow> string" where
  "cbString b =
     (if cb_truncated b
      then cb_buf b @ [nl] @ ''[gotst: output truncated after '' @ showInt (cb_max b) @ '' bytes]'' @ [nl]
      else cb_buf b)"

record outputMap =
  om_max :: int
  om_m :: "(string, cappedBuffer) gomap"

definition omAdd :: "string \<Rightarrow> string \<Rightarrow> outputMap \<Rightarrow> outputMap" where
  "omAdd pkg out m =
     (let buf = (case map_of (om_m m) pkg of Some b \<Rightarrow> b | None \<Rightarrow> newBuffer (om_max m))
      in m\<lparr>om_m := AList.update pkg (cbWrite out buf) (om_m m)\<rparr>)"

definition omGet :: "outputMap \<Rightarrow> string \<Rightarrow> string" where
  "omGet m pkg = (case map_of (om_m m) pkg of None \<Rightarrow> [] | Some b \<Rightarrow> cbString b)"

section \<open>Scanning output\<close>

record ExecSnarf =
  WorkingDir :: gopath
  ExeHash :: string
  Args :: "string list"

definition emptySnarf :: ExecSnarf where
  "emptySnarf = \<lparr>WorkingDir = [], ExeHash = [], Args = []\<rparr>"

text \<open>The result is the pair of \<open>found\<close> and the decoder's answer; \<open>unmarshal\<close> decodes the JSON text.\<close>

fun findExecSnarfLine :: "(string \<Rightarrow> string + ExecSnarf) \<Rightarrow> string list \<Rightarrow> bool \<times> (string + ExecSnarf)" where
  "findExecSnarfLine unmarshal [] = (False, Inr emptySnarf)"
| "findExecSnarfLine unmarshal (line # lines) =
     (case CutPrefix line ''ExecSnarf:'' of
        None \<Rightarrow> findExecSnarfLine unmarshal lines
      | Some jsonText \<Rightarrow> (True, unmarshal jsonText))"

definition findExecSnarf :: "(string \<Rightarrow> string + ExecSnarf) \<Rightarrow> string \<Rightarrow> bool \<times> (string + ExecSnarf)" where
  "findExecSnarf unmarshal output = findExecSnarfLine unmarshal (SplitByte nl output)"

definition attrOfLine :: "string \<Rightarrow> (string \<times> string) option" where
  "attrOfLine line0 =
     (case CutPrefix (TrimPrefix line0 [CHR 0x16]) ''=== ATTR  '' of
        None \<Rightarrow> None
      | Some line \<Rightarrow>
          (case CutByte CHR '' '' line of
             None \<Rightarrow> None
           | Some (_, rest) \<Rightarrow>
               (case CutByte CHR '' '' rest of
                  None \<Rightarrow> None
                | Some (key, value) \<Rightarrow> if key = [] then None else Some (key, value))))"

definition testAttrs :: "string \<Rightarrow> (string, string) gomap" where
  "testAttrs output =
     foldl (\<lambda>ret line. case attrOfLine line of None \<Rightarrow> ret | Some (k, v) \<Rightarrow> AList.update k v ret)
       [] (SplitByte nl output)"

section \<open>Lemmas on arguments\<close>

text \<open>\<open>isArg name a\<close>: the argument \<open>a\<close> sets the flag \<open>name\<close>.\<close>

definition isArg :: "string \<Rightarrow> string \<Rightarrow> bool" where
  "isArg name a \<longleftrightarrow> a = name \<or> HasPrefix a (name @ ''='')"

lemma isArg_self [simp]: "isArg name (name @ CHR ''='' # v)"
  by (auto simp: isArg_def HasPrefix_iff)

lemma setTestArg_eq: "setTestArg args name v = filter (Not \<circ> isArg name) args @ [name @ ''='' @ v]"
  by (simp add: setTestArg_def isArg_def comp_def)

lemma setTestArg_same: "filter (isArg name) (setTestArg args name v) = [name @ ''='' @ v]"
  by (simp add: setTestArg_eq comp_def filter_empty_conv)

lemma setTestArg_other:
  assumes "\<And>a. isArg name a \<Longrightarrow> \<not> isArg other a"
  shows "filter (isArg other) (setTestArg args name v) = filter (isArg other) args"
proof -
  have "\<not> isArg other (name @ ''='' @ v)" using assms by simp
  moreover have "filter (isArg other) (filter (Not \<circ> isArg name) args) = filter (isArg other) args"
    using assms by (induction args) auto
  ultimately show ?thesis by (simp add: setTestArg_eq)
qed

lemma isArg_name: "CHR ''='' \<notin> set name \<Longrightarrow> isArg name a \<Longrightarrow> takeWhile (\<lambda>c. c \<noteq> CHR ''='') a = name"
  by (auto simp: isArg_def HasPrefix_iff takeWhile_append takeWhile_eq_all_conv)

lemma isArg_disjoint:
  "CHR ''='' \<notin> set name \<Longrightarrow> CHR ''='' \<notin> set other \<Longrightarrow> name \<noteq> other \<Longrightarrow> isArg name a \<Longrightarrow> \<not> isArg other a"
  by (metis isArg_name)

lemma setTestArg_distinct:
  assumes "CHR ''='' \<notin> set name" and "CHR ''='' \<notin> set other" and "name \<noteq> other"
  shows "filter (isArg other) (setTestArg args name v) = filter (isArg other) args"
  by (rule setTestArg_other) (rule isArg_disjoint [OF assms])

lemma effectiveTestArgs_count:
  "filter (isArg ''-test.count'') (effectiveTestArgs fl task profile) = [''-test.count=1'']"
  using setTestArg_same [of "''-test.count''" _ "''1''"]
  by (simp add: effectiveTestArgs_def Let_def setTestArg_distinct)

lemma attemptArgs_run:
  "filter (isArg ''-test.run'') (attemptArgs base test cd logPath) = [''-test.run=^'' @ QuoteMeta test @ ''$'']"
  using setTestArg_same [of "''-test.run''" base "CHR 0x5E # QuoteMeta test @ ''$''"]
  by (simp add: attemptArgs_def Let_def setTestArg_distinct)

lemma attemptArgs_count:
  "filter (isArg ''-test.count'') (attemptArgs base test cd logPath) = filter (isArg ''-test.count'') base"
  by (simp add: attemptArgs_def Let_def setTestArg_distinct)

section \<open>Lemmas on buffers\<close>

definition bufferHolds :: "int \<Rightarrow> string \<Rightarrow> cappedBuffer \<Rightarrow> bool" where
  "bufferHolds m s b \<longleftrightarrow> cb_max b = m \<and> cb_buf b = take (nat m) s
     \<and> (cb_truncated b \<longleftrightarrow> int (length s) > m)"

lemma bufferHolds_new: "0 \<le> m \<Longrightarrow> bufferHolds m [] (newBuffer m)"
  by (simp add: bufferHolds_def newBuffer_def)

lemma bufferHolds_write:
  assumes "0 \<le> m" and "bufferHolds m s b"
  shows "bufferHolds m (s @ p) (cbWrite p b)"
proof -
  have remain: "m - int (length (cb_buf b)) = int (nat m - length s)"
    using assms by (auto simp: bufferHolds_def)
  show ?thesis
    using assms by (auto simp: bufferHolds_def cbWrite_def Let_def nat_diff_distrib)
qed

lemma bufferHolds_writes:
  "0 \<le> m \<Longrightarrow> bufferHolds m s b \<Longrightarrow> bufferHolds m (s @ concat ws) (fold cbWrite ws b)"
proof (induction ws arbitrary: s b)
  case Nil
  then show ?case by simp
next
  case (Cons w ws)
  from Cons.IH [OF Cons.prems(1) bufferHolds_write [OF Cons.prems, of w]] show ?case by simp
qed

definition outputsOf :: "string \<Rightarrow> (string \<times> string) list \<Rightarrow> string list" where
  "outputsOf pkg adds = map snd (filter (\<lambda>a. fst a = pkg) adds)"

lemma omAdd_max [simp]: "om_max (omAdd pkg out m) = om_max m"
  by (simp add: omAdd_def Let_def)

lemma omAdds_buffer:
  "map_of (om_m (fold (\<lambda>(p, out). omAdd p out) adds m)) pkg =
     (case map_of (om_m m) pkg of
        Some b \<Rightarrow> Some (fold cbWrite (outputsOf pkg adds) b)
      | None \<Rightarrow> if outputsOf pkg adds = [] then None
                else Some (fold cbWrite (outputsOf pkg adds) (newBuffer (om_max m))))"
proof (induction adds arbitrary: m)
  case Nil
  then show ?case by (simp add: outputsOf_def split: option.splits)
next
  case (Cons a adds)
  then show ?case
    by (cases a) (auto simp: outputsOf_def omAdd_def Let_def split: option.splits)
qed

lemma newBuffer_writes: "0 \<le> m \<Longrightarrow> bufferHolds m (concat ws) (fold cbWrite ws (newBuffer m))"
  using bufferHolds_writes [OF _ bufferHolds_new, of m ws] by simp

section \<open>Properties\<close>

text \<open>
  Every attempt runs exactly one test exactly once: whatever arguments \<open>go test\<close> captured and
  the profile added, the arguments of an attempt set \<open>-test.count\<close> once, to 1, and \<open>-test.run\<close>
  once, to the anchored and quoted name of the task's test.
\<close>

theorem attempt_selects_one_test:
  "filter (isArg ''-test.count'')
       (attemptArgs (effectiveTestArgs fl task profile) (task_test task) cd logPath) = [''-test.count=1'']
   \<and> filter (isArg ''-test.run'')
       (attemptArgs (effectiveTestArgs fl task profile) (task_test task) cd logPath)
     = [''-test.run=^'' @ QuoteMeta (task_test task) @ ''$'']"
  by (simp add: attemptArgs_run attemptArgs_count effectiveTestArgs_count)

text \<open>
  A capped buffer keeps the first \<open>max\<close> bytes of everything written to it, however the
  output was cut into writes, and says that output was truncated exactly when more than \<open>max\<close>
  bytes were written.
\<close>

theorem cappedBuffer_contents:
  assumes "0 \<le> m"
  shows "cb_buf (fold cbWrite ws (newBuffer m)) = take (nat m) (concat ws)
    \<and> (cb_truncated (fold cbWrite ws (newBuffer m)) \<longleftrightarrow> int (length (concat ws)) > m)"
  using newBuffer_writes [OF assms, of ws] by (simp add: bufferHolds_def)

theorem cappedBuffer_contents_witness:
  "cb_buf (fold cbWrite [''ab'', ''cd''] (newBuffer 3)) = ''abc''
    \<and> cb_truncated (fold cbWrite [''ab'', ''cd''] (newBuffer 3))"
  using cappedBuffer_contents [of 3 "[''ab'', ''cd'']"] by simp

text \<open>
  The output map keeps packages apart: what it returns for a package is the capped text of
  that package's own outputs in order, and nothing if the package wrote nothing, however the
  outputs of several packages interleave.
\<close>

theorem outputMap_separates:
  "omGet (fold (\<lambda>(p, out). omAdd p out) adds \<lparr>om_max = m, om_m = []\<rparr>) pkg =
     (if outputsOf pkg adds = [] then [] else cbString (fold cbWrite (outputsOf pkg adds) (newBuffer m)))"
  by (simp add: omGet_def omAdds_buffer)

text \<open>
  The value of a flag given as a separate argument is left behind by \<open>setTestArg\<close>: it drops the
  name but not the value, which then ends flag parsing in the test binary.
\<close>

lemma setTestArg_leaves_separate_value:
  "setTestArg [''-test.count'', ''5''] ''-test.count'' ''1'' = [''5'', ''-test.count=1'']"
  by (simp add: setTestArg_def HasPrefix_def)

end
