(* ===== verification/Sha256.thy ===== *)
theory Sha256
  imports Go_Strings "HOL-Library.Word"
begin

text \<open>
  SHA-256 on byte strings (\<open>crypto/sha256\<close> with \<open>hex.EncodeToString\<close>), on 32-bit words. The
  components take a hash function as an argument; this one instantiates their interfaces.
\<close>

unbundle bit_operations_syntax

type_synonym u32 = "32 word"
type_synonym shaState = "u32 \<times> u32 \<times> u32 \<times> u32 \<times> u32 \<times> u32 \<times> u32 \<times> u32"

text \<open>
  The constants are the first 32 fractional bits of the cube roots of the first 64 primes and of the
  square roots of the first 8. \<open>rootBits k b N\<close> is the largest number of \<open>b\<close> bits whose \<open>k\<close>-th power is
  at most \<open>N\<close>, found from its highest bit down.
\<close>

definition rootBits :: "nat \<Rightarrow> nat \<Rightarrow> int \<Rightarrow> int" where
  "rootBits k b N = fold (\<lambda>i x. if (x + 2 ^ i) ^ k \<le> N then x + 2 ^ i else x) (rev [0..<b]) 0"

definition fracRoot :: "nat \<Rightarrow> int \<Rightarrow> u32" where
  "fracRoot k p = word_of_int (rootBits k 37 (p * 2 ^ (32 * k)))"

definition smallPrimes :: "int list" where
  "smallPrimes = filter (\<lambda>n. list_all (\<lambda>d. n mod d \<noteq> 0) [2..n - 1]) [2..311]"

definition shaK :: "u32 list" where
  "shaK = map (fracRoot 3) smallPrimes"

definition shaInit :: shaState where
  "shaInit = (fracRoot 2 2, fracRoot 2 3, fracRoot 2 5, fracRoot 2 7, fracRoot 2 11, fracRoot 2 13, fracRoot 2 17, fracRoot 2 19)"

definition rotr :: "nat \<Rightarrow> u32 \<Rightarrow> u32" where
  "rotr n w = drop_bit n w OR push_bit (32 - n) w"

fun wordsOf :: "nat list \<Rightarrow> u32 list" where
  "wordsOf (a # b # c # d # r) =
     word_of_nat (a * 16777216 + b * 65536 + c * 256 + d) # wordsOf r"
| "wordsOf _ = []"

definition bigEndian8 :: "nat \<Rightarrow> nat list" where
  "bigEndian8 n = map (\<lambda>i. n div 256 ^ (7 - i) mod 256) [0..<8]"

definition shaPad :: "string \<Rightarrow> nat list" where
  "shaPad s =
     (let n = length s; z = (119 - n mod 64) mod 64
      in map of_char s @ [128] @ replicate z 0 @ bigEndian8 (8 * n))"

text \<open>One more word of the message schedule, kept newest first.\<close>

definition schedStep :: "u32 list \<Rightarrow> u32 list" where
  "schedStep ws =
     (let w2 = ws ! 1; w7 = ws ! 6; w15 = ws ! 14; w16 = ws ! 15;
          s0 = rotr 7 w15 XOR rotr 18 w15 XOR drop_bit 3 w15;
          s1 = rotr 17 w2 XOR rotr 19 w2 XOR drop_bit 10 w2
      in (w16 + s0 + w7 + s1) # ws)"

definition schedule :: "u32 list \<Rightarrow> u32 list" where
  "schedule block = rev ((schedStep ^^ 48) (rev block))"

definition shaRound :: "u32 \<times> u32 \<Rightarrow> shaState \<Rightarrow> shaState" where
  "shaRound kw st =
     (case st of (a, b, c, d, e, f, g, h) \<Rightarrow>
        let s1 = rotr 6 e XOR rotr 11 e XOR rotr 25 e;
            ch = (e AND f) XOR (NOT e AND g);
            t1 = h + s1 + ch + fst kw + snd kw;
            s0 = rotr 2 a XOR rotr 13 a XOR rotr 22 a;
            maj = (a AND b) XOR (a AND c) XOR (b AND c)
        in (t1 + s0 + maj, a, b, c, d + t1, e, f, g))"

definition shaBlock :: "u32 list \<Rightarrow> shaState \<Rightarrow> shaState" where
  "shaBlock block st =
     (case fold shaRound (zip shaK (schedule block)) st of (a, b, c, d, e, f, g, h) \<Rightarrow>
      case st of (a', b', c', d', e', f', g', h') \<Rightarrow>
        (a + a', b + b', c + c', d + d', e + e', f + f', g + g', h + h'))"

function shaBlocks :: "u32 list \<Rightarrow> shaState \<Rightarrow> shaState" where
  "shaBlocks ws st = (if length ws < 16 then st else shaBlocks (drop 16 ws) (shaBlock (take 16 ws) st))"
  by pat_completeness auto
termination
  by (relation "measure (\<lambda>(ws, st). length ws)") auto

declare shaBlocks.simps [simp del]

definition hexWord :: "u32 \<Rightarrow> string" where
  "hexWord w = map (\<lambda>i. hexDigit (unat w div 16 ^ (7 - i) mod 16)) [0..<8]"

definition sha256hex :: "string \<Rightarrow> string" where
  "sha256hex s =
     (case shaBlocks (wordsOf (shaPad s)) shaInit of (a, b, c, d, e, f, g, h) \<Rightarrow>
        hexWord a @ hexWord b @ hexWord c @ hexWord d @ hexWord e @ hexWord f @ hexWord g @ hexWord h)"

lemma length_sha256hex: "length (sha256hex s) = 64"
  by (simp add: sha256hex_def hexWord_def split: prod.splits)

lemma hexDigit_lower: "n < 16 \<Longrightarrow> (48 \<le> (of_char (hexDigit n) :: nat) \<and> (of_char (hexDigit n) :: nat) \<le> 57)
    \<or> (97 \<le> (of_char (hexDigit n) :: nat) \<and> (of_char (hexDigit n) :: nat) \<le> 102)"
  by (auto simp: hexDigit_def)

definition lowerHex :: "char \<Rightarrow> bool" where
  "lowerHex c \<longleftrightarrow> (48 \<le> (of_char c :: nat) \<and> (of_char c :: nat) \<le> 57)
     \<or> (97 \<le> (of_char c :: nat) \<and> (of_char c :: nat) \<le> 102)"

lemma hexWord_lower: "c \<in> set (hexWord w) \<Longrightarrow> lowerHex c"
proof -
  assume "c \<in> set (hexWord w)"
  then obtain k where c: "c = hexDigit (k mod 16)" by (auto simp: hexWord_def)
  have "k mod 16 < 16" by simp
  from hexDigit_lower [OF this] c show ?thesis by (simp only: lowerHex_def)
qed

lemma sha256hex_lower: "c \<in> set (sha256hex s) \<Longrightarrow> lowerHex c"
  using hexWord_lower by (auto simp: sha256hex_def split: prod.splits)

end
