(* ===== verification/Test_Cache.thy ===== *)
theory Test_Cache
  imports Test_Args Sha256
begin

text \<open>
  \<open>testcache.go\<close>: the key of a cached test result, the dependencies recorded from a test log,
  their validation against the current environment and file system, and the on-disk cache.
  The environment and the file system are a \<open>world\<close>; SHA-256, the JSON encoding of a
  fingerprint and the calendar formatting of a time are the fields of a \<open>hashing\<close> record, so
  every definition here takes them as arguments. A JSON cache file is the value it encodes,
  or \<open>BadJson\<close> when \<open>json.Unmarshal\<close> rejects it.
\<close>

section \<open>Data\<close>

record testCacheKey =
  key_BinarySHA256 :: string
  key_Package :: string
  key_Test :: string
  key_WorkingDir :: gopath
  key_Args :: "string list"

record fileState =
  fs_Size :: int
  fs_Mode :: string
  fs_ModTime :: time
  fs_IsDir :: bool

record fileDependency =
  fd_Exists :: bool
  fd_Error :: string
  fd_Stat :: "fileState option"
  fd_Lstat :: "fileState option"
  fd_ContentSHA256 :: string
  fd_DirectorySHA256 :: string
  fd_FingerprintSHA256 :: string

record cacheDependency =
  dep_Operation :: string
  dep_Name :: string
  dep_Path :: gopath
  dep_Present :: "bool option"
  dep_ValueSHA256 :: string
  dep_File :: "fileDependency option"

record testCacheEntry =
  entry_Version :: int
  entry_Key :: testCacheKey
  entry_Created :: time
  entry_PassedIn :: duration
  entry_Dependencies :: "cacheDependency list"

text \<open>What the operating system says about a file, and the world the code observes.\<close>

record fileInfo =
  fi_state :: fileState
  fi_regular :: bool

record world =
  LookupEnv :: "string \<Rightarrow> string option"
  osStat :: "gopath \<Rightarrow> string + fileInfo"
  osLstat :: "gopath \<Rightarrow> string + fileInfo"
  readAll :: "gopath \<Rightarrow> string + string"
  readDir :: "gopath \<Rightarrow> string + (string \<times> (string + fileInfo)) list"

type_synonym canonical = "bool \<times> string \<times> fileState option \<times> fileState option \<times> string \<times> string"

record hashing =
  sha :: "string \<Rightarrow> string"
  marshal :: "canonical \<Rightarrow> string + string"
  rfc3339 :: "time \<Rightarrow> string"

definition testCacheVersion :: int where "testCacheVersion = 2"

section \<open>The key\<close>

definition keyText :: "testCacheKey \<Rightarrow> string" where
  "keyText k =
     ''gotst test cache key v'' @ showInt testCacheVersion @ [nl]
     @ ''binary '' @ key_BinarySHA256 k @ [nl]
     @ ''package '' @ key_Package k @ [nl]
     @ ''test '' @ key_Test k @ [nl]
     @ ''working dir '' @ key_WorkingDir k @ [nl]
     @ concat (map (\<lambda>arg. ''arg '' @ Quote arg @ [nl]) (key_Args k))"

definition keyId :: "hashing \<Rightarrow> testCacheKey \<Rightarrow> string" where
  "keyId h k = sha h (keyText k)"

definition cacheKeyForTask :: "flags \<Rightarrow> runProfile \<Rightarrow> testTask \<Rightarrow> testCacheKey" where
  "cacheKeyForTask fl profile task =
     \<lparr>key_BinarySHA256 = binHash (absBin (task_bin task)), key_Package = task_pkg task,
      key_Test = task_test task, key_WorkingDir = workDir (task_bin task),
      key_Args = effectiveTestArgs fl task profile\<rparr>"

definition safeRune :: "nat \<Rightarrow> char" where
  "safeRune r =
     (if (97 \<le> r \<and> r \<le> 122) \<or> (65 \<le> r \<and> r \<le> 90) \<or> (48 \<le> r \<and> r \<le> 57) \<or> r = 45 \<or> r = 95 \<or> r = 46
      then char_of r else CHR ''_'')"

definition safeCacheName :: "string \<Rightarrow> string" where
  "safeCacheName s = (let b = take 80 (map safeRune (runes s)) in if b = [] then ''test'' else b)"

definition entryPath :: "hashing \<Rightarrow> gopath \<Rightarrow> testCacheKey \<Rightarrow> gopath" where
  "entryPath h dir key =
     (let bin = (if length (key_BinarySHA256 key) < 2 then ''invalid-'' @ sha h (key_BinarySHA256 key)
                 else key_BinarySHA256 key)
      in pathJoin [dir, take 2 bin, bin,
                   safeCacheName (key_Test key) @ ''-'' @ keyId h key @ ''.json''])"

section \<open>Fingerprints\<close>

definition hashPresenceAndValue :: "hashing \<Rightarrow> bool \<Rightarrow> string \<Rightarrow> string" where
  "hashPresenceAndValue h present value = sha h ((if present then CHR 0x01 else CHR 0x00) # value)"

definition environmentDependency :: "hashing \<Rightarrow> world \<Rightarrow> string \<Rightarrow> cacheDependency" where
  "environmentDependency h w name =
     (let present = LookupEnv w name \<noteq> None;
          value = (case LookupEnv w name of Some v \<Rightarrow> v | None \<Rightarrow> [])
      in \<lparr>dep_Operation = ''getenv'', dep_Name = name, dep_Path = [], dep_Present = Some present,
          dep_ValueSHA256 = hashPresenceAndValue h present value, dep_File = None\<rparr>)"

definition writeFileState :: "hashing \<Rightarrow> fileState \<Rightarrow> string" where
  "writeFileState h st =
     showInt (fs_Size st) @ '' '' @ fs_Mode st @ '' '' @ rfc3339 h (fs_ModTime st) @ '' ''
     @ showBool (fs_IsDir st) @ [nl]"

definition dirText :: "hashing \<Rightarrow> (string \<times> (string + fileInfo)) list \<Rightarrow> string" where
  "dirText h entries =
     concat (map (\<lambda>(name, info).
       Quote name @ [nl]
       @ (case info of Inl e \<Rightarrow> ''error '' @ e @ [nl] | Inr fi \<Rightarrow> writeFileState h (fi_state fi))) entries)"

text \<open>The content and the directory text that \<open>fingerprintPath\<close> hashes, or the error it returns.\<close>

definition fingerprintInput ::
  "hashing \<Rightarrow> world \<Rightarrow> gopath \<Rightarrow> bool \<Rightarrow> string + (string option \<times> string option)" where
  "fingerprintInput h w path readContent =
     (case osStat w path of
        Inr info \<Rightarrow>
          if \<not> readContent then Inr (None, None)
          else if fi_regular info
            then (case readAll w path of Inl e \<Rightarrow> Inl e | Inr data \<Rightarrow> Inr (Some data, None))
          else if fs_IsDir (fi_state info)
            then (case readDir w path of Inl e \<Rightarrow> Inl e | Inr es \<Rightarrow> Inr (None, Some (dirText h es)))
          else Inr (None, None)
      | Inl _ \<Rightarrow> Inr (None, None))"

definition hashOpt :: "hashing \<Rightarrow> string option \<Rightarrow> string" where
  "hashOpt h t = (case t of None \<Rightarrow> [] | Some d \<Rightarrow> sha h d)"

definition fileError :: "world \<Rightarrow> gopath \<Rightarrow> string" where
  "fileError w path =
     (let e1 = (case osStat w path of Inl e \<Rightarrow> if e \<noteq> ErrNotExist then e else [] | Inr _ \<Rightarrow> [])
      in case osLstat w path of
           Inl e \<Rightarrow> if e \<noteq> ErrNotExist \<and> e1 = [] then e else e1
         | Inr _ \<Rightarrow> e1)"

definition infoState :: "string + fileInfo \<Rightarrow> fileState option" where
  "infoState r = (case r of Inl _ \<Rightarrow> None | Inr fi \<Rightarrow> Some (fi_state fi))"

definition fingerprintPath :: "hashing \<Rightarrow> world \<Rightarrow> gopath \<Rightarrow> bool \<Rightarrow> string + fileDependency" where
  "fingerprintPath h w path readContent =
     (let exists = (infoState (osStat w path) \<noteq> None \<or> infoState (osLstat w path) \<noteq> None);
          err = fileError w path
      in case fingerprintInput h w path readContent of
           Inl e \<Rightarrow> Inl e
         | Inr (content, directory) \<Rightarrow>
             (case marshal h (exists, err, infoState (osStat w path), infoState (osLstat w path),
                              hashOpt h content, hashOpt h directory) of
                Inl e \<Rightarrow> Inl e
              | Inr canon \<Rightarrow>
                  Inr \<lparr>fd_Exists = exists, fd_Error = err, fd_Stat = infoState (osStat w path),
                       fd_Lstat = infoState (osLstat w path), fd_ContentSHA256 = hashOpt h content,
                       fd_DirectorySHA256 = hashOpt h directory, fd_FingerprintSHA256 = sha h canon\<rparr>))"

section \<open>Recording dependencies\<close>

definition pathWithinRoot :: "gopath \<Rightarrow> gopath \<Rightarrow> bool" where
  "pathWithinRoot path root \<longleftrightarrow> root \<noteq> []
     \<and> (case pathRel root path of None \<Rightarrow> False | Some rel \<Rightarrow> rel \<noteq> ''..'' \<and> \<not> HasPrefix rel ''../'')"

definition depKey :: "cacheDependency \<Rightarrow> string" where
  "depKey d = dep_Operation d @ [nul] @ dep_Name d @ [nul] @ dep_Path d"

text \<open>\<open>slices.Backward\<close>, the \<open>seen\<close> set and the final \<open>slices.Reverse\<close>.\<close>

fun dedupBackward :: "cacheDependency list \<Rightarrow> string list \<Rightarrow> cacheDependency list" where
  "dedupBackward [] seen = []"
| "dedupBackward (d # ds) seen =
     (if depKey d \<in> set seen then dedupBackward ds seen
      else d # dedupBackward ds (depKey d # seen))"

definition deduplicateDependencies :: "cacheDependency list \<Rightarrow> cacheDependency list" where
  "deduplicateDependencies deps = rev (dedupBackward (rev deps) [])"

definition isFileOp :: "string \<Rightarrow> bool" where
  "isFileOp op \<longleftrightarrow> op \<in> {''open'', ''stat'', ''chdir''}"

fun parseLogLines :: "hashing \<Rightarrow> world \<Rightarrow> gopath \<Rightarrow> gopath \<Rightarrow> string list \<Rightarrow> cacheDependency list
    \<Rightarrow> string + cacheDependency list" where
  "parseLogLines h w root pwd [] deps = Inr deps"
| "parseLogLines h w root pwd (line # lines) deps =
     (case CutByte CHR '' '' line of
        None \<Rightarrow> Inl (''malformed test log line '' @ Quote line)
      | Some (op, name) \<Rightarrow>
          if name = [] then Inl (''malformed test log line '' @ Quote line)
          else if op = ''getenv''
            then parseLogLines h w root pwd lines (deps @ [environmentDependency h w name])
          else if isFileOp op
            then (let path = pathClean (if pathIsAbs name then name else pathJoin [pwd, name])
                  in if op \<noteq> ''chdir'' \<and> \<not> pathWithinRoot path root
                     then parseLogLines h w root pwd lines deps
                     else (case fingerprintPath h w path (op = ''open'') of
                             Inl e \<Rightarrow> Inl (''fingerprinting '' @ op @ '' '' @ Quote path @ '': '' @ e)
                           | Inr fd \<Rightarrow>
                               parseLogLines h w root (if op = ''chdir'' then path else pwd) lines
                                 (deps @ [\<lparr>dep_Operation = op, dep_Name = name, dep_Path = path,
                                           dep_Present = None, dep_ValueSHA256 = [], dep_File = Some fd\<rparr>])))
          else Inl (''unknown test log operation '' @ Quote op))"

text \<open>
  \<open>bufio.Scanner\<close>: the lines up to the first one of 64 KiB or more (then \<open>bufio.ErrTooLong\<close>),
  without a trailing carriage return, and without an empty last line.
\<close>

definition scanLines :: "string \<Rightarrow> string list \<times> bool" where
  "scanLines s =
     (let raw = SplitByte nl s;
          ls = (if last raw = [] then butlast raw else raw);
          ok = takeWhile (\<lambda>l. length l < 65536) ls
      in (map (\<lambda>l. if l \<noteq> [] \<and> last l = CHR 0x0D then butlast l else l) ok, length ok < length ls))"

definition parseTestLog ::
  "hashing \<Rightarrow> world \<Rightarrow> string + string \<Rightarrow> gopath \<Rightarrow> gopath \<Rightarrow> string + cacheDependency list" where
  "parseTestLog h w file workdir packageRoot =
     (case file of
        Inl e \<Rightarrow> Inl e
      | Inr content \<Rightarrow>
          (case scanLines content of
             (header # lines, tooLong) \<Rightarrow>
               if header \<noteq> ''# test log'' then Inl ''malformed test log header''
               else (case parseLogLines h w packageRoot workdir lines [environmentDependency h w ''GODEBUG''] of
                       Inl e \<Rightarrow> Inl e
                     | Inr deps \<Rightarrow> if tooLong then Inl ''bufio.Scanner: token too long''
                                    else Inr (deduplicateDependencies deps))
           | ([], _) \<Rightarrow> Inl ''malformed test log header''))"

section \<open>Validating dependencies\<close>

definition currentDependency :: "hashing \<Rightarrow> world \<Rightarrow> cacheDependency \<Rightarrow> string + cacheDependency" where
  "currentDependency h w old =
     (if dep_Operation old = ''getenv'' then Inr (environmentDependency h w (dep_Name old))
      else if isFileOp (dep_Operation old)
        then (case fingerprintPath h w (dep_Path old) (dep_Operation old = ''open'') of
                Inl e \<Rightarrow> Inl e
              | Inr fd \<Rightarrow> Inr \<lparr>dep_Operation = dep_Operation old, dep_Name = dep_Name old,
                               dep_Path = dep_Path old, dep_Present = None, dep_ValueSHA256 = [],
                               dep_File = Some fd\<rparr>)
      else Inl (''unknown cached dependency operation '' @ Quote (dep_Operation old)))"

definition dependenciesEqual :: "cacheDependency \<Rightarrow> cacheDependency \<Rightarrow> bool" where
  "dependenciesEqual a b \<longleftrightarrow>
     dep_Operation a = dep_Operation b \<and> dep_Name a = dep_Name b \<and> dep_Path a = dep_Path b
     \<and> dep_ValueSHA256 a = dep_ValueSHA256 b \<and> dep_Present a = dep_Present b
     \<and> map_option fd_FingerprintSHA256 (dep_File a) = map_option fd_FingerprintSHA256 (dep_File b)"

definition shortHash :: "string \<Rightarrow> string" where
  "shortHash hash = (if length hash > 12 then take 12 hash else hash)"

definition environmentSummary :: "cacheDependency \<Rightarrow> string" where
  "environmentSummary dep =
     (if dep_Present dep = Some True then ''set, sha256='' @ shortHash (dep_ValueSHA256 dep) else ''unset'')"

definition fileDependencySummary :: "hashing \<Rightarrow> fileDependency option \<Rightarrow> string" where
  "fileDependencySummary h dep =
     (case dep of
        None \<Rightarrow> ''no fingerprint''
      | Some d \<Rightarrow>
          if \<not> fd_Exists d then (if fd_Error d \<noteq> [] then ''missing/error='' @ fd_Error d else ''missing'')
          else Join '' ''
            ((case fd_Stat d of None \<Rightarrow> []
              | Some st \<Rightarrow> [''size='' @ showInt (fs_Size st) @ '' mode='' @ fs_Mode st
                            @ '' mtime='' @ rfc3339 h (fs_ModTime st)])
             @ (if fd_ContentSHA256 d \<noteq> [] then [''content='' @ shortHash (fd_ContentSHA256 d)] else [])
             @ (if fd_DirectorySHA256 d \<noteq> [] then [''directory='' @ shortHash (fd_DirectorySHA256 d)] else [])
             @ (if fd_Error d \<noteq> [] then [''error='' @ fd_Error d] else [])))"

definition describeDependencyChange :: "hashing \<Rightarrow> cacheDependency \<Rightarrow> cacheDependency \<Rightarrow> string" where
  "describeDependencyChange h old current =
     (if dep_Operation old = ''getenv''
      then ''getenv '' @ Quote (dep_Name old) @ '' changed ('' @ environmentSummary old @ '' -> ''
           @ environmentSummary current @ '')''
      else dep_Operation old @ '' '' @ Quote (dep_Path old) @ '' changed (''
           @ fileDependencySummary h (dep_File old) @ '' -> '' @ fileDependencySummary h (dep_File current)
           @ '')'')"

fun changedDependencies :: "hashing \<Rightarrow> world \<Rightarrow> cacheDependency list \<Rightarrow> string + string list" where
  "changedDependencies h w [] = Inr []"
| "changedDependencies h w (old # deps) =
     (case currentDependency h w old of
        Inl e \<Rightarrow> Inl e
      | Inr current \<Rightarrow>
          (case changedDependencies h w deps of
             Inl e \<Rightarrow> Inl e
           | Inr changes \<Rightarrow>
               Inr (if dependenciesEqual old current then changes
                    else describeDependencyChange h old current # changes)))"

text \<open>\<open>Inl\<close> is the error result, whatever the boolean that comes with it.\<close>

definition validateDependencies :: "hashing \<Rightarrow> world \<Rightarrow> cacheDependency list \<Rightarrow> string + bool" where
  "validateDependencies h w deps = map_sum id (\<lambda>changes. changes = []) (changedDependencies h w deps)"

section \<open>The disk cache\<close>

datatype cacheFile = Json testCacheEntry | BadJson

datatype cacheError = CacheMiss | CacheErr string

text \<open>
  \<open>Get\<close> and \<open>Put\<close> of \<open>diskTestCache\<close>. \<open>canceled\<close> is \<open>ctx.Err() != nil\<close>; \<open>fault\<close> is an error of the
  operating system while reading or while writing the temporary file, which leaves the entry
  as it was because the file is renamed into place only at the end.
\<close>

type_synonym cacheFS = "(gopath, cacheFile) gomap"

definition cacheGet :: "hashing \<Rightarrow> gopath \<Rightarrow> bool \<Rightarrow> string option \<Rightarrow> cacheFS \<Rightarrow> testCacheKey
    \<Rightarrow> cacheError + testCacheEntry" where
  "cacheGet h dir canceled fault fs key =
     (if canceled then Inl (CacheErr ''context canceled'')
      else case fault of
        Some e \<Rightarrow> Inl (CacheErr e)
      | None \<Rightarrow>
          (case map_of fs (entryPath h dir key) of
             None \<Rightarrow> Inl CacheMiss
           | Some BadJson \<Rightarrow> Inl (CacheErr ''decoding cache entry'')
           | Some (Json entry) \<Rightarrow>
               if entry_Version entry \<noteq> testCacheVersion \<or> keyId h (entry_Key entry) \<noteq> keyId h key
               then Inl (CacheErr ''cache entry key or version mismatch'')
               else Inr entry))"

definition cachePut :: "hashing \<Rightarrow> gopath \<Rightarrow> bool \<Rightarrow> string option \<Rightarrow> cacheFS \<Rightarrow> testCacheEntry
    \<Rightarrow> string option \<times> cacheFS" where
  "cachePut h dir canceled fault fs entry =
     (if canceled then (Some ''context canceled'', fs)
      else case fault of
        Some e \<Rightarrow> (Some e, fs)
      | None \<Rightarrow> (None, AList.update (entryPath h dir (entry_Key entry)) (Json entry) fs))"

section \<open>Lemmas on keys\<close>

lemma line_inject:
  "nl \<notin> set a \<Longrightarrow> nl \<notin> set b \<Longrightarrow> a @ nl # x = b @ nl # y \<longleftrightarrow> a = b \<and> x = y"
proof (induction a arbitrary: b)
  case Nil
  then show ?case by (cases b) auto
next
  case (Cons c a)
  then show ?case by (cases b) auto
qed

definition argsText :: "string list \<Rightarrow> string" where
  "argsText args = concat (map (\<lambda>arg. ''arg '' @ Quote arg @ [nl]) args)"

lemma argsText_inject: "argsText xs = argsText ys \<Longrightarrow> xs = ys"
proof (induction xs arbitrary: ys)
  case Nil
  then show ?case by (cases ys) (auto simp: argsText_def)
next
  case (Cons x xs)
  then obtain y ys' where ys: "ys = y # ys'" by (cases ys) (auto simp: argsText_def)
  with Cons.prems have "Quote x @ nl # argsText xs = Quote y @ nl # argsText ys'"
    by (simp add: argsText_def)
  then have "x = y" "argsText xs = argsText ys'" by (auto dest: Quote_prefix_free)
  with Cons.IH ys show ?case by simp
qed

definition singleLineKey :: "testCacheKey \<Rightarrow> bool" where
  "singleLineKey k \<longleftrightarrow> nl \<notin> set (key_BinarySHA256 k) \<and> nl \<notin> set (key_Package k)
     \<and> nl \<notin> set (key_Test k) \<and> nl \<notin> set (key_WorkingDir k)"

lemma keyText_inject:
  assumes "singleLineKey k" and "singleLineKey k'" and "keyText k = keyText k'"
  shows "k = k'"
proof -
  have "key_BinarySHA256 k = key_BinarySHA256 k' \<and> key_Package k = key_Package k'
      \<and> key_Test k = key_Test k' \<and> key_WorkingDir k = key_WorkingDir k'
      \<and> argsText (key_Args k) = argsText (key_Args k')"
    using assms by (simp add: keyText_def argsText_def singleLineKey_def line_inject)
  then show ?thesis by (auto intro: testCacheKey.equality dest: argsText_inject)
qed

lemma safeRune_not_slash: "safeRune r \<noteq> slash"
  by (auto simp: safeRune_def dest: arg_cong [where f = "of_char :: char \<Rightarrow> nat"])

lemma safeCacheName_bounds: "1 \<le> length (safeCacheName s) \<and> length (safeCacheName s) \<le> 80
    \<and> slash \<notin> set (safeCacheName s)"
proof -
  have "slash \<notin> set (take 80 (map safeRune (runes s)))"
    using safeRune_not_slash by (metis (no_types, lifting) ex_map_conv in_set_takeD)
  then show ?thesis by (auto simp: safeCacheName_def Let_def Suc_le_eq)
qed

section \<open>Lemmas on recording and validating\<close>

definition freshDep :: "hashing \<Rightarrow> world \<Rightarrow> cacheDependency \<Rightarrow> bool" where
  "freshDep h w d \<longleftrightarrow> currentDependency h w d = Inr d"

lemma freshDep_env [simp]: "freshDep h w (environmentDependency h w name)"
  by (simp add: freshDep_def currentDependency_def environmentDependency_def Let_def)

lemma parseLogLines_step:
  assumes "parseLogLines h w root pwd (line # lines) deps = Inr ds"
  obtains pwd' new where "parseLogLines h w root pwd' lines (deps @ new) = Inr ds"
    "\<forall>d \<in> set new. freshDep h w d"
proof -
  from assms obtain op name where cut: "CutByte CHR '' '' line = Some (op, name)" "name \<noteq> []"
    by (auto split: option.splits if_splits)
  let ?path = "pathClean (if pathIsAbs name then name else pathJoin [pwd, name])"
  consider (env) "op = ''getenv''"
    | (outside) "op \<noteq> ''getenv''" "isFileOp op" "op \<noteq> ''chdir'' \<and> \<not> pathWithinRoot ?path root"
    | (fdep) fd where "op \<noteq> ''getenv''" "isFileOp op" "\<not> (op \<noteq> ''chdir'' \<and> \<not> pathWithinRoot ?path root)"
        "fingerprintPath h w ?path (op = ''open'') = Inr fd"
    using assms cut by (auto simp: Let_def split: sum.splits if_splits)
  then show ?thesis
  proof cases
    case env
    show ?thesis
      by (rule that [of pwd "[environmentDependency h w name]"]) (use env cut assms in simp_all)
  next
    case outside
    show ?thesis by (rule that [of pwd "[]"]) (use outside cut assms in \<open>simp_all add: Let_def\<close>)
  next
    case fdep
    let ?d = "\<lparr>dep_Operation = op, dep_Name = name, dep_Path = ?path, dep_Present = None,
      dep_ValueSHA256 = [], dep_File = Some fd\<rparr>"
    have "freshDep h w ?d" using fdep by (simp add: freshDep_def currentDependency_def)
    moreover have "parseLogLines h w root (if op = ''chdir'' then ?path else pwd) lines (deps @ [?d]) = Inr ds"
      using fdep cut assms by (simp only: parseLogLines.simps option.case prod.case if_False if_True
          sum.case Let_def simp_thms)
    ultimately show ?thesis by (intro that [of _ "[?d]"]) auto
  qed
qed

lemma parseLogLines_fresh:
  "parseLogLines h w root pwd lines deps = Inr ds \<Longrightarrow> \<forall>d \<in> set deps. freshDep h w d
    \<Longrightarrow> \<forall>d \<in> set ds. freshDep h w d"
proof (induction lines arbitrary: pwd deps)
  case Nil
  then show ?case by simp
next
  case (Cons line lines)
  from Cons.prems(1) obtain pwd' new where
    n: "parseLogLines h w root pwd' lines (deps @ new) = Inr ds" "\<forall>d \<in> set new. freshDep h w d"
    by (rule parseLogLines_step)
  show ?case by (rule Cons.IH [OF n(1)]) (use n(2) Cons.prems(2) in auto)
qed

lemma set_dedupBackward: "set (dedupBackward ds seen) \<subseteq> set ds"
  by (induction ds arbitrary: seen) auto

lemma parseTestLog_fresh:
  "parseTestLog h w file wd root = Inr deps \<Longrightarrow> \<forall>d \<in> set deps. freshDep h w d"
  using set_dedupBackward parseLogLines_fresh
  by (fastforce simp: parseTestLog_def deduplicateDependencies_def
      split: sum.splits prod.splits list.splits if_splits)

lemma validate_iff:
  "validateDependencies h w deps = Inr True
    \<longleftrightarrow> (\<forall>d \<in> set deps. \<exists>c. currentDependency h w d = Inr c \<and> dependenciesEqual d c)"
proof (induction deps)
  case Nil
  then show ?case by (simp add: validateDependencies_def)
next
  case (Cons d deps)
  then show ?case
    by (auto simp: validateDependencies_def split: sum.splits)
qed

section \<open>Lemmas on deduplication\<close>

lemma dedupBackward_keys:
  "depKey ` set (dedupBackward ds seen) = depKey ` set ds - set seen
    \<and> distinct (map depKey (dedupBackward ds seen))"
  by (induction ds arbitrary: seen) auto

lemma dedupBackward_first:
  "d \<in> set (dedupBackward ds seen) \<Longrightarrow> \<exists>as bs. ds = as @ d # bs \<and> depKey d \<notin> depKey ` set as"
proof (induction ds arbitrary: seen)
  case Nil
  then show ?case by simp
next
  case (Cons e ds)
  show ?case
  proof (cases "depKey e \<in> set seen \<or> d \<noteq> e")
    case True
    let ?seen = "if depKey e \<in> set seen then seen else depKey e # seen"
    from True Cons.prems have d: "d \<in> set (dedupBackward ds ?seen)"
      by (auto split: if_splits)
    then obtain as bs where "ds = as @ d # bs" "depKey d \<notin> depKey ` set as"
      using Cons.IH by blast
    moreover have "depKey d \<noteq> depKey e"
    proof -
      have "depKey d \<in> depKey ` set ds - set ?seen" using d dedupBackward_keys [of ds ?seen] by blast
      then show ?thesis by (auto split: if_splits)
    qed
    ultimately have "e # ds = (e # as) @ d # bs \<and> depKey d \<notin> depKey ` set (e # as)" by simp
    then show ?thesis by blast
  next
    case False
    then have "e # ds = [] @ d # ds \<and> depKey d \<notin> depKey ` set []" by simp
    then show ?thesis by blast
  qed
qed

section \<open>What a fingerprint determines\<close>

definition envText :: "world \<Rightarrow> string \<Rightarrow> string" where
  "envText w name = (case LookupEnv w name of Some v \<Rightarrow> CHR 0x01 # v | None \<Rightarrow> [CHR 0x00])"

definition canonicalOf :: "hashing \<Rightarrow> world \<Rightarrow> gopath \<Rightarrow> string option \<times> string option \<Rightarrow> canonical" where
  "canonicalOf h w path cd =
     (infoState (osStat w path) \<noteq> None \<or> infoState (osLstat w path) \<noteq> None, fileError w path,
      infoState (osStat w path), infoState (osLstat w path), hashOpt h (fst cd), hashOpt h (snd cd))"

text \<open>The strings that computing a dependency hashes, and what it observes of the world.\<close>

definition hashedInputs :: "hashing \<Rightarrow> world \<Rightarrow> cacheDependency \<Rightarrow> string set" where
  "hashedInputs h w d =
     (if dep_Operation d = ''getenv'' then {envText w (dep_Name d)}
      else (case fingerprintInput h w (dep_Path d) (dep_Operation d = ''open'') of
              Inl _ \<Rightarrow> {}
            | Inr cd \<Rightarrow> set_option (fst cd) \<union> set_option (snd cd)
                \<union> (case marshal h (canonicalOf h w (dep_Path d) cd) of Inl _ \<Rightarrow> {} | Inr t \<Rightarrow> {t})))"

definition fileView :: "hashing \<Rightarrow> world \<Rightarrow> gopath \<Rightarrow> bool
    \<Rightarrow> fileState option \<times> fileState option \<times> string \<times> (string + (string option \<times> string option))" where
  "fileView h w path rc =
     (infoState (osStat w path), infoState (osLstat w path), fileError w path, fingerprintInput h w path rc)"

definition depAgrees :: "hashing \<Rightarrow> world \<Rightarrow> world \<Rightarrow> cacheDependency \<Rightarrow> bool" where
  "depAgrees h w w' d \<longleftrightarrow>
     (if dep_Operation d = ''getenv'' then LookupEnv w' (dep_Name d) = LookupEnv w (dep_Name d)
      else fileView h w' (dep_Path d) (dep_Operation d = ''open'')
         = fileView h w (dep_Path d) (dep_Operation d = ''open''))"

definition marshalFaithful :: "hashing \<Rightarrow> bool" where
  "marshalFaithful h \<longleftrightarrow> (\<forall>c c' t. marshal h c = Inr t \<longrightarrow> marshal h c' = Inr t \<longrightarrow> c = c')"

lemma fingerprintPath_Inr:
  assumes "fingerprintPath h w path rc = Inr fd"
  obtains cd t where "fingerprintInput h w path rc = Inr cd" "marshal h (canonicalOf h w path cd) = Inr t"
    "fd_FingerprintSHA256 fd = sha h t"
  using assms
  by (auto simp: fingerprintPath_def canonicalOf_def Let_def split: sum.splits prod.splits)

lemma envText_inject: "envText w n = envText w' n' \<longleftrightarrow> LookupEnv w n = LookupEnv w' n'"
  by (auto simp: envText_def split: option.splits)

lemma environmentDependency_hash: "dep_ValueSHA256 (environmentDependency h w n) = sha h (envText w n)"
  by (simp add: environmentDependency_def hashPresenceAndValue_def envText_def Let_def split: option.splits)

lemma hashOpt_inject:
  assumes "hashOpt h a = hashOpt h b" and "inj_on (sha h) S" and "set_option a \<subseteq> S" and "set_option b \<subseteq> S"
    and "\<forall>x. sha h x \<noteq> []"
  shows "a = b"
proof (cases a; cases b)
  fix x y assume ab: "a = Some x" "b = Some y"
  with assms(1) have "sha h x = sha h y" by (simp add: hashOpt_def)
  moreover have "x \<in> S" "y \<in> S" using assms(3,4) ab by simp_all
  ultimately show "a = b" using assms(2) ab by (simp add: inj_on_eq_iff)
next
  fix y assume "a = None" "b = Some y"
  with assms(1) have "sha h y = []" by (simp add: hashOpt_def)
  with assms(5) show "a = b" by blast
next
  fix x assume "a = Some x" "b = None"
  with assms(1) have "sha h x = []" by (simp add: hashOpt_def)
  with assms(5) show "a = b" by blast
qed simp

lemma fileDep_agrees:
  assumes "fingerprintPath h w path rc = Inr fd" and "fingerprintPath h w' path rc = Inr fd'"
    and "fd_FingerprintSHA256 fd = fd_FingerprintSHA256 fd'"
    and "inj_on (sha h) S" and "\<forall>x. sha h x \<noteq> []" and "marshalFaithful h"
    and "\<And>v cd t. v \<in> {w, w'} \<Longrightarrow> fingerprintInput h v path rc = Inr cd
      \<Longrightarrow> marshal h (canonicalOf h v path cd) = Inr t
      \<Longrightarrow> insert t (set_option (fst cd) \<union> set_option (snd cd)) \<subseteq> S"
  shows "fileView h w' path rc = fileView h w path rc"
proof -
  obtain cd t where cd: "fingerprintInput h w path rc = Inr cd" "marshal h (canonicalOf h w path cd) = Inr t"
    "fd_FingerprintSHA256 fd = sha h t" using assms(1) by (rule fingerprintPath_Inr)
  obtain cd' t' where cd': "fingerprintInput h w' path rc = Inr cd'"
    "marshal h (canonicalOf h w' path cd') = Inr t'" "fd_FingerprintSHA256 fd' = sha h t'"
    using assms(2) by (rule fingerprintPath_Inr)
  have S: "insert t (set_option (fst cd) \<union> set_option (snd cd)) \<subseteq> S"
    "insert t' (set_option (fst cd') \<union> set_option (snd cd')) \<subseteq> S"
    using assms(7) [OF _ cd(1,2)] assms(7) [OF _ cd'(1,2)] by auto
  have "t = t'" using assms(3,4) cd(3) cd'(3) S by (auto dest: inj_onD)
  with cd(2) cd'(2) assms(6) have "canonicalOf h w path cd = canonicalOf h w' path cd'"
    unfolding marshalFaithful_def by blast
  then have eq: "infoState (osStat w path) = infoState (osStat w' path)"
    "infoState (osLstat w path) = infoState (osLstat w' path)" "fileError w path = fileError w' path"
    "hashOpt h (fst cd) = hashOpt h (fst cd')" "hashOpt h (snd cd) = hashOpt h (snd cd')"
    by (auto simp: canonicalOf_def)
  have "fst cd = fst cd'" "snd cd = snd cd'"
    using hashOpt_inject [OF eq(4) assms(4)] hashOpt_inject [OF eq(5) assms(4)] S assms(5) by auto
  with eq cd(1) cd'(1) show ?thesis by (simp add: fileView_def prod_eq_iff)
qed

lemma dep_agrees:
  assumes fresh: "freshDep h w d" and cur: "currentDependency h w' d = Inr c" "dependenciesEqual d c"
    and inj: "inj_on (sha h) (hashedInputs h w d \<union> hashedInputs h w' d)"
    and sha: "\<forall>x. sha h x \<noteq> []" and mf: "marshalFaithful h"
  shows "depAgrees h w w' d"
proof (cases "dep_Operation d = ''getenv''")
  case True
  with fresh have d: "environmentDependency h w (dep_Name d) = d"
    by (simp add: freshDep_def currentDependency_def)
  from True cur have "dep_ValueSHA256 d = dep_ValueSHA256 (environmentDependency h w' (dep_Name d))"
    by (auto simp: currentDependency_def dependenciesEqual_def)
  with d have "sha h (envText w (dep_Name d)) = sha h (envText w' (dep_Name d))"
    by (metis environmentDependency_hash)
  with inj True have "envText w (dep_Name d) = envText w' (dep_Name d)"
    by (auto simp: hashedInputs_def dest: inj_onD)
  with True show ?thesis by (simp add: depAgrees_def envText_inject)
next
  case False
  let ?rc = "dep_Operation d = ''open''"
  from False fresh obtain fd where fd: "fingerprintPath h w (dep_Path d) ?rc = Inr fd" "dep_File d = Some fd"
    by (auto simp: freshDep_def currentDependency_def split: if_splits sum.splits
        dest!: arg_cong [where f = dep_File])
  from False cur(1) obtain fd' where
    fd': "fingerprintPath h w' (dep_Path d) ?rc = Inr fd'" "dep_File c = Some fd'"
    by (auto simp: currentDependency_def split: if_splits sum.splits)
  from cur(2) fd(2) fd'(2) have "fd_FingerprintSHA256 fd = fd_FingerprintSHA256 fd'"
    by (simp add: dependenciesEqual_def)
  from fd(1) fd'(1) this inj sha mf
  have "fileView h w' (dep_Path d) ?rc = fileView h w (dep_Path d) ?rc"
    by (rule fileDep_agrees) (use False in \<open>auto simp: hashedInputs_def\<close>)
  with False show ?thesis by (simp add: depAgrees_def)
qed

section \<open>The contract of a result cache\<close>

text \<open>
  \<open>testResultCache\<close> as its clients use it: a hit is an entry of the current version whose key has
  the identifier asked for, a stored entry is returned under its own key, storing changes
  nothing under other identifiers, and a hit after a store is the stored entry or the hit there
  was before it.
\<close>

locale result_cache =
  fixes get :: "'s \<Rightarrow> testCacheKey \<Rightarrow> cacheError + testCacheEntry"
    and put :: "'s \<Rightarrow> testCacheEntry \<Rightarrow> 's"
    and id :: "testCacheKey \<Rightarrow> string"
  assumes get_id: "get s k = Inr e \<Longrightarrow> id (entry_Key e) = id k \<and> entry_Version e = testCacheVersion"
    and get_put: "entry_Version e = testCacheVersion \<Longrightarrow> get (put s e) (entry_Key e) = Inr e"
    and get_put_other: "id (entry_Key e) \<noteq> id k \<Longrightarrow> get (put s e) k = get s k"
    and get_put_cases: "get (put s e) k = Inr e' \<Longrightarrow> e' = e \<or> get s k = Inr e'"
begin

lemma get_puts_sound:
  "get (foldl put s es) k = Inr e \<Longrightarrow> (e \<in> set es \<or> get s k = Inr e) \<and> id (entry_Key e) = id k"
proof (induction es rule: rev_induct)
  case Nil
  then show ?case using get_id by simp
next
  case (snoc x es)
  then show ?case using get_put_cases get_id by fastforce
qed

lemma get_puts_others:
  "\<forall>b \<in> set bs. id (entry_Key b) \<noteq> id k \<Longrightarrow> get (foldl put s bs) k = get s k"
  by (induction bs arbitrary: s) (auto simp: get_put_other)

lemma get_puts_last:
  assumes "entry_Version e = testCacheVersion" and "\<forall>b \<in> set bs. id (entry_Key b) \<noteq> id (entry_Key e)"
  shows "get (foldl put s (as @ e # bs)) (entry_Key e) = Inr e"
  using get_puts_others [OF assms(2)] get_put [OF assms(1)] by simp

end

section \<open>The disk cache implements it\<close>

abbreviation sha256With :: "(canonical \<Rightarrow> string + string) \<Rightarrow> (time \<Rightarrow> string) \<Rightarrow> hashing" where
  "sha256With m r \<equiv> \<lparr>sha = sha256hex, marshal = m, rfc3339 = r\<rparr>"

lemma lowerHex_plain: "lowerHex c \<Longrightarrow> c \<noteq> slash"
  by (auto simp: lowerHex_def)

lemma entryPath_lastComp:
  assumes "\<forall>x. \<forall>c \<in> set (sha h x). c \<noteq> slash"
  shows "lastComp (entryPath h dir key) = safeCacheName (key_Test key) @ ''-'' @ keyId h key @ ''.json''"
proof -
  let ?l = "safeCacheName (key_Test key) @ ''-'' @ keyId h key @ ''.json''"
  have "slash \<notin> set ?l"
    using assms safeCacheName_bounds [of "key_Test key"] by (auto simp: keyId_def)
  moreover have "?l \<notin> {[], ''.'', ''..''}"
  proof -
    have "length ?l > 2" by simp
    then show ?thesis by fastforce
  qed
  ultimately have "lastComp (pathJoin ([dir, x, y] @ [?l])) = ?l" for x y
    by (rule lastComp_pathJoin)
  then show ?thesis by (simp add: entryPath_def Let_def)
qed

lemma entryPath_id:
  assumes "\<forall>x. length (sha h x) = 64" and "\<forall>x. \<forall>c \<in> set (sha h x). c \<noteq> slash"
    and "entryPath h dir k = entryPath h dir k'"
  shows "keyId h k = keyId h k'"
proof -
  have "safeCacheName (key_Test k) @ ''-'' @ keyId h k @ ''.json''
      = safeCacheName (key_Test k') @ ''-'' @ keyId h k' @ ''.json''"
    using entryPath_lastComp [OF assms(2)] assms(3) by metis
  then have "(safeCacheName (key_Test k) @ ''-'') @ keyId h k
      = (safeCacheName (key_Test k') @ ''-'') @ keyId h k'"
    by (metis append.assoc append_same_eq)
  moreover have "length (keyId h k) = length (keyId h k')" using assms(1) by (simp add: keyId_def)
  ultimately show ?thesis by (simp add: append_eq_append_conv)
qed

lemma sha256_entryPath_id:
  "entryPath (sha256With m r) dir k = entryPath (sha256With m r) dir k'
    \<Longrightarrow> keyId (sha256With m r) k = keyId (sha256With m r) k'"
  by (rule entryPath_id) (auto simp: length_sha256hex dest: sha256hex_lower lowerHex_plain)

interpretation disk: result_cache "cacheGet (sha256With m r) dir False None"
  "\<lambda>fs e. snd (cachePut (sha256With m r) dir False None fs e)" "keyId (sha256With m r)" for m r dir
proof
  fix s k e
  assume "cacheGet (sha256With m r) dir False None s k = Inr e"
  then show "keyId (sha256With m r) (entry_Key e) = keyId (sha256With m r) k \<and> entry_Version e = testCacheVersion"
    by (auto simp: cacheGet_def split: option.splits cacheFile.splits if_splits)
next
  fix s :: cacheFS and e :: testCacheEntry
  assume "entry_Version e = testCacheVersion"
  then show "cacheGet (sha256With m r) dir False None (snd (cachePut (sha256With m r) dir False None s e))
      (entry_Key e) = Inr e"
    by (simp add: cacheGet_def cachePut_def)
next
  fix s :: cacheFS and e :: testCacheEntry and k
  assume "keyId (sha256With m r) (entry_Key e) \<noteq> keyId (sha256With m r) k"
  then have "entryPath (sha256With m r) dir k \<noteq> entryPath (sha256With m r) dir (entry_Key e)"
    using sha256_entryPath_id by metis
  then show "cacheGet (sha256With m r) dir False None (snd (cachePut (sha256With m r) dir False None s e)) k
      = cacheGet (sha256With m r) dir False None s k"
    by (simp add: cacheGet_def cachePut_def)
next
  fix s e k e'
  assume "cacheGet (sha256With m r) dir False None (snd (cachePut (sha256With m r) dir False None s e)) k = Inr e'"
  then show "e' = e \<or> cacheGet (sha256With m r) dir False None s k = Inr e'"
    by (auto simp: cacheGet_def cachePut_def split: if_splits)
qed

section \<open>A concrete world for the examples\<close>

definition stateText :: "fileState option \<Rightarrow> string" where
  "stateText s = (case s of None \<Rightarrow> []
     | Some st \<Rightarrow> argsText [showInt (fs_Size st), fs_Mode st, showInt (fs_ModTime st), showBool (fs_IsDir st)])"

definition textMarshal :: "canonical \<Rightarrow> string + string" where
  "textMarshal c = (case c of (e, err, s, l, ct, d) \<Rightarrow>
     Inr (argsText [showBool e, err, stateText s, stateText l, ct, d]))"

definition sampleHashing :: hashing where
  "sampleHashing = \<lparr>sha = Cons CHR ''h'', marshal = textMarshal, rfc3339 = showInt\<rparr>"

definition sampleState :: fileState where
  "sampleState = \<lparr>fs_Size = 2, fs_Mode = ''-rw-r--r--'', fs_ModTime = 5, fs_IsDir = False\<rparr>"

definition sampleStat :: "gopath \<Rightarrow> string + fileInfo" where
  "sampleStat p = (if p = ''/m/f'' then Inr \<lparr>fi_state = sampleState, fi_regular = True\<rparr> else Inl ErrNotExist)"

definition sampleWorld :: world where
  "sampleWorld = \<lparr>LookupEnv = (\<lambda>n. if n = ''HOME'' then Some ''/h'' else None), osStat = sampleStat,
     osLstat = sampleStat, readAll = (\<lambda>p. Inr ''hi''), readDir = (\<lambda>p. Inr [])\<rparr>"

definition otherWorld :: world where
  "otherWorld = sampleWorld\<lparr>LookupEnv := (\<lambda>n. if n = ''HOME'' then Some ''/h'' else if n = ''TMP'' then Some [] else None)\<rparr>"

definition sampleLog :: "string + string" where
  "sampleLog = Inr (''# test log'' @ [nl] @ ''getenv HOME'' @ [nl] @ ''open f'' @ [nl] @ ''stat /etc/x'' @ [nl])"

definition sampleEntry :: testCacheEntry where
  "sampleEntry = \<lparr>entry_Version = testCacheVersion,
     entry_Key = \<lparr>key_BinarySHA256 = ''abcd'', key_Package = ''p'', key_Test = ''TestA'', key_WorkingDir = ''/m'',
                  key_Args = [''-test.v'']\<rparr>,
     entry_Created = 1, entry_PassedIn = 2, entry_Dependencies = []\<rparr>"

lemma showBool_inject [simp]: "showBool a = showBool b \<longleftrightarrow> a = b"
  by (cases a; cases b) (simp_all add: showBool_def)

lemma stateText_inject: "stateText a = stateText b \<Longrightarrow> a = b"
proof (cases a; cases b)
  fix x y assume "a = Some x" "b = Some y" "stateText a = stateText b"
  then show "a = b" by (auto simp: stateText_def dest!: argsText_inject intro!: fileState.equality)
qed (auto simp: stateText_def argsText_def)

lemma sample_marshalFaithful: "marshalFaithful sampleHashing"
  by (auto simp: marshalFaithful_def sampleHashing_def textMarshal_def
      dest!: argsText_inject dest: stateText_inject split: prod.splits)

lemma sample_scan:
  "sampleLog = Inr l \<Longrightarrow> scanLines l = ([''# test log'', ''getenv HOME'', ''open f'', ''stat /etc/x''], False)"
  by (auto simp: sampleLog_def scanLines_def)

lemma sample_parse:
  "case parseLogLines sampleHashing sampleWorld ''/m'' ''/m'' [''getenv HOME'', ''open f'', ''stat /etc/x'']
      [environmentDependency sampleHashing sampleWorld ''GODEBUG''] of
     Inl _ \<Rightarrow> False
   | Inr deps \<Rightarrow> length (deduplicateDependencies deps) = 3
       \<and> validateDependencies sampleHashing otherWorld (deduplicateDependencies deps) = Inr True"
  by code_simp

lemma sample_records:
  "case parseTestLog sampleHashing sampleWorld sampleLog ''/m'' ''/m'' of
     Inl _ \<Rightarrow> False | Inr deps \<Rightarrow> length deps = 3 \<and> validateDependencies sampleHashing otherWorld deps = Inr True"
proof -
  obtain l where l: "sampleLog = Inr l" by (simp add: sampleLog_def)
  show ?thesis using sample_parse
    by (simp add: parseTestLog_def l sample_scan [OF l] del: parseLogLines.simps split: sum.splits)
qed

section \<open>Properties\<close>

lemma HasPrefix_prefix: "HasPrefix s p \<longleftrightarrow> prefix p s"
  by (metis HasPrefix_def prefix_def append_eq_conv_conj append_take_drop_id)

lemma rel_up:
  assumes "b \<noteq> []"
  shows "Join ''/'' (replicate (length b) ''..'' @ t) = ''..''
    \<or> HasPrefix (Join ''/'' (replicate (length b) ''..'' @ t)) ''../''"
proof -
  obtain n where "length b = Suc n" using assms by (cases b) auto
  then have "replicate (length b) ''..'' @ t = ''..'' # (replicate n ''..'' @ t)" by simp
  then show ?thesis by (cases "replicate n ''..'' @ t") (auto simp: HasPrefix_def)
qed

lemma rel_down:
  assumes "c \<noteq> ''..''" and "c \<noteq> []" and "slash \<notin> set c"
  shows "Join ''/'' (c # cs) \<noteq> ''..'' \<and> \<not> HasPrefix (Join ''/'' (c # cs)) ''../''"
proof (cases cs)
  case Nil
  have "\<not> prefix ''../'' c" using assms(3) set_mono_prefix by fastforce
  with Nil assms(1) show ?thesis by (simp add: HasPrefix_prefix)
next
  case (Cons d ds)
  obtain r where j: "Join ''/'' (c # cs) = c @ slash # r" using Cons by simp
  then have "slash \<in> set (Join ''/'' (c # cs))" by simp
  then have "Join ''/'' (c # cs) \<noteq> ''..''" by fastforce
  moreover have "\<not> prefix ''../'' (c @ slash # r)"
  proof
    assume "prefix ''../'' (c @ slash # r)"
    then obtain z where "c @ slash # r = ''..'' @ slash # z" by (auto simp: prefix_def)
    then have "c = ''..''" using assms(3)
      by (auto simp: append_eq_append_conv2 append_eq_Cons_conv Cons_eq_append_conv)
    with assms(1) show False ..
  qed
  ultimately show ?thesis using j by (simp add: HasPrefix_prefix)
qed

text \<open>
  \<open>pathWithinRoot\<close>, which decides whether a file that a test touched is one of its inputs,
  holds for absolute paths exactly when the components of the cleaned root begin the components
  of the cleaned path; a path such as \<open>/rootx\<close> or \<open>/root/../x\<close> is outside.
\<close>

theorem pathWithinRoot_iff:
  assumes "pathIsAbs path" and "pathIsAbs root"
  shows "pathWithinRoot path root \<longleftrightarrow> prefix (cleanComps root) (cleanComps path)"
proof -
  obtain b t where bt: "dropCommon (cleanComps root) (cleanComps path) = (b, t)" by fastforce
  have b: "b = [] \<longleftrightarrow> prefix (cleanComps root) (cleanComps path)"
    using dropCommon_prefix [of "cleanComps root" "cleanComps path"] bt by simp
  have sub: "set b \<subseteq> set (cleanComps root)" "set t \<subseteq> set (cleanComps path)"
    using set_dropCommon [of "cleanComps root" "cleanComps path"] bt by auto
  have root: "root \<noteq> []" "pathIsAbs root = pathIsAbs path" using assms by (auto simp: pathIsAbs_def)
  have "b \<noteq> [] \<Longrightarrow> hd b \<noteq> ''..''"
    using sub(1) cleanComps_rooted [OF assms(2)] hd_in_set by fastforce
  moreover have "t = c # cs \<Longrightarrow> c \<noteq> ''..'' \<and> c \<noteq> [] \<and> slash \<notin> set c" for c cs
    using sub(2) cleanComps_rooted [OF assms(1)] cleanComps_parts [of path] by auto
  ultimately have "pathWithinRoot path root \<longleftrightarrow> b = []"
    using root bt rel_up [of b t] rel_down
    by (cases t) (auto simp: pathWithinRoot_def pathRel_def HasPrefix_def)
  with b show ?thesis by simp
qed

theorem pathWithinRoot_iff_witness:
  "pathWithinRoot ''/m/a/../b/f'' ''/m/b/'' \<longleftrightarrow> prefix (cleanComps ''/m/b/'') (cleanComps ''/m/a/../b/f'')"
  by (rule pathWithinRoot_iff) (simp_all add: pathIsAbs_def)

text \<open>
  The text that \<open>testCacheKey.id\<close> hashes determines the key: two keys whose binary hash,
  package, test and working directory hold no line break have the same text only if they are
  equal, arguments included, whatever bytes the arguments hold.
\<close>

theorem testCacheKey_text_determines_key:
  assumes "singleLineKey k" and "singleLineKey k'"
  shows "keyText k = keyText k' \<longleftrightarrow> k = k'"
  using keyText_inject [OF assms] by blast

theorem testCacheKey_text_determines_key_witness:
  "let k = \<lparr>key_BinarySHA256 = ''ab'', key_Package = ''p'', key_Test = ''TestA'', key_WorkingDir = ''/w'',
            key_Args = [''-test.v'']\<rparr>;
       k' = k\<lparr>key_Args := [''-test'', ''.v'']\<rparr>
   in keyText k \<noteq> keyText k'"
  unfolding Let_def
  by (subst testCacheKey_text_determines_key) (simp_all add: singleLineKey_def)

text \<open>
  The line-break hypothesis is needed: \<open>id\<close> writes the working directory with \<open>%s\<close>, so a directory
  name with a line break can imitate an argument line.
\<close>

lemma testCacheKey_newline_collision:
  "let k = \<lparr>key_BinarySHA256 = ''ab'', key_Package = ''p'', key_Test = ''TestA'',
            key_WorkingDir = ''/w'' @ [nl] @ ''arg '' @ Quote ''x'', key_Args = []\<rparr>;
       k' = k\<lparr>key_WorkingDir := ''/w'', key_Args := [''x'']\<rparr>
   in k \<noteq> k' \<and> keyText k = keyText k'"
  by (simp add: keyText_def Let_def)

text \<open>
  C24. A result is reusable in the world it was recorded in: the dependencies that \<open>parseTestLog\<close>
  records from a test log all validate, so a cached pass is never refused while nothing changed.
\<close>

theorem recorded_dependencies_validate:
  assumes "parseTestLog h w log workdir root = Inr deps"
  shows "validateDependencies h w deps = Inr True"
  using parseTestLog_fresh [OF assms] by (simp add: validate_iff freshDep_def dependenciesEqual_def)

theorem recorded_dependencies_validate_witness:
  "case parseTestLog sampleHashing sampleWorld sampleLog ''/m'' ''/m'' of
     Inl _ \<Rightarrow> False | Inr deps \<Rightarrow> length deps = 3 \<and> validateDependencies sampleHashing sampleWorld deps = Inr True"
  using recorded_dependencies_validate [of sampleHashing sampleWorld sampleLog "''/m''" "''/m''"] sample_records
  by (auto split: sum.splits)



text \<open>
  \<open>deduplicateDependencies\<close> keeps, of the dependencies with one operation, name and path, the
  last one recorded and only that one, and drops no operation, name and path altogether.
\<close>

theorem deduplicateDependencies_keeps_last:
  "distinct (map depKey (deduplicateDependencies ds))
   \<and> depKey ` set (deduplicateDependencies ds) = depKey ` set ds
   \<and> (\<forall>d. d \<in> set (deduplicateDependencies ds)
          \<longrightarrow> (\<exists>as bs. ds = as @ d # bs \<and> depKey d \<notin> depKey ` set bs))"
proof (intro conjI allI impI)
  show "distinct (map depKey (deduplicateDependencies ds))"
    using dedupBackward_keys [of "rev ds" "[]"] by (simp add: deduplicateDependencies_def rev_map [symmetric])
  show "depKey ` set (deduplicateDependencies ds) = depKey ` set ds"
    using dedupBackward_keys [of "rev ds" "[]"] by (simp add: deduplicateDependencies_def)
next
  fix d assume "d \<in> set (deduplicateDependencies ds)"
  then obtain as bs where "rev ds = as @ d # bs" "depKey d \<notin> depKey ` set as"
    using dedupBackward_first [of d "rev ds" "[]"] by (auto simp: deduplicateDependencies_def)
  then have "ds = rev bs @ d # rev as \<and> depKey d \<notin> depKey ` set (rev as)" by (simp add: rev_swap)
  then show "\<exists>as bs. ds = as @ d # bs \<and> depKey d \<notin> depKey ` set bs" by blast
qed

theorem deduplicateDependencies_keeps_last_witness:
  "let d = environmentDependency sampleHashing sampleWorld ''HOME'' in
   d \<in> set (deduplicateDependencies [d, d]) \<and> (\<exists>as bs. [d, d] = as @ d # bs \<and> depKey d \<notin> depKey ` set bs)"
proof -
  let ?d = "environmentDependency sampleHashing sampleWorld ''HOME''"
  have "?d \<in> set (deduplicateDependencies [?d, ?d])" by (simp add: deduplicateDependencies_def)
  with deduplicateDependencies_keeps_last [of "[?d, ?d]"] show ?thesis unfolding Let_def by blast
qed

text \<open>
  After any sequence of stores, the disk cache returns under a key the last entry stored
  under it, provided no entry stored later has the same identifier.
\<close>

theorem disk_cache_returns_last_put:
  assumes "entry_Version e = testCacheVersion"
    and "\<forall>b \<in> set bs. keyId (sha256With m r) (entry_Key b) \<noteq> keyId (sha256With m r) (entry_Key e)"
  shows "cacheGet (sha256With m r) dir False None
      (foldl (\<lambda>fs e. snd (cachePut (sha256With m r) dir False None fs e)) fs (as @ e # bs)) (entry_Key e) = Inr e"
  by (rule disk.get_puts_last [OF assms])

theorem disk_cache_returns_last_put_witness:
  "cacheGet (sha256With textMarshal showInt) ''/c'' False None
      (foldl (\<lambda>fs e. snd (cachePut (sha256With textMarshal showInt) ''/c'' False None fs e)) []
        ([sampleEntry\<lparr>entry_PassedIn := 3\<rparr>] @ sampleEntry # [])) (entry_Key sampleEntry) = Inr sampleEntry"
  by (rule disk_cache_returns_last_put) (simp_all add: sampleEntry_def)

text \<open>
  A hit of the disk cache is an entry that was stored (or was on disk before) and whose key has
  the identifier asked for.
\<close>

theorem disk_cache_hit_was_put:
  assumes "cacheGet (sha256With m r) dir False None
      (foldl (\<lambda>fs e. snd (cachePut (sha256With m r) dir False None fs e)) fs es) k = Inr e"
  shows "(e \<in> set es \<or> cacheGet (sha256With m r) dir False None fs k = Inr e)
    \<and> keyId (sha256With m r) (entry_Key e) = keyId (sha256With m r) k"
  by (rule disk.get_puts_sound [OF assms])

theorem disk_cache_hit_was_put_witness:
  "(sampleEntry \<in> set [sampleEntry] \<or> cacheGet (sha256With textMarshal showInt) ''/c'' False None [] (entry_Key sampleEntry)
      = Inr sampleEntry)
    \<and> keyId (sha256With textMarshal showInt) (entry_Key sampleEntry)
      = keyId (sha256With textMarshal showInt) (entry_Key sampleEntry)"
  by (rule disk_cache_hit_was_put [where fs = "[]" and dir = "''/c''"])
    (simp add: cacheGet_def cachePut_def sampleEntry_def)

end
