(* ===== verification/History.thy ===== *)
theory History
  imports Test_Cache
begin

text \<open>
  \<open>history/history.go\<close> and the stores of \<open>history.go\<close>: history keys, observations, the portable
  form of dependencies, the on-disk store and the HTTP client store. The store contract of
  \<open>history.Store\<close> is the locale \<open>history_lookup\<close> (what a lookup returns) extended by
  \<open>history_store\<close> (recording); the disk store interprets both and the HTTP store the first.

  The disk is a map from key directories to their files. \<open>ctxErr i\<close> is what the \<open>i\<close>-th call of
  \<open>ctx.Err\<close> in an operation returns, and \<open>ioErr p\<close> is an error of the operating system at path \<open>p\<close>.
\<close>

section \<open>Data\<close>

record histKey =
  hk_Package :: string
  hk_Test :: string
  hk_GOOS :: string
  hk_GOARCH :: string
  hk_Tags :: "string list"
  hk_Args :: "string list"

text \<open>The three constants of \<open>Outcome\<close>, and any other string, which \<open>OtherOutcome\<close> holds.\<close>

datatype Outcome = OutcomePass | OutcomeFail | OutcomeFlaky | OtherOutcome string

record Dependency =
  hd_Operation :: string
  hd_Name :: string
  hd_Path :: gopath

record Observation =
  obs_ID :: string
  obs_Key :: histKey
  obs_At :: time
  obs_Outcome :: Outcome
  obs_Duration :: duration
  obs_Attempts :: int
  obs_PeakRSS :: int
  obs_Dependencies :: "Dependency list option"

record History =
  hist_Version :: int
  hist_Key :: histKey
  hist_Observations :: "Observation list"

definition historyVersion :: int where "historyVersion = 1"

definition localHistoryLimit :: nat where "localHistoryLimit = 32"

definition historyRequestLimit :: int where "historyRequestLimit = 32"

definition histKeyText :: "histKey \<Rightarrow> string" where
  "histKeyText k =
     ''gotst history key v'' @ showInt historyVersion @ [nl]
     @ ''package '' @ hk_Package k @ [nl]
     @ ''test '' @ hk_Test k @ [nl]
     @ ''goos '' @ hk_GOOS k @ [nl]
     @ ''goarch '' @ hk_GOARCH k @ [nl]
     @ concat (map (\<lambda>tag. ''tag '' @ Quote tag @ [nl]) (sortStrings (hk_Tags k)))
     @ concat (map (\<lambda>arg. ''arg '' @ Quote arg @ [nl]) (hk_Args k))"

definition histID :: "hashing \<Rightarrow> histKey \<Rightarrow> string" where
  "histID h k = sha h (histKeyText k)"

definition historyKeyForTask :: "string \<Rightarrow> string \<Rightarrow> flags \<Rightarrow> testTask \<Rightarrow> runProfile \<Rightarrow> histKey" where
  "historyKeyForTask goos goarch fl task profile =
     \<lparr>hk_Package = task_pkg task, hk_Test = task_test task, hk_GOOS = goos, hk_GOARCH = goarch,
      hk_Tags = sortStrings (Tags profile), hk_Args = effectiveTestArgs fl task profile\<rparr>"

text \<open>
  \<open>newObservationID\<close>: the hexadecimal form of 16 random bytes, or the time and process id when
  \<open>crypto/rand\<close> fails.
\<close>

definition newObservationID :: "string option \<Rightarrow> int \<Rightarrow> int \<Rightarrow> string" where
  "newObservationID random now pid =
     (case random of Some b \<Rightarrow> hexEncode b | None \<Rightarrow> showInt now @ ''-'' @ showInt pid)"

section \<open>Portable dependencies\<close>

definition relativeWithin :: "gopath \<Rightarrow> gopath \<Rightarrow> gopath option" where
  "relativeWithin path root =
     (if root = [] then None
      else case pathRel root path of
             None \<Rightarrow> None
           | Some rel \<Rightarrow> if rel = ''..'' \<or> HasPrefix rel ''../'' then None
                          else if rel = ''.'' then Some [] else Some rel)"

definition portableHistoryPath :: "hashing \<Rightarrow> gopath \<Rightarrow> gopath \<Rightarrow> gopath \<Rightarrow> string" where
  "portableHistoryPath h p packageDir moduleRoot =
     (let path = pathClean p
      in case relativeWithin path packageDir of
           Some rel \<Rightarrow> ''$PACKAGE/'' @ rel
         | None \<Rightarrow>
             (case relativeWithin path moduleRoot of
                Some rel \<Rightarrow> ''$MODULE/'' @ rel
              | None \<Rightarrow> ''$EXTERNAL/'' @ take 16 (sha h path) @ ''/'' @ pathBase path))"

definition compareDependency :: "Dependency \<Rightarrow> Dependency \<Rightarrow> int" where
  "compareDependency a b =
     (if hd_Operation a \<noteq> hd_Operation b then cmpOf (hd_Operation a) (hd_Operation b)
      else if hd_Name a \<noteq> hd_Name b then cmpOf (hd_Name a) (hd_Name b)
      else cmpOf (hd_Path a) (hd_Path b))"

definition historyDependency :: "hashing \<Rightarrow> gopath \<Rightarrow> gopath \<Rightarrow> cacheDependency \<Rightarrow> Dependency" where
  "historyDependency h packageDir moduleRoot dep =
     \<lparr>hd_Operation = dep_Operation dep,
      hd_Name = (if dep_Operation dep = ''getenv'' then dep_Name dep else []),
      hd_Path = (if dep_Path dep \<noteq> [] then portableHistoryPath h (dep_Path dep) packageDir moduleRoot else [])\<rparr>"

definition historyDependencies :: "hashing \<Rightarrow> cacheDependency list option \<Rightarrow> gopath \<Rightarrow> gopath
    \<Rightarrow> Dependency list option" where
  "historyDependencies h deps packageDir moduleRoot =
     (case deps of
        None \<Rightarrow> None
      | Some ds \<Rightarrow> Some (remdups_adj (SortFunc compareDependency
                         (map (historyDependency h packageDir moduleRoot) ds))))"

section \<open>The disk store\<close>

definition compareHistoryObservations :: "Observation \<Rightarrow> Observation \<Rightarrow> int" where
  "compareHistoryObservations a b =
     (if cmpOf (obs_At b) (obs_At a) \<noteq> 0 then cmpOf (obs_At b) (obs_At a)
      else cmpOf (obs_ID a) (obs_ID b))"

datatype histFile = ObsFile Observation | BadFile | SubDir

type_synonym histDir = "(string, histFile) gomap"
type_synonym histFS = "(gopath, histDir) gomap"

record osFaults =
  ctxErr :: "nat \<Rightarrow> string option"
  ioErr :: "gopath \<Rightarrow> string option"

definition noFaults :: osFaults where
  "noFaults = \<lparr>ctxErr = (\<lambda>_. None), ioErr = (\<lambda>_. None)\<rparr>"

definition keyDir :: "gopath \<Rightarrow> string \<Rightarrow> gopath" where
  "keyDir dir i = pathJoin [dir, take 2 i, i]"

definition obsFileName :: "hashing \<Rightarrow> Observation \<Rightarrow> string" where
  "obsFileName h obs = sha h (obs_ID obs) @ ''.json''"

definition observationPath :: "hashing \<Rightarrow> gopath \<Rightarrow> Observation \<Rightarrow> gopath" where
  "observationPath h dir obs = pathJoin [keyDir dir (histID h (obs_Key obs)), obsFileName h obs]"

definition pathExt :: "string \<Rightarrow> string" where
  "pathExt name = (case CutLast CHR ''.'' name of None \<Rightarrow> [] | Some (_, e) \<Rightarrow> CHR ''.'' # e)"

text \<open>The entries of \<open>os.ReadDir\<close>, sorted by name, that the loops of \<open>read\<close> and \<open>prune\<close> look at.\<close>

definition jsonEntries :: "histDir \<Rightarrow> (string \<times> histFile) list" where
  "jsonEntries d =
     filter (\<lambda>(name, f). f \<noteq> SubDir \<and> pathExt name = ''.json'')
       (map (\<lambda>name. (name, the (map_of d name))) (sortStrings (gokeys d)))"

text \<open>The loop of \<open>read\<close>; \<open>acc\<close> is \<open>h.Observations\<close> and \<open>seen\<close> the IDs in it.\<close>

fun readLoop :: "hashing \<Rightarrow> osFaults \<Rightarrow> gopath \<Rightarrow> string \<Rightarrow> (string \<times> histFile) list \<Rightarrow> Observation list
    \<Rightarrow> string + Observation list" where
  "readLoop h os dir i [] acc = Inr acc"
| "readLoop h os dir i ((name, f) # es) acc =
     (case ioErr os (pathJoin [dir, name]) of
        Some e \<Rightarrow> if e = ErrNotExist then readLoop h os dir i es acc else Inl e
      | None \<Rightarrow>
          (case f of
             ObsFile obs \<Rightarrow>
               if histID h (obs_Key obs) \<noteq> i
               then Inl (''history observation '' @ obs_ID obs @ '' has wrong key'')
               else readLoop h os dir i es (if obs_ID obs \<in> obs_ID ` set acc then acc else acc @ [obs])
           | _ \<Rightarrow> Inl (''decoding '' @ pathJoin [dir, name])))"

text \<open>\<open>Inl None\<close> is \<open>errHistoryNotFound\<close>.\<close>

definition histRead :: "hashing \<Rightarrow> gopath \<Rightarrow> osFaults \<Rightarrow> histFS \<Rightarrow> histKey \<Rightarrow> string option + History" where
  "histRead h dir os fs key =
     (let kd = keyDir dir (histID h key)
      in case map_of fs kd of
           None \<Rightarrow> Inl None
         | Some d \<Rightarrow>
             (case ioErr os kd of
                Some e \<Rightarrow> if e = ErrNotExist then Inl None else Inl (Some e)
              | None \<Rightarrow>
                  (case readLoop h os kd (histID h key) (jsonEntries d) [] of
                     Inl e \<Rightarrow> Inl (Some e)
                   | Inr obs \<Rightarrow>
                       if obs = [] then Inl None
                       else Inr \<lparr>hist_Version = historyVersion, hist_Key = key,
                                 hist_Observations = SortFunc compareHistoryObservations obs\<rparr>)))"

definition lookupLimit :: "int \<Rightarrow> nat" where
  "lookupLimit recent = nat (if recent \<le> 0 then historyRequestLimit else recent)"

fun lookupLoop :: "hashing \<Rightarrow> gopath \<Rightarrow> osFaults \<Rightarrow> histFS \<Rightarrow> nat \<Rightarrow> nat \<Rightarrow> histKey list
    \<Rightarrow> (string, History) gomap \<Rightarrow> string + (string, History) gomap" where
  "lookupLoop h dir os fs limit i [] ret = Inr ret"
| "lookupLoop h dir os fs limit i (key # keys) ret =
     (case ctxErr os i of
        Some e \<Rightarrow> Inl e
      | None \<Rightarrow>
          (case histRead h dir os fs key of
             Inl None \<Rightarrow> lookupLoop h dir os fs limit (Suc i) keys ret
           | Inl (Some e) \<Rightarrow> Inl e
           | Inr hist \<Rightarrow>
               lookupLoop h dir os fs limit (Suc i) keys
                 (AList.update (histID h key)
                    (hist\<lparr>hist_Observations := take limit (hist_Observations hist)\<rparr>) ret)))"

definition diskLookup :: "hashing \<Rightarrow> gopath \<Rightarrow> osFaults \<Rightarrow> histFS \<Rightarrow> histKey list \<Rightarrow> int
    \<Rightarrow> string + (string, History) gomap" where
  "diskLookup h dir os fs keys recent = lookupLoop h dir os fs (lookupLimit recent) 0 keys []"

text \<open>
  \<open>writeObservation\<close>: an error at the key directory stands for the failures before the rename
  (which leave no file behind); one at the destination is a failed rename, a success when the
  destination exists.
\<close>

definition dirOf :: "histFS \<Rightarrow> gopath \<Rightarrow> histDir" where
  "dirOf fs kd = (case map_of fs kd of Some d \<Rightarrow> d | None \<Rightarrow> [])"

definition writeObservation :: "hashing \<Rightarrow> gopath \<Rightarrow> osFaults \<Rightarrow> Observation \<Rightarrow> histFS
    \<Rightarrow> string option \<times> histFS" where
  "writeObservation h dir os obs fs =
     (let kd = keyDir dir (histID h (obs_Key obs)); d = dirOf fs kd; name = obsFileName h obs
      in case ioErr os kd of
           Some e \<Rightarrow> (Some e, fs)
         | None \<Rightarrow>
             (case ioErr os (observationPath h dir obs) of
                Some e \<Rightarrow> (if map_of d name \<noteq> None then None else Some e, AList.update kd d fs)
              | None \<Rightarrow> (None, AList.update kd (AList.update name (ObsFile obs) d) fs)))"

text \<open>The files of a directory with their observations, or the first error.\<close>

fun pruneLoad :: "osFaults \<Rightarrow> gopath \<Rightarrow> (string \<times> histFile) list \<Rightarrow> (string \<times> Observation) list
    \<Rightarrow> string + (string \<times> Observation) list" where
  "pruneLoad os dir [] acc = Inr acc"
| "pruneLoad os dir ((name, f) # es) acc =
     (case ioErr os (pathJoin [dir, name]) of
        Some e \<Rightarrow> if e = ErrNotExist then pruneLoad os dir es acc else Inl e
      | None \<Rightarrow>
          (case f of
             ObsFile obs \<Rightarrow> pruneLoad os dir es (acc @ [(name, obs)])
           | _ \<Rightarrow> Inl (''decoding '' @ pathJoin [dir, name])))"

definition prune :: "gopath \<Rightarrow> osFaults \<Rightarrow> string \<Rightarrow> nat \<Rightarrow> histFS \<Rightarrow> string option \<times> histFS" where
  "prune dir os keyID limit fs =
     (let kd = keyDir dir keyID
      in case map_of fs kd of
           None \<Rightarrow> (None, fs)
         | Some d \<Rightarrow>
             (case ioErr os kd of
                Some e \<Rightarrow> (if e = ErrNotExist then None else Some e, fs)
              | None \<Rightarrow>
                  (case pruneLoad os kd (jsonEntries d) [] of
                     Inl e \<Rightarrow> (Some e, fs)
                   | Inr files \<Rightarrow>
                       (let old = drop limit (SortFunc (\<lambda>a b. compareHistoryObservations (snd a) (snd b)) files)
                        in (None, AList.update kd (fold (\<lambda>f. AList.delete (fst f)) old d) fs)))))"

text \<open>The two loops of \<open>Record\<close>. The second ranges over a Go map; its order is that of \<open>keyIDs\<close>.\<close>

fun writeLoop :: "hashing \<Rightarrow> gopath \<Rightarrow> osFaults \<Rightarrow> nat \<Rightarrow> Observation list \<Rightarrow> string list \<Rightarrow> string list
    \<Rightarrow> histFS \<Rightarrow> (string + string list \<times> nat) \<times> histFS" where
  "writeLoop h dir os i [] seen keyIDs fs = (Inr (keyIDs, i), fs)"
| "writeLoop h dir os i (obs # rest) seen keyIDs fs =
     (case ctxErr os i of
        Some e \<Rightarrow> (Inl e, fs)
      | None \<Rightarrow>
          (let entryID = histID h (obs_Key obs) @ [nul] @ obs_ID obs
           in if entryID \<in> set seen then writeLoop h dir os (Suc i) rest seen keyIDs fs
              else (case writeObservation h dir os obs fs of
                      (Some e, fs') \<Rightarrow> (Inl e, fs')
                    | (None, fs') \<Rightarrow>
                        writeLoop h dir os (Suc i) rest (entryID # seen)
                          (List.insert (histID h (obs_Key obs)) keyIDs) fs')))"

fun pruneLoop :: "gopath \<Rightarrow> osFaults \<Rightarrow> nat \<Rightarrow> string list \<Rightarrow> histFS \<Rightarrow> string option \<times> histFS" where
  "pruneLoop dir os i [] fs = (None, fs)"
| "pruneLoop dir os i (k # ks) fs =
     (case ctxErr os i of
        Some e \<Rightarrow> (Some e, fs)
      | None \<Rightarrow>
          (case prune dir os k localHistoryLimit fs of
             (Some e, fs') \<Rightarrow> (Some e, fs')
           | (None, fs') \<Rightarrow> pruneLoop dir os (Suc i) ks fs'))"

definition diskRecord :: "hashing \<Rightarrow> gopath \<Rightarrow> osFaults \<Rightarrow> histFS \<Rightarrow> Observation list
    \<Rightarrow> string option \<times> histFS" where
  "diskRecord h dir os fs observations =
     (case writeLoop h dir os 0 observations [] [] fs of
        (Inl e, fs') \<Rightarrow> (Some e, fs')
      | (Inr (keyIDs, i), fs') \<Rightarrow> pruneLoop dir os i keyIDs fs')"

section \<open>The HTTP client store\<close>

text \<open>
  \<open>doJSON\<close> posts a request and decodes the response. The service is the argument \<open>post\<close>: it gets
  the path and the authorization header and returns a transport error, or a status code with
  the response body; \<open>decode\<close> is the JSON decoder on that body.
\<close>

record httpResponse =
  res_StatusCode :: int
  res_Status :: string
  res_Body :: string

definition TrimRightSlash :: "string \<Rightarrow> string" where
  "TrimRightSlash s = rev (dropWhile (\<lambda>c. c = slash) (rev s))"

definition doJSON :: "(string \<Rightarrow> string option \<Rightarrow> 'req \<Rightarrow> string + httpResponse) \<Rightarrow> (string \<Rightarrow> string + 'res)
    \<Rightarrow> string \<Rightarrow> string \<Rightarrow> string \<Rightarrow> 'req \<Rightarrow> bool \<Rightarrow> string + 'res option" where
  "doJSON post decode basePath token endpoint body wantReply =
     (case post (TrimRightSlash basePath @ endpoint)
             (if token \<noteq> [] then Some (''Bearer '' @ token) else None) body of
        Inl e \<Rightarrow> Inl e
      | Inr res \<Rightarrow>
          if res_StatusCode res < 200 \<or> 300 \<le> res_StatusCode res
          then Inl (''history service '' @ endpoint @ '': '' @ res_Status res @ '': ''
                    @ TrimSpace (take 4096 (res_Body res)))
          else if \<not> wantReply \<or> res_StatusCode res = 204 then Inr None
          else map_sum id Some (decode (take 16777216 (res_Body res))))"

record LookupRequest =
  lq_Version :: int
  lq_Keys :: "histKey list"
  lq_RecentPerKey :: int

record LookupResponse =
  lr_Version :: int
  lr_Histories :: "History option list"

fun acceptHistories :: "hashing \<Rightarrow> nat \<Rightarrow> string list \<Rightarrow> History option list \<Rightarrow> (string, History) gomap
    \<Rightarrow> string + (string, History) gomap" where
  "acceptHistories h limit wanted [] ret = Inr ret"
| "acceptHistories h limit wanted (None # hs) ret = acceptHistories h limit wanted hs ret"
| "acceptHistories h limit wanted (Some hist # hs) ret =
     (if hist_Version hist \<noteq> historyVersion \<or> histID h (hist_Key hist) \<notin> set wanted
      then acceptHistories h limit wanted hs ret
      else (case find (\<lambda>obs. histID h (obs_Key obs) \<noteq> histID h (hist_Key hist)) (hist_Observations hist) of
              Some obs \<Rightarrow> Inl (''history service returned observation '' @ Quote (obs_ID obs) @ '' under the wrong key'')
            | None \<Rightarrow>
                acceptHistories h limit wanted hs
                  (AList.update (histID h (hist_Key hist))
                     (hist\<lparr>hist_Observations :=
                        take limit (SortFunc compareHistoryObservations (hist_Observations hist))\<rparr>) ret)))"

text \<open>A response body that is not sent (204) leaves the zero \<open>LookupResponse\<close>.\<close>

definition httpLookup :: "hashing \<Rightarrow> (LookupRequest \<Rightarrow> string + LookupResponse option) \<Rightarrow> histKey list \<Rightarrow> int
    \<Rightarrow> string + (string, History) gomap" where
  "httpLookup h call keys recent =
     (case call \<lparr>lq_Version = historyVersion, lq_Keys = keys, lq_RecentPerKey = int (lookupLimit recent)\<rparr> of
        Inl e \<Rightarrow> Inl e
      | Inr reply \<Rightarrow>
          (let res = (case reply of Some r \<Rightarrow> r | None \<Rightarrow> \<lparr>lr_Version = 0, lr_Histories = []\<rparr>)
           in if lr_Version res \<noteq> historyVersion
              then Inl (''history service returned version '' @ showInt (lr_Version res) @ '', want ''
                        @ showInt historyVersion)
              else acceptHistories h (lookupLimit recent) (map (histID h) keys) (lr_Histories res) []))"

record RecordRequest =
  rr_Version :: int
  rr_Observations :: "Observation list"

definition httpRecord :: "(RecordRequest \<Rightarrow> string + 'res option) \<Rightarrow> Observation list \<Rightarrow> string option" where
  "httpRecord call observations =
     (case call \<lparr>rr_Version = historyVersion, rr_Observations = observations\<rparr> of Inl e \<Rightarrow> Some e | Inr _ \<Rightarrow> None)"

section \<open>Comparison functions\<close>

lemma compareHistoryObservations_le:
  "compareHistoryObservations a b \<le> 0
    \<longleftrightarrow> obs_At b < obs_At a \<or> obs_At a = obs_At b \<and> obs_ID a \<le> obs_ID b"
  by (auto simp: compareHistoryObservations_def cmpOf_def)

interpretation obs_compare: go_compare compareHistoryObservations
  by unfold_locales (auto simp: compareHistoryObservations_le)

lemma compareHistoryObservations_antisym:
  "compareHistoryObservations a b \<le> 0 \<Longrightarrow> compareHistoryObservations b a \<le> 0 \<Longrightarrow> obs_ID a = obs_ID b"
  by (auto simp: compareHistoryObservations_le)

definition compareFiles :: "string \<times> Observation \<Rightarrow> string \<times> Observation \<Rightarrow> int" where
  "compareFiles a b = compareHistoryObservations (snd a) (snd b)"

interpretation file_compare: go_compare compareFiles
  by unfold_locales (auto simp: compareFiles_def compareHistoryObservations_le)

lemma compareDependency_le:
  "compareDependency a b \<le> 0 \<longleftrightarrow> hd_Operation a < hd_Operation b
     \<or> hd_Operation a = hd_Operation b \<and> (hd_Name a < hd_Name b
       \<or> hd_Name a = hd_Name b \<and> hd_Path a \<le> hd_Path b)"
  by (auto simp: compareDependency_def cmpOf_def)

interpretation dep_compare: go_compare compareDependency
  by unfold_locales (auto simp: compareDependency_le)

lemma compareDependency_antisym:
  "compareDependency a b \<le> 0 \<Longrightarrow> compareDependency b a \<le> 0 \<Longrightarrow> (a :: Dependency) = b"
  by (auto simp: compareDependency_le intro: Dependency.equality)

lemma map_insertFunc:
  "map g (insertFunc (\<lambda>a b. cmp (g a) (g b)) x xs) = insertFunc cmp (g x) (map g xs)"
  by (induction xs) auto

lemma map_SortFunc: "map g (SortFunc (\<lambda>a b. cmp (g a) (g b)) xs) = SortFunc cmp (map g xs)"
  by (induction xs) (simp_all add: map_insertFunc)

section \<open>Well-formed stores\<close>

definition hashOK :: "hashing \<Rightarrow> bool" where
  "hashOK h \<longleftrightarrow> (\<forall>x. length (sha h x) = 64 \<and> (\<forall>c \<in> set (sha h x). lowerHex c))"

definition dirOK :: "hashing \<Rightarrow> gopath \<Rightarrow> gopath \<Rightarrow> histDir \<Rightarrow> bool" where
  "dirOK h dir kd d \<longleftrightarrow> gomap_ok d
     \<and> (\<forall>n f. map_of d n = Some f \<longrightarrow>
          (\<exists>obs. f = ObsFile obs \<and> n = obsFileName h obs \<and> keyDir dir (histID h (obs_Key obs)) = kd))"

definition storeOK :: "hashing \<Rightarrow> gopath \<Rightarrow> histFS \<Rightarrow> bool" where
  "storeOK h dir fs \<longleftrightarrow> (\<forall>kd. dirOK h dir kd (dirOf fs kd))"

lemma dirOKD:
  "dirOK h dir kd d \<Longrightarrow> map_of d n = Some f
    \<Longrightarrow> \<exists>obs. f = ObsFile obs \<and> n = obsFileName h obs \<and> keyDir dir (histID h (obs_Key obs)) = kd"
  unfolding dirOK_def by blast

fun filesOf :: "(string \<times> histFile) list \<Rightarrow> (string \<times> Observation) list" where
  "filesOf [] = []"
| "filesOf ((n, ObsFile obs) # es) = (n, obs) # filesOf es"
| "filesOf (_ # es) = filesOf es"

text \<open>The observations in a directory with their file names, in the order of the names.\<close>

definition dirFiles :: "histDir \<Rightarrow> (string \<times> Observation) list" where
  "dirFiles d = filesOf (jsonEntries d)"

definition dirObs :: "histDir \<Rightarrow> Observation list" where
  "dirObs d = map snd (dirFiles d)"

lemma set_filesOf: "set (filesOf es) = {(n, obs). (n, ObsFile obs) \<in> set es}"
  by (induction es rule: filesOf.induct) auto

lemma filesOf_fst: "(n, obs) \<in> set (filesOf es) \<Longrightarrow> n \<in> fst ` set es"
  by (auto simp: set_filesOf intro: rev_image_eqI)

lemma distinct_filesOf: "distinct (map fst es) \<Longrightarrow> distinct (map fst (filesOf es))"
  by (induction es rule: filesOf.induct) (auto dest: filesOf_fst)

lemma distinct_jsonEntries: "gomap_ok d \<Longrightarrow> distinct (map fst (jsonEntries d))"
proof -
  assume "gomap_ok d"
  then have "distinct (map fst (map (\<lambda>name. (name, the (map_of d name))) (sortStrings (gokeys d))))"
    by (simp add: gomap_ok_def comp_def)
  then show ?thesis unfolding jsonEntries_def by (rule distinct_map_filter)
qed

lemma pathExt_json: "pathExt (a @ ''.json'') = ''.json''"
proof -
  have "CutLast CHR ''.'' (a @ ''.json'') = Some (a, ''json'')" by (simp add: CutLast_Some_iff)
  then show ?thesis by (simp add: pathExt_def)
qed

lemma set_jsonEntries:
  assumes "dirOK h dir kd d"
  shows "(n, f) \<in> set (jsonEntries d) \<longleftrightarrow> map_of d n = Some f"
proof
  assume "map_of d n = Some f"
  moreover from this assms obtain obs where "f = ObsFile obs" "n = obsFileName h obs"
    by (blast dest: dirOKD)
  moreover have "n \<in> set (gokeys d)" using \<open>map_of d n = Some f\<close> by (auto dest: map_of_SomeD intro: rev_image_eqI)
  ultimately show "(n, f) \<in> set (jsonEntries d)"
    by (auto simp: jsonEntries_def obsFileName_def pathExt_json)
next
  assume "(n, f) \<in> set (jsonEntries d)"
  then have "n \<in> fst ` set d" "f = the (map_of d n)" by (auto simp: jsonEntries_def)
  then show "map_of d n = Some f" by (metis map_of_eq_None_iff option.collapse)
qed

lemma jsonEntries_ObsFile:
  "dirOK h dir kd d \<Longrightarrow> (n, f) \<in> set (jsonEntries d) \<Longrightarrow> \<exists>obs. f = ObsFile obs \<and> n = obsFileName h obs
    \<and> keyDir dir (histID h (obs_Key obs)) = kd"
  using set_jsonEntries dirOKD by blast

lemma set_dirFiles:
  "dirOK h dir kd d \<Longrightarrow> (n, obs) \<in> set (dirFiles d) \<longleftrightarrow> map_of d n = Some (ObsFile obs)"
  by (simp add: dirFiles_def set_filesOf set_jsonEntries)

lemma distinct_dirFiles: "dirOK h dir kd d \<Longrightarrow> distinct (map fst (dirFiles d))"
  by (simp add: dirFiles_def distinct_filesOf distinct_jsonEntries dirOK_def)

lemma dirFiles_name: "dirOK h dir kd d \<Longrightarrow> f \<in> set (dirFiles d) \<Longrightarrow> fst f = obsFileName h (snd f)"
  by (cases f) (auto simp: set_dirFiles dest: dirOKD)

lemma dirFiles_strict:
  assumes "dirOK h dir kd d" "a \<in> set (dirFiles d)" "b \<in> set (dirFiles d)"
    "compareFiles a b \<le> 0" "compareFiles b a \<le> 0"
  shows "a = b"
proof -
  have "obs_ID (snd a) = obs_ID (snd b)"
    using assms(4,5) compareHistoryObservations_antisym unfolding compareFiles_def by blast
  then have "fst a = fst b" using assms(1-3) dirFiles_name by (metis obsFileName_def)
  then show ?thesis using assms(2,3) distinct_dirFiles [OF assms(1)]
    by (metis eq_key_imp_eq_value prod.collapse)
qed

lemma distinct_dirObs_ids: "dirOK h dir kd d \<Longrightarrow> distinct (map obs_ID (dirObs d))"
proof -
  assume ok: "dirOK h dir kd d"
  have "map fst (dirFiles d) = map (\<lambda>i. sha h i @ ''.json'') (map obs_ID (dirObs d))"
    using dirFiles_name [OF ok] by (simp add: dirObs_def obsFileName_def)
  then show ?thesis using distinct_dirFiles [OF ok] by (metis distinct_map)
qed

section \<open>Reading a well-formed directory\<close>

lemma noFaults_simps [simp]: "ctxErr noFaults i = None" "ioErr noFaults p = None"
  by (simp_all add: noFaults_def)

lemma readLoop_ok:
  assumes "\<forall>(n, f) \<in> set es. \<exists>obs. f = ObsFile obs \<and> histID h (obs_Key obs) = i"
    and "distinct (map obs_ID (acc @ map snd (filesOf es)))"
  shows "readLoop h noFaults dir i es acc = Inr (acc @ map snd (filesOf es))"
  using assms
proof (induction es arbitrary: acc)
  case Nil
  then show ?case by simp
next
  case (Cons e es)
  then obtain n obs where e: "e = (n, ObsFile obs)" "histID h (obs_Key obs) = i" by (cases e) auto
  from Cons.prems(2) e have "obs_ID obs \<notin> obs_ID ` set acc" by auto
  with Cons.IH [of "acc @ [obs]"] Cons.prems e show ?case by simp
qed

lemma pruneLoad_ok:
  assumes "\<forall>(n, f) \<in> set es. \<exists>obs. f = ObsFile obs"
  shows "pruneLoad noFaults dir es acc = Inr (acc @ filesOf es)"
  using assms by (induction es arbitrary: acc) auto

lemma keyDir_inject:
  assumes "hashOK h" and "keyDir dir (histID h k) = keyDir dir (histID h k')"
  shows "histID h k = histID h k'"
proof -
  have ok: "slash \<notin> set (histID h k)" "histID h k \<notin> {[], ''.'', ''..''}" for k
  proof -
    have "length (histID h k) = 64" and "\<forall>c \<in> set (histID h k). lowerHex c"
      using assms(1) by (auto simp: hashOK_def histID_def)
    then show "slash \<notin> set (histID h k)" "histID h k \<notin> {[], ''.'', ''..''}"
      using lowerHex_plain by fastforce+
  qed
  have "lastComp (keyDir dir (histID h k)) = histID h k" for k
    using lastComp_pathJoin [OF ok, of "[dir, take 2 (histID h k)]"] by (simp add: keyDir_def)
  then show ?thesis using assms(2) by metis
qed

lemma histRead_ok:
  assumes "hashOK h" and "storeOK h dir fs"
  shows "histRead h dir noFaults fs key =
    (let obs = dirObs (dirOf fs (keyDir dir (histID h key)))
     in if obs = [] then Inl None
        else Inr \<lparr>hist_Version = historyVersion, hist_Key = key,
                  hist_Observations = SortFunc compareHistoryObservations obs\<rparr>)"
proof (cases "map_of fs (keyDir dir (histID h key))")
  case None
  then show ?thesis
    by (simp add: histRead_def dirOf_def dirObs_def dirFiles_def jsonEntries_def)
next
  case (Some d)
  let ?kd = "keyDir dir (histID h key)"
  from Some have d: "dirOf fs ?kd = d" by (simp add: dirOf_def)
  with assms(2) have ok: "dirOK h dir ?kd d" by (metis storeOK_def)
  have "\<forall>(n, f) \<in> set (jsonEntries d). \<exists>obs. f = ObsFile obs \<and> histID h (obs_Key obs) = histID h key"
    using jsonEntries_ObsFile [OF ok] keyDir_inject [OF assms(1)] by blast
  then have "readLoop h noFaults ?kd (histID h key) (jsonEntries d) [] = Inr (dirObs d)"
    using readLoop_ok [of "jsonEntries d" h "histID h key" "[]" ?kd] distinct_dirObs_ids [OF ok]
    by (simp add: dirObs_def dirFiles_def)
  then show ?thesis using Some d by (simp add: histRead_def Let_def)
qed

section \<open>Writing and pruning a well-formed directory\<close>

lemma dirOf_update [simp]: "dirOf (AList.update kd d fs) kd' = (if kd' = kd then d else dirOf fs kd')"
  by (simp add: dirOf_def)

definition writeDir :: "hashing \<Rightarrow> Observation list \<Rightarrow> histDir \<Rightarrow> histDir" where
  "writeDir h obs d = fold (\<lambda>ob. AList.update (obsFileName h ob) (ObsFile ob)) obs d"

definition pruneDir :: "histDir \<Rightarrow> histDir" where
  "pruneDir d = fold (\<lambda>f. AList.delete (fst f)) (drop localHistoryLimit (SortFunc compareFiles (dirFiles d))) d"

lemma dirOK_write:
  "dirOK h dir kd d \<Longrightarrow> \<forall>ob \<in> set obs. keyDir dir (histID h (obs_Key ob)) = kd \<Longrightarrow> dirOK h dir kd (writeDir h obs d)"
proof (induction obs arbitrary: d)
  case Nil
  then show ?case by (simp add: writeDir_def)
next
  case (Cons ob obs)
  have "dirOK h dir kd (AList.update (obsFileName h ob) (ObsFile ob) d)"
    using Cons.prems by (auto simp: dirOK_def)
  with Cons show ?case by (simp add: writeDir_def)
qed

lemma map_of_writeDir: "map_of (writeDir h obs d) = map_of d ++ map_of (writeDir h obs [])"
proof (induction obs rule: rev_induct)
  case Nil
  then show ?case by (simp add: writeDir_def)
next
  case (snoc ob obs)
  then show ?case by (auto simp: writeDir_def fun_eq_iff map_add_def split: option.splits)
qed

lemma map_of_deletes:
  "map_of (fold (\<lambda>f. AList.delete (fst f)) fl d) n = (if n \<in> fst ` set fl then None else map_of d n)"
  by (induction fl arbitrary: d) auto

lemma gomap_ok_deletes: "gomap_ok d \<Longrightarrow> gomap_ok (fold (\<lambda>f. AList.delete (fst f)) fl d)"
  by (induction fl arbitrary: d) auto

lemma map_of_pruneDir_eq:
  "map_of (pruneDir d) n
    = (if n \<in> fst ` set (drop localHistoryLimit (SortFunc compareFiles (dirFiles d))) then None else map_of d n)"
  by (simp add: pruneDir_def map_of_deletes)

lemma map_of_pruneDir: "map_of (pruneDir d) n = Some f \<Longrightarrow> map_of d n = Some f"
  by (simp add: map_of_pruneDir_eq split: if_splits)

lemma dirOK_prune: "dirOK h dir kd d \<Longrightarrow> dirOK h dir kd (pruneDir d)"
  using map_of_pruneDir [of d] by (simp add: dirOK_def) (simp add: pruneDir_def gomap_ok_deletes)

lemma set_dirFiles_prune:
  assumes "dirOK h dir kd d"
  shows "set (dirFiles (pruneDir d)) = set (take localHistoryLimit (SortFunc compareFiles (dirFiles d)))"
proof -
  let ?S = "SortFunc compareFiles (dirFiles d)"
  let ?k = localHistoryLimit
  have dist: "distinct (map fst (take ?k ?S @ drop ?k ?S))"
    using distinct_dirFiles [OF assms] by simp
  have "f \<in> set (dirFiles (pruneDir d)) \<longleftrightarrow> f \<in> set ?S \<and> fst f \<notin> fst ` set (drop ?k ?S)" for f
    by (cases f) (simp add: set_dirFiles [OF assms] set_dirFiles [OF dirOK_prune [OF assms]]
        map_of_pruneDir_eq)
  moreover have "f \<in> set ?S \<and> fst f \<notin> fst ` set (drop ?k ?S) \<longleftrightarrow> f \<in> set (take ?k ?S)" for f
  proof -
    have "f \<in> set ?S \<longleftrightarrow> f \<in> set (take ?k ?S) \<or> f \<in> set (drop ?k ?S)"
      by (metis Un_iff append_take_drop_id set_append)
    moreover have "fst ` set (take ?k ?S) \<inter> fst ` set (drop ?k ?S) = {}"
      using dist by (simp only: map_append distinct_append set_map)
    ultimately show ?thesis by blast
  qed
  ultimately show ?thesis by blast
qed

lemma length_dirFiles_prune:
  assumes "dirOK h dir kd d"
  shows "length (dirFiles (pruneDir d)) \<le> localHistoryLimit"
proof -
  have "length (dirFiles (pruneDir d)) = card (set (dirFiles (pruneDir d)))"
    using distinct_dirFiles [OF dirOK_prune [OF assms]] by (metis distinct_card distinct_map)
  also have "\<dots> \<le> length (take localHistoryLimit (SortFunc compareFiles (dirFiles d)))"
    by (subst set_dirFiles_prune [OF assms]) (rule card_length)
  finally show ?thesis by simp
qed

text \<open>Recording the same observations once more leaves the same files in the directory.\<close>

lemma write_prune_idem:
  assumes "dirOK h dir kd d" and "\<forall>ob \<in> set obs. keyDir dir (histID h (obs_Key ob)) = kd"
  defines "d1 \<equiv> pruneDir (writeDir h obs d)"
  shows "set (dirFiles (pruneDir (writeDir h obs d1))) = set (dirFiles d1)"
proof -
  let ?x = "writeDir h obs d" and ?y = "writeDir h obs d1"
  have x: "dirOK h dir kd ?x" by (rule dirOK_write [OF assms(1,2)])
  have d1: "dirOK h dir kd d1" unfolding d1_def by (rule dirOK_prune [OF x])
  have y: "dirOK h dir kd ?y" by (rule dirOK_write [OF d1 assms(2)])
  have d1x: "map_of d1 n = Some f \<Longrightarrow> map_of ?x n = Some f" for n f
    unfolding d1_def by (rule map_of_pruneDir)
  have yx: "map_of ?y n = Some f \<Longrightarrow> map_of ?x n = Some f" for n f
    using d1x map_of_writeDir [of h obs d] map_of_writeDir [of h obs d1]
    by (auto simp: map_add_Some_iff)
  have d1y: "map_of d1 n = Some f \<Longrightarrow> map_of ?y n = Some f" for n f
    using d1x [of n f] map_of_writeDir [of h obs d] map_of_writeDir [of h obs d1]
    by (auto simp: map_add_Some_iff)
  have "take localHistoryLimit (SortFunc compareFiles (dirFiles ?y))
      = take localHistoryLimit (SortFunc compareFiles (dirFiles ?x))"
  proof (rule file_compare.take_SortFunc_between)
    show "set (take localHistoryLimit (SortFunc compareFiles (dirFiles ?x))) \<subseteq> set (dirFiles ?y)"
      unfolding set_dirFiles_prune [OF x, symmetric] d1_def [symmetric]
      using d1y by (auto simp: set_dirFiles [OF d1] set_dirFiles [OF y])
    show "set (dirFiles ?y) \<subseteq> set (dirFiles ?x)"
      using yx by (auto simp: set_dirFiles [OF x] set_dirFiles [OF y])
    show "distinct (dirFiles ?x)" "distinct (dirFiles ?y)"
      using distinct_dirFiles [OF x] distinct_dirFiles [OF y] by (metis distinct_map)+
  qed (rule dirFiles_strict [OF x])
  with set_dirFiles_prune [OF y] set_dirFiles_prune [OF x] show ?thesis by (simp only: d1_def)
qed

section \<open>Recording\<close>

text \<open>The observations that \<open>Record\<close> writes: the first of each key and ID.\<close>

fun written :: "hashing \<Rightarrow> string list \<Rightarrow> Observation list \<Rightarrow> Observation list" where
  "written h seen [] = []"
| "written h seen (obs # rest) =
     (let e = histID h (obs_Key obs) @ [nul] @ obs_ID obs
      in if e \<in> set seen then written h seen rest else obs # written h (e # seen) rest)"

definition inDir :: "hashing \<Rightarrow> gopath \<Rightarrow> gopath \<Rightarrow> Observation list \<Rightarrow> Observation list" where
  "inDir h dir kd obs = filter (\<lambda>ob. keyDir dir (histID h (obs_Key ob)) = kd) obs"

lemma writeLoop_ok:
  assumes "distinct ids"
  shows "\<exists>ids' i' fs'. writeLoop h dir noFaults i obs seen ids fs = (Inr (ids', i'), fs')
     \<and> distinct ids' \<and> set ids' = set ids \<union> (\<lambda>ob. histID h (obs_Key ob)) ` set (written h seen obs)
     \<and> (\<forall>kd. dirOf fs' kd = writeDir h (inDir h dir kd (written h seen obs)) (dirOf fs kd))"
  using assms
proof (induction obs arbitrary: i seen ids fs)
  case Nil
  then show ?case by (simp add: writeDir_def inDir_def)
next
  case (Cons ob obs)
  let ?e = "histID h (obs_Key ob) @ [nul] @ obs_ID ob"
  show ?case
  proof (cases "?e \<in> set seen")
    case True
    with Cons.IH [OF Cons.prems, of "Suc i" seen fs] show ?thesis by simp
  next
    case False
    let ?kd = "keyDir dir (histID h (obs_Key ob))"
    let ?fs = "AList.update ?kd (AList.update (obsFileName h ob) (ObsFile ob) (dirOf fs ?kd)) fs"
    have w: "writeObservation h dir noFaults ob fs = (None, ?fs)"
      by (simp add: writeObservation_def Let_def)
    have "distinct (List.insert (histID h (obs_Key ob)) ids)" using Cons.prems by simp
    from Cons.IH [OF this, of "Suc i" "?e # seen" ?fs] False w
    show ?thesis by (auto simp: writeDir_def inDir_def)
  qed
qed

lemma prune_ok:
  assumes "storeOK h dir fs"
  shows "\<exists>fs'. prune dir noFaults i localHistoryLimit fs = (None, fs')
    \<and> (\<forall>kd. dirOf fs' kd = (if kd = keyDir dir i then pruneDir (dirOf fs kd) else dirOf fs kd))"
proof (cases "map_of fs (keyDir dir i)")
  case None
  then have "dirOf fs (keyDir dir i) = []" by (simp add: dirOf_def)
  moreover have "pruneDir [] = []" by (simp add: pruneDir_def dirFiles_def jsonEntries_def)
  ultimately show ?thesis using None by (simp add: prune_def)
next
  case (Some d)
  then have d: "dirOf fs (keyDir dir i) = d" by (simp add: dirOf_def)
  with assms have ok: "dirOK h dir (keyDir dir i) d" by (metis storeOK_def)
  have "pruneLoad noFaults (keyDir dir i) (jsonEntries d) [] = Inr (dirFiles d)"
    using pruneLoad_ok [of "jsonEntries d"] jsonEntries_ObsFile [OF ok] by (fastforce simp: dirFiles_def)
  moreover have "(\<lambda>a b. compareHistoryObservations (snd a) (snd b)) = compareFiles"
    by (simp add: fun_eq_iff compareFiles_def)
  ultimately have "prune dir noFaults i localHistoryLimit fs = (None, AList.update (keyDir dir i) (pruneDir d) fs)"
    using Some by (simp add: prune_def pruneDir_def)
  then show ?thesis using d by simp
qed

lemma storeOK_prune:
  assumes "storeOK h dir fs"
    and "\<forall>kd. dirOf fs' kd = (if P kd then pruneDir (dirOf fs kd) else dirOf fs kd)"
  shows "storeOK h dir fs'"
  using assms dirOK_prune by (simp add: storeOK_def)

lemma pruneLoop_ok:
  assumes "storeOK h dir fs" and "distinct ids" and "inj_on (keyDir dir) (set ids)"
  shows "\<exists>fs'. pruneLoop dir noFaults i ids fs = (None, fs')
    \<and> (\<forall>kd. dirOf fs' kd = (if kd \<in> keyDir dir ` set ids then pruneDir (dirOf fs kd) else dirOf fs kd))"
  using assms
proof (induction ids arbitrary: i fs)
  case Nil
  then show ?case by simp
next
  case (Cons k ids)
  obtain fs1 where fs1: "prune dir noFaults k localHistoryLimit fs = (None, fs1)"
    "\<forall>kd. dirOf fs1 kd = (if kd = keyDir dir k then pruneDir (dirOf fs kd) else dirOf fs kd)"
    using prune_ok [OF Cons.prems(1)] by blast
  have "storeOK h dir fs1" by (rule storeOK_prune [OF Cons.prems(1) fs1(2)])
  with Cons.IH [of fs1 "Suc i"] Cons.prems obtain fs2 where
    fs2: "pruneLoop dir noFaults (Suc i) ids fs1 = (None, fs2)"
    "\<forall>kd. dirOf fs2 kd = (if kd \<in> keyDir dir ` set ids then pruneDir (dirOf fs1 kd) else dirOf fs1 kd)"
    by auto
  have "keyDir dir k \<notin> keyDir dir ` set ids" using Cons.prems(2,3) by (auto simp: inj_on_def)
  with fs1 fs2 show ?case by auto
qed

lemma diskRecord_ok:
  assumes "hashOK h" and "storeOK h dir fs"
  shows "\<exists>fs'. diskRecord h dir noFaults fs obs = (None, fs') \<and> storeOK h dir fs'
    \<and> (\<forall>kd. dirOf fs' kd =
         (let new = inDir h dir kd (written h [] obs)
          in if new = [] then dirOf fs kd else pruneDir (writeDir h new (dirOf fs kd))))"
proof -
  obtain ids i fs1 where w: "writeLoop h dir noFaults 0 obs [] [] fs = (Inr (ids, i), fs1)"
    "distinct ids" "set ids = (\<lambda>ob. histID h (obs_Key ob)) ` set (written h [] obs)"
    "\<forall>kd. dirOf fs1 kd = writeDir h (inDir h dir kd (written h [] obs)) (dirOf fs kd)"
    using writeLoop_ok [of "[]" h dir 0 obs "[]" fs] by auto
  have ok1: "storeOK h dir fs1"
    unfolding storeOK_def
  proof
    fix kd
    have "\<forall>ob \<in> set (inDir h dir kd (written h [] obs)). keyDir dir (histID h (obs_Key ob)) = kd"
      by (simp add: inDir_def)
    then show "dirOK h dir kd (dirOf fs1 kd)"
      using w(4) assms(2) dirOK_write unfolding storeOK_def by metis
  qed
  have "inj_on (keyDir dir) (set ids)"
    using w(3) keyDir_inject [OF assms(1)] by (auto simp: inj_on_def)
  from pruneLoop_ok [OF ok1 w(2) this, of i] obtain fs2 where
    p: "pruneLoop dir noFaults i ids fs1 = (None, fs2)"
    "\<forall>kd. dirOf fs2 kd = (if kd \<in> keyDir dir ` set ids then pruneDir (dirOf fs1 kd) else dirOf fs1 kd)"
    by blast
  have "kd \<in> keyDir dir ` set ids \<longleftrightarrow> inDir h dir kd (written h [] obs) \<noteq> []" for kd
    using w(3) by (auto simp: inDir_def filter_empty_conv)
  moreover have "storeOK h dir fs2" by (rule storeOK_prune [OF ok1 p(2)])
  ultimately show ?thesis using w(1,4) p
    by (simp add: diskRecord_def Let_def writeDir_def)
qed

section \<open>The store contract\<close>

text \<open>
  The loop of \<open>orderTestTasksByHistory\<close> and \<open>prepareTestEstimates\<close> that finds the newest
  observation.
\<close>

definition latestObservation :: "Observation \<Rightarrow> Observation list \<Rightarrow> Observation" where
  "latestObservation first rest =
     foldl (\<lambda>latest ob. if compareHistoryObservations ob latest < 0 then ob else latest) first rest"

definition newestFirst :: "Observation list \<Rightarrow> bool" where
  "newestFirst obs \<longleftrightarrow> sorted_wrt (\<lambda>a b. compareHistoryObservations a b \<le> 0) obs"

lemma latestObservation_head: "newestFirst (o1 # obs) \<Longrightarrow> latestObservation o1 obs = o1"
proof (induction obs)
  case Nil
  then show ?case by (simp add: latestObservation_def)
next
  case (Cons ob obs)
  have "\<not> compareHistoryObservations ob o1 < 0"
    using Cons.prems by (auto simp: newestFirst_def compareHistoryObservations_def cmpOf_def split: if_splits)
  moreover have "newestFirst (o1 # obs)" using Cons.prems by (simp add: newestFirst_def)
  ultimately show ?case using Cons.IH by (simp add: latestObservation_def)
qed

text \<open>What a lookup of any store returns.\<close>

locale history_lookup =
  fixes lookup :: "'s \<Rightarrow> histKey list \<Rightarrow> int \<Rightarrow> string + (string, History) gomap"
    and hid :: "histKey \<Rightarrow> string"
  assumes lookup_wanted: "lookup s keys n = Inr m \<Longrightarrow> map_of m i = Some hist \<Longrightarrow>
      i \<in> hid ` set keys \<and> hid (hist_Key hist) = i \<and> (\<forall>ob \<in> set (hist_Observations hist). hid (obs_Key ob) = i)"
    and lookup_newest: "lookup s keys n = Inr m \<Longrightarrow> map_of m i = Some hist \<Longrightarrow> newestFirst (hist_Observations hist)"
    and lookup_limit: "lookup s keys n = Inr m \<Longrightarrow> map_of m i = Some hist
      \<Longrightarrow> length (hist_Observations hist) \<le> lookupLimit n"
begin

lemma lookup_latest:
  "lookup s keys n = Inr m \<Longrightarrow> map_of m i = Some hist \<Longrightarrow> hist_Observations hist = ob # obs
    \<Longrightarrow> latestObservation ob obs = ob"
  using lookup_newest latestObservation_head by metis

end

text \<open>A store that records: recording again what was just recorded is not observable.\<close>

locale history_store = history_lookup lookup hid
  for lookup :: "'s \<Rightarrow> histKey list \<Rightarrow> int \<Rightarrow> string + (string, History) gomap" and hid +
  fixes inv :: "'s \<Rightarrow> bool" and rec :: "'s \<Rightarrow> Observation list \<Rightarrow> 's"
  assumes rec_inv: "inv s \<Longrightarrow> inv (rec s obs)"
    and rec_idem: "inv s \<Longrightarrow> lookup (rec (rec s obs) obs) keys n = lookup (rec s obs) keys n"
    and lookup_total: "inv s \<Longrightarrow> \<exists>m. lookup s keys n = Inr m"
begin

lemma rec_retries:
  "inv s \<Longrightarrow> inv (((\<lambda>s. rec s obs) ^^ k) (rec s obs))
    \<and> lookup (((\<lambda>s. rec s obs) ^^ k) (rec s obs)) keys n = lookup (rec s obs) keys n"
proof (induction k arbitrary: s)
  case 0
  then show ?case by (simp add: rec_inv)
next
  case (Suc k)
  have "inv (rec s obs)" using Suc.prems by (rule rec_inv)
  from Suc.IH [OF this] rec_idem [OF Suc.prems] show ?case
    by (simp only: funpow_Suc_right comp_apply simp_thms)
qed

end

section \<open>The stores implement it\<close>

lemma newestFirst_Sort [simp]: "newestFirst (SortFunc compareHistoryObservations obs)"
  unfolding newestFirst_def by (rule obs_compare.sorted_SortFunc)

lemma newestFirst_take [simp]: "newestFirst obs \<Longrightarrow> newestFirst (take n obs)"
  by (simp add: newestFirst_def sorted_wrt_take)

definition histOK :: "hashing \<Rightarrow> string list \<Rightarrow> nat \<Rightarrow> string \<Rightarrow> History \<Rightarrow> bool" where
  "histOK h ids limit i hist \<longleftrightarrow> i \<in> set ids \<and> histID h (hist_Key hist) = i
     \<and> (\<forall>ob \<in> set (hist_Observations hist). histID h (obs_Key ob) = i)
     \<and> newestFirst (hist_Observations hist) \<and> length (hist_Observations hist) \<le> limit"

definition historiesOK :: "hashing \<Rightarrow> string list \<Rightarrow> nat \<Rightarrow> (string, History) gomap \<Rightarrow> bool" where
  "historiesOK h ids limit m \<longleftrightarrow> (\<forall>i hist. map_of m i = Some hist \<longrightarrow> histOK h ids limit i hist)"

lemma readLoop_keys:
  "readLoop h os dir i es acc = Inr obs \<Longrightarrow> \<forall>ob \<in> set acc. histID h (obs_Key ob) = i
    \<Longrightarrow> \<forall>ob \<in> set obs. histID h (obs_Key ob) = i"
proof (induction es arbitrary: acc)
  case Nil
  then show ?case by simp
next
  case (Cons e es)
  from Cons.prems(1) obtain acc' where "readLoop h os dir i es acc' = Inr obs"
    "\<forall>ob \<in> set acc'. histID h (obs_Key ob) = i"
    using Cons.prems(2) by (cases e) (fastforce split: option.splits if_splits histFile.splits)
  then show ?case by (rule Cons.IH)
qed

lemma histRead_sound:
  "histRead h dir os fs key = Inr hist \<Longrightarrow> hist_Key hist = key \<and> newestFirst (hist_Observations hist)
    \<and> (\<forall>ob \<in> set (hist_Observations hist). histID h (obs_Key ob) = histID h key)"
  by (auto simp: histRead_def Let_def dest!: readLoop_keys split: option.splits if_splits sum.splits)

lemma lookupLoop_sound:
  "lookupLoop h dir os fs limit i keys ret = Inr m \<Longrightarrow> historiesOK h ids limit ret
    \<Longrightarrow> histID h ` set keys \<subseteq> set ids \<Longrightarrow> historiesOK h ids limit m"
proof (induction keys arbitrary: i ret)
  case Nil
  then show ?case by simp
next
  case (Cons key keys)
  have ids: "histID h ` set keys \<subseteq> set ids" "histID h key \<in> set ids" using Cons.prems(3) by auto
  from Cons.prems(1) consider "lookupLoop h dir os fs limit (Suc i) keys ret = Inr m"
    | hist where "histRead h dir os fs key = Inr hist"
      "lookupLoop h dir os fs limit (Suc i) keys
         (AList.update (histID h key) (hist\<lparr>hist_Observations := take limit (hist_Observations hist)\<rparr>) ret) = Inr m"
    by (auto split: option.splits sum.splits)
  then show ?case
  proof cases
    case 1
    then show ?thesis using Cons.IH Cons.prems(2) ids(1) by blast
  next
    case (2 hist)
    have "historiesOK h ids limit
        (AList.update (histID h key) (hist\<lparr>hist_Observations := take limit (hist_Observations hist)\<rparr>) ret)"
      using Cons.prems(2) ids(2) histRead_sound [OF 2(1)]
      by (auto simp: historiesOK_def histOK_def dest: in_set_takeD)
    with 2(2) ids(1) show ?thesis using Cons.IH by blast
  qed
qed

lemma acceptHistories_sound:
  "acceptHistories h limit wanted hs ret = Inr m \<Longrightarrow> historiesOK h wanted limit ret
    \<Longrightarrow> historiesOK h wanted limit m"
proof (induction hs arbitrary: ret)
  case Nil
  then show ?case by simp
next
  case (Cons x hs)
  show ?case
  proof (cases "\<exists>hist. x = Some hist \<and> hist_Version hist = historyVersion \<and> histID h (hist_Key hist) \<in> set wanted")
    case False
    then have "acceptHistories h limit wanted hs ret = Inr m" using Cons.prems(1) by (cases x) auto
    then show ?thesis using Cons.IH Cons.prems(2) by blast
  next
    case True
    then obtain hist where hist: "x = Some hist" "histID h (hist_Key hist) \<in> set wanted" by blast
    let ?ret = "AList.update (histID h (hist_Key hist))
      (hist\<lparr>hist_Observations := take limit (SortFunc compareHistoryObservations (hist_Observations hist))\<rparr>) ret"
    from Cons.prems(1) True hist have
      rest: "find (\<lambda>obs. histID h (obs_Key obs) \<noteq> histID h (hist_Key hist)) (hist_Observations hist) = None"
        "acceptHistories h limit wanted hs ?ret = Inr m"
      by (auto split: option.splits)
    have "historiesOK h wanted limit ?ret"
      using Cons.prems(2) hist(2) rest(1)
      by (auto simp: historiesOK_def histOK_def find_None_iff dest: in_set_takeD)
    with rest(2) show ?thesis using Cons.IH by blast
  qed
qed

lemma httpLookup_sound:
  "httpLookup h call keys n = Inr m \<Longrightarrow> historiesOK h (map (histID h) keys) (lookupLimit n) m"
  unfolding httpLookup_def Let_def
  by (auto split: sum.splits if_splits dest!: acceptHistories_sound simp: historiesOK_def)

lemma diskLookup_sound:
  "diskLookup h dir os fs keys n = Inr m \<Longrightarrow> historiesOK h (map (histID h) keys) (lookupLimit n) m"
  unfolding diskLookup_def by (drule lookupLoop_sound) (auto simp: historiesOK_def)

interpretation http: history_lookup "httpLookup h" "histID h" for h
proof
  fix call keys n m i hist
  assume "httpLookup h call keys n = Inr m" and "map_of m i = Some hist"
  then have "histOK h (map (histID h) keys) (lookupLimit n) i hist"
    by (blast dest: httpLookup_sound [unfolded historiesOK_def])
  then show "i \<in> histID h ` set keys \<and> histID h (hist_Key hist) = i
      \<and> (\<forall>ob \<in> set (hist_Observations hist). histID h (obs_Key ob) = i)"
    "newestFirst (hist_Observations hist)" "length (hist_Observations hist) \<le> lookupLimit n"
    by (simp_all add: histOK_def)
qed

lemma hashOK_sha256 [simp]: "hashOK (sha256With m r)"
  by (auto simp: hashOK_def length_sha256hex dest: sha256hex_lower)

lemma sorted_dirObs_cong:
  assumes "dirOK h dir kd d" and "dirOK h dir kd d'" and "set (dirFiles d) = set (dirFiles d')"
  shows "SortFunc compareHistoryObservations (dirObs d) = SortFunc compareHistoryObservations (dirObs d')"
proof -
  have "distinct (dirFiles d)" "distinct (dirFiles d')"
    using distinct_dirFiles [OF assms(1)] distinct_dirFiles [OF assms(2)] by (metis distinct_map)+
  with assms(3) have "mset (dirFiles d) = mset (dirFiles d')" by (metis set_eq_iff_mset_eq_distinct)
  then have "SortFunc compareFiles (dirFiles d) = SortFunc compareFiles (dirFiles d')"
    by (rule file_compare.SortFunc_perm) (rule dirFiles_strict [OF assms(2)])
  moreover have "SortFunc compareHistoryObservations (dirObs d) = map snd (SortFunc compareFiles (dirFiles d))" for d
    using map_SortFunc [of snd compareHistoryObservations "dirFiles d"]
    by (simp add: dirObs_def compareFiles_def [abs_def])
  ultimately show ?thesis by simp
qed

lemma histRead_cong:
  assumes "hashOK h" and "storeOK h dir fs" and "storeOK h dir fs'"
    and "\<And>kd. set (dirFiles (dirOf fs kd)) = set (dirFiles (dirOf fs' kd))"
  shows "histRead h dir noFaults fs key = histRead h dir noFaults fs' key"
proof -
  let ?kd = "keyDir dir (histID h key)"
  have "SortFunc compareHistoryObservations (dirObs (dirOf fs ?kd))
      = SortFunc compareHistoryObservations (dirObs (dirOf fs' ?kd))"
    by (rule sorted_dirObs_cong) (use assms in \<open>auto simp: storeOK_def\<close>)
  moreover from this have "dirObs (dirOf fs ?kd) = [] \<longleftrightarrow> dirObs (dirOf fs' ?kd) = []"
    by (metis SortFunc_eq_Nil)
  ultimately show ?thesis
    unfolding histRead_ok [OF assms(1,2)] histRead_ok [OF assms(1,3)] Let_def by simp
qed

lemma lookupLoop_cong:
  "(\<And>key. histRead h dir os fs key = histRead h dir os fs' key)
    \<Longrightarrow> lookupLoop h dir os fs limit i keys ret = lookupLoop h dir os fs' limit i keys ret"
  by (induction keys arbitrary: i ret) (auto split: option.splits sum.splits)

lemma lookupLoop_total:
  assumes "hashOK h" and "storeOK h dir fs"
  shows "\<exists>m. lookupLoop h dir noFaults fs limit i keys ret = Inr m"
proof (induction keys arbitrary: i ret)
  case Nil
  then show ?case by simp
next
  case (Cons key keys)
  then show ?case by (simp add: histRead_ok [OF assms] Let_def)
qed

definition recorded :: "hashing \<Rightarrow> gopath \<Rightarrow> histFS \<Rightarrow> Observation list \<Rightarrow> histFS" where
  "recorded h dir fs obs = snd (diskRecord h dir noFaults fs obs)"

lemma recorded_ok:
  assumes "hashOK h" and "storeOK h dir fs"
  shows "diskRecord h dir noFaults fs obs = (None, recorded h dir fs obs)"
    and "storeOK h dir (recorded h dir fs obs)"
    and "dirOf (recorded h dir fs obs) kd =
         (let new = inDir h dir kd (written h [] obs)
          in if new = [] then dirOf fs kd else pruneDir (writeDir h new (dirOf fs kd)))"
  using diskRecord_ok [OF assms, of obs] by (auto simp: recorded_def)

lemma recorded_idem:
  assumes "hashOK h" and "storeOK h dir fs"
  shows "set (dirFiles (dirOf (recorded h dir (recorded h dir fs obs) obs) kd))
    = set (dirFiles (dirOf (recorded h dir fs obs) kd))"
proof (cases "inDir h dir kd (written h [] obs) = []")
  case True
  then show ?thesis
    by (simp add: recorded_ok(3) [OF assms(1) recorded_ok(2) [OF assms]])
next
  case False
  let ?new = "inDir h dir kd (written h [] obs)"
  have "\<forall>ob \<in> set ?new. keyDir dir (histID h (obs_Key ob)) = kd" by (simp add: inDir_def)
  moreover have "dirOK h dir kd (dirOf fs kd)" using assms(2) by (simp add: storeOK_def)
  ultimately show ?thesis using False write_prune_idem [of h dir kd "dirOf fs kd" ?new]
    by (simp add: recorded_ok(3) [OF assms(1) recorded_ok(2) [OF assms]] recorded_ok(3) [OF assms] Let_def)
qed

interpretation diskh: history_store "diskLookup (sha256With m r) dir noFaults" "histID (sha256With m r)"
  "storeOK (sha256With m r) dir" "recorded (sha256With m r) dir" for m r dir
proof
  let ?h = "sha256With m r"
  fix s keys n ms i hist
  assume "diskLookup ?h dir noFaults s keys n = Inr ms" and "map_of ms i = Some hist"
  then have "histOK ?h (map (histID ?h) keys) (lookupLimit n) i hist"
    by (blast dest: diskLookup_sound [unfolded historiesOK_def])
  then show "i \<in> histID ?h ` set keys \<and> histID ?h (hist_Key hist) = i
      \<and> (\<forall>ob \<in> set (hist_Observations hist). histID ?h (obs_Key ob) = i)"
    "newestFirst (hist_Observations hist)" "length (hist_Observations hist) \<le> lookupLimit n"
    by (simp_all add: histOK_def)
next
  let ?h = "sha256With m r"
  fix s obs keys n
  assume ok: "storeOK ?h dir s"
  then show "storeOK ?h dir (recorded ?h dir s obs)" by (simp add: recorded_ok)
  show "\<exists>m. diskLookup ?h dir noFaults s keys n = Inr m"
    unfolding diskLookup_def by (rule lookupLoop_total [OF _ ok]) simp
  show "diskLookup ?h dir noFaults (recorded ?h dir (recorded ?h dir s obs) obs) keys n
      = diskLookup ?h dir noFaults (recorded ?h dir s obs) keys n"
    unfolding diskLookup_def
  proof (intro lookupLoop_cong histRead_cong)
    show "storeOK ?h dir (recorded ?h dir s obs)"
      "storeOK ?h dir (recorded ?h dir (recorded ?h dir s obs) obs)"
      using ok by (simp_all add: recorded_ok)
  qed (simp_all add: recorded_idem ok)
qed

lemma sorted_pruneDir:
  assumes "dirOK h dir kd d"
  shows "SortFunc compareHistoryObservations (dirObs (pruneDir d))
    = take localHistoryLimit (SortFunc compareHistoryObservations (dirObs d))"
proof -
  let ?T = "take localHistoryLimit (SortFunc compareFiles (dirFiles d))"
  have sort: "SortFunc compareHistoryObservations (dirObs d) = map snd (SortFunc compareFiles (dirFiles d))" for d
    using map_SortFunc [of snd compareHistoryObservations "dirFiles d"]
    by (simp add: dirObs_def compareFiles_def [abs_def])
  have ok: "dirOK h dir kd (pruneDir d)" by (rule dirOK_prune [OF assms])
  have "distinct (dirFiles (pruneDir d))" "distinct ?T"
    using distinct_dirFiles [OF ok] distinct_dirFiles [OF assms] by (auto simp: distinct_map)
  then have "mset ?T = mset (dirFiles (pruneDir d))"
    using set_dirFiles_prune [OF assms] by (metis set_eq_iff_mset_eq_distinct)
  moreover have "sorted_wrt (\<lambda>a b. compareFiles a b \<le> 0) ?T"
    by (intro sorted_wrt_take file_compare.sorted_SortFunc)
  ultimately have "?T = SortFunc compareFiles (dirFiles (pruneDir d))"
    by (rule file_compare.SortFunc_unique) (rule dirFiles_strict [OF ok])
  then show ?thesis by (simp add: sort take_map)
qed

lemma sorted_writeDir:
  assumes "dirOK h dir (keyDir dir (histID h (obs_Key ob))) d"
  shows "SortFunc compareHistoryObservations (dirObs (writeDir h [ob] d))
    = SortFunc compareHistoryObservations (ob # filter (\<lambda>x. obsFileName h x \<noteq> obsFileName h ob) (dirObs d))"
proof -
  let ?w = "writeDir h [ob] d"
  let ?l = "(obsFileName h ob, ob) # filter (\<lambda>f. fst f \<noteq> obsFileName h ob) (dirFiles d)"
  have ok: "dirOK h dir (keyDir dir (histID h (obs_Key ob))) ?w" by (rule dirOK_write [OF assms]) simp
  have map_w: "map_of ?w n = (if n = obsFileName h ob then Some (ObsFile ob) else map_of d n)" for n
    by (simp add: writeDir_def)
  have "set ?l = set (dirFiles ?w)"
    using map_w by (auto simp: set_dirFiles [OF ok] set_dirFiles [OF assms] split: if_splits)
  moreover have "distinct (map fst ?l)"
    using distinct_dirFiles [OF assms] by (auto simp: distinct_map_filter)
  moreover have "distinct (dirFiles ?w)" using distinct_dirFiles [OF ok] by (metis distinct_map)
  ultimately have "mset ?l = mset (dirFiles ?w)" by (metis distinct_map set_eq_iff_mset_eq_distinct)
  then have "mset (map snd ?l) = mset (dirObs ?w)" by (simp only: dirObs_def mset_map)
  moreover have "map snd (filter (\<lambda>f. fst f \<noteq> obsFileName h ob) (dirFiles d))
      = filter (\<lambda>x. obsFileName h x \<noteq> obsFileName h ob) (dirObs d)"
  proof -
    have "filter (\<lambda>f. fst f \<noteq> obsFileName h ob) (dirFiles d)
        = filter (\<lambda>f. obsFileName h (snd f) \<noteq> obsFileName h ob) (dirFiles d)"
      by (rule filter_cong) (simp_all add: dirFiles_name [OF assms])
    then show ?thesis by (simp only: dirObs_def filter_map comp_def)
  qed
  ultimately have "mset (ob # filter (\<lambda>x. obsFileName h x \<noteq> obsFileName h ob) (dirObs d)) = mset (dirObs ?w)"
    by simp
  then have "SortFunc compareHistoryObservations (ob # filter (\<lambda>x. obsFileName h x \<noteq> obsFileName h ob) (dirObs d))
      = SortFunc compareHistoryObservations (dirObs ?w)"
  proof (rule obs_compare.SortFunc_perm)
    fix a b assume ab: "a \<in> set (dirObs ?w)" "b \<in> set (dirObs ?w)"
      "compareHistoryObservations a b \<le> 0" "compareHistoryObservations b a \<le> 0"
    then have "obs_ID a = obs_ID b" using compareHistoryObservations_antisym by blast
    with ab(1,2) distinct_dirObs_ids [OF ok] show "a = b" by (auto simp: distinct_map inj_on_def)
  qed
  then show ?thesis ..
qed

definition sampleHistKey :: histKey where
  "sampleHistKey = \<lparr>hk_Package = ''p'', hk_Test = ''TestA'', hk_GOOS = ''linux'', hk_GOARCH = ''amd64'',
     hk_Tags = [''b'', ''a''], hk_Args = [''-test.count=1'']\<rparr>"

definition sampleObs :: Observation where
  "sampleObs = \<lparr>obs_ID = ''01'', obs_Key = sampleHistKey, obs_At = 7, obs_Outcome = OutcomePass,
     obs_Duration = 5, obs_Attempts = 1, obs_PeakRSS = 0, obs_Dependencies = Some []\<rparr>"

lemma storeOK_Nil [simp]: "storeOK h dir []"
  by (simp add: storeOK_def dirOK_def dirOf_def)

section \<open>Properties of the stores\<close>

text \<open>
  C25. Recording is idempotent, as \<open>history.Store\<close> demands: however often the same batch of
  observations is recorded again, every lookup in the disk store returns what it returned after
  the first time, pruning included.
\<close>

theorem disk_record_idempotent:
  assumes "storeOK (sha256With m r) dir fs"
  shows "diskLookup (sha256With m r) dir noFaults
      (((\<lambda>s. recorded (sha256With m r) dir s obs) ^^ k) (recorded (sha256With m r) dir fs obs)) keys n
    = diskLookup (sha256With m r) dir noFaults (recorded (sha256With m r) dir fs obs) keys n"
  using diskh.rec_retries [OF assms] by blast

theorem disk_record_idempotent_witness:
  "diskLookup (sha256With textMarshal showInt) ''/c'' noFaults
      (((\<lambda>s. recorded (sha256With textMarshal showInt) ''/c'' s [sampleObs]) ^^ 2)
        (recorded (sha256With textMarshal showInt) ''/c'' [] [sampleObs])) [obs_Key sampleObs] 3
    = diskLookup (sha256With textMarshal showInt) ''/c'' noFaults
        (recorded (sha256With textMarshal showInt) ''/c'' [] [sampleObs]) [obs_Key sampleObs] 3"
  by (rule disk_record_idempotent) (rule storeOK_Nil)

text \<open>
  Recording one observation succeeds and a lookup of its key then returns the observation
  merged with the stored ones (replacing one of the same file name, hence of the same ID), newest
  first, cut to the 32 newest that the store keeps and to the limit asked for.
\<close>

theorem disk_lookup_after_record:
  assumes "hashOK h" and "storeOK h dir fs"
  shows "diskRecord h dir noFaults fs [ob] = (None, recorded h dir fs [ob])
    \<and> diskLookup h dir noFaults (recorded h dir fs [ob]) [obs_Key ob] n
      = Inr [(histID h (obs_Key ob),
           \<lparr>hist_Version = historyVersion, hist_Key = obs_Key ob,
            hist_Observations = take (min (lookupLimit n) localHistoryLimit)
              (SortFunc compareHistoryObservations
                (ob # filter (\<lambda>x. obsFileName h x \<noteq> obsFileName h ob)
                        (dirObs (dirOf fs (keyDir dir (histID h (obs_Key ob)))))))\<rparr>)]"
proof -
  let ?kd = "keyDir dir (histID h (obs_Key ob))"
  let ?d = "writeDir h [ob] (dirOf fs ?kd)"
  have d: "dirOK h dir ?kd (dirOf fs ?kd)" using assms(2) by (simp add: storeOK_def)
  have w: "dirOK h dir ?kd ?d" by (rule dirOK_write [OF d]) simp
  have dir: "dirOf (recorded h dir fs [ob]) ?kd = pruneDir ?d"
    by (simp add: recorded_ok(3) [OF assms] inDir_def)
  have sorted: "SortFunc compareHistoryObservations (dirObs (pruneDir ?d))
      = take localHistoryLimit (SortFunc compareHistoryObservations
          (ob # filter (\<lambda>x. obsFileName h x \<noteq> obsFileName h ob) (dirObs (dirOf fs ?kd))))"
    unfolding sorted_pruneDir [OF w] sorted_writeDir [OF d] ..
  then have "dirObs (pruneDir ?d) \<noteq> []"
    by (metis SortFunc_eq_Nil list.distinct(1) localHistoryLimit_def take_eq_Nil zero_neq_numeral)
  then have "diskLookup h dir noFaults (recorded h dir fs [ob]) [obs_Key ob] n
      = Inr [(histID h (obs_Key ob), \<lparr>hist_Version = historyVersion, hist_Key = obs_Key ob,
          hist_Observations = take (lookupLimit n) (SortFunc compareHistoryObservations (dirObs (pruneDir ?d)))\<rparr>)]"
    using histRead_ok [OF assms(1) recorded_ok(2) [OF assms], of "[ob]" "obs_Key ob"] dir
    by (simp add: diskLookup_def)
  then show ?thesis unfolding sorted using recorded_ok(1) [OF assms] by simp
qed

theorem disk_lookup_after_record_witness:
  "diskLookup (sha256With textMarshal showInt) ''/c'' noFaults
     (recorded (sha256With textMarshal showInt) ''/c'' [] [sampleObs]) [sampleHistKey] 0
   = Inr [(histID (sha256With textMarshal showInt) sampleHistKey,
       \<lparr>hist_Version = 1, hist_Key = sampleHistKey, hist_Observations = [sampleObs]\<rparr>)]"
  using disk_lookup_after_record [of "sha256With textMarshal showInt" "''/c''" "[]" sampleObs 0]
  by (simp add: sampleObs_def historyVersion_def dirOf_def dirObs_def dirFiles_def jsonEntries_def
      lookupLimit_def historyRequestLimit_def localHistoryLimit_def)

text \<open>
  Whatever the history service answers, the HTTP store returns only histories of keys that
  were asked for, holding only observations of their own key, newest first and at most as many
  as the limit; the newest observation, on which scheduling is based, is the first.
\<close>

theorem http_lookup_is_filtered:
  assumes "httpLookup h call keys n = Inr m" and "map_of m i = Some hist"
  shows "i \<in> histID h ` set keys \<and> histID h (hist_Key hist) = i
    \<and> (\<forall>ob \<in> set (hist_Observations hist). histID h (obs_Key ob) = i)
    \<and> newestFirst (hist_Observations hist)
    \<and> length (hist_Observations hist) \<le> lookupLimit n
    \<and> (\<forall>ob obs. hist_Observations hist = ob # obs \<longrightarrow> latestObservation ob obs = ob)"
  using http.lookup_wanted [OF assms] http.lookup_newest [OF assms] http.lookup_limit [OF assms]
    http.lookup_latest [OF assms] by blast

definition sampleService :: "LookupRequest \<Rightarrow> string + LookupResponse option" where
  "sampleService rq = Inr (Some \<lparr>lr_Version = 1,
     lr_Histories = [None, Some \<lparr>hist_Version = 1, hist_Key = sampleHistKey,
       hist_Observations = [sampleObs, sampleObs\<lparr>obs_ID := ''02'', obs_At := 9\<rparr>]\<rparr>]\<rparr>)"

theorem http_lookup_is_filtered_witness:
  "newestFirst [sampleObs\<lparr>obs_ID := ''02'', obs_At := 9\<rparr>, sampleObs]
    \<and> latestObservation (sampleObs\<lparr>obs_ID := ''02'', obs_At := 9\<rparr>) [sampleObs] = sampleObs\<lparr>obs_ID := ''02'', obs_At := 9\<rparr>"
proof -
  let ?hist = "\<lparr>hist_Version = 1, hist_Key = sampleHistKey,
    hist_Observations = [sampleObs\<lparr>obs_ID := ''02'', obs_At := 9\<rparr>, sampleObs]\<rparr>"
  let ?h = "sampleHashing"
  have "httpLookup ?h sampleService [sampleHistKey] 0 = Inr [(histID ?h sampleHistKey, ?hist)]"
    by (simp add: httpLookup_def sampleService_def sampleObs_def historyVersion_def lookupLimit_def
        historyRequestLimit_def compareHistoryObservations_def cmpOf_def)
  from http_lookup_is_filtered [OF this, of "histID ?h sampleHistKey" ?hist] show ?thesis by simp
qed

section \<open>Properties of keys and dependencies\<close>

definition singleLineHistKey :: "histKey \<Rightarrow> bool" where
  "singleLineHistKey k \<longleftrightarrow> nl \<notin> set (hk_Package k) \<and> nl \<notin> set (hk_Test k)
     \<and> nl \<notin> set (hk_GOOS k) \<and> nl \<notin> set (hk_GOARCH k)"

definition tagsText :: "string list \<Rightarrow> string" where
  "tagsText tags = concat (map (\<lambda>tag. ''tag '' @ Quote tag @ [nl]) tags)"

lemma tagsText_argsText_inject:
  "tagsText ts @ argsText as = tagsText us @ argsText bs \<Longrightarrow> ts = us \<and> as = bs"
proof (induction ts arbitrary: us)
  case Nil
  show ?case
  proof (cases us)
    case Nil
    then show ?thesis using Nil.prems argsText_inject by (simp add: tagsText_def)
  next
    case (Cons u us')
    then show ?thesis using Nil.prems by (cases as) (auto simp: tagsText_def argsText_def)
  qed
next
  case (Cons t ts)
  show ?case
  proof (cases us)
    case Nil
    then show ?thesis using Cons.prems by (cases bs) (auto simp: tagsText_def argsText_def)
  next
    case (Cons u us')
    with Cons.prems have "Quote t @ nl # (tagsText ts @ argsText as) = Quote u @ nl # (tagsText us' @ argsText bs)"
      by (simp add: tagsText_def)
    then have "t = u" "tagsText ts @ argsText as = tagsText us' @ argsText bs"
      by (auto dest: Quote_prefix_free)
    with Cons.IH Cons show ?thesis by blast
  qed
qed

text \<open>
  The text that \<open>Key.ID\<close> hashes identifies a history key up to the order of its tags: two keys
  whose package, test and platform hold no line break have the same text exactly when those
  fields and the arguments are equal and the tags are the same multiset.
\<close>

theorem histKey_text_identifies:
  assumes "singleLineHistKey k" and "singleLineHistKey k'"
  shows "histKeyText k = histKeyText k' \<longleftrightarrow>
    hk_Package k = hk_Package k' \<and> hk_Test k = hk_Test k' \<and> hk_GOOS k = hk_GOOS k'
    \<and> hk_GOARCH k = hk_GOARCH k' \<and> mset (hk_Tags k) = mset (hk_Tags k') \<and> hk_Args k = hk_Args k'"
proof -
  have keytext: "histKeyText k = ''gotst history key v'' @ showInt historyVersion @ nl # ''package '' @ hk_Package k @ nl #
      ''test '' @ hk_Test k @ nl # ''goos '' @ hk_GOOS k @ nl # ''goarch '' @ hk_GOARCH k @ nl #
      (tagsText (sortStrings (hk_Tags k)) @ argsText (hk_Args k))" for k
    by (simp add: histKeyText_def tagsText_def argsText_def)
  have tags: "sortStrings (hk_Tags k) = sortStrings (hk_Tags k') \<longleftrightarrow> mset (hk_Tags k) = mset (hk_Tags k')"
    by (metis mset_SortFunc sortStrings_perm)
  show ?thesis
    using assms tags tagsText_argsText_inject
    unfolding keytext by (auto simp: singleLineHistKey_def line_inject)
qed

theorem histKey_text_identifies_witness:
  "histKeyText sampleHistKey = histKeyText (sampleHistKey\<lparr>hk_Tags := [''a'', ''b'']\<rparr>)
   \<and> histKeyText sampleHistKey \<noteq> histKeyText (sampleHistKey\<lparr>hk_Tags := [''a'']\<rparr>)"
  by (subst (1 2) histKey_text_identifies) (simp_all add: singleLineHistKey_def sampleHistKey_def add_mset_commute)

text \<open>The field comment calls the tags an unordered set; a repeated tag still changes the text.\<close>

lemma histKey_repeated_tag:
  "histKeyText (sampleHistKey\<lparr>hk_Tags := [''a'', ''a'']\<rparr>) \<noteq> histKeyText (sampleHistKey\<lparr>hk_Tags := [''a'']\<rparr>)"
  by (simp add: histKeyText_def sampleHistKey_def Quote_def)

lemma remdups_adj_strict:
  "sorted_wrt (\<lambda>a b. compareDependency a b \<le> 0) xs
    \<Longrightarrow> sorted_wrt (\<lambda>a b. compareDependency a b < 0) (remdups_adj xs)"
proof (induction xs rule: remdups_adj.induct)
  case (3 x y xs)
  show ?case
  proof (cases "x = y")
    case True
    then show ?thesis using 3 by simp
  next
    case False
    have "compareDependency x z < 0" if "z \<in> set (y # xs)" for z
    proof -
      have xz: "compareDependency x z \<le> 0" "compareDependency y z \<le> 0 \<or> z = y" "compareDependency x y \<le> 0"
        using 3(3) that by auto
      have "z \<noteq> x"
      proof
        assume "z = x"
        then have "compareDependency y x \<le> 0" using xz False by auto
        with xz(3) False show False using compareDependency_antisym by blast
      qed
      with xz(1) show ?thesis
        using compareDependency_antisym [of x z] dep_compare.cmp_total [of x z]
        by (auto simp: compareDependency_def cmpOf_def split: if_splits intro: Dependency.equality)
    qed
    moreover have "sorted_wrt (\<lambda>a b. compareDependency a b < 0) (remdups_adj (y # xs))"
      using 3 False by simp
    ultimately show ?thesis using False
      by (simp only: remdups_adj.simps if_False sorted_wrt.simps remdups_adj_set) blast
  qed
qed simp_all

text \<open>
  \<open>historyDependencies\<close> is canonical: it keeps exactly the portable forms of the recorded
  dependencies, in strictly ascending order of operation, name and path, so neither the order nor
  the repetition of accesses in the test log shows in what is stored.
\<close>

theorem historyDependencies_canonical:
  "\<exists>hds. historyDependencies h (Some ds) pd mr = Some hds
     \<and> set hds = historyDependency h pd mr ` set ds
     \<and> sorted_wrt (\<lambda>a b. compareDependency a b < 0) hds
     \<and> (\<forall>ds'. set (map (historyDependency h pd mr) ds') = set (map (historyDependency h pd mr) ds)
          \<longrightarrow> historyDependencies h (Some ds') pd mr = Some hds)"
proof -
  let ?f = "\<lambda>ds. remdups_adj (SortFunc compareDependency (map (historyDependency h pd mr) ds))"
  have strict: "sorted_wrt (\<lambda>a b. compareDependency a b < 0) (?f ds)" for ds
    by (rule remdups_adj_strict) (rule dep_compare.sorted_SortFunc)
  have "distinct (?f ds)" for ds
  proof -
    have "\<not> compareDependency a a < 0" for a by (simp add: compareDependency_def cmpOf_def)
    then show ?thesis using strict [of ds] by (metis (mono_tags, lifting) distinct_conv_nth nat_neq_iff sorted_wrt_nth_less)
  qed
  then have same: "mset (?f ds') = mset (?f ds)"
    if "set (map (historyDependency h pd mr) ds') = set (map (historyDependency h pd mr) ds)" for ds'
    using that by (intro set_eq_iff_mset_eq_distinct [THEN iffD1]) auto
  have sorted: "sorted_wrt (\<lambda>a b. compareDependency a b \<le> 0) (?f ds)" for ds
    using strict [of ds] by (rule sorted_wrt_mono_rel [rotated]) simp
  have eq: "?f ds' = ?f ds"
    if "set (map (historyDependency h pd mr) ds') = set (map (historyDependency h pd mr) ds)" for ds'
    by (rule sorted_wrt_mset_unique [OF sorted sorted same [OF that]]) (rule compareDependency_antisym)
  show ?thesis unfolding historyDependencies_def option.case
  proof (intro exI [of _ "?f ds"] conjI allI impI refl strict)
    show "set (?f ds) = historyDependency h pd mr ` set ds" by simp
  qed (rule arg_cong [OF eq])
qed

theorem historyDependencies_canonical_witness:
  "let d = environmentDependency sampleHashing sampleWorld ''HOME'' in
   historyDependencies sampleHashing (Some [d, d]) ''/m'' ''/m'' = historyDependencies sampleHashing (Some [d]) ''/m'' ''/m''"
proof -
  let ?d = "environmentDependency sampleHashing sampleWorld ''HOME''"
  have "set (map (historyDependency sampleHashing ''/m'' ''/m'') [?d, ?d])
      = set (map (historyDependency sampleHashing ''/m'' ''/m'') [?d])" by simp
  then show ?thesis
    using historyDependencies_canonical [of sampleHashing "[?d]" "''/m''" "''/m''"] unfolding Let_def by metis
qed

lemma relativeWithin_iff:
  assumes "pathIsAbs path" and "pathIsAbs root"
  shows "relativeWithin path root =
    (if prefix (cleanComps root) (cleanComps path)
     then Some (Join ''/'' (drop (length (cleanComps root)) (cleanComps path))) else None)"
proof -
  obtain b t where bt: "dropCommon (cleanComps root) (cleanComps path) = (b, t)" by fastforce
  have b: "b = [] \<longleftrightarrow> prefix (cleanComps root) (cleanComps path)"
    using dropCommon_prefix [of "cleanComps root" "cleanComps path"] bt by simp
  have t: "prefix (cleanComps root) (cleanComps path) \<Longrightarrow> t = drop (length (cleanComps root)) (cleanComps path)"
    using dropCommon_suffix [of "cleanComps root" "cleanComps path"] bt
    by (metis append_eq_conv_conj snd_conv)
  have sub: "set b \<subseteq> set (cleanComps root)" "set t \<subseteq> set (cleanComps path)"
    using set_dropCommon [of "cleanComps root" "cleanComps path"] bt by auto
  have root: "root \<noteq> []" "pathIsAbs root = pathIsAbs path" using assms by (auto simp: pathIsAbs_def)
  have up: "b \<noteq> [] \<Longrightarrow> hd b \<noteq> ''..''"
    using sub(1) cleanComps_rooted [OF assms(2)] hd_in_set by fastforce
  have down: "t = c # cs \<Longrightarrow> c \<noteq> ''..'' \<and> c \<noteq> [] \<and> slash \<notin> set c \<and> c \<noteq> ''.''" for c cs
    using sub(2) cleanComps_rooted [OF assms(1)] cleanComps_parts [of path] cleanComps_no_dot [of path] by auto
  show ?thesis
  proof (cases "b = []")
    case False
    then show ?thesis using b up root bt rel_up [OF False, of t]
      by (auto simp: relativeWithin_def pathRel_def)
  next
    case True
    have rel: "pathRel root path = Some (if t = [] then ''.'' else Join ''/'' t)"
      using True root bt by (simp add: pathRel_def)
    show ?thesis
    proof (cases t)
      case Nil
      with rel True b t root show ?thesis by (simp add: relativeWithin_def HasPrefix_def)
    next
      case (Cons c cs)
      from down [OF Cons] have "Join ''/'' t \<noteq> ''.''"
        using Cons by (cases cs) (auto simp: append_eq_Cons_conv)
      with rel_down [of c cs] down [OF Cons] Cons rel True b t root show ?thesis
        by (simp add: relativeWithin_def)
    qed
  qed
qed

lemma cleanComps_pathClean:
  assumes "pathIsAbs p"
  shows "pathIsAbs (pathClean p) \<and> cleanComps (pathClean p) = cleanComps p"
proof -
  let ?cs = "cleanComps p"
  have abs: "pathClean p = slash # Join ''/'' ?cs" using assms by (simp add: pathClean_def)
  have parts: "\<forall>c \<in> set ?cs. c \<noteq> [] \<and> slash \<notin> set c \<and> c \<noteq> ''.'' \<and> c \<noteq> ''..''"
    using cleanComps_parts [of p] cleanComps_no_dot [of p] cleanComps_rooted [OF assms] by metis
  have push: "\<forall>c \<in> set cs. c \<noteq> [] \<and> c \<noteq> ''.'' \<and> c \<noteq> ''..'' \<Longrightarrow> fold (pushComp True) cs st = st @ cs" for cs st
    by (induction cs arbitrary: st) (auto simp: pushComp_def)
  have "cleanComps (slash # Join ''/'' ?cs) = ?cs"
  proof (cases "?cs = []")
    case True
    then show ?thesis by (simp add: cleanComps_def pushComp_def)
  next
    case False
    have "SplitByte slash ([] @ slash # Join ''/'' ?cs) = [] # ?cs"
      unfolding SplitByte_append using SplitByte_Join [OF False] parts by simp
    then show ?thesis using push [of ?cs "[]"] parts by (simp add: cleanComps_def pathIsAbs_def pushComp_def)
  qed
  then show ?thesis using abs by (simp add: pathIsAbs_def)
qed

text \<open>
  A dependency inside the package is stored independently of the machine: moving the package
  to another absolute directory, with the file at the same place below it, leaves the portable
  path unchanged, and distinct places below the package have distinct portable paths.
\<close>

theorem portableHistoryPath_relocatable:
  assumes "pathIsAbs p" "pathIsAbs p'" "pathIsAbs pkg" "pathIsAbs pkg'"
    and "cleanComps p = cleanComps pkg @ t" "cleanComps p' = cleanComps pkg' @ t'"
  shows "portableHistoryPath h p pkg mr = portableHistoryPath h p' pkg' mr' \<longleftrightarrow> t = t'"
proof -
  have port: "portableHistoryPath h p pkg mr = ''$PACKAGE/'' @ Join ''/'' t"
    if "pathIsAbs p" "pathIsAbs pkg" "cleanComps p = cleanComps pkg @ t" for p pkg mr t
    using that cleanComps_pathClean [OF that(1)] relativeWithin_iff [of "pathClean p" pkg]
    by (simp add: portableHistoryPath_def)
  have "\<forall>c \<in> set t. c \<noteq> [] \<and> slash \<notin> set c" "\<forall>c \<in> set t'. c \<noteq> [] \<and> slash \<notin> set c"
    using cleanComps_parts [of p] cleanComps_parts [of p'] assms(5,6) by auto
  then show ?thesis
    unfolding port [OF assms(1,3,5)] port [OF assms(2,4,6)] same_append_eq by (rule Join_inject)
qed

theorem portableHistoryPath_relocatable_witness:
  "portableHistoryPath sampleHashing ''/a/m/p/t/f'' ''/a/m/p'' ''/a/m'' = portableHistoryPath sampleHashing ''/b/p/t/f'' ''/b/p'' ''/b''
   \<longleftrightarrow> [''t'', ''f''] = [''t'', ''f'']"
  by (rule portableHistoryPath_relocatable) (simp_all add: pathIsAbs_def cleanComps_def pushComp_def)

end
