(* ===== verification/Server.thy ===== *)
theory Server
  imports History
begin

text \<open>
  The state of a run (\<open>Server\<close>, \<open>packageStatus\<close> and \<open>testStatus\<close> of \<open>gotst.go\<close>) and the operations
  that discover packages, take the events of \<open>go test -json\<close>, list tests and record results.
  Output of the \<open>go\<close> command and of test binaries is an argument. A result of \<open>None\<close> is a nil
  dereference and \<open>Inl\<close> an error or a call of \<open>log.Fatalf\<close>. All readings of the clock in one
  operation are the argument \<open>now\<close>. Logging and the printing of results do not change the state
  and are left out.
\<close>

section \<open>State\<close>

record failInfo =
  fail_dur :: duration
  fail_out :: string

record testStatus =
  ts_running :: bool
  ts_done :: bool
  ts_passed :: bool
  ts_passedIn :: duration
  ts_cached :: bool
  ts_fails :: "failInfo list"
  ts_attempts :: int
  ts_attrs :: "(string, string) gomap"
  ts_started :: time
  ts_changed :: time

definition zeroTestStatus :: testStatus where
  "zeroTestStatus = \<lparr>ts_running = False, ts_done = False, ts_passed = False, ts_passedIn = 0, ts_cached = False,
     ts_fails = [], ts_attempts = 0, ts_attrs = [], ts_started = 0, ts_changed = 0\<rparr>"

datatype pkgState = pkgStateDiscovered | pkgStateBuilt | pkgStateTesting | pkgStateDone

record goListPackage =
  glp_Dir :: gopath
  glp_ImportPath :: string
  glp_Name :: string
  glp_TestGoFiles :: "string list"
  glp_XTestGoFiles :: "string list"
  glp_Root :: gopath

text \<open>\<open>ps_tests\<close> is \<open>None\<close> for the nil map that a package has before its tests are listed.\<close>

record packageStatus =
  ps_glp :: goListPackage
  ps_state :: pkgState
  ps_exeHash :: string
  ps_exeSize :: int
  ps_exeCached :: bool
  ps_workDir :: gopath
  ps_exeArgs :: "string list"
  ps_tests :: "(string, testStatus) gomap option"
  ps_numFails :: int
  ps_runErr :: string
  ps_runIn :: duration
  ps_changed :: time

record testEstimate =
  est_duration :: duration
  est_known :: bool

datatype runPhase = phaseDiscovering | phaseBuilding | phaseListing | phaseTesting | phaseDone | phaseFailed

text \<open>
  \<open>sv_testCache\<close> is the disk cache (its directory and files), \<open>sv_history\<close> says whether a history
  store is configured, and \<open>sv_canceled\<close> is \<open>ctx.Err() != nil\<close>. The fleet points to its server and
  not the other way round.
\<close>

record Server =
  sv_start :: time
  sv_cacheDir :: gopath
  sv_canceled :: bool
  sv_profile :: runProfile
  sv_tests :: testSelection
  sv_testCache :: "(gopath \<times> cacheFS) option"
  sv_history :: bool
  sv_captureHistory :: bool
  sv_pkgs :: "(string, packageStatus) gomap"
  sv_pkgsWithTests :: int
  sv_buildDepsTotal :: int
  sv_buildDepsFresh :: int
  sv_buildDepsCached :: int
  sv_buildDepFresh :: "string list"
  sv_buildDepCached :: "string list"
  sv_buildActionToPkg :: "(string, string) gomap"
  sv_actionMap :: "(string, string) gomap"
  sv_phase :: runPhase
  sv_phaseStarts :: "(runPhase \<times> time) list"
  sv_testsTotal :: int
  sv_cacheChecks :: int
  sv_cacheHits :: int
  sv_failFastTriggered :: bool
  sv_debugPass :: int
  sv_debugMisses :: int
  sv_debugSeedErrors :: "(string, string) gomap"
  sv_historyLoaded :: bool
  sv_histories :: "(string, History) gomap"
  sv_historyPending :: "Observation list"
  sv_testSchedule :: "string list"
  sv_testEstimates :: "(string, testEstimate) gomap"
  sv_testEstimateBase :: duration
  sv_testEstimateReady :: bool

definition taskKey :: "string \<Rightarrow> string \<Rightarrow> string" where
  "taskKey pkg test = pkg @ [nul] @ test"

definition setPhase :: "time \<Rightarrow> runPhase \<Rightarrow> Server \<Rightarrow> Server" where
  "setPhase now phase s = s\<lparr>sv_phase := phase, sv_phaseStarts := sv_phaseStarts s @ [(phase, now)]\<rparr>"

section \<open>Discovering packages\<close>

definition hasTests :: "goListPackage \<Rightarrow> bool" where
  "hasTests p \<longleftrightarrow> glp_TestGoFiles p \<noteq> [] \<or> glp_XTestGoFiles p \<noteq> []"

definition newPackageStatus :: "goListPackage \<Rightarrow> time \<Rightarrow> packageStatus" where
  "newPackageStatus glp now = \<lparr>ps_glp = glp, ps_state = pkgStateDiscovered, ps_exeHash = [], ps_exeSize = 0,
     ps_exeCached = False, ps_workDir = [], ps_exeArgs = [], ps_tests = None, ps_numFails = 0, ps_runErr = [],
     ps_runIn = 0, ps_changed = now\<rparr>"

definition addPackage :: "time \<Rightarrow> goListPackage \<Rightarrow> Server \<Rightarrow> Server" where
  "addPackage now glp s =
     s\<lparr>sv_pkgs := AList.update (glp_ImportPath glp) (newPackageStatus glp now) (sv_pkgs s),
       sv_pkgsWithTests := sv_pkgsWithTests s + (if hasTests glp then 1 else 0)\<rparr>"

text \<open>\<open>go list\<close> for one package specification: its error or its output.\<close>

fun resolveQualified :: "(string \<Rightarrow> string + string) \<Rightarrow> qualifiedTest list \<Rightarrow> string list
    \<Rightarrow> string + qualifiedTest list \<times> string list" where
  "resolveQualified goList [] packages = Inr ([], packages)"
| "resolveQualified goList (q # qs) packages =
     (case goList (packageSpec q) of
        Inl e \<Rightarrow> Inl (''resolving package '' @ Quote (packageSpec q) @ '': '' @ e)
      | Inr out \<Rightarrow>
          (let paths = Fields out
           in if length paths \<noteq> 1
              then Inl (''package '' @ Quote (packageSpec q) @ '' resolved to '' @ showNat (length paths)
                        @ '' packages; want exactly one'')
              else let packages' = (if packageSpec q \<in> set packages then packages else packages @ [packageSpec q])
                   in case resolveQualified goList qs packages' of
                        Inl e \<Rightarrow> Inl e
                      | Inr (qs', ps) \<Rightarrow> Inr (q\<lparr>packagePath := hd paths\<rparr> # qs', ps)))"

definition resolveQualifiedTests :: "(string \<Rightarrow> string + string) \<Rightarrow> Server \<Rightarrow> string + Server" where
  "resolveQualifiedTests goList s =
     (case resolveQualified goList (sel_qualified (sv_tests s)) (Packages (sv_profile s)) of
        Inl e \<Rightarrow> Inl e
      | Inr (qs, packages) \<Rightarrow>
          Inr (s\<lparr>sv_tests := (sv_tests s)\<lparr>sel_qualified := qs\<rparr>,
                 sv_profile := (sv_profile s)\<lparr>Packages := packages\<rparr>\<rparr>))"

definition bytesContains :: "string \<Rightarrow> string \<Rightarrow> bool" where
  "bytesContains data s = list_ex (\<lambda>i. HasPrefix (drop i data) s) [0..<Suc (length data)]"

text \<open>The directory of a package: an error, or its entries with their contents (\<open>None\<close> for a directory).\<close>

type_synonym sourceDir = "gopath \<Rightarrow> string + (string \<times> (string + string) option) list"

definition packageMayContainSelectedTest :: "sourceDir \<Rightarrow> testSelection \<Rightarrow> goListPackage \<Rightarrow> bool" where
  "packageMayContainSelectedTest rd tests pkg =
     (if \<not> active tests then True
      else if packageTests tests (glp_ImportPath pkg) \<noteq> [] then True
      else if sel_unqualified tests = [] then False
      else case rd (glp_Dir pkg) of
             Inl _ \<Rightarrow> True
           | Inr entries \<Rightarrow>
               list_ex (\<lambda>(name, f). case f of
                          None \<Rightarrow> False
                        | Some c \<Rightarrow> HasSuffix name ''_test.go''
                            \<and> (case c of Inl _ \<Rightarrow> True
                               | Inr data \<Rightarrow> list_ex (bytesContains data) (sel_unqualified tests))) entries)"

text \<open>The loop of \<open>learnPackagesWithTests\<close> over the packages that \<open>go list\<close> describes.\<close>

definition addListedPackages :: "sourceDir \<Rightarrow> time \<Rightarrow> string list \<Rightarrow> goListPackage list \<Rightarrow> Server \<Rightarrow> Server" where
  "addListedPackages rd now excluded listed s =
     fold (\<lambda>pkg s. if glp_ImportPath pkg \<notin> set excluded \<and> packageMayContainSelectedTest rd (sv_tests s) pkg
                   then addPackage now pkg s else s) listed s"

definition packagesWithTests :: "Server \<Rightarrow> string list" where
  "packagesWithTests s = sortStrings (map fst (filter (\<lambda>(imp, ps). hasTests (ps_glp ps)) (sv_pkgs s)))"

definition learnBuildDependencyCount :: "string \<Rightarrow> Server \<Rightarrow> Server" where
  "learnBuildDependencyCount out s = s\<lparr>sv_buildDepsTotal := int (card (set (Fields out)))\<rparr>"

section \<open>Build events\<close>

record toolExecEvent =
  te_Tool :: string
  te_ImportPath :: string
  te_BuildID :: string

text \<open>
  \<open>sv_actionMap\<close> is the directory \<open>buildActionMapDir\<close>, which outlives a run: the package of each
  build action, without the line break that is trimmed when it is read.
\<close>

definition recordToolExec :: "toolExecEvent \<Rightarrow> Server \<Rightarrow> Server" where
  "recordToolExec ev s =
     (if te_Tool ev \<noteq> ''compile'' \<or> te_ImportPath ev = [] then s
      else let s1 = (if te_ImportPath ev \<in> set (sv_buildDepFresh s) then s
                     else s\<lparr>sv_buildDepFresh := te_ImportPath ev # sv_buildDepFresh s,
                            sv_buildDepsFresh := sv_buildDepsFresh s + 1\<rparr>);
               pre = hd (SplitByte slash (te_BuildID ev))
           in if pre \<noteq> []
              then s1\<lparr>sv_buildActionToPkg := AList.update pre (te_ImportPath ev) (sv_buildActionToPkg s1),
                      sv_actionMap := AList.update pre (te_ImportPath ev) (sv_actionMap s1)\<rparr>
              else s1)"

text \<open>\<open>pre\<close> is \<open>actionIDPrefix(ev.ActionID)\<close>.\<close>

definition recordCacheLookup :: "bool \<Rightarrow> string \<Rightarrow> Server \<Rightarrow> Server" where
  "recordCacheLookup hit pre s =
     (if \<not> hit \<or> pre = [] then s
      else let known = (case map_of (sv_buildActionToPkg s) pre of Some p \<Rightarrow> p | None \<Rightarrow> []);
               pkg = (if known \<noteq> [] then known
                      else case map_of (sv_actionMap s) pre of Some p \<Rightarrow> TrimSpace p | None \<Rightarrow> [])
           in if pkg = [] then s
              else if pkg \<notin> set (sv_buildDepCached s) \<and> pkg \<notin> set (sv_buildDepFresh s)
                then s\<lparr>sv_buildDepCached := pkg # sv_buildDepCached s,
                       sv_buildDepsCached := sv_buildDepsCached s + 1\<rparr>
                else s)"

text \<open>The file size of a captured binary, or the error of \<open>os.Stat\<close>.\<close>

definition addTestBinary :: "(gopath \<Rightarrow> string + int) \<Rightarrow> time \<Rightarrow> string \<Rightarrow> ExecSnarf \<Rightarrow> bool \<Rightarrow> Server \<Rightarrow> string + Server" where
  "addTestBinary binStat now pkg es cached s =
     (case map_of (sv_pkgs s) pkg of
        None \<Rightarrow> Inr s
      | Some ps \<Rightarrow>
          (case binStat (pathJoin [sv_cacheDir s, ExeHash es]) of
             Inl e \<Rightarrow> Inl (''statting test binary for package '' @ Quote pkg @ '': '' @ e)
           | Inr sz \<Rightarrow>
               if WorkingDir es \<noteq> glp_Dir (ps_glp ps)
               then Inl (''unexpected pkg '' @ Quote pkg @ '' wd='' @ Quote (WorkingDir es))
               else Inr (s\<lparr>sv_pkgs := AList.update pkg
                           (ps\<lparr>ps_state := pkgStateBuilt, ps_exeHash := ExeHash es, ps_exeCached := cached,
                               ps_workDir := WorkingDir es, ps_exeArgs := Args es, ps_changed := now,
                               ps_exeSize := sz\<rparr>) (sv_pkgs s)\<rparr>)))"

datatype goTestEvent =
    BuildEvent string string string
  | TestEvent string string string string

text \<open>
  One line of \<open>go test -json\<close> as \<open>parseTestOrBuildEvent\<close> sees it: \<open>action\<close> is the decoded \<open>Action\<close> or
  the decoder's error, and the other fields those of the event.
\<close>

definition parseTestOrBuildEvent :: "string + string \<Rightarrow> string + (string \<times> string)
    \<Rightarrow> string + (string \<times> string \<times> string) \<Rightarrow> string + goTestEvent" where
  "parseTestOrBuildEvent action build test =
     (case action of
        Inl e \<Rightarrow> Inl (''unmarshal action: '' @ e)
      | Inr a \<Rightarrow>
          if a = [] then Inl ''empty action in event''
          else if a = ''build-output'' \<or> a = ''build-fail''
            then (case build of Inl e \<Rightarrow> Inl (''unmarshal build event: '' @ e)
                  | Inr (importPath, out) \<Rightarrow> Inr (BuildEvent importPath a out))
          else (case test of Inl e \<Rightarrow> Inl (''unmarshal test event: '' @ e)
                | Inr (pkg, out, failedBuild) \<Rightarrow> Inr (TestEvent a pkg out failedBuild)))"

record buildLoop =
  bl_errs :: "string list"
  bl_testOut :: outputMap
  bl_buildOut :: outputMap
  bl_srv :: Server

definition handleEvent :: "(string \<Rightarrow> string + ExecSnarf) \<Rightarrow> (gopath \<Rightarrow> string + int) \<Rightarrow> (string \<Rightarrow> bool) \<Rightarrow> time
    \<Rightarrow> goTestEvent \<Rightarrow> buildLoop \<Rightarrow> string + buildLoop" where
  "handleEvent unmarshal binStat wasCached now ev bl =
     (case ev of
        BuildEvent importPath action out \<Rightarrow>
          Inr (if action = ''build-output'' then bl\<lparr>bl_buildOut := omAdd importPath out (bl_buildOut bl)\<rparr> else bl)
      | TestEvent action pkg out failedBuild \<Rightarrow>
          if action = ''fail''
          then Inr (if failedBuild \<noteq> []
                    then bl\<lparr>bl_errs := bl_errs bl @ [''failed to compile tests for '' @ Quote pkg
                            @ ''; failure building '' @ Quote failedBuild @ '':'' @ [nl, nl]
                            @ omGet (bl_buildOut bl) failedBuild @ [nl]]\<rparr>
                    else bl)
          else if action = ''output'' then Inr (bl\<lparr>bl_testOut := omAdd pkg out (bl_testOut bl)\<rparr>)
          else if action = ''pass''
          then (case findExecSnarf unmarshal (omGet (bl_testOut bl) pkg) of
                  (False, _) \<Rightarrow>
                    Inr (bl\<lparr>bl_errs := bl_errs bl @ [''test package '' @ Quote pkg
                            @ '' built but test wrapper did not emit ExecSnarf line; wrapper output:'' @ [nl]
                            @ omGet (bl_testOut bl) pkg]\<rparr>)
                | (True, Inl e) \<Rightarrow>
                    Inr (bl\<lparr>bl_errs := bl_errs bl @ [''unmarshal ExecSnarf JSON from package '' @ Quote pkg @ '': '' @ e]\<rparr>)
                | (True, Inr es) \<Rightarrow>
                    map_sum id (\<lambda>s. bl\<lparr>bl_srv := s\<rparr>)
                      (addTestBinary binStat now pkg es (wasCached (ExeHash es)) (bl_srv bl)))
          else Inr bl)"

section \<open>Listing tests\<close>

definition testsOf :: "packageStatus \<Rightarrow> (string, testStatus) gomap" where
  "testsOf ps = (case ps_tests ps of None \<Rightarrow> [] | Some m \<Rightarrow> m)"

text \<open>The loop of \<open>setPackageTests\<close>: the test map and the number of runnable tests added.\<close>

definition addListed :: "testSelection \<Rightarrow> string \<Rightarrow> time \<Rightarrow> string \<Rightarrow> (string, testStatus) gomap \<times> int
    \<Rightarrow> (string, testStatus) gomap \<times> int" where
  "addListed sel pkg now test acc =
     (if \<not> wants sel pkg test then acc
      else (AList.update test (zeroTestStatus\<lparr>ts_changed := now\<rparr>) (fst acc),
            snd acc + (if isRunnableTopLevelTest test then 1 else 0)))"

definition setPackageTests :: "time \<Rightarrow> string \<Rightarrow> string list \<Rightarrow> Server \<Rightarrow> string + Server" where
  "setPackageTests now pkg listed s =
     (case map_of (sv_pkgs s) pkg of
        None \<Rightarrow> Inl (''internal error: setPackageTests: unknown package '' @ Quote pkg)
      | Some ps \<Rightarrow>
          (let (m, n) = fold (addListed (sv_tests s) pkg now) listed ([], 0)
           in Inr (s\<lparr>sv_pkgs := AList.update pkg (ps\<lparr>ps_tests := Some m, ps_changed := now\<rparr>) (sv_pkgs s),
                     sv_testsTotal := sv_testsTotal s + n\<rparr>)))"

definition capturedTestBinaries :: "Server \<Rightarrow> capturedTestBinary list" where
  "capturedTestBinaries s =
     SortFunc (\<lambda>a b. cmpOf (bin_pkg a) (bin_pkg b))
       (map (\<lambda>(pkg, ps). \<lparr>bin_pkg = pkg, absBin = pathJoin [sv_cacheDir s, ps_exeHash ps],
                           workDir = ps_workDir ps, bin_args = ps_exeArgs ps\<rparr>)
          (filter (\<lambda>(pkg, ps). ps_exeHash ps \<noteq> []) (sv_pkgs s)))"

definition selectedFound :: "Server \<Rightarrow> string list" where
  "selectedFound s =
     concat (map (\<lambda>(pkg, ps).
       concat (map (\<lambda>(test, _).
         (if test \<in> set (sel_unqualified (sv_tests s)) then [test] else [])
         @ map (\<lambda>q. packageSpec q @ ''.'' @ qname q)
             (filter (\<lambda>q. packagePath q = pkg \<and> qname q = test) (sel_qualified (sv_tests s))))
       (testsOf ps))) (sv_pkgs s))"

definition validateSelectedTests :: "Server \<Rightarrow> string option" where
  "validateSelectedTests s =
     (if \<not> active (sv_tests s) then None else describeMissing (sv_tests s) (selectedFound s))"

text \<open>
  \<open>listAllTests\<close>: \<open>listTestsInBinary\<close> runs concurrently for all binaries; each run either fails or
  sets its package's tests, and the order of the argument is the order in which they finish.
\<close>

fun listLoop :: "time \<Rightarrow> (string \<times> (string + string)) list \<Rightarrow> Server \<Rightarrow> string list \<Rightarrow> string + (string list \<times> Server)" where
  "listLoop now [] s errs = Inr (errs, s)"
| "listLoop now ((pkg, Inl e) # rs) s errs = listLoop now rs s (errs @ [''listing tests in '' @ Quote pkg @ '': '' @ e])"
| "listLoop now ((pkg, Inr out) # rs) s errs =
     (case setPackageTests now pkg (Fields out) s of
        Inl fatal \<Rightarrow> Inl fatal
      | Inr s' \<Rightarrow> listLoop now rs s' errs)"

definition listAllTests :: "time \<Rightarrow> (string \<times> (string + string)) list \<Rightarrow> Server \<Rightarrow> string + (string list \<times> Server)" where
  "listAllTests now runs s =
     (case listLoop now runs s [] of
        Inl fatal \<Rightarrow> Inl fatal
      | Inr (errs, s') \<Rightarrow>
          if errs \<noteq> [] then Inr (errs, s')
          else Inr ((case validateSelectedTests s' of None \<Rightarrow> [] | Some e \<Rightarrow> [e]), s'))"

definition runnableTests :: "packageStatus \<Rightarrow> string list" where
  "runnableTests ps = sortStrings (filter isRunnableTopLevelTest (gokeys (testsOf ps)))"

text \<open>One binary of \<open>allTestTasks\<close>; \<open>None\<close> is the dereference of an unknown package.\<close>

definition binTasks :: "time \<Rightarrow> capturedTestBinary \<Rightarrow> testTask list \<times> Server \<Rightarrow> (testTask list \<times> Server) option" where
  "binTasks now bin acc =
     (let (tasks, s) = acc
      in case map_of (sv_pkgs s) (bin_pkg bin) of
           None \<Rightarrow> None
         | Some ps \<Rightarrow>
             (let tests = runnableTests ps;
                  s' = (if tests = []
                        then s\<lparr>sv_pkgs := AList.update (bin_pkg bin)
                                 (ps\<lparr>ps_state := pkgStateDone, ps_changed := now\<rparr>) (sv_pkgs s)\<rparr>
                        else s)
              in Some (tasks @ map (\<lambda>test. \<lparr>task_bin = bin, task_test = test\<rparr>) tests, s')))"

definition allTestTasks :: "time \<Rightarrow> Server \<Rightarrow> (testTask list \<times> Server) option" where
  "allTestTasks now s = foldO (binTasks now) (capturedTestBinaries s) ([], s)"

section \<open>Recording results\<close>

definition triggerFailFast :: "Server \<Rightarrow> bool \<times> Server" where
  "triggerFailFast s =
     (if sv_failFastTriggered s then (False, s)
      else (True, s\<lparr>sv_failFastTriggered := True, sv_canceled := True\<rparr>))"

definition packageRoot :: "Server \<Rightarrow> string \<Rightarrow> gopath option" where
  "packageRoot s pkg = map_option (\<lambda>ps. glp_Root (ps_glp ps)) (map_of (sv_pkgs s) pkg)"

text \<open>The status record of a test, and an update of it together with its package.\<close>

definition testOf :: "Server \<Rightarrow> string \<Rightarrow> string \<Rightarrow> testStatus option" where
  "testOf s pkg test = (case map_of (sv_pkgs s) pkg of None \<Rightarrow> None | Some ps \<Rightarrow> map_of (testsOf ps) test)"

definition updTest :: "string \<Rightarrow> string \<Rightarrow> (testStatus \<Rightarrow> testStatus) \<Rightarrow> (packageStatus \<Rightarrow> packageStatus) \<Rightarrow> Server
    \<Rightarrow> Server option" where
  "updTest pkg test f g s =
     (case map_of (sv_pkgs s) pkg of
        None \<Rightarrow> None
      | Some ps \<Rightarrow>
          (case map_of (testsOf ps) test of
             None \<Rightarrow> None
           | Some ts \<Rightarrow>
               Some (s\<lparr>sv_pkgs := AList.update pkg
                       (g (ps\<lparr>ps_tests := Some (AList.update test (f ts) (testsOf ps))\<rparr>)) (sv_pkgs s)\<rparr>)))"

definition recordTestAttempt :: "testTask \<Rightarrow> Server \<Rightarrow> Server option" where
  "recordTestAttempt task s =
     updTest (task_pkg task) (task_test task) (\<lambda>ts. ts\<lparr>ts_attempts := ts_attempts ts + 1\<rparr>) id s"

definition recordTestAttrs :: "testTask \<Rightarrow> (string, string) gomap \<Rightarrow> Server \<Rightarrow> Server option" where
  "recordTestAttrs task attrs s =
     (if attrs = [] then Some s
      else updTest (task_pkg task) (task_test task)
             (\<lambda>ts. ts\<lparr>ts_attrs := fold (\<lambda>(k, v). AList.update k v) attrs (ts_attrs ts)\<rparr>) id s)"

definition stopRunningTest :: "time \<Rightarrow> testTask \<Rightarrow> Server \<Rightarrow> Server option" where
  "stopRunningTest now task s =
     updTest (task_pkg task) (task_test task) (\<lambda>ts. ts\<lparr>ts_running := False, ts_changed := now\<rparr>)
       (\<lambda>ps. ps\<lparr>ps_changed := now\<rparr>) s"

definition allDone :: "(string, testStatus) gomap \<Rightarrow> bool" where
  "allDone m = list_all (\<lambda>(name, status). isRunnableTopLevelTest name \<longrightarrow> ts_done status) m"

definition finishStatus :: "time \<Rightarrow> bool \<Rightarrow> duration \<Rightarrow> failInfo list \<Rightarrow> bool \<Rightarrow> testStatus \<Rightarrow> testStatus" where
  "finishStatus now passed d failures cached ts =
     ts\<lparr>ts_running := False, ts_done := True, ts_passed := passed, ts_cached := cached,
        ts_fails := ts_fails ts @ failures, ts_changed := now,
        ts_passedIn := (if passed then d else ts_passedIn ts)\<rparr>"

definition finishPackage :: "time \<Rightarrow> bool \<Rightarrow> duration \<Rightarrow> string option \<Rightarrow> packageStatus \<Rightarrow> packageStatus" where
  "finishPackage now passed d err ps =
     (let ps1 = ps\<lparr>ps_changed := now,
                   ps_numFails := ps_numFails ps + (if passed then 0 else 1),
                   ps_runErr := (if \<not> passed then (case err of Some e \<Rightarrow> e | None \<Rightarrow> ps_runErr ps) else ps_runErr ps),
                   ps_runIn := ps_runIn ps + d\<rparr>
      in if allDone (testsOf ps1) then ps1\<lparr>ps_state := pkgStateDone, ps_changed := now\<rparr> else ps1)"

definition finishTestLocked :: "time \<Rightarrow> testTask \<Rightarrow> bool \<Rightarrow> duration \<Rightarrow> failInfo list \<Rightarrow> string option \<Rightarrow> bool \<Rightarrow> Server
    \<Rightarrow> Server option" where
  "finishTestLocked now task passed d failures err cached s =
     updTest (task_pkg task) (task_test task) (finishStatus now passed d failures cached)
       (finishPackage now passed d err) s"

section \<open>Debugging the cache\<close>

definition setDebugSeedError :: "hashing \<Rightarrow> testCacheKey \<Rightarrow> string \<Rightarrow> Server \<Rightarrow> Server" where
  "setDebugSeedError h key reason s =
     (if map_of (sv_debugSeedErrors s) (keyId h key) = None \<or> map_of (sv_debugSeedErrors s) (keyId h key) = Some []
      then s\<lparr>sv_debugSeedErrors := AList.update (keyId h key) reason (sv_debugSeedErrors s)\<rparr> else s)"

definition reportDebugCacheMiss :: "Server \<Rightarrow> Server" where
  "reportDebugCacheMiss s = s\<lparr>sv_debugMisses := sv_debugMisses s + 1\<rparr>"

text \<open>The reset between the two passes of \<open>runDebugUncached\<close>.\<close>

definition resetPackage :: "time \<Rightarrow> packageStatus \<Rightarrow> packageStatus" where
  "resetPackage now ps =
     (if ps_exeHash ps = [] then ps
      else ps\<lparr>ps_state := pkgStateBuilt, ps_numFails := 0, ps_runErr := [], ps_runIn := 0, ps_changed := now,
              ps_tests := map_option (map (\<lambda>(name, ts). (name, zeroTestStatus\<lparr>ts_attrs := ts_attrs ts, ts_changed := now\<rparr>)))
                            (ps_tests ps)\<rparr>)"

definition resetForSecondPass :: "time \<Rightarrow> Server \<Rightarrow> Server" where
  "resetForSecondPass now s =
     s\<lparr>sv_debugPass := 2, sv_cacheChecks := 0, sv_cacheHits := 0,
       sv_pkgs := map (\<lambda>(pkg, ps). (pkg, resetPackage now ps)) (sv_pkgs s)\<rparr>"

text \<open>\<open>verifyDebugCacheTask\<close>; the server has a cache, as \<open>main\<close> has checked.\<close>

definition verifyDebugCacheTask :: "hashing \<Rightarrow> world \<Rightarrow> string option \<Rightarrow> flags \<Rightarrow> time \<Rightarrow> testTask \<Rightarrow> Server \<Rightarrow> Server option" where
  "verifyDebugCacheTask h w fault fl now task s =
     (let key = cacheKeyForTask fl (sv_profile s) task;
          s1 = s\<lparr>sv_cacheChecks := sv_cacheChecks s + 1\<rparr>;
          seed = (case map_of (sv_debugSeedErrors s) (keyId h key) of Some e \<Rightarrow> e | None \<Rightarrow> []);
          miss = finishTestLocked now task True 0 [] None False (reportDebugCacheMiss s1)
      in if seed \<noteq> [] then miss
         else case sv_testCache s of
                None \<Rightarrow> None
              | Some (dir, fs) \<Rightarrow>
                  (case cacheGet h dir (sv_canceled s) fault fs key of
                     Inl _ \<Rightarrow> miss
                   | Inr entry \<Rightarrow>
                       (case changedDependencies h w (entry_Dependencies entry) of
                          Inl _ \<Rightarrow> miss
                        | Inr changes \<Rightarrow>
                            if changes \<noteq> [] then miss
                            else finishTestLocked now task True (entry_PassedIn entry) [] None True
                                   (s1\<lparr>sv_cacheHits := sv_cacheHits s1 + 1\<rparr>))))"

section \<open>Lemmas on single tests\<close>

text \<open>A package update that leaves the tests and the static part alone.\<close>

definition keepsTests :: "(packageStatus \<Rightarrow> packageStatus) \<Rightarrow> bool" where
  "keepsTests g \<longleftrightarrow> (\<forall>ps. ps_tests (g ps) = ps_tests ps \<and> ps_glp (g ps) = ps_glp ps)"

lemma keepsTests_id [simp]: "keepsTests id" "keepsTests (\<lambda>ps. ps)"
  by (simp_all add: keepsTests_def)

lemma keepsTests_changed [simp]: "keepsTests (\<lambda>ps. ps\<lparr>ps_changed := now\<rparr>)"
  by (simp add: keepsTests_def)

lemma keepsTests_finish [simp]: "keepsTests (finishPackage now passed d err)"
  by (simp add: keepsTests_def finishPackage_def Let_def)

lemma testsOf_keeps: "keepsTests g \<Longrightarrow> testsOf (g ps) = testsOf ps"
  by (simp add: keepsTests_def testsOf_def)

lemma updTest_Some_iff: "(\<exists>s'. updTest pkg test f g s = Some s') \<longleftrightarrow> testOf s pkg test \<noteq> None"
  by (auto simp: updTest_def testOf_def split: option.splits)

lemma updTest_pkgs:
  "updTest pkg test f g s = Some s' \<Longrightarrow>
    \<exists>ps ts. map_of (sv_pkgs s) pkg = Some ps \<and> map_of (testsOf ps) test = Some ts
      \<and> s' = s\<lparr>sv_pkgs := AList.update pkg (g (ps\<lparr>ps_tests := Some (AList.update test (f ts) (testsOf ps))\<rparr>)) (sv_pkgs s)\<rparr>"
  by (auto simp: updTest_def split: option.splits)

lemma testsOf_set [simp]: "testsOf (ps\<lparr>ps_tests := Some m\<rparr>) = m"
  by (simp add: testsOf_def)

lemma testOf_updTest:
  assumes "updTest pkg test f g s = Some s'" and "keepsTests g"
  shows "testOf s' p t = (if p = pkg \<and> t = test then map_option f (testOf s pkg test) else testOf s p t)"
proof -
  obtain ps ts where ps: "map_of (sv_pkgs s) pkg = Some ps" "map_of (testsOf ps) test = Some ts"
    "s' = s\<lparr>sv_pkgs := AList.update pkg (g (ps\<lparr>ps_tests := Some (AList.update test (f ts) (testsOf ps))\<rparr>)) (sv_pkgs s)\<rparr>"
    using updTest_pkgs [OF assms(1)] by blast
  then show ?thesis by (auto simp: testOf_def testsOf_keeps [OF assms(2)])
qed

lemma packageRoot_updTest:
  assumes "updTest pkg test f g s = Some s'" and "keepsTests g"
  shows "packageRoot s' p = packageRoot s p"
  using updTest_pkgs [OF assms(1)] assms(2) by (auto simp: packageRoot_def keepsTests_def)

lemma testOf_packageRoot: "testOf s pkg test \<noteq> None \<Longrightarrow> \<exists>r. packageRoot s pkg = Some r"
  by (auto simp: testOf_def packageRoot_def split: option.splits)

section \<open>A consistent run state\<close>

definition failedTests :: "(string, testStatus) gomap \<Rightarrow> nat" where
  "failedTests m = length (filter (\<lambda>(name, ts). ts_done ts \<and> \<not> ts_passed ts) m)"

definition pkgOK :: "packageStatus \<Rightarrow> bool" where
  "pkgOK ps \<longleftrightarrow> gomap_ok (testsOf ps) \<and> ps_numFails ps = int (failedTests (testsOf ps))"

definition serverOK :: "Server \<Rightarrow> bool" where
  "serverOK s \<longleftrightarrow> gomap_ok (sv_pkgs s) \<and> (\<forall>pkg ps. map_of (sv_pkgs s) pkg = Some ps \<longrightarrow> pkgOK ps)"

text \<open>The part of \<open>serverOK\<close> that concerns the maps alone.\<close>

definition mapsOK :: "Server \<Rightarrow> bool" where
  "mapsOK s \<longleftrightarrow> gomap_ok (sv_pkgs s) \<and> (\<forall>pkg ps. map_of (sv_pkgs s) pkg = Some ps \<longrightarrow> gomap_ok (testsOf ps))"

lemma serverOK_maps: "serverOK s \<Longrightarrow> mapsOK s"
  by (auto simp: serverOK_def mapsOK_def pkgOK_def)

lemma failedTests_update:
  assumes "gomap_ok m" and "map_of m test = Some ts"
  shows "failedTests (AList.update test ts' m) + (if ts_done ts \<and> \<not> ts_passed ts then 1 else 0)
    = failedTests m + (if ts_done ts' \<and> \<not> ts_passed ts' then 1 else 0)"
  using assms
proof (induction m)
  case Nil
  then show ?case by simp
next
  case (Cons x m)
  obtain n t where x: "x = (n, t)" by (cases x)
  show ?case
  proof (cases "n = test")
    case True
    with Cons.prems x have "t = ts" by simp
    with True x show ?thesis by (simp add: failedTests_def)
  next
    case False
    with Cons x show ?thesis by (auto simp: failedTests_def gomap_ok_def)
  qed
qed

lemma serverOK_updTest:
  assumes "serverOK s" and "updTest pkg test f g s = Some s'"
    and "\<And>ps ts. map_of (sv_pkgs s) pkg = Some ps \<Longrightarrow> map_of (testsOf ps) test = Some ts \<Longrightarrow> pkgOK ps
      \<Longrightarrow> pkgOK (g (ps\<lparr>ps_tests := Some (AList.update test (f ts) (testsOf ps))\<rparr>))"
  shows "serverOK s'"
  using updTest_pkgs [OF assms(2)] assms(1,3) by (fastforce simp: serverOK_def)

lemma serverOK_updTest_simple:
  assumes "serverOK s" and "updTest pkg test f g s = Some s'" and "keepsTests g"
    and "\<And>ps. ps_numFails (g ps) = ps_numFails ps"
    and "\<And>ts. ts_done (f ts) = ts_done ts \<and> ts_passed (f ts) = ts_passed ts"
  shows "serverOK s'"
proof (rule serverOK_updTest [OF assms(1,2)])
  fix ps ts
  assume ps: "map_of (sv_pkgs s) pkg = Some ps" "map_of (testsOf ps) test = Some ts" "pkgOK ps"
  then have "failedTests (AList.update test (f ts) (testsOf ps)) = failedTests (testsOf ps)"
    using failedTests_update [of "testsOf ps" test ts "f ts"] assms(5) by (auto simp: pkgOK_def split: if_splits)
  with ps show "pkgOK (g (ps\<lparr>ps_tests := Some (AList.update test (f ts) (testsOf ps))\<rparr>))"
    using testsOf_keeps [OF assms(3)] assms(4) by (simp add: pkgOK_def)
qed

lemma finish_frame [simp]:
  "ps_numFails (finishPackage now passed d err ps) = ps_numFails ps + (if passed then 0 else 1)"
  "testsOf (finishPackage now passed d err ps) = testsOf ps"
  by (simp_all add: finishPackage_def Let_def testsOf_def)

lemma serverOK_finish:
  assumes "serverOK s" and "finishTestLocked now task passed d failures err cached s = Some s'"
    and "testOf s (task_pkg task) (task_test task) = Some ts0" and "\<not> ts_done ts0"
  shows "serverOK s'"
proof (rule serverOK_updTest [OF assms(1) assms(2) [unfolded finishTestLocked_def]])
  fix ps ts
  assume ps: "map_of (sv_pkgs s) (task_pkg task) = Some ps" "map_of (testsOf ps) (task_test task) = Some ts" "pkgOK ps"
  with assms(3,4) have "\<not> ts_done ts" by (simp add: testOf_def)
  then have "failedTests (AList.update (task_test task) (finishStatus now passed d failures cached ts) (testsOf ps))
      = failedTests (testsOf ps) + (if passed then 0 else 1)"
    using failedTests_update [of "testsOf ps" "task_test task" ts] ps by (auto simp: pkgOK_def finishStatus_def)
  with ps show "pkgOK (finishPackage now passed d err
      (ps\<lparr>ps_tests := Some (AList.update (task_test task) (finishStatus now passed d failures cached ts) (testsOf ps))\<rparr>))"
    by (simp add: pkgOK_def)
qed

lemma serverOK_reset: "serverOK s \<Longrightarrow> serverOK (resetForSecondPass now s)"
proof -
  assume ok: "serverOK s"
  have "pkgOK ps \<Longrightarrow> pkgOK (resetPackage now ps)" for ps
    by (cases "ps_tests ps")
      (auto simp: pkgOK_def resetPackage_def testsOf_def gomap_ok_def failedTests_def zeroTestStatus_def
        comp_def case_prod_beta filter_empty_conv)
  then show ?thesis using ok
    by (auto simp: serverOK_def resetForSecondPass_def gomap_ok_def comp_def case_prod_beta map_of_map)
qed

section \<open>All tasks of a run\<close>

lemma strict_sortStrings: "distinct xs \<Longrightarrow> sorted_wrt (<) (sortStrings xs)"
proof -
  assume "distinct xs"
  then have "distinct (sortStrings xs)" by simp
  moreover have "sorted_wrt (\<le>) (sortStrings xs)"
    using str_compare.sorted_SortFunc [of xs] by (simp add: cmpOf_le)
  ultimately show ?thesis by (simp add: strict_sorted_iff)
qed

interpretation bin_compare: go_compare "\<lambda>a b. cmpOf (bin_pkg a) (bin_pkg b)"
  by unfold_locales (auto simp: cmpOf_le)

lemma capturedTestBinaries_set:
  assumes "mapsOK s"
  shows "bin \<in> set (capturedTestBinaries s) \<longleftrightarrow>
    (\<exists>ps. map_of (sv_pkgs s) (bin_pkg bin) = Some ps \<and> ps_exeHash ps \<noteq> []
       \<and> bin = \<lparr>bin_pkg = bin_pkg bin, absBin = pathJoin [sv_cacheDir s, ps_exeHash ps],
                workDir = ps_workDir ps, bin_args = ps_exeArgs ps\<rparr>)"
proof -
  have "gomap_ok (sv_pkgs s)" using assms by (simp add: mapsOK_def)
  then show ?thesis
    by (cases bin) (auto simp: capturedTestBinaries_def image_iff gomap_entry_iff Bex_def)
qed

lemma capturedTestBinaries_strict:
  assumes "mapsOK s"
  shows "sorted_wrt (\<lambda>a b. bin_pkg a < bin_pkg b) (capturedTestBinaries s)"
proof -
  let ?bins = "capturedTestBinaries s"
  have "distinct (map fst (filter (\<lambda>(pkg, ps). ps_exeHash ps \<noteq> []) (sv_pkgs s)))"
    using assms by (simp add: mapsOK_def gomap_ok_def distinct_map_filter)
  then have "distinct (map bin_pkg ?bins)"
    by (simp add: capturedTestBinaries_def comp_def case_prod_beta)
  moreover have "sorted_wrt (\<le>) (map bin_pkg ?bins)"
    unfolding sorted_wrt_map capturedTestBinaries_def
    by (rule sorted_wrt_mono_rel [OF _ bin_compare.sorted_SortFunc]) (simp add: cmpOf_le)
  ultimately have "sorted_wrt (<) (map bin_pkg ?bins)" by (simp only: strict_sorted_iff simp_thms)
  then show ?thesis by (simp add: sorted_wrt_map)
qed

definition tasksOf :: "Server \<Rightarrow> capturedTestBinary list \<Rightarrow> testTask list" where
  "tasksOf s bins = concat (map (\<lambda>bin. map (\<lambda>test. \<lparr>task_bin = bin, task_test = test\<rparr>)
     (case map_of (sv_pkgs s) (bin_pkg bin) of None \<Rightarrow> [] | Some ps \<Rightarrow> runnableTests ps)) bins)"

lemma task_in_concat:
  "\<lparr>task_bin = bin, task_test = t\<rparr> \<in> set (concat (map (\<lambda>b. map (\<lambda>x. \<lparr>task_bin = b, task_test = x\<rparr>) (F b)) bins))
    \<longleftrightarrow> bin \<in> set bins \<and> t \<in> set (F bin)"
  by auto

lemma binTasks_fold:
  assumes "\<forall>bin \<in> set bins. map_of (sv_pkgs s) (bin_pkg bin) \<noteq> None"
    and "\<forall>pkg. map_option testsOf (map_of (sv_pkgs s0) pkg) = map_option testsOf (map_of (sv_pkgs s) pkg)"
  shows "\<exists>s'. foldO (binTasks now) bins (acc, s0) = Some (acc @ tasksOf s bins, s')
    \<and> (\<forall>pkg test. testOf s' pkg test = testOf s pkg test)"
  using assms
proof (induction bins arbitrary: acc s0)
  case Nil
  have "testOf s0 pkg test = testOf s pkg test" for pkg test
  proof -
    have "map_option testsOf (map_of (sv_pkgs s0) pkg) = map_option testsOf (map_of (sv_pkgs s) pkg)"
      using Nil.prems(2) by blast
    then show ?thesis unfolding testOf_def by (auto split: option.splits)
  qed
  then show ?case by (simp add: tasksOf_def)
next
  case (Cons bin bins)
  from Cons.prems(1) obtain ps where ps: "map_of (sv_pkgs s) (bin_pkg bin) = Some ps" by auto
  have "map_option testsOf (map_of (sv_pkgs s0) (bin_pkg bin)) = Some (testsOf ps)"
    using Cons.prems(2) ps by simp
  then obtain ps0 where ps0: "map_of (sv_pkgs s0) (bin_pkg bin) = Some ps0" "testsOf ps0 = testsOf ps" by auto
  define s1 where "s1 = (if runnableTests ps0 = []
    then s0\<lparr>sv_pkgs := AList.update (bin_pkg bin) (ps0\<lparr>ps_state := pkgStateDone, ps_changed := now\<rparr>) (sv_pkgs s0)\<rparr> else s0)"
  have "runnableTests ps0 = runnableTests ps" using ps0(2) by (simp add: runnableTests_def)
  then have step: "binTasks now bin (acc, s0)
      = Some (acc @ map (\<lambda>test. \<lparr>task_bin = bin, task_test = test\<rparr>) (runnableTests ps), s1)"
    using ps0(1) by (simp add: binTasks_def s1_def)
  have "testsOf (ps0\<lparr>ps_state := pkgStateDone, ps_changed := now\<rparr>) = testsOf ps"
    using ps0(2) by (simp add: testsOf_def)
  then have "\<forall>pkg. map_option testsOf (map_of (sv_pkgs s1) pkg) = map_option testsOf (map_of (sv_pkgs s) pkg)"
    using Cons.prems(2) ps by (auto simp: s1_def)
  from Cons.IH [OF _ this, of "acc @ map (\<lambda>test. \<lparr>task_bin = bin, task_test = test\<rparr>) (runnableTests ps)"] Cons.prems(1)
  show ?case using step ps by (auto simp: tasksOf_def)
qed

definition taskBefore :: "testTask \<Rightarrow> testTask \<Rightarrow> bool" where
  "taskBefore a b \<longleftrightarrow> task_pkg a < task_pkg b \<or> task_pkg a = task_pkg b \<and> task_test a < task_test b"

lemma runnableTests_set: "t \<in> set (runnableTests ps) \<longleftrightarrow> isRunnableTopLevelTest t \<and> map_of (testsOf ps) t \<noteq> None"
  by (auto simp: runnableTests_def map_of_eq_None_iff)

lemma tasksOf_sorted:
  assumes "mapsOK s" and "sorted_wrt (\<lambda>a b. bin_pkg a < bin_pkg b) bins"
  shows "sorted_wrt taskBefore (tasksOf s bins)"
  using assms(2)
proof (induction bins)
  case Nil
  then show ?case by (simp add: tasksOf_def)
next
  case (Cons bin bins)
  let ?ts = "case map_of (sv_pkgs s) (bin_pkg bin) of None \<Rightarrow> [] | Some ps \<Rightarrow> runnableTests ps"
  have "sorted_wrt (<) ?ts"
  proof (cases "map_of (sv_pkgs s) (bin_pkg bin)")
    case None
    then show ?thesis by simp
  next
    case (Some ps)
    then have "distinct (gokeys (testsOf ps))" using assms(1) by (auto simp: mapsOK_def gomap_ok_def)
    then show ?thesis using Some by (simp add: runnableTests_def strict_sortStrings)
  qed
  then have "sorted_wrt taskBefore (map (\<lambda>test. \<lparr>task_bin = bin, task_test = test\<rparr>) ?ts)"
    by (simp add: sorted_wrt_map taskBefore_def)
  moreover have "\<forall>a \<in> set (map (\<lambda>test. \<lparr>task_bin = bin, task_test = test\<rparr>) ?ts). \<forall>b \<in> set (tasksOf s bins). taskBefore a b"
    using Cons.prems by (auto simp: tasksOf_def taskBefore_def)
  ultimately show ?case using Cons by (simp add: tasksOf_def sorted_wrt_append)
qed

section \<open>A small run for the examples\<close>

definition sampleGlp :: goListPackage where
  "sampleGlp = \<lparr>glp_Dir = ''/m/p'', glp_ImportPath = ''m/p'', glp_Name = ''p'', glp_TestGoFiles = [''p_test.go''],
     glp_XTestGoFiles = [], glp_Root = ''/m''\<rparr>"

definition samplePackage :: packageStatus where
  "samplePackage = (newPackageStatus sampleGlp 1)\<lparr>ps_state := pkgStateBuilt, ps_exeHash := ''ab12'', ps_workDir := ''/m/p'',
     ps_tests := Some [(''TestB'', zeroTestStatus), (''TestA'', zeroTestStatus), (''BenchmarkC'', zeroTestStatus)]\<rparr>"

definition sampleServer :: Server where
  "sampleServer = \<lparr>sv_start = 1, sv_cacheDir = ''/t'', sv_canceled = False, sv_profile = zeroProfile,
     sv_tests = \<lparr>sel_unqualified = [], sel_qualified = []\<rparr>, sv_testCache = Some (''/c'', []), sv_history = True,
     sv_captureHistory = False, sv_pkgs = [(''m/p'', samplePackage)], sv_pkgsWithTests = 1, sv_buildDepsTotal = 0,
     sv_buildDepsFresh = 0, sv_buildDepsCached = 0, sv_buildDepFresh = [], sv_buildDepCached = [],
     sv_buildActionToPkg = [], sv_actionMap = [], sv_phase = phaseTesting, sv_phaseStarts = [], sv_testsTotal = 2,
     sv_cacheChecks = 0, sv_cacheHits = 0, sv_failFastTriggered = False, sv_debugPass = 0, sv_debugMisses = 0,
     sv_debugSeedErrors = [], sv_historyLoaded = False, sv_histories = [], sv_historyPending = [],
     sv_testSchedule = [], sv_testEstimates = [], sv_testEstimateBase = 0, sv_testEstimateReady = False\<rparr>"

definition sampleTask :: "string \<Rightarrow> testTask" where
  "sampleTask test = \<lparr>task_bin = \<lparr>bin_pkg = ''m/p'', absBin = ''/t/ab12'', workDir = ''/m/p'', bin_args = []\<rparr>,
     task_test = test\<rparr>"

lemma sampleServer_OK: "serverOK sampleServer"
  by (simp add: serverOK_def sampleServer_def samplePackage_def newPackageStatus_def pkgOK_def testsOf_def
      gomap_ok_def failedTests_def zeroTestStatus_def)

section \<open>Properties\<close>

text \<open>
  C23. \<open>allTestTasks\<close> neither panics nor forgets or repeats a test: in a consistent state it returns,
  in ascending order of package and test, exactly one task for every runnable listed test of
  every package that has a binary, each with that package's binary, directory and arguments.
\<close>

theorem allTestTasks_complete:
  assumes "mapsOK s"
  shows "\<exists>tasks s'. allTestTasks now s = Some (tasks, s')
    \<and> sorted_wrt taskBefore tasks
    \<and> (\<forall>bin t. \<lparr>task_bin = bin, task_test = t\<rparr> \<in> set tasks \<longleftrightarrow>
         (\<exists>ps. map_of (sv_pkgs s) (bin_pkg bin) = Some ps \<and> ps_exeHash ps \<noteq> []
            \<and> isRunnableTopLevelTest t \<and> map_of (testsOf ps) t \<noteq> None
            \<and> bin = \<lparr>bin_pkg = bin_pkg bin, absBin = pathJoin [sv_cacheDir s, ps_exeHash ps],
                     workDir = ps_workDir ps, bin_args = ps_exeArgs ps\<rparr>))
    \<and> (\<forall>pkg test. testOf s' pkg test = testOf s pkg test)"
proof -
  let ?bins = "capturedTestBinaries s"
  have "\<forall>bin \<in> set ?bins. map_of (sv_pkgs s) (bin_pkg bin) \<noteq> None"
    using capturedTestBinaries_set [OF assms] by auto
  from binTasks_fold [OF this, of s now "[]"] obtain s' where
    s': "allTestTasks now s = Some (tasksOf s ?bins, s')" "\<forall>pkg test. testOf s' pkg test = testOf s pkg test"
    by (auto simp: allTestTasks_def)
  have "\<lparr>task_bin = bin, task_test = t\<rparr> \<in> set (tasksOf s ?bins) \<longleftrightarrow>
      bin \<in> set ?bins \<and> (\<exists>ps. map_of (sv_pkgs s) (bin_pkg bin) = Some ps \<and> t \<in> set (runnableTests ps))" for bin t
  proof -
    let ?ts = "\<lambda>bin. case map_of (sv_pkgs s) (bin_pkg bin) of None \<Rightarrow> [] | Some ps \<Rightarrow> runnableTests ps"
    have "\<lparr>task_bin = bin, task_test = t\<rparr> \<in> set (tasksOf s ?bins) \<longleftrightarrow> bin \<in> set ?bins \<and> t \<in> set (?ts bin)"
      unfolding tasksOf_def by (rule task_in_concat)
    then show ?thesis by (cases "map_of (sv_pkgs s) (bin_pkg bin)") simp_all
  qed
  then have "\<lparr>task_bin = bin, task_test = t\<rparr> \<in> set (tasksOf s ?bins) \<longleftrightarrow>
      (\<exists>ps. map_of (sv_pkgs s) (bin_pkg bin) = Some ps \<and> ps_exeHash ps \<noteq> []
            \<and> isRunnableTopLevelTest t \<and> map_of (testsOf ps) t \<noteq> None
            \<and> bin = \<lparr>bin_pkg = bin_pkg bin, absBin = pathJoin [sv_cacheDir s, ps_exeHash ps],
                     workDir = ps_workDir ps, bin_args = ps_exeArgs ps\<rparr>)" for bin t
    unfolding capturedTestBinaries_set [OF assms] runnableTests_set by auto
  with s' tasksOf_sorted [OF assms capturedTestBinaries_strict [OF assms]] show ?thesis by blast
qed

theorem allTestTasks_complete_witness:
  "\<exists>tasks s'. allTestTasks 5 sampleServer = Some (tasks, s') \<and> sorted_wrt taskBefore tasks"
  using allTestTasks_complete [OF serverOK_maps [OF sampleServer_OK], of 5] by blast



end
