(* ===== verification/Schedule.thy ===== *)
theory Schedule
  imports Server
begin

text \<open>
  The part of \<open>history.go\<close> that works on a \<open>Server\<close>: loading histories, ordering the tasks by
  them, estimating durations, and collecting and flushing observations.
\<close>

section \<open>Loading histories\<close>

record platform =
  goos :: string
  goarch :: string

definition taskHistKey :: "platform \<Rightarrow> flags \<Rightarrow> Server \<Rightarrow> testTask \<Rightarrow> histKey" where
  "taskHistKey pf fl s task = historyKeyForTask (goos pf) (goarch pf) fl task (sv_profile s)"

text \<open>The keys asked for: the key of every task, once per ID.\<close>

fun lookupKeys :: "hashing \<Rightarrow> histKey list \<Rightarrow> string list \<Rightarrow> histKey list" where
  "lookupKeys h [] seen = []"
| "lookupKeys h (k # ks) seen =
     (if histID h k \<in> set seen then lookupKeys h ks seen else k # lookupKeys h ks (histID h k # seen))"

definition loadHistory :: "hashing \<Rightarrow> platform \<Rightarrow> flags \<Rightarrow> (histKey list \<Rightarrow> int \<Rightarrow> string + (string, History) gomap)
    \<Rightarrow> testTask list \<Rightarrow> Server \<Rightarrow> Server" where
  "loadHistory h pf fl lookup tasks s =
     (if \<not> sv_history s \<or> tasks = [] \<or> sv_historyLoaded s then s
      else let s1 = s\<lparr>sv_historyLoaded := True\<rparr>
           in case lookup (lookupKeys h (map (taskHistKey pf fl s) tasks) []) historyRequestLimit of
                Inl _ \<Rightarrow> s1
              | Inr histories \<Rightarrow>
                  s1\<lparr>sv_histories := fold (\<lambda>(i, hist). AList.update i hist) histories (sv_histories s1)\<rparr>)"

definition latestFor :: "hashing \<Rightarrow> platform \<Rightarrow> flags \<Rightarrow> Server \<Rightarrow> testTask \<Rightarrow> Observation option" where
  "latestFor h pf fl s task =
     (case map_of (sv_histories s) (histID h (taskHistKey pf fl s task)) of
        None \<Rightarrow> None
      | Some hist \<Rightarrow>
          (case hist_Observations hist of
             [] \<Rightarrow> None
           | ob # obs \<Rightarrow> Some (latestObservation ob obs)))"

section \<open>Ordering tasks\<close>

record priority =
  pr_failed :: bool
  pr_known :: bool
  pr_duration :: duration

definition zeroPriority :: priority where
  "zeroPriority = \<lparr>pr_failed = False, pr_known = False, pr_duration = 0\<rparr>"

definition priorities :: "hashing \<Rightarrow> platform \<Rightarrow> flags \<Rightarrow> Server \<Rightarrow> testTask list \<Rightarrow> (string, priority) gomap" where
  "priorities h pf fl s tasks =
     fold (\<lambda>task m. case latestFor h pf fl s task of
                      None \<Rightarrow> m
                    | Some latest \<Rightarrow>
                        AList.update (taskKey (task_pkg task) (task_test task))
                          \<lparr>pr_failed = (obs_Outcome latest = OutcomeFail), pr_known = True,
                           pr_duration = obs_Duration latest\<rparr> m) tasks []"

definition priorityOf :: "(string, priority) gomap \<Rightarrow> testTask \<Rightarrow> priority" where
  "priorityOf m task =
     (case map_of m (taskKey (task_pkg task) (task_test task)) of Some p \<Rightarrow> p | None \<Rightarrow> zeroPriority)"

definition compareTasks :: "(string, priority) gomap \<Rightarrow> testTask \<Rightarrow> testTask \<Rightarrow> int" where
  "compareTasks m a b =
     (let ap = priorityOf m a; bp = priorityOf m b
      in if pr_failed ap \<noteq> pr_failed bp then (if pr_failed ap then -1 else 1)
         else if pr_duration ap \<noteq> pr_duration bp then cmpOf (pr_duration bp) (pr_duration ap)
         else if pr_known ap \<noteq> pr_known bp then (if pr_known ap then -1 else 1)
         else if task_pkg a \<noteq> task_pkg b then cmpOf (task_pkg a) (task_pkg b)
         else cmpOf (task_test a) (task_test b))"

definition orderTestTasksByHistory :: "hashing \<Rightarrow> platform \<Rightarrow> flags \<Rightarrow> Server \<Rightarrow> testTask list \<Rightarrow> testTask list" where
  "orderTestTasksByHistory h pf fl s tasks = SortFunc (compareTasks (priorities h pf fl s tasks)) tasks"

section \<open>Estimates\<close>

definition defaultTestEstimate :: duration where
  "defaultTestEstimate = 100 * millisecond"

definition perRun :: "Observation \<Rightarrow> duration" where
  "perRun latest = goDiv (obs_Duration latest) (max 1 (obs_Attempts latest))"

text \<open>The first loop: the known durations per run, and the estimates made from them.\<close>

definition estimateStep :: "hashing \<Rightarrow> platform \<Rightarrow> flags \<Rightarrow> Server \<Rightarrow> testTask
    \<Rightarrow> duration list \<times> (string, testEstimate) gomap \<Rightarrow> duration list \<times> (string, testEstimate) gomap" where
  "estimateStep h pf fl s task acc =
     (case latestFor h pf fl s task of
        None \<Rightarrow> acc
      | Some latest \<Rightarrow>
          if obs_Duration latest \<le> 0 then acc
          else (fst acc @ [perRun latest],
                AList.update (taskKey (task_pkg task) (task_test task))
                  \<lparr>est_duration = perRun latest * testCount fl, est_known = True\<rparr> (snd acc)))"

definition medianOf :: "duration list \<Rightarrow> duration" where
  "medianOf known =
     (if known = [] then defaultTestEstimate
      else let ks = SortFunc cmpOf known; mid = length ks div 2
           in if length ks mod 2 = 0 then ks ! (mid - 1) + goDiv (ks ! mid - ks ! (mid - 1)) 2 else ks ! mid)"

definition fillEstimate :: "duration \<Rightarrow> testTask \<Rightarrow> (string, testEstimate) gomap \<Rightarrow> (string, testEstimate) gomap" where
  "fillEstimate median task m =
     (let i = taskKey (task_pkg task) (task_test task)
      in if map_of m i = None then AList.update i \<lparr>est_duration = median, est_known = False\<rparr> m else m)"

definition prepareTestEstimates :: "hashing \<Rightarrow> platform \<Rightarrow> flags \<Rightarrow> testTask list \<Rightarrow> Server \<Rightarrow> Server" where
  "prepareTestEstimates h pf fl tasks s =
     (let (known, estimates) = fold (estimateStep h pf fl s) tasks ([], []);
          median = medianOf known * testCount fl
      in s\<lparr>sv_testSchedule := map (\<lambda>task. taskKey (task_pkg task) (task_test task)) tasks,
           sv_testEstimates := fold (fillEstimate median) tasks estimates,
           sv_testEstimateBase := median, sv_testEstimateReady := True\<rparr>)"

section \<open>Observations\<close>

text \<open>\<open>obsID\<close> is the result of \<open>newObservationID\<close>.\<close>

definition recordHistory :: "hashing \<Rightarrow> platform \<Rightarrow> flags \<Rightarrow> time \<Rightarrow> string \<Rightarrow> testTask \<Rightarrow> Outcome \<Rightarrow> duration \<Rightarrow> int
    \<Rightarrow> cacheDependency list option \<Rightarrow> Server \<Rightarrow> Server option" where
  "recordHistory h pf fl now obsID task outcome d attempts deps s =
     (if \<not> sv_history s \<and> \<not> sv_captureHistory s then Some s
      else case packageRoot s (task_pkg task) of
             None \<Rightarrow> None
           | Some root \<Rightarrow>
               Some (s\<lparr>sv_historyPending := sv_historyPending s @
                 [\<lparr>obs_ID = obsID, obs_Key = taskHistKey pf fl s task, obs_At = now, obs_Outcome = outcome,
                   obs_Duration = d, obs_Attempts = attempts, obs_PeakRSS = 0,
                   obs_Dependencies = historyDependencies h deps (workDir (task_bin task)) root\<rparr>]\<rparr>))"

text \<open>\<open>flushHistory\<close>: the batch given to \<open>Record\<close>, if any, and the new state.\<close>

definition flushHistory :: "Server \<Rightarrow> Observation list \<times> Server" where
  "flushHistory s = (if \<not> sv_history s then ([], s) else (sv_historyPending s, s\<lparr>sv_historyPending := []\<rparr>))"

section \<open>Lemmas\<close>

lemma compareTasks_le:
  "compareTasks m a b \<le> 0 \<longleftrightarrow>
    (let ap = priorityOf m a; bp = priorityOf m b in
     pr_failed ap \<and> \<not> pr_failed bp
     \<or> pr_failed ap = pr_failed bp \<and> (pr_duration bp < pr_duration ap
       \<or> pr_duration ap = pr_duration bp \<and> (pr_known ap \<and> \<not> pr_known bp
         \<or> pr_known ap = pr_known bp \<and> (task_pkg a < task_pkg b
           \<or> task_pkg a = task_pkg b \<and> task_test a \<le> task_test b))))"
  by (auto simp: compareTasks_def Let_def cmpOf_def)

interpretation task_compare: go_compare "compareTasks m" for m
  by unfold_locales (auto simp: compareTasks_le Let_def)

lemma compareTasks_antisym:
  "compareTasks m a b \<le> 0 \<Longrightarrow> compareTasks m b a \<le> 0 \<Longrightarrow> task_id a = task_id b"
  by (auto simp: compareTasks_le Let_def)

abbreviation keyOf :: "testTask \<Rightarrow> string" where
  "keyOf task \<equiv> taskKey (task_pkg task) (task_test task)"

definition priorityFrom :: "Observation option \<Rightarrow> priority" where
  "priorityFrom latest = (case latest of None \<Rightarrow> zeroPriority
     | Some ob \<Rightarrow> \<lparr>pr_failed = (obs_Outcome ob = OutcomeFail), pr_known = True, pr_duration = obs_Duration ob\<rparr>)"

lemma map_of_priorities:
  fixes h pf fl s
  defines "step \<equiv> \<lambda>task m. case latestFor h pf fl s task of
                      None \<Rightarrow> m
                    | Some latest \<Rightarrow>
                        AList.update (keyOf task)
                          \<lparr>pr_failed = (obs_Outcome latest = OutcomeFail), pr_known = True,
                           pr_duration = obs_Duration latest\<rparr> m"
  assumes "distinct (map keyOf tasks)" and "task \<in> set tasks" and "map_of m (keyOf task) = None"
  shows "map_of (fold step tasks m) (keyOf task) = map_option (priorityFrom \<circ> Some) (latestFor h pf fl s task)"
  using assms(2-)
proof (induction tasks arbitrary: m)
  case Nil
  then show ?case by simp
next
  case (Cons t tasks)
  have keep: "keyOf task \<notin> keyOf ` set ts \<Longrightarrow> map_of (fold step ts m) (keyOf task) = map_of m (keyOf task)" for ts m
    by (induction ts arbitrary: m) (auto simp: step_def split: option.splits)
  show ?case
  proof (cases "t = task")
    case True
    then have "keyOf task \<notin> keyOf ` set tasks" using Cons.prems(1) by auto
    with True Cons.prems(3) show ?thesis
      by (simp add: keep) (simp add: step_def priorityFrom_def split: option.splits)
  next
    case False
    then have t: "task \<in> set tasks" using Cons.prems(2) by simp
    then have "keyOf t \<noteq> keyOf task" using Cons.prems(1) by (auto dest: rev_image_eqI)
    then have "map_of (step t m) (keyOf task) = None"
      using Cons.prems(3) by (simp add: step_def split: option.splits)
    with Cons.IH [of "step t m"] Cons.prems(1) t show ?thesis by simp
  qed
qed

lemma priorityOf_priorities:
  assumes "distinct (map keyOf tasks)" and "task \<in> set tasks"
  shows "priorityOf (priorities h pf fl s tasks) task = priorityFrom (latestFor h pf fl s task)"
  using map_of_priorities [OF assms, of "[]" h pf fl s]
  by (auto simp: priorityOf_def priorities_def priorityFrom_def split: option.splits)

section \<open>Properties of the order\<close>

definition lastFailed :: "Observation option \<Rightarrow> bool" where
  "lastFailed latest = (case latest of None \<Rightarrow> False | Some ob \<Rightarrow> obs_Outcome ob = OutcomeFail)"

definition lastDuration :: "Observation option \<Rightarrow> duration" where
  "lastDuration latest = (case latest of None \<Rightarrow> 0 | Some ob \<Rightarrow> obs_Duration ob)"

text \<open>
  C28. Tasks are ordered as documented: the order is a permutation of the selected tasks in which
  every test whose newest observation failed comes before every other test, and within each of
  the two groups longer tests come before shorter ones. The order does not depend on the order in
  which the tasks were collected.
\<close>

theorem orderTestTasks_slowest_first:
  assumes "distinct (map keyOf tasks)"
  shows "mset (orderTestTasksByHistory h pf fl s tasks) = mset tasks
    \<and> sorted_wrt (\<lambda>a b. (lastFailed (latestFor h pf fl s b) \<longrightarrow> lastFailed (latestFor h pf fl s a))
        \<and> (lastFailed (latestFor h pf fl s a) = lastFailed (latestFor h pf fl s b)
             \<longrightarrow> lastDuration (latestFor h pf fl s b) \<le> lastDuration (latestFor h pf fl s a)))
      (orderTestTasksByHistory h pf fl s tasks)
    \<and> (\<forall>tasks'. mset tasks' = mset tasks
         \<longrightarrow> orderTestTasksByHistory h pf fl s tasks' = orderTestTasksByHistory h pf fl s tasks)"
proof (intro conjI allI impI)
  let ?m = "priorities h pf fl s tasks"
  show "mset (orderTestTasksByHistory h pf fl s tasks) = mset tasks"
    by (simp add: orderTestTasksByHistory_def)
  have prio: "priorityOf ?m t = priorityFrom (latestFor h pf fl s t)" if "t \<in> set tasks" for t
    using that by (rule priorityOf_priorities [OF assms])
  show "sorted_wrt (\<lambda>a b. (lastFailed (latestFor h pf fl s b) \<longrightarrow> lastFailed (latestFor h pf fl s a))
        \<and> (lastFailed (latestFor h pf fl s a) = lastFailed (latestFor h pf fl s b)
             \<longrightarrow> lastDuration (latestFor h pf fl s b) \<le> lastDuration (latestFor h pf fl s a)))
      (orderTestTasksByHistory h pf fl s tasks)"
    unfolding orderTestTasksByHistory_def
  proof (rule sorted_wrt_mono_rel [OF _ task_compare.sorted_SortFunc])
    fix a b
    assume "a \<in> set (SortFunc (compareTasks ?m) tasks)" "b \<in> set (SortFunc (compareTasks ?m) tasks)"
      and le: "compareTasks ?m a b \<le> 0"
    then have "a \<in> set tasks" "b \<in> set tasks" by simp_all
    then show "(lastFailed (latestFor h pf fl s b) \<longrightarrow> lastFailed (latestFor h pf fl s a))
        \<and> (lastFailed (latestFor h pf fl s a) = lastFailed (latestFor h pf fl s b)
             \<longrightarrow> lastDuration (latestFor h pf fl s b) \<le> lastDuration (latestFor h pf fl s a))"
      using le prio by (auto simp: compareTasks_le Let_def priorityFrom_def lastFailed_def lastDuration_def
          zeroPriority_def split: option.splits)
  qed
next
  fix tasks'
  assume perm: "mset tasks' = mset tasks"
  have sets: "set tasks' = set tasks" using perm by (metis set_mset_mset)
  have d': "distinct (map keyOf tasks')" using assms perm by (metis mset_eq_imp_distinct_iff mset_map)
  let ?m = "priorities h pf fl s tasks" and ?m' = "priorities h pf fl s tasks'"
  have prio: "priorityOf ?m' t = priorityOf ?m t" if "t \<in> set tasks" for t
    using that sets priorityOf_priorities [OF assms] priorityOf_priorities [OF d'] by auto
  have "SortFunc (compareTasks ?m') tasks' = SortFunc (compareTasks ?m) tasks"
  proof (rule task_compare.SortFunc_unique)
    show "mset (SortFunc (compareTasks ?m') tasks') = mset tasks" using perm by simp
    show "sorted_wrt (\<lambda>a b. compareTasks ?m a b \<le> 0) (SortFunc (compareTasks ?m') tasks')"
    proof (rule sorted_wrt_mono_rel [OF _ task_compare.sorted_SortFunc])
      fix a b
      assume "a \<in> set (SortFunc (compareTasks ?m') tasks')" "b \<in> set (SortFunc (compareTasks ?m') tasks')"
        and "compareTasks ?m' a b \<le> 0"
      then show "compareTasks ?m a b \<le> 0" using prio sets by (simp add: compareTasks_def)
    qed
    fix a b
    assume ab: "a \<in> set tasks" "b \<in> set tasks" "compareTasks ?m a b \<le> 0" "compareTasks ?m b a \<le> 0"
    then have "keyOf a = keyOf b" using compareTasks_antisym [of ?m a b] by simp
    with ab(1,2) assms show "a = b" by (auto simp: distinct_map inj_on_def)
  qed
  then show "orderTestTasksByHistory h pf fl s tasks' = orderTestTasksByHistory h pf fl s tasks"
    by (simp add: orderTestTasksByHistory_def)
qed

section \<open>Properties of the estimates\<close>

definition sampleFlags :: flags where
  "sampleFlags = \<lparr>jobs = 2, maxOutput = 100, useCache = True, progressEvery = 0, failFast = False, testCount = 1,
     testCountSet = False, maxRetries = 3, buildOnly = False, debugUncached = False, jsonSummary = False,
     distributed = False, distKey = [], helperAddr = []\<rparr>"

definition samplePlatform :: platform where
  "samplePlatform = \<lparr>goos = ''linux'', goarch = ''amd64''\<rparr>"

theorem orderTestTasks_slowest_first_witness:
  "orderTestTasksByHistory sampleHashing samplePlatform sampleFlags sampleServer [sampleTask ''TestB'', sampleTask ''TestA'']
   = orderTestTasksByHistory sampleHashing samplePlatform sampleFlags sampleServer [sampleTask ''TestA'', sampleTask ''TestB'']"
proof -
  have "distinct (map keyOf [sampleTask ''TestA'', sampleTask ''TestB''])"
    by (simp add: taskKey_def sampleTask_def)
  note order = orderTestTasks_slowest_first [OF this, of sampleHashing samplePlatform sampleFlags sampleServer]
  have "mset [sampleTask ''TestB'', sampleTask ''TestA''] = mset [sampleTask ''TestA'', sampleTask ''TestB'']" by simp
  then show ?thesis by (rule order [THEN conjunct2, THEN conjunct2, rule_format])
qed

interpretation int_compare: go_compare "cmpOf :: int \<Rightarrow> int \<Rightarrow> int"
  by unfold_locales (auto simp: cmpOf_le)

lemma medianOf_between:
  assumes "known \<noteq> []" and "\<forall>d \<in> set known. lo \<le> d \<and> d \<le> hi"
  shows "lo \<le> medianOf known \<and> medianOf known \<le> hi"
proof -
  let ?ks = "SortFunc cmpOf known"
  have sorted: "sorted_wrt (\<le>) ?ks" using int_compare.sorted_SortFunc [of known] by (simp add: cmpOf_le)
  have mid: "length known div 2 < length known" using assms(1) by (simp add: length_greater_0_conv)
  have b: "lo \<le> ?ks ! i \<and> ?ks ! i \<le> hi" if "i < length known" for i
    using assms(2) that by (metis length_SortFunc nth_mem set_SortFunc)
  show ?thesis
  proof (cases "length known mod 2 = 0")
    case False
    then show ?thesis using assms(1) b [OF mid] by (simp add: medianOf_def)
  next
    case True
    let ?m = "length known div 2"
    have "?ks ! (?m - 1) \<le> ?ks ! ?m"
      using sorted mid by (cases ?m) (auto simp: sorted_wrt_iff_nth_less)
    then have "?ks ! (?m - 1) \<le> medianOf known \<and> medianOf known \<le> ?ks ! ?m"
      using True assms(1) by (auto simp: medianOf_def Let_def)
    then show ?thesis using b [OF mid] b [of "?m - 1"] mid by force
  qed
qed

definition knownRuns :: "hashing \<Rightarrow> platform \<Rightarrow> flags \<Rightarrow> Server \<Rightarrow> testTask list \<Rightarrow> duration list" where
  "knownRuns h pf fl s tasks =
     map perRun (filter (\<lambda>ob. 0 < obs_Duration ob) (List.map_filter (latestFor h pf fl s) tasks))"

lemma estimateStep_known:
  "fst (fold (estimateStep h pf fl s) tasks acc) = fst acc @ knownRuns h pf fl s tasks"
  by (induction tasks arbitrary: acc)
    (auto simp: estimateStep_def knownRuns_def map_filter_simps split: option.splits)

lemma perRun_nonneg: "0 < obs_Duration ob \<Longrightarrow> 0 \<le> perRun ob"
  by (simp add: perRun_def pos_imp_zdiv_nonneg_iff)

lemma knownRuns_nonneg: "d \<in> set (knownRuns h pf fl s tasks) \<Longrightarrow> 0 \<le> d"
  by (auto simp: knownRuns_def perRun_nonneg)

definition estimateFrom :: "flags \<Rightarrow> duration \<Rightarrow> Observation option \<Rightarrow> testEstimate" where
  "estimateFrom fl median latest =
     (case latest of
        Some ob \<Rightarrow> if 0 < obs_Duration ob then \<lparr>est_duration = perRun ob * testCount fl, est_known = True\<rparr>
                   else \<lparr>est_duration = median, est_known = False\<rparr>
      | None \<Rightarrow> \<lparr>est_duration = median, est_known = False\<rparr>)"

lemma map_of_estimates:
  assumes "distinct (map keyOf tasks)" and "task \<in> set tasks" and "map_of (snd acc) (keyOf task) = None"
  shows "map_of (snd (fold (estimateStep h pf fl s) tasks acc)) (keyOf task) =
    (case latestFor h pf fl s task of
       Some ob \<Rightarrow> if 0 < obs_Duration ob then Some \<lparr>est_duration = perRun ob * testCount fl, est_known = True\<rparr> else None
     | None \<Rightarrow> None)"
  using assms
proof (induction tasks arbitrary: acc)
  case Nil
  then show ?case by simp
next
  case (Cons t tasks)
  have keep: "keyOf task \<notin> keyOf ` set ts
      \<Longrightarrow> map_of (snd (fold (estimateStep h pf fl s) ts acc)) (keyOf task) = map_of (snd acc) (keyOf task)" for ts acc
    by (induction ts arbitrary: acc) (auto simp: estimateStep_def split: option.splits)
  show ?case
  proof (cases "t = task")
    case True
    then have "keyOf task \<notin> keyOf ` set tasks" using Cons.prems(1) by auto
    with True Cons.prems(3) show ?thesis
      by (simp add: keep) (simp add: estimateStep_def split: option.splits)
  next
    case False
    then have t: "task \<in> set tasks" using Cons.prems(2) by simp
    then have "keyOf t \<noteq> keyOf task" using Cons.prems(1) by (auto dest: rev_image_eqI)
    then have "map_of (snd (estimateStep h pf fl s t acc)) (keyOf task) = None"
      using Cons.prems(3) by (simp add: estimateStep_def split: option.splits)
    with Cons.IH [of "estimateStep h pf fl s t acc"] Cons.prems(1) t show ?thesis by simp
  qed
qed

lemma map_of_fillEstimates:
  "map_of (fold (fillEstimate median) tasks m) i =
    (case map_of m i of
       Some e \<Rightarrow> Some e
     | None \<Rightarrow> if i \<in> keyOf ` set tasks then Some \<lparr>est_duration = median, est_known = False\<rparr> else None)"
proof (induction tasks arbitrary: m)
  case Nil
  then show ?case by (simp split: option.splits)
next
  case (Cons t tasks)
  then show ?case by (auto simp: fillEstimate_def Let_def split: option.splits)
qed

text \<open>
  After \<open>prepareTestEstimates\<close> every selected task has an estimate: \<open>-count\<close> times the average
  attempt of its newest observation when that took time, and otherwise the base estimate, which is
  100 ms when nothing is known and lies between the shortest and the longest known run otherwise
  (times \<open>-count\<close>). No estimate is negative.
\<close>

theorem prepareTestEstimates_total:
  assumes "distinct (map keyOf tasks)" and "task \<in> set tasks" and "1 \<le> testCount fl"
  shows "let s' = prepareTestEstimates h pf fl tasks s; known = knownRuns h pf fl s tasks in
    map_of (sv_testEstimates s') (keyOf task) = Some (estimateFrom fl (sv_testEstimateBase s') (latestFor h pf fl s task))
    \<and> 0 \<le> est_duration (estimateFrom fl (sv_testEstimateBase s') (latestFor h pf fl s task))
    \<and> (known = [] \<longrightarrow> sv_testEstimateBase s' = defaultTestEstimate * testCount fl)
    \<and> (known \<noteq> [] \<longrightarrow> Min (set known) * testCount fl \<le> sv_testEstimateBase s'
         \<and> sv_testEstimateBase s' \<le> Max (set known) * testCount fl)
    \<and> sv_testSchedule s' = map keyOf tasks"
proof -
  let ?known = "knownRuns h pf fl s tasks"
  obtain k m where km: "fold (estimateStep h pf fl s) tasks ([], []) = (k, m)" by fastforce
  have k: "k = ?known" using estimateStep_known [of h pf fl s tasks "([], [])"] km by simp
  have m: "map_of m (keyOf task) = (case latestFor h pf fl s task of
       Some ob \<Rightarrow> if 0 < obs_Duration ob then Some \<lparr>est_duration = perRun ob * testCount fl, est_known = True\<rparr> else None
     | None \<Rightarrow> None)"
    using map_of_estimates [OF assms(1,2), of "([], [])" h pf fl s] km by simp
  define base where "base = medianOf ?known * testCount fl"
  have s': "prepareTestEstimates h pf fl tasks s = s\<lparr>sv_testSchedule := map keyOf tasks,
      sv_testEstimates := fold (fillEstimate base) tasks m, sv_testEstimateBase := base, sv_testEstimateReady := True\<rparr>"
    using km k by (simp add: prepareTestEstimates_def base_def Let_def)
  have est: "map_of (fold (fillEstimate base) tasks m) (keyOf task) = Some (estimateFrom fl base (latestFor h pf fl s task))"
    unfolding map_of_fillEstimates m using assms(2) by (auto simp: estimateFrom_def split: option.splits)
  have nil: "?known = [] \<Longrightarrow> base = defaultTestEstimate * testCount fl"
    by (simp add: base_def medianOf_def)
  have between: "?known \<noteq> [] \<Longrightarrow> Min (set ?known) \<le> medianOf ?known \<and> medianOf ?known \<le> Max (set ?known)"
    by (rule medianOf_between) auto
  have "0 \<le> medianOf ?known"
  proof (cases "?known = []")
    case True
    then show ?thesis by (simp add: medianOf_def defaultTestEstimate_def millisecond_def)
  next
    case False
    then have "0 \<le> Min (set ?known)" using knownRuns_nonneg by simp
    with between [OF False] show ?thesis by simp
  qed
  then have "0 \<le> est_duration (estimateFrom fl base (latestFor h pf fl s task))"
    using assms(3) perRun_nonneg by (auto simp: estimateFrom_def base_def split: option.splits)
  with s' est nil between assms(3) show ?thesis by (auto simp: Let_def base_def intro: mult_right_mono)
qed

theorem prepareTestEstimates_total_witness:
  "let s' = prepareTestEstimates sampleHashing samplePlatform sampleFlags [sampleTask ''TestA'', sampleTask ''TestB''] sampleServer in
   map_of (sv_testEstimates s') (keyOf (sampleTask ''TestB''))
     = Some (estimateFrom sampleFlags (sv_testEstimateBase s') (latestFor sampleHashing samplePlatform sampleFlags sampleServer (sampleTask ''TestB'')))"
  using prepareTestEstimates_total [of "[sampleTask ''TestA'', sampleTask ''TestB'']" "sampleTask ''TestB''"
      sampleFlags sampleHashing samplePlatform sampleServer]
  by (simp add: taskKey_def sampleTask_def sampleFlags_def Let_def)

end
