(* ===== verification/Run_Test.thy ===== *)
theory Run_Test
  imports Schedule "HOL-Library.Monad_Syntax"
begin

text \<open>
  \<open>runTest\<close> and \<open>runTestAttempt\<close> of \<open>gotst.go\<close>: the result cache, the repetitions and retries of a
  test and the commitment of its result. The execution of the test binary is a function of the
  command line, the repetition and the retry. A result of \<open>None\<close> means that the call does not
  return: it panics, or its retry loop runs for ever (\<open>partial_function\<close>).
\<close>

section \<open>One attempt\<close>

datatype testErr = ErrCanceled | ErrExit string | ErrOther string

fun errText :: "testErr \<Rightarrow> string" where
  "errText ErrCanceled = ''context canceled''"
| "errText (ErrExit e) = e"
| "errText (ErrOther e) = e"

text \<open>
  What one execution of the binary does: how long it takes, what it writes, its error, whether the
  context is cancelled when it is over, and the test log and the world that \<open>parseTestLog\<close> sees.
\<close>

record procRun =
  run_dur :: duration
  run_writes :: "string list"
  run_err :: "testErr option"
  run_canceled :: bool
  run_log :: "string + string"
  run_world :: world

record runEnv =
  re_h :: hashing
  re_fl :: flags
  re_pf :: platform
  re_now :: time
  re_obsID :: string
  re_exec :: "string list \<Rightarrow> nat \<Rightarrow> nat \<Rightarrow> procRun"
  re_world :: world
  re_getFault :: "string option"
  re_putFault :: "string option"
  re_acquired :: bool

definition roundMs :: "duration \<Rightarrow> duration" where
  "roundMs d = (let r = d mod millisecond in if 2 * r < millisecond then d - r else d + (millisecond - r))"

definition captureDeps :: "Server \<Rightarrow> bool" where
  "captureDeps s \<longleftrightarrow> sv_testCache s \<noteq> None \<or> sv_history s \<or> sv_captureHistory s"

definition attemptRun :: "runEnv \<Rightarrow> Server \<Rightarrow> testTask \<Rightarrow> testCacheKey \<Rightarrow> string list \<Rightarrow> nat \<Rightarrow> nat \<Rightarrow> procRun" where
  "attemptRun env s task key baseArgs rep retry =
     (let logPath = pathJoin [sv_cacheDir s, ''testlog-'' @ keyId (re_h env) key @ ''-'' @ showNat rep @ ''-'' @ showNat retry]
      in re_exec env (attemptArgs baseArgs (task_test task) (captureDeps s) logPath) rep retry)"

record attemptResult =
  at_d :: duration
  at_output :: string
  at_attrs :: "(string, string) gomap"
  at_deps :: "cacheDependency list option"
  at_err :: "testErr option"

definition runTestAttempt :: "runEnv \<Rightarrow> testTask \<Rightarrow> testCacheKey \<Rightarrow> string list \<Rightarrow> nat \<Rightarrow> nat \<Rightarrow> Server
    \<Rightarrow> (attemptResult \<times> Server) option" where
  "runTestAttempt env task key baseArgs rep retry s =
     (let r = attemptRun env s task key baseArgs rep retry;
          out = fold cbWrite (run_writes r) (newBuffer (maxOutput (re_fl env)));
          attrOut = fold cbWrite (if jsonSummary (re_fl env) then run_writes r else []) (newBuffer 1048576);
          res = \<lparr>at_d = roundMs (run_dur r), at_output = cbString out, at_attrs = testAttrs (cbString attrOut),
                 at_deps = None, at_err = run_err r\<rparr>
      in if run_canceled r then Some (res\<lparr>at_err := Some ErrCanceled\<rparr>, s\<lparr>sv_canceled := True\<rparr>)
         else if \<not> captureDeps s then Some (res, s)
         else case packageRoot s (task_pkg task) of
                None \<Rightarrow> None
              | Some root \<Rightarrow>
                  (case parseTestLog (re_h env) (run_world r) (run_log r) (workDir (task_bin task)) root of
                     Inr deps \<Rightarrow> Some (res\<lparr>at_deps := Some deps\<rparr>, s)
                   | Inl e \<Rightarrow>
                       Some (res, if run_err r = None \<and> sv_debugPass s = 1
                                  then setDebugSeedError (re_h env) key (''parsing test input log: '' @ e) s else s)))"

section \<open>Retries and repetitions\<close>

record runLoop =
  rl_total :: duration
  rl_failures :: "failInfo list"
  rl_cacheDeps :: "cacheDependency list option"
  rl_historyDeps :: "cacheDependency list"
  rl_complete :: bool
  rl_attempts :: int
  rl_srv :: Server

definition completeHistoryDeps :: "cacheDependency list \<Rightarrow> bool \<Rightarrow> cacheDependency list option" where
  "completeHistoryDeps deps complete = (if complete then Some deps else None)"

text \<open>An attempt and the bookkeeping up to the check of its error.\<close>

definition attemptStep :: "runEnv \<Rightarrow> testTask \<Rightarrow> testCacheKey \<Rightarrow> string list \<Rightarrow> nat \<Rightarrow> nat \<Rightarrow> runLoop
    \<Rightarrow> (attemptResult \<times> runLoop) option" where
  "attemptStep env task key baseArgs rep retry rl =
     (case runTestAttempt env task key baseArgs rep retry (rl_srv rl) of
        None \<Rightarrow> None
      | Some (a, s1) \<Rightarrow>
          (case recordTestAttrs task (at_attrs a) s1 of
             None \<Rightarrow> None
           | Some s2 \<Rightarrow>
               (case recordTestAttempt task s2 of
                  None \<Rightarrow> None
                | Some s3 \<Rightarrow>
                    Some (a, rl\<lparr>rl_total := rl_total rl + at_d a, rl_attempts := rl_attempts rl + 1,
                                rl_complete := rl_complete rl \<and> at_deps a \<noteq> None,
                                rl_historyDeps := rl_historyDeps rl @ (case at_deps a of None \<Rightarrow> [] | Some ds \<Rightarrow> ds),
                                rl_srv := s3\<rparr>))))"

datatype loopExit = Returned testErr Server | Broke runLoop

text \<open>The failure of the last attempt: the test fails.\<close>

definition giveUp :: "runEnv \<Rightarrow> testTask \<Rightarrow> testErr \<Rightarrow> runLoop \<Rightarrow> loopExit option" where
  "giveUp env task e rl =
     (case finishTestLocked (re_now env) task False (rl_total rl) (rl_failures rl) (Some (errText e)) False (rl_srv rl) of
        None \<Rightarrow> None
      | Some s1 \<Rightarrow>
          map_option (Returned e)
            (recordHistory (re_h env) (re_pf env) (re_fl env) (re_now env) (re_obsID env) task OutcomeFail (rl_total rl)
               (rl_attempts rl) (completeHistoryDeps (rl_historyDeps rl) (rl_complete rl)) s1))"

partial_function (option) retryLoop :: "runEnv \<Rightarrow> testTask \<Rightarrow> testCacheKey \<Rightarrow> string list \<Rightarrow> nat \<Rightarrow> nat \<Rightarrow> runLoop
    \<Rightarrow> loopExit option" where
  "retryLoop env task key baseArgs rep retry rl =
     Option.bind (attemptStep env task key baseArgs rep retry rl) (\<lambda>p.
       case at_err (fst p) of
         None \<Rightarrow>
           Some (Broke (if rl_failures (snd p) = [] \<and> testCount (re_fl env) = 1
                        then (snd p)\<lparr>rl_cacheDeps := at_deps (fst p)\<rparr> else snd p))
       | Some e \<Rightarrow>
           if e = ErrCanceled
           then map_option (Returned ErrCanceled) (stopRunningTest (re_now env) task (rl_srv (snd p)))
           else if int retry = maxRetries (re_fl env)
           then giveUp env task e ((snd p)\<lparr>rl_failures := rl_failures (snd p)
                  @ [\<lparr>fail_dur = at_d (fst p), fail_out = at_output (fst p)\<rparr>]\<rparr>)
           else retryLoop env task key baseArgs rep (Suc retry)
                  ((snd p)\<lparr>rl_failures := rl_failures (snd p)
                     @ [\<lparr>fail_dur = at_d (fst p), fail_out = at_output (fst p)\<rparr>]\<rparr>))"

fun repLoop :: "runEnv \<Rightarrow> testTask \<Rightarrow> testCacheKey \<Rightarrow> string list \<Rightarrow> nat list \<Rightarrow> runLoop \<Rightarrow> loopExit option" where
  "repLoop env task key baseArgs [] rl = Some (Broke rl)"
| "repLoop env task key baseArgs (rep # reps) rl =
     (case retryLoop env task key baseArgs rep 0 rl of
        None \<Rightarrow> None
      | Some (Returned e s) \<Rightarrow> Some (Returned e s)
      | Some (Broke rl') \<Rightarrow> repLoop env task key baseArgs reps rl')"

section \<open>The whole test\<close>

text \<open>After the last repetition: store the result, finish the test and record its history.\<close>

definition storeResult :: "runEnv \<Rightarrow> testCacheKey \<Rightarrow> runLoop \<Rightarrow> Server \<Rightarrow> Server" where
  "storeResult env key rl s =
     (case (sv_testCache s, rl_cacheDeps rl) of
        (Some (dir, fs), Some deps) \<Rightarrow>
          if rl_failures rl = []
          then (case cachePut (re_h env) dir (sv_canceled s) (re_putFault env) fs
                       \<lparr>entry_Version = testCacheVersion, entry_Key = key, entry_Created = re_now env,
                        entry_PassedIn = rl_total rl, entry_Dependencies = deps\<rparr> of
                  (None, fs') \<Rightarrow> s\<lparr>sv_testCache := Some (dir, fs')\<rparr>
                | (Some e, fs') \<Rightarrow>
                    (if sv_debugPass s = 1
                     then setDebugSeedError (re_h env) key (''writing cache entry: '' @ e) (s\<lparr>sv_testCache := Some (dir, fs')\<rparr>)
                     else s\<lparr>sv_testCache := Some (dir, fs')\<rparr>))
          else if sv_debugPass s = 1
            then setDebugSeedError (re_h env) key
                   (''test passed only after '' @ showNat (length (rl_failures rl)) @ '' failed attempt(s)'') s
            else s
      | _ \<Rightarrow>
          if sv_debugPass s = 1
          then setDebugSeedError (re_h env) key
                 (if rl_failures rl \<noteq> []
                  then ''test passed only after '' @ showNat (length (rl_failures rl)) @ '' failed attempt(s)''
                  else if rl_cacheDeps rl = None then ''test input log could not be captured''
                  else ''test result was not cacheable'') s
          else s)"

definition passTest :: "runEnv \<Rightarrow> testTask \<Rightarrow> testCacheKey \<Rightarrow> runLoop \<Rightarrow> Server option" where
  "passTest env task key rl =
     (case finishTestLocked (re_now env) task True (rl_total rl) (rl_failures rl) None False
             (storeResult env key rl (rl_srv rl)) of
        None \<Rightarrow> None
      | Some s1 \<Rightarrow>
          recordHistory (re_h env) (re_pf env) (re_fl env) (re_now env) (re_obsID env) task
            (if rl_failures rl \<noteq> [] then OutcomeFlaky else OutcomePass) (rl_total rl)
            (rl_attempts rl) (completeHistoryDeps (rl_historyDeps rl) (rl_complete rl)) s1)"

text \<open>The lookup at the start of \<open>runTest\<close>: the entry of a valid cached result, and the counters.\<close>

definition cachedResult :: "runEnv \<Rightarrow> testCacheKey \<Rightarrow> Server \<Rightarrow> testCacheEntry option \<times> Server" where
  "cachedResult env key s =
     (case sv_testCache s of
        None \<Rightarrow> (None, s)
      | Some (dir, fs) \<Rightarrow>
          if sv_debugPass s = 1 then (None, s)
          else let s1 = s\<lparr>sv_cacheChecks := sv_cacheChecks s + 1\<rparr>
               in case cacheGet (re_h env) dir (sv_canceled s) (re_getFault env) fs key of
                    Inl _ \<Rightarrow> (None, s1)
                  | Inr entry \<Rightarrow>
                      if validateDependencies (re_h env) (re_world env) (entry_Dependencies entry) = Inr True
                      then (Some entry, s1\<lparr>sv_cacheHits := sv_cacheHits s1 + 1\<rparr>)
                      else (None, s1))"

definition startTest :: "time \<Rightarrow> testTask \<Rightarrow> Server \<Rightarrow> Server option" where
  "startTest now task s =
     updTest (task_pkg task) (task_test task)
       (\<lambda>ts. ts\<lparr>ts_running := True, ts_started := now, ts_changed := now\<rparr>)
       (\<lambda>ps. ps\<lparr>ps_state := pkgStateTesting, ps_changed := now\<rparr>) s"

definition zeroLoop :: "Server \<Rightarrow> runLoop" where
  "zeroLoop s = \<lparr>rl_total = 0, rl_failures = [], rl_cacheDeps = None, rl_historyDeps = [], rl_complete = True,
     rl_attempts = 0, rl_srv = s\<rparr>"

definition runTest :: "runEnv \<Rightarrow> testTask \<Rightarrow> Server \<Rightarrow> (testErr option \<times> Server) option" where
  "runTest env task s =
     (if sv_canceled s then Some (Some ErrCanceled, s)
      else let baseArgs = effectiveTestArgs (re_fl env) task (sv_profile s);
               key = cacheKeyForTask (re_fl env) (sv_profile s) task
           in case cachedResult env key s of
                (Some entry, s1) \<Rightarrow>
                  map_option (Pair None) (finishTestLocked (re_now env) task True (entry_PassedIn entry) [] None True s1)
              | (None, s1) \<Rightarrow>
                  if \<not> re_acquired env then Some (Some ErrCanceled, s1\<lparr>sv_canceled := True\<rparr>)
                  else case startTest (re_now env) task s1 of
                         None \<Rightarrow> None
                       | Some s2 \<Rightarrow>
                           (case repLoop env task key baseArgs [0..<nat (testCount (re_fl env))] (zeroLoop s2) of
                              None \<Rightarrow> None
                            | Some (Returned e s3) \<Rightarrow> Some (Some e, s3)
                            | Some (Broke rl) \<Rightarrow> map_option (Pair None) (passTest env task key rl)))"

section \<open>What an attempt keeps\<close>

text \<open>The parts of the state that running a test does not change before its result is committed.\<close>

definition srvKeeps :: "testTask \<Rightarrow> Server \<Rightarrow> Server \<Rightarrow> bool" where
  "srvKeeps task s s' \<longleftrightarrow>
     sv_cacheDir s' = sv_cacheDir s \<and> sv_testCache s' = sv_testCache s \<and> sv_history s' = sv_history s
     \<and> sv_captureHistory s' = sv_captureHistory s \<and> sv_debugPass s' = sv_debugPass s
     \<and> sv_historyPending s' = sv_historyPending s \<and> sv_profile s' = sv_profile s
     \<and> (\<forall>p. packageRoot s' p = packageRoot s p)
     \<and> (\<forall>p t. (p, t) \<noteq> task_id task \<longrightarrow> testOf s' p t = testOf s p t)
     \<and> map_option ts_done (testOf s' (task_pkg task) (task_test task))
       = map_option ts_done (testOf s (task_pkg task) (task_test task))
     \<and> (serverOK s \<longrightarrow> serverOK s')"

lemma srvKeeps_refl [simp]: "srvKeeps task s s"
  by (simp add: srvKeeps_def)

lemma srvKeeps_trans: "srvKeeps task s t \<Longrightarrow> srvKeeps task t u \<Longrightarrow> srvKeeps task s u"
  by (simp add: srvKeeps_def)

definition taskIn :: "testTask \<Rightarrow> Server \<Rightarrow> bool" where
  "taskIn task s \<longleftrightarrow> testOf s (task_pkg task) (task_test task) \<noteq> None"

lemma srvKeeps_taskIn: "srvKeeps task s s' \<Longrightarrow> taskIn task s' \<longleftrightarrow> taskIn task s"
  unfolding srvKeeps_def taskIn_def by (metis option.map_disc_iff)

lemma srvKeeps_updTest:
  assumes "updTest (task_pkg task) (task_test task) f g s = Some s'" and "keepsTests g"
    and "\<And>ps. ps_numFails (g ps) = ps_numFails ps"
    and "\<And>ts. ts_done (f ts) = ts_done ts \<and> ts_passed (f ts) = ts_passed ts"
  shows "srvKeeps task s s'"
proof -
  have frame: "sv_cacheDir s' = sv_cacheDir s \<and> sv_testCache s' = sv_testCache s \<and> sv_history s' = sv_history s
     \<and> sv_captureHistory s' = sv_captureHistory s \<and> sv_debugPass s' = sv_debugPass s
     \<and> sv_historyPending s' = sv_historyPending s \<and> sv_profile s' = sv_profile s"
    using updTest_pkgs [OF assms(1)] by auto
  have "map_option ts_done (map_option f x) = map_option ts_done x" for x
    using assms(4) by (cases x) auto
  then show ?thesis
    using frame testOf_updTest [OF assms(1,2)] packageRoot_updTest [OF assms(1,2)]
      serverOK_updTest_simple [OF _ assms(1,2), OF _ assms(3,4)]
    by (auto simp: srvKeeps_def)
qed

lemma srvKeeps_simps [simp]:
  "srvKeeps task s (s\<lparr>sv_canceled := c\<rparr>)" "srvKeeps task s (s\<lparr>sv_cacheChecks := n\<rparr>)"
  "srvKeeps task s (s\<lparr>sv_cacheChecks := n, sv_cacheHits := m\<rparr>)"
  "srvKeeps task s (setDebugSeedError h key reason s)"
  by (simp_all add: srvKeeps_def packageRoot_def testOf_def serverOK_def setDebugSeedError_def)

lemma recordTestAttempt_keeps: "recordTestAttempt task s = Some s' \<Longrightarrow> srvKeeps task s s'"
  unfolding recordTestAttempt_def by (erule srvKeeps_updTest) simp_all

lemma recordTestAttrs_keeps: "recordTestAttrs task attrs s = Some s' \<Longrightarrow> srvKeeps task s s'"
  unfolding recordTestAttrs_def by (auto split: if_splits intro: srvKeeps_updTest)

lemma stopRunningTest_keeps: "stopRunningTest now task s = Some s' \<Longrightarrow> srvKeeps task s s'"
  unfolding stopRunningTest_def by (erule srvKeeps_updTest) simp_all

lemma startTest_keeps: "startTest now task s = Some s' \<Longrightarrow> srvKeeps task s s'"
  unfolding startTest_def by (erule srvKeeps_updTest) (simp_all add: keepsTests_def)

lemma updTest_canceled: "updTest pkg test f g s = Some s' \<Longrightarrow> sv_canceled s' = sv_canceled s"
  using updTest_pkgs by fastforce

lemma seedError_canceled: "sv_canceled (setDebugSeedError h key r s) = sv_canceled s"
  by (simp add: setDebugSeedError_def)

lemma ops_canceled:
  "recordTestAttempt task s = Some s' \<Longrightarrow> sv_canceled s' = sv_canceled s"
  "recordTestAttrs task attrs s = Some s' \<Longrightarrow> sv_canceled s' = sv_canceled s"
  "startTest now task s = Some s' \<Longrightarrow> sv_canceled s' = sv_canceled s"
  by (auto simp: recordTestAttempt_def recordTestAttrs_def startTest_def dest: updTest_canceled split: if_splits)

lemma updTest_returns: "taskIn task s \<Longrightarrow> \<exists>s'. updTest (task_pkg task) (task_test task) f g s = Some s'"
  by (simp add: updTest_Some_iff taskIn_def)

lemma ops_return [panic_free]:
  assumes "taskIn task s"
  shows "\<exists>s'. recordTestAttempt task s = Some s'" "\<exists>s'. recordTestAttrs task attrs s = Some s'"
    "\<exists>s'. stopRunningTest now task s = Some s'" "\<exists>s'. startTest now task s = Some s'"
    "\<exists>s'. finishTestLocked now task passed d failures err cached s = Some s'"
  using updTest_returns [OF assms]
  by (simp_all add: recordTestAttempt_def recordTestAttrs_def stopRunningTest_def startTest_def finishTestLocked_def)

lemma taskIn_root: "taskIn task s \<Longrightarrow> \<exists>r. packageRoot s (task_pkg task) = Some r"
  unfolding taskIn_def by (rule testOf_packageRoot)

section \<open>The outcome of an attempt\<close>

definition attemptErr :: "runEnv \<Rightarrow> Server \<Rightarrow> testTask \<Rightarrow> testCacheKey \<Rightarrow> string list \<Rightarrow> nat \<Rightarrow> nat \<Rightarrow> testErr option" where
  "attemptErr env s task key baseArgs rep retry =
     (let r = attemptRun env s task key baseArgs rep retry in if run_canceled r then Some ErrCanceled else run_err r)"

definition attemptDeps :: "runEnv \<Rightarrow> Server \<Rightarrow> testTask \<Rightarrow> testCacheKey \<Rightarrow> string list \<Rightarrow> nat \<Rightarrow> nat \<Rightarrow> cacheDependency list option" where
  "attemptDeps env s task key baseArgs rep retry =
     (let r = attemptRun env s task key baseArgs rep retry
      in if run_canceled r \<or> \<not> captureDeps s then None
         else case parseTestLog (re_h env) (run_world r) (run_log r) (workDir (task_bin task))
                     (case packageRoot s (task_pkg task) of Some root \<Rightarrow> root | None \<Rightarrow> []) of
                Inr deps \<Rightarrow> Some deps | Inl _ \<Rightarrow> None)"

lemma attempt_keeps:
  assumes "srvKeeps task s s'"
  shows "attemptErr env s' task key baseArgs rep retry = attemptErr env s task key baseArgs rep retry"
    "attemptDeps env s' task key baseArgs rep retry = attemptDeps env s task key baseArgs rep retry"
proof -
  have root: "packageRoot s' (task_pkg task) = packageRoot s (task_pkg task)"
    and cap: "captureDeps s' = captureDeps s" and dir: "sv_cacheDir s' = sv_cacheDir s"
    using assms unfolding srvKeeps_def captureDeps_def by metis+
  have run: "attemptRun env s' task key baseArgs rep retry = attemptRun env s task key baseArgs rep retry"
    unfolding attemptRun_def cap dir ..
  show "attemptErr env s' task key baseArgs rep retry = attemptErr env s task key baseArgs rep retry"
    "attemptDeps env s' task key baseArgs rep retry = attemptDeps env s task key baseArgs rep retry"
    unfolding attemptErr_def attemptDeps_def run root cap by (rule refl)+
qed

lemma runTestAttempt_returns:
  assumes "taskIn task s"
  shows "\<exists>a s'. runTestAttempt env task key baseArgs rep retry s = Some (a, s') \<and> srvKeeps task s s'
    \<and> at_err a = attemptErr env s task key baseArgs rep retry \<and> at_deps a = attemptDeps env s task key baseArgs rep retry
    \<and> (at_err a \<noteq> Some ErrCanceled \<longrightarrow> sv_canceled s' = sv_canceled s)"
proof -
  obtain root where root: "packageRoot s (task_pkg task) = Some root" using taskIn_root [OF assms] by blast
  let ?r = "attemptRun env s task key baseArgs rep retry"
  consider (c) "run_canceled ?r" | (n) "\<not> run_canceled ?r" "\<not> captureDeps s"
    | (l) e where "\<not> run_canceled ?r" "captureDeps s"
        "parseTestLog (re_h env) (run_world ?r) (run_log ?r) (workDir (task_bin task)) root = Inl e"
    | (d) ds where "\<not> run_canceled ?r" "captureDeps s"
        "parseTestLog (re_h env) (run_world ?r) (run_log ?r) (workDir (task_bin task)) root = Inr ds"
    by (cases "parseTestLog (re_h env) (run_world ?r) (run_log ?r) (workDir (task_bin task)) root") blast+
  then show ?thesis
    by cases (simp_all add: runTestAttempt_def attemptErr_def attemptDeps_def root Let_def seedError_canceled)
qed

lemma attemptStep_returns:
  assumes "taskIn task (rl_srv rl)"
  shows "\<exists>a rl'. attemptStep env task key baseArgs rep retry rl = Some (a, rl')
    \<and> srvKeeps task (rl_srv rl) (rl_srv rl')
    \<and> at_err a = attemptErr env (rl_srv rl) task key baseArgs rep retry
    \<and> at_deps a = attemptDeps env (rl_srv rl) task key baseArgs rep retry
    \<and> rl_failures rl' = rl_failures rl \<and> rl_cacheDeps rl' = rl_cacheDeps rl \<and> rl_attempts rl' = rl_attempts rl + 1
    \<and> (at_err a \<noteq> Some ErrCanceled \<longrightarrow> sv_canceled (rl_srv rl') = sv_canceled (rl_srv rl))"
proof -
  obtain a s1 where a: "runTestAttempt env task key baseArgs rep retry (rl_srv rl) = Some (a, s1)"
    "srvKeeps task (rl_srv rl) s1" "at_err a = attemptErr env (rl_srv rl) task key baseArgs rep retry"
    "at_deps a = attemptDeps env (rl_srv rl) task key baseArgs rep retry"
    "at_err a \<noteq> Some ErrCanceled \<longrightarrow> sv_canceled s1 = sv_canceled (rl_srv rl)"
    using runTestAttempt_returns [OF assms] by blast
  have "taskIn task s1" using assms srvKeeps_taskIn [OF a(2)] by simp
  then obtain s2 where s2: "recordTestAttrs task (at_attrs a) s1 = Some s2" "srvKeeps task s1 s2"
    using ops_return(2) recordTestAttrs_keeps by blast
  then have "taskIn task s2" using \<open>taskIn task s1\<close> srvKeeps_taskIn by blast
  then obtain s3 where s3: "recordTestAttempt task s2 = Some s3" "srvKeeps task s2 s3"
    using ops_return(1) recordTestAttempt_keeps by blast
  from a s2 s3 ops_canceled(1) [OF s3(1)] ops_canceled(2) [OF s2(1)] show ?thesis
    by (auto simp: attemptStep_def intro: srvKeeps_trans)
qed

section \<open>Committing\<close>

lemma finish_keeps:
  assumes "finishTestLocked now task passed d failures err cached s = Some s'"
  shows "packageRoot s' p = packageRoot s p"
    and "testOf s' p t = (if (p, t) = task_id task
      then map_option (finishStatus now passed d failures cached) (testOf s p t) else testOf s p t)"
    and "sv_testCache s' = sv_testCache s" and "sv_history s' = sv_history s"
    and "sv_captureHistory s' = sv_captureHistory s" and "sv_historyPending s' = sv_historyPending s"
    and "sv_profile s' = sv_profile s"
proof -
  note upd = assms [unfolded finishTestLocked_def]
  show "packageRoot s' p = packageRoot s p" by (rule packageRoot_updTest [OF upd]) simp
  show "testOf s' p t = (if (p, t) = task_id task
      then map_option (finishStatus now passed d failures cached) (testOf s p t) else testOf s p t)"
    using testOf_updTest [OF upd, of p t] by auto
  show "sv_testCache s' = sv_testCache s" "sv_history s' = sv_history s"
    "sv_captureHistory s' = sv_captureHistory s" "sv_historyPending s' = sv_historyPending s"
    "sv_profile s' = sv_profile s"
    using updTest_pkgs [OF upd] by auto
qed

lemma recordHistory_returns:
  assumes "packageRoot s (task_pkg task) \<noteq> None"
  shows "\<exists>s'. recordHistory h pf fl now i task outcome d n deps s = Some s' \<and> sv_pkgs s' = sv_pkgs s
    \<and> sv_testCache s' = sv_testCache s
    \<and> sv_historyPending s' = sv_historyPending s @
        (if sv_history s \<or> sv_captureHistory s
         then [\<lparr>obs_ID = i, obs_Key = taskHistKey pf fl s task, obs_At = now, obs_Outcome = outcome,
                obs_Duration = d, obs_Attempts = n, obs_PeakRSS = 0,
                obs_Dependencies = historyDependencies h deps (workDir (task_bin task)) (the (packageRoot s (task_pkg task)))\<rparr>]
         else [])"
  using assms by (auto simp: recordHistory_def)

text \<open>The state after a test was finished and its observation recorded.\<close>

definition committed :: "runEnv \<Rightarrow> testTask \<Rightarrow> bool \<Rightarrow> Outcome \<Rightarrow> Server \<Rightarrow> Server \<Rightarrow> bool" where
  "committed env task passed outcome s s' \<longleftrightarrow>
     (\<exists>ts. testOf s' (task_pkg task) (task_test task) = Some ts \<and> ts_done ts \<and> \<not> ts_running ts \<and> ts_passed ts = passed \<and> \<not> ts_cached ts)
     \<and> (\<forall>p t. (p, t) \<noteq> task_id task \<longrightarrow> testOf s' p t = testOf s p t)
     \<and> (if sv_history s \<or> sv_captureHistory s
        then \<exists>ob. sv_historyPending s' = sv_historyPending s @ [ob] \<and> obs_Outcome ob = outcome
               \<and> obs_Key ob = taskHistKey (re_pf env) (re_fl env) s task
        else sv_historyPending s' = sv_historyPending s)"

lemma finish_and_record:
  assumes "taskIn task s" and "srvKeeps task s0 s"
  obtains s1 s2 where "finishTestLocked now task passed d failures err False s = Some s1"
    "recordHistory h (re_pf env) (re_fl env) now' i task outcome d' n deps s1 = Some s2"
    "committed env task passed outcome s0 s2" "sv_testCache s2 = sv_testCache s"
proof -
  obtain s1 where s1: "finishTestLocked now task passed d failures err False s = Some s1"
    using ops_return(5) [OF assms(1)] by blast
  have "packageRoot s1 (task_pkg task) \<noteq> None"
    using finish_keeps(1) [OF s1] taskIn_root [OF assms(1)] by simp
  from recordHistory_returns [OF this, of h "re_pf env" "re_fl env" now' i outcome d' n deps] obtain s2 where
    s2: "recordHistory h (re_pf env) (re_fl env) now' i task outcome d' n deps s1 = Some s2" "sv_pkgs s2 = sv_pkgs s1"
      "sv_testCache s2 = sv_testCache s1" "sv_historyPending s2 = sv_historyPending s1 @
        (if sv_history s1 \<or> sv_captureHistory s1
         then [\<lparr>obs_ID = i, obs_Key = taskHistKey (re_pf env) (re_fl env) s1 task, obs_At = now', obs_Outcome = outcome,
                obs_Duration = d', obs_Attempts = n, obs_PeakRSS = 0,
                obs_Dependencies = historyDependencies h deps (workDir (task_bin task)) (the (packageRoot s1 (task_pkg task)))\<rparr>]
         else [])"
    by auto
  have testOf: "testOf s2 p t = (if (p, t) = task_id task
      then map_option (finishStatus now passed d failures False) (testOf s p t) else testOf s p t)" for p t
    using finish_keeps(2) [OF s1] s2(2) by (simp add: testOf_def)
  obtain ts where ts: "testOf s (task_pkg task) (task_test task) = Some ts" using assms(1) by (auto simp: taskIn_def)
  have keeps: "sv_history s = sv_history s0" "sv_captureHistory s = sv_captureHistory s0"
    "sv_historyPending s = sv_historyPending s0" "sv_profile s = sv_profile s0"
    "\<And>p t. (p, t) \<noteq> task_id task \<Longrightarrow> testOf s p t = testOf s0 p t"
    using assms(2) by (simp_all add: srvKeeps_def)
  have "committed env task passed outcome s0 s2"
    unfolding committed_def
    using testOf ts keeps s2(4) finish_keeps(4-7) [OF s1]
    by (auto simp: finishStatus_def taskHistKey_def)
  with s1 s2 show ?thesis using that finish_keeps(3) [OF s1] by simp
qed

lemma giveUp_returns:
  assumes "taskIn task (rl_srv rl)" and "srvKeeps task s0 (rl_srv rl)"
  shows "\<exists>s'. giveUp env task e rl = Some (Returned e s') \<and> committed env task False OutcomeFail s0 s'
    \<and> sv_testCache s' = sv_testCache (rl_srv rl)"
proof -
  obtain s1 s2 where "finishTestLocked (re_now env) task False (rl_total rl) (rl_failures rl) (Some (errText e)) False (rl_srv rl) = Some s1"
    "recordHistory (re_h env) (re_pf env) (re_fl env) (re_now env) (re_obsID env) task OutcomeFail (rl_total rl)
       (rl_attempts rl) (completeHistoryDeps (rl_historyDeps rl) (rl_complete rl)) s1 = Some s2"
    "committed env task False OutcomeFail s0 s2" "sv_testCache s2 = sv_testCache (rl_srv rl)"
    by (rule finish_and_record [OF assms])
  then show ?thesis by (simp add: giveUp_def)
qed

section \<open>The retry loop\<close>

text \<open>
  The possible exits: a break after attempt \<open>n\<close> passed and all before it failed, a return because an
  attempt was cancelled, and a return because every attempt up to the last one failed.
\<close>

definition failedBetween :: "runEnv \<Rightarrow> Server \<Rightarrow> testTask \<Rightarrow> testCacheKey \<Rightarrow> string list \<Rightarrow> nat \<Rightarrow> nat \<Rightarrow> nat \<Rightarrow> bool" where
  "failedBetween env s0 task key baseArgs rep a b \<longleftrightarrow>
     (\<forall>m \<in> {a..<b}. \<exists>e. attemptErr env s0 task key baseArgs rep m = Some e \<and> e \<noteq> ErrCanceled)"

definition retryExit :: "runEnv \<Rightarrow> Server \<Rightarrow> testTask \<Rightarrow> testCacheKey \<Rightarrow> string list \<Rightarrow> nat \<Rightarrow> nat \<Rightarrow> runLoop \<Rightarrow> loopExit \<Rightarrow> bool" where
  "retryExit env s0 task key baseArgs rep retry rl x =
     (case x of
        Broke rl' \<Rightarrow>
          \<exists>n \<ge> retry. int n \<le> maxRetries (re_fl env) \<and> attemptErr env s0 task key baseArgs rep n = None
            \<and> failedBetween env s0 task key baseArgs rep retry n
            \<and> length (rl_failures rl') = length (rl_failures rl) + (n - retry)
            \<and> rl_cacheDeps rl' = (if rl_failures rl' = [] \<and> testCount (re_fl env) = 1
                                  then attemptDeps env s0 task key baseArgs rep n else rl_cacheDeps rl)
            \<and> rl_attempts rl' = rl_attempts rl + int (n - retry) + 1
            \<and> srvKeeps task s0 (rl_srv rl') \<and> sv_canceled (rl_srv rl') = sv_canceled (rl_srv rl)
      | Returned e s' \<Rightarrow>
          e = ErrCanceled \<and> srvKeeps task s0 s'
            \<and> (\<exists>n \<ge> retry. int n \<le> maxRetries (re_fl env) \<and> attemptErr env s0 task key baseArgs rep n = Some ErrCanceled)
          \<or> e \<noteq> ErrCanceled \<and> committed env task False OutcomeFail s0 s' \<and> sv_testCache s' = sv_testCache s0
            \<and> failedBetween env s0 task key baseArgs rep retry (Suc (nat (maxRetries (re_fl env))))
            \<and> attemptErr env s0 task key baseArgs rep (nat (maxRetries (re_fl env))) = Some e)"

lemma failedBetween_Cons:
  "attemptErr env s0 task key baseArgs rep a = Some e \<Longrightarrow> e \<noteq> ErrCanceled \<Longrightarrow> a < b
    \<Longrightarrow> failedBetween env s0 task key baseArgs rep (Suc a) b \<Longrightarrow> failedBetween env s0 task key baseArgs rep a b"
  unfolding failedBetween_def by (metis Suc_leI atLeastLessThan_iff le_neq_implies_less)

lemma retryExit_later:
  assumes "attemptErr env s0 task key baseArgs rep retry = Some e" and "e \<noteq> ErrCanceled"
    and "int retry < maxRetries (re_fl env)" and "length (rl_failures rl1) = Suc (length (rl_failures rl))"
    and "rl_cacheDeps rl1 = rl_cacheDeps rl" and "rl_attempts rl1 = rl_attempts rl + 1"
    and "sv_canceled (rl_srv rl1) = sv_canceled (rl_srv rl)"
    and "retryExit env s0 task key baseArgs rep (Suc retry) rl1 x"
  shows "retryExit env s0 task key baseArgs rep retry rl x"
proof (cases x)
  case (Broke rl')
  with assms(8) obtain n where n: "Suc retry \<le> n" "int n \<le> maxRetries (re_fl env)"
    "attemptErr env s0 task key baseArgs rep n = None" "failedBetween env s0 task key baseArgs rep (Suc retry) n"
    "length (rl_failures rl') = length (rl_failures rl1) + (n - Suc retry)"
    "rl_cacheDeps rl' = (if rl_failures rl' = [] \<and> testCount (re_fl env) = 1
        then attemptDeps env s0 task key baseArgs rep n else rl_cacheDeps rl1)"
    "rl_attempts rl' = rl_attempts rl1 + int (n - Suc retry) + 1" "srvKeeps task s0 (rl_srv rl')"
    "sv_canceled (rl_srv rl') = sv_canceled (rl_srv rl1)"
    by (auto simp: retryExit_def)
  have "failedBetween env s0 task key baseArgs rep retry n"
    by (rule failedBetween_Cons [OF assms(1,2) _ n(4)]) (use n(1) in simp)
  with n assms(4-7) Broke show ?thesis
    unfolding retryExit_def by (auto intro!: exI [of _ n] simp: of_nat_diff)
next
  case (Returned e' s')
  have "retry < Suc (nat (maxRetries (re_fl env)))" using assms(3) by simp
  with Returned assms(8) failedBetween_Cons [OF assms(1,2)] show ?thesis
    unfolding retryExit_def by (auto dest: Suc_leD)
qed

lemma retryLoop_exit:
  assumes "srvKeeps task s0 (rl_srv rl)" and "taskIn task s0" and "int retry \<le> maxRetries (re_fl env)"
  shows "\<exists>x. retryLoop env task key baseArgs rep retry rl = Some x \<and> retryExit env s0 task key baseArgs rep retry rl x"
  using assms
proof (induction "nat (maxRetries (re_fl env) - int retry)" arbitrary: retry rl rule: less_induct)
  case less
  have "taskIn task (rl_srv rl)" using srvKeeps_taskIn [OF less.prems(1)] less.prems(2) by simp
  from attemptStep_returns [OF this, of env key baseArgs rep retry] obtain a rl1 where
    a: "attemptStep env task key baseArgs rep retry rl = Some (a, rl1)" "srvKeeps task (rl_srv rl) (rl_srv rl1)"
    "at_err a = attemptErr env s0 task key baseArgs rep retry" "at_deps a = attemptDeps env s0 task key baseArgs rep retry"
    "rl_failures rl1 = rl_failures rl" "rl_cacheDeps rl1 = rl_cacheDeps rl" "rl_attempts rl1 = rl_attempts rl + 1"
    "at_err a \<noteq> Some ErrCanceled \<longrightarrow> sv_canceled (rl_srv rl1) = sv_canceled (rl_srv rl)"
    unfolding attempt_keeps [OF less.prems(1)] by blast
  have keeps: "srvKeeps task s0 (rl_srv rl1)" using less.prems(1) a(2) by (rule srvKeeps_trans)
  then have taskIn: "taskIn task (rl_srv rl1)" using srvKeeps_taskIn less.prems(2) by blast
  let ?rl2 = "rl1\<lparr>rl_failures := rl_failures rl1 @ [\<lparr>fail_dur = at_d a, fail_out = at_output a\<rparr>]\<rparr>"
  consider (pass) "at_err a = None" | (cancel) "at_err a = Some ErrCanceled"
    | (last) e where "at_err a = Some e" "e \<noteq> ErrCanceled" "int retry = maxRetries (re_fl env)"
    | (again) e where "at_err a = Some e" "e \<noteq> ErrCanceled" "int retry \<noteq> maxRetries (re_fl env)"
    by (cases "at_err a") auto
  then show ?case
  proof cases
    case pass
    then have "retryLoop env task key baseArgs rep retry rl = Some (Broke (if rl_failures rl1 = [] \<and> testCount (re_fl env) = 1
        then rl1\<lparr>rl_cacheDeps := at_deps a\<rparr> else rl1))"
      using a(1) by (subst retryLoop.simps) simp
    moreover have "retryExit env s0 task key baseArgs rep retry rl (Broke (if rl_failures rl1 = [] \<and> testCount (re_fl env) = 1
        then rl1\<lparr>rl_cacheDeps := at_deps a\<rparr> else rl1))"
      using pass a(3-8) keeps less.prems(3)
      unfolding retryExit_def by (auto intro!: exI [of _ retry] simp: failedBetween_def)
    ultimately show ?thesis by blast
  next
    case cancel
    obtain s' where s': "stopRunningTest (re_now env) task (rl_srv rl1) = Some s'" using ops_return(3) [OF taskIn] by blast
    then have "retryLoop env task key baseArgs rep retry rl = Some (Returned ErrCanceled s')"
      using a(1) cancel by (subst retryLoop.simps) simp
    moreover have "srvKeeps task s0 s'" using keeps stopRunningTest_keeps [OF s'] by (rule srvKeeps_trans)
    ultimately show ?thesis using cancel a(3) less.prems(3) unfolding retryExit_def by auto
  next
    case last
    have "taskIn task (rl_srv ?rl2)" "srvKeeps task s0 (rl_srv ?rl2)" using taskIn keeps by simp_all
    from giveUp_returns [OF this, of env e] obtain s' where
      s': "giveUp env task e ?rl2 = Some (Returned e s')" "committed env task False OutcomeFail s0 s'"
      "sv_testCache s' = sv_testCache (rl_srv rl1)" by auto
    have "retryLoop env task key baseArgs rep retry rl = Some (Returned e s')"
      using a(1) last s'(1) by (subst retryLoop.simps) simp
    moreover have "sv_testCache s' = sv_testCache s0" using s'(3) keeps by (simp add: srvKeeps_def)
    moreover have "retry = nat (maxRetries (re_fl env))" using last(3) by simp
    ultimately show ?thesis using last(1,2) a(3) s'(2) unfolding retryExit_def
      by (auto simp: failedBetween_def le_less_Suc_eq)
  next
    case again
    have lt: "int retry < maxRetries (re_fl env)" using again(3) less.prems(3) by simp
    have "srvKeeps task s0 (rl_srv ?rl2)" using keeps by simp
    with less.hyps [of "Suc retry" ?rl2] lt less.prems(2) obtain x where
      x: "retryLoop env task key baseArgs rep (Suc retry) ?rl2 = Some x"
      "retryExit env s0 task key baseArgs rep (Suc retry) ?rl2 x" by auto
    have "retryLoop env task key baseArgs rep retry rl = Some x"
      using a(1) again x(1) by (subst retryLoop.simps) simp
    moreover have "retryExit env s0 task key baseArgs rep retry rl x"
      by (rule retryExit_later [OF _ again(2) lt _ _ _ _ x(2)]) (use again(1,2) a in simp_all)
    ultimately show ?thesis by blast
  qed
qed

section \<open>All repetitions\<close>

definition passesRep :: "runEnv \<Rightarrow> Server \<Rightarrow> testTask \<Rightarrow> testCacheKey \<Rightarrow> string list \<Rightarrow> nat \<Rightarrow> bool" where
  "passesRep env s0 task key baseArgs rep \<longleftrightarrow>
     (\<exists>n. int n \<le> maxRetries (re_fl env) \<and> attemptErr env s0 task key baseArgs rep n = None
        \<and> failedBetween env s0 task key baseArgs rep 0 n)"

definition repExit :: "runEnv \<Rightarrow> Server \<Rightarrow> testTask \<Rightarrow> testCacheKey \<Rightarrow> string list \<Rightarrow> nat list \<Rightarrow> runLoop \<Rightarrow> loopExit \<Rightarrow> bool" where
  "repExit env s0 task key baseArgs reps rl x =
     (case x of
        Broke rl' \<Rightarrow>
          (\<forall>rep \<in> set reps. passesRep env s0 task key baseArgs rep) \<and> srvKeeps task s0 (rl_srv rl')
          \<and> (reps = [] \<longrightarrow> rl' = rl) \<and> sv_canceled (rl_srv rl') = sv_canceled (rl_srv rl)
          \<and> (rl_failures rl' = [] \<longleftrightarrow> rl_failures rl = []
               \<and> (\<forall>rep \<in> set reps. attemptErr env s0 task key baseArgs rep 0 = None))
          \<and> rl_cacheDeps rl' = (if rl_failures rl' = [] \<and> testCount (re_fl env) = 1 \<and> reps \<noteq> []
                                then attemptDeps env s0 task key baseArgs (last reps) 0 else rl_cacheDeps rl')
          \<and> (testCount (re_fl env) \<noteq> 1 \<longrightarrow> rl_cacheDeps rl' = rl_cacheDeps rl)
      | Returned e s' \<Rightarrow>
          e = ErrCanceled \<and> srvKeeps task s0 s'
            \<and> (\<exists>rep \<in> set reps. \<exists>n. attemptErr env s0 task key baseArgs rep n = Some ErrCanceled)
          \<or> e \<noteq> ErrCanceled \<and> committed env task False OutcomeFail s0 s' \<and> sv_testCache s' = sv_testCache s0
            \<and> (\<exists>rep \<in> set reps. failedBetween env s0 task key baseArgs rep 0 (Suc (nat (maxRetries (re_fl env))))))"

lemma repLoop_exit:
  assumes "srvKeeps task s0 (rl_srv rl)" and "taskIn task s0" and "0 \<le> maxRetries (re_fl env)"
  shows "\<exists>x. repLoop env task key baseArgs reps rl = Some x \<and> repExit env s0 task key baseArgs reps rl x"
  using assms(1)
proof (induction reps arbitrary: rl)
  case Nil
  then show ?case by (simp add: repExit_def)
next
  case (Cons rep reps)
  have "int 0 \<le> maxRetries (re_fl env)" using assms(3) by simp
  from retryLoop_exit [OF Cons.prems assms(2) this, of key baseArgs rep] obtain x where
    x: "retryLoop env task key baseArgs rep 0 rl = Some x" "retryExit env s0 task key baseArgs rep 0 rl x" by blast
  show ?case
  proof (cases x)
    case (Returned e s')
    with x show ?thesis by (fastforce simp: repExit_def retryExit_def)
  next
    case (Broke rl1)
    with x(2) obtain n where n: "int n \<le> maxRetries (re_fl env)" "attemptErr env s0 task key baseArgs rep n = None"
      "failedBetween env s0 task key baseArgs rep 0 n" "length (rl_failures rl1) = length (rl_failures rl) + n"
      "rl_cacheDeps rl1 = (if rl_failures rl1 = [] \<and> testCount (re_fl env) = 1
          then attemptDeps env s0 task key baseArgs rep n else rl_cacheDeps rl)"
      "srvKeeps task s0 (rl_srv rl1)" "sv_canceled (rl_srv rl1) = sv_canceled (rl_srv rl)"
      by (auto simp: retryExit_def)
    from Cons.IH [OF n(6)] obtain y where
      y: "repLoop env task key baseArgs reps rl1 = Some y" "repExit env s0 task key baseArgs reps rl1 y" by blast
    have "repExit env s0 task key baseArgs (rep # reps) rl y"
    proof (cases y)
      case (Returned e s')
      then show ?thesis using y(2) by (auto simp: repExit_def)
    next
      case (Broke rl2)
      have "passesRep env s0 task key baseArgs rep" using n by (auto simp: passesRep_def)
      moreover have "rl_failures rl1 = [] \<longleftrightarrow> n = 0 \<and> rl_failures rl = []" using n(4) by auto
      moreover have "n = 0 \<longleftrightarrow> attemptErr env s0 task key baseArgs rep 0 = None"
        using n(2,3) by (cases n) (auto simp: failedBetween_def)
      moreover have "reps = [] \<Longrightarrow> rl2 = rl1" using y(1) Broke by simp
      ultimately show ?thesis using y(2) n(2,5,7) Broke by (cases "reps = []") (auto simp: repExit_def)
    qed
    with x(1) Broke y(1) show ?thesis by simp
  qed
qed

section \<open>The exits of a test\<close>

lemma committed_cong:
  assumes "sv_history s = sv_history s0" "sv_captureHistory s = sv_captureHistory s0"
    "sv_historyPending s = sv_historyPending s0" "sv_profile s = sv_profile s0"
    "\<And>p t. (p, t) \<noteq> task_id task \<Longrightarrow> testOf s p t = testOf s0 p t"
    and "committed env task passed outcome s s'"
  shows "committed env task passed outcome s0 s'"
proof -
  have "taskHistKey (re_pf env) (re_fl env) s task = taskHistKey (re_pf env) (re_fl env) s0 task"
    using assms(4) by (simp add: taskHistKey_def)
  with assms show ?thesis unfolding committed_def by (simp split: if_splits)
qed

lemma committed_keeps:
  assumes "srvKeeps task s0 s" and "committed env task passed outcome s s'"
  shows "committed env task passed outcome s0 s'"
  by (rule committed_cong [OF _ _ _ _ _ assms(2)]) (use assms(1) in \<open>simp_all add: srvKeeps_def\<close>)

lemma setDebugSeedError_frame [frame_simps]:
  "sv_pkgs (setDebugSeedError h key r s) = sv_pkgs s" "sv_history (setDebugSeedError h key r s) = sv_history s"
  "sv_captureHistory (setDebugSeedError h key r s) = sv_captureHistory s"
  "sv_historyPending (setDebugSeedError h key r s) = sv_historyPending s"
  "sv_profile (setDebugSeedError h key r s) = sv_profile s"
  "sv_testCache (setDebugSeedError h key r s) = sv_testCache s"
  by (simp_all add: setDebugSeedError_def)

lemma storeResult_frame:
  "sv_pkgs (storeResult env key rl s) = sv_pkgs s" "sv_history (storeResult env key rl s) = sv_history s"
  "sv_captureHistory (storeResult env key rl s) = sv_captureHistory s"
  "sv_historyPending (storeResult env key rl s) = sv_historyPending s"
  "sv_profile (storeResult env key rl s) = sv_profile s"
  by (auto simp: storeResult_def frame_simps split: option.splits prod.splits)

lemma passTest_returns:
  assumes "srvKeeps task s0 (rl_srv rl)" and "taskIn task s0"
  shows "\<exists>s'. passTest env task key rl = Some s'
    \<and> committed env task True (if rl_failures rl \<noteq> [] then OutcomeFlaky else OutcomePass) s0 s'
    \<and> sv_testCache s' = sv_testCache (storeResult env key rl (rl_srv rl))"
proof -
  let ?s = "storeResult env key rl (rl_srv rl)"
  let ?o = "if rl_failures rl \<noteq> [] then OutcomeFlaky else OutcomePass"
  have testOf: "testOf ?s p t = testOf (rl_srv rl) p t" for p t by (simp add: testOf_def storeResult_frame)
  have "taskIn task ?s" using srvKeeps_taskIn [OF assms(1)] assms(2) testOf by (simp add: taskIn_def)
  then obtain s1 s2 where
    "finishTestLocked (re_now env) task True (rl_total rl) (rl_failures rl) None False ?s = Some s1"
    "recordHistory (re_h env) (re_pf env) (re_fl env) (re_now env) (re_obsID env) task ?o (rl_total rl)
       (rl_attempts rl) (completeHistoryDeps (rl_historyDeps rl) (rl_complete rl)) s1 = Some s2"
    and c: "committed env task True ?o ?s s2" and "sv_testCache s2 = sv_testCache ?s"
    by (rule finish_and_record [OF _ srvKeeps_refl])
  then have "passTest env task key rl = Some s2 \<and> sv_testCache s2 = sv_testCache ?s" by (simp add: passTest_def)
  moreover have "committed env task True ?o (rl_srv rl) s2"
    by (rule committed_cong [OF _ _ _ _ _ c]) (simp_all add: storeResult_frame testOf)
  ultimately show ?thesis using committed_keeps [OF assms(1)] by blast
qed

lemma cachedResult_keeps: "cachedResult env key s = (r, s') \<Longrightarrow> srvKeeps task s s'"
  by (auto simp: cachedResult_def Let_def split: option.splits prod.splits if_splits sum.splits)

text \<open>
  The exits of \<open>runTest\<close> for a known task: a valid cached result, a cancellation, or a run of all
  repetitions; attempts are described in the state the call started in.
\<close>

definition ranAll :: "runEnv \<Rightarrow> testTask \<Rightarrow> Server \<Rightarrow> testErr option \<Rightarrow> Server \<Rightarrow> bool" where
  "ranAll env task s res s' \<longleftrightarrow>
     (let key = cacheKeyForTask (re_fl env) (sv_profile s) task;
          args = effectiveTestArgs (re_fl env) task (sv_profile s);
          reps = [0..<nat (testCount (re_fl env))]
      in case res of
           None \<Rightarrow>
             (\<forall>rep \<in> set reps. passesRep env s task key args rep)
             \<and> (\<exists>rl. srvKeeps task s (rl_srv rl) \<and> \<not> sv_canceled (rl_srv rl)
                  \<and> (rl_failures rl = [] \<longleftrightarrow> (\<forall>rep \<in> set reps. attemptErr env s task key args rep 0 = None))
                  \<and> (rl_cacheDeps rl \<noteq> None \<longrightarrow> testCount (re_fl env) = 1)
                  \<and> (testCount (re_fl env) = 1 \<longrightarrow> rl_failures rl = []
                       \<longrightarrow> rl_cacheDeps rl = attemptDeps env s task key args 0 0)
                  \<and> committed env task True (if rl_failures rl \<noteq> [] then OutcomeFlaky else OutcomePass) s s'
                  \<and> sv_testCache s' = sv_testCache (storeResult env key rl (rl_srv rl)))
         | Some e \<Rightarrow>
             sv_testCache s' = sv_testCache s
             \<and> (e = ErrCanceled \<and> (\<exists>rep \<in> set reps. \<exists>n. attemptErr env s task key args rep n = Some ErrCanceled)
                \<or> e \<noteq> ErrCanceled \<and> committed env task False OutcomeFail s s'
                  \<and> (\<exists>rep \<in> set reps. failedBetween env s task key args rep 0 (Suc (nat (maxRetries (re_fl env)))))))"

lemma ball_upt: "(\<forall>x \<in> set [0..<n]. P x) \<longleftrightarrow> (\<forall>x < n. P x)"
  by auto

lemma ranAll_None:
  assumes "ranAll env task s None s'"
  defines "key \<equiv> cacheKeyForTask (re_fl env) (sv_profile s) task"
    and "args \<equiv> effectiveTestArgs (re_fl env) task (sv_profile s)"
    and "reps \<equiv> nat (testCount (re_fl env))"
  obtains rl where "\<forall>rep < reps. passesRep env s task key args rep" "srvKeeps task s (rl_srv rl)" "\<not> sv_canceled (rl_srv rl)"
    "rl_failures rl = [] \<longleftrightarrow> (\<forall>rep < reps. attemptErr env s task key args rep 0 = None)"
    "rl_cacheDeps rl \<noteq> None \<longrightarrow> testCount (re_fl env) = 1"
    "testCount (re_fl env) = 1 \<longrightarrow> rl_failures rl = [] \<longrightarrow> rl_cacheDeps rl = attemptDeps env s task key args 0 0"
    "committed env task True (if rl_failures rl \<noteq> [] then OutcomeFlaky else OutcomePass) s s'"
    "sv_testCache s' = sv_testCache (storeResult env key rl (rl_srv rl))"
proof -
  have "(\<forall>rep < reps. passesRep env s task key args rep) \<and> (\<exists>rl. srvKeeps task s (rl_srv rl) \<and> \<not> sv_canceled (rl_srv rl)
    \<and> (rl_failures rl = [] \<longleftrightarrow> (\<forall>rep < reps. attemptErr env s task key args rep 0 = None))
    \<and> (rl_cacheDeps rl \<noteq> None \<longrightarrow> testCount (re_fl env) = 1)
    \<and> (testCount (re_fl env) = 1 \<longrightarrow> rl_failures rl = [] \<longrightarrow> rl_cacheDeps rl = attemptDeps env s task key args 0 0)
    \<and> committed env task True (if rl_failures rl \<noteq> [] then OutcomeFlaky else OutcomePass) s s'
    \<and> sv_testCache s' = sv_testCache (storeResult env key rl (rl_srv rl)))"
    using assms(1) unfolding ranAll_def Let_def key_def args_def reps_def option.case ball_upt .
  then show ?thesis using that by blast
qed

lemma runTest_exit:
  assumes "taskIn task s" and "0 \<le> maxRetries (re_fl env)" and "\<not> sv_canceled s"
    and "cachedResult env (cacheKeyForTask (re_fl env) (sv_profile s) task) s = (None, s1)" and "re_acquired env"
  shows "\<exists>res s'. runTest env task s = Some (res, s') \<and> ranAll env task s res s'"
proof -
  let ?key = "cacheKeyForTask (re_fl env) (sv_profile s) task"
  let ?args = "effectiveTestArgs (re_fl env) task (sv_profile s)"
  let ?reps = "[0..<nat (testCount (re_fl env))]"
  have s1: "srvKeeps task s s1" by (rule cachedResult_keeps [OF assms(4)])
  then have "taskIn task s1" using srvKeeps_taskIn assms(1) by blast
  then obtain s2 where s2: "startTest (re_now env) task s1 = Some s2" using ops_return(4) by blast
  have keeps: "srvKeeps task s s2" using s1 startTest_keeps [OF s2] by (rule srvKeeps_trans)
  have "\<not> sv_canceled s1" using assms(3,4) by (auto simp: cachedResult_def Let_def split: option.splits prod.splits if_splits sum.splits)
  then have nc: "\<not> sv_canceled (rl_srv (zeroLoop s2))" using ops_canceled(3) [OF s2] by (simp add: zeroLoop_def)
  have "srvKeeps task s (rl_srv (zeroLoop s2))" using keeps by (simp add: zeroLoop_def)
  from repLoop_exit [OF this assms(1,2), of ?key ?args ?reps] obtain x where
    x: "repLoop env task ?key ?args ?reps (zeroLoop s2) = Some x" "repExit env s task ?key ?args ?reps (zeroLoop s2) x"
    by blast
  show ?thesis
  proof (cases x)
    case (Returned e s3)
    then have "runTest env task s = Some (Some e, s3)" using assms(3-5) s2 x(1) by (simp add: runTest_def)
    moreover have "ranAll env task s (Some e) s3"
      using x(2) Returned by (auto simp: ranAll_def repExit_def Let_def srvKeeps_def)
    ultimately show ?thesis by blast
  next
    case (Broke rl)
    have keeps_rl: "srvKeeps task s (rl_srv rl)" using x(2) Broke by (simp add: repExit_def)
    from passTest_returns [OF this assms(1), of env ?key] obtain s' where
      s': "passTest env task ?key rl = Some s'"
      "committed env task True (if rl_failures rl \<noteq> [] then OutcomeFlaky else OutcomePass) s s'"
      "sv_testCache s' = sv_testCache (storeResult env ?key rl (rl_srv rl))" by blast
    have "runTest env task s = Some (None, s')" using assms(3-5) s2 x(1) Broke s'(1) by (simp add: runTest_def)
    moreover have "testCount (re_fl env) = 1 \<Longrightarrow> ?reps = [0]" by simp
    then have "ranAll env task s None s'"
      using x(2) Broke s'(2,3) keeps_rl nc
      unfolding ranAll_def repExit_def Let_def
      by (cases "rl_failures rl = []") (auto simp: zeroLoop_def intro!: exI [of _ rl])
    ultimately show ?thesis by blast
  qed
qed

lemma runTest_cached_exit:
  assumes "taskIn task s" and "\<not> sv_canceled s"
    and "cachedResult env (cacheKeyForTask (re_fl env) (sv_profile s) task) s = (Some entry, s1)"
  shows "\<exists>s' ts. runTest env task s = Some (None, s') \<and> testOf s' (task_pkg task) (task_test task) = Some ts
    \<and> ts_done ts \<and> ts_passed ts \<and> ts_cached ts \<and> sv_testCache s' = sv_testCache s
    \<and> sv_historyPending s' = sv_historyPending s"
proof -
  have s1: "srvKeeps task s s1" by (rule cachedResult_keeps [OF assms(3)])
  then have t1: "taskIn task s1" using srvKeeps_taskIn assms(1) by blast
  then obtain s' where s': "finishTestLocked (re_now env) task True (entry_PassedIn entry) [] None True s1 = Some s'"
    using ops_return(5) by blast
  obtain ts where "testOf s1 (task_pkg task) (task_test task) = Some ts" using t1 by (auto simp: taskIn_def)
  then have "testOf s' (task_pkg task) (task_test task) = Some (finishStatus (re_now env) True (entry_PassedIn entry) [] True ts)"
    using finish_keeps(2) [OF s'] by simp
  moreover have "runTest env task s = Some (None, s')" using assms(2,3) s' by (simp add: runTest_def)
  ultimately show ?thesis using finish_keeps(3,6) [OF s'] s1 by (auto simp: finishStatus_def srvKeeps_def)
qed

lemma passesRep_iff:
  assumes "\<forall>n. attemptErr env s task key args rep n \<noteq> Some ErrCanceled"
  shows "passesRep env s task key args rep \<longleftrightarrow>
    (\<exists>n. int n \<le> maxRetries (re_fl env) \<and> attemptErr env s task key args rep n = None)"
proof
  assume "\<exists>n. int n \<le> maxRetries (re_fl env) \<and> attemptErr env s task key args rep n = None"
  then obtain n0 where n0: "int n0 \<le> maxRetries (re_fl env)" "attemptErr env s task key args rep n0 = None" by blast
  define n where "n = (LEAST n. attemptErr env s task key args rep n = None)"
  have n: "attemptErr env s task key args rep n = None" "n \<le> n0"
    unfolding n_def using n0(2) by (auto intro: LeastI Least_le)
  have "failedBetween env s task key args rep 0 n"
    unfolding failedBetween_def using assms not_less_Least unfolding n_def by fastforce
  with n n0(1) show "passesRep env s task key args rep" unfolding passesRep_def by (auto intro!: exI [of _ n])
qed (auto simp: passesRep_def)

section \<open>A concrete environment for the examples\<close>

definition sampleRun :: "bool \<Rightarrow> procRun" where
  "sampleRun ok = \<lparr>run_dur = 1500000, run_writes = [''out''], run_err = (if ok then None else Some (ErrExit ''exit status 1'')),
     run_canceled = False, run_log = sampleLog, run_world = sampleWorld\<rparr>"

text \<open>A test that passes from its \<open>k\<close>-th retry on.\<close>

definition sampleEnv :: "nat \<Rightarrow> runEnv" where
  "sampleEnv k = \<lparr>re_h = sampleHashing, re_fl = sampleFlags, re_pf = samplePlatform, re_now = 50, re_obsID = ''id'',
     re_exec = (\<lambda>args rep retry. sampleRun (k \<le> retry)), re_world = sampleWorld, re_getFault = None, re_putFault = None,
     re_acquired = True\<rparr>"

definition rootTask :: testTask where
  "rootTask = \<lparr>task_bin = \<lparr>bin_pkg = ''m/p'', absBin = ''/t/ab12'', workDir = ''/m'', bin_args = []\<rparr>, task_test = ''TestA''\<rparr>"

lemma sample_taskIn: "taskIn rootTask sampleServer" "taskIn (sampleTask ''TestA'') sampleServer"
  by (simp_all add: taskIn_def testOf_def rootTask_def sampleTask_def sampleServer_def samplePackage_def testsOf_def)

lemma sample_env_simps [simp]:
  "0 \<le> maxRetries (re_fl (sampleEnv k))" "re_acquired (sampleEnv k)" "\<not> sv_canceled sampleServer"
  "testCount (re_fl (sampleEnv k)) = 1" "maxRetries (re_fl (sampleEnv k)) = 3"
  by (simp_all add: sampleEnv_def sampleFlags_def sampleServer_def)

lemma sample_miss: "fst (cachedResult (sampleEnv k) key sampleServer) = None"
  by (simp add: cachedResult_def sampleServer_def cacheGet_def sampleEnv_def)

lemma sample_attemptErr:
  "attemptErr (sampleEnv k) s task key args rep n = (if k \<le> n then None else Some (ErrExit ''exit status 1''))"
  by (simp add: attemptErr_def attemptRun_def sampleEnv_def sampleRun_def)

lemma sample_attemptDeps:
  "\<exists>deps. attemptDeps (sampleEnv k) sampleServer rootTask key args rep n = Some deps"
proof -
  obtain deps where deps: "parseTestLog sampleHashing sampleWorld sampleLog ''/m'' ''/m'' = Inr deps"
    using sample_records by (auto split: sum.splits)
  have "packageRoot sampleServer ''m/p'' = Some ''/m''"
    by (simp add: packageRoot_def sampleServer_def samplePackage_def newPackageStatus_def sampleGlp_def)
  then have "attemptDeps (sampleEnv k) sampleServer rootTask key args rep n = Some deps"
    using deps by (simp add: attemptDeps_def attemptRun_def sampleEnv_def sampleRun_def captureDeps_def rootTask_def
        sampleServer_def)
  then show ?thesis ..
qed

lemma sample_clean_run:
  "\<exists>s'. runTest (sampleEnv 0) rootTask sampleServer = Some (None, s') \<and> sv_testCache s' \<noteq> sv_testCache sampleServer"
proof -
  let ?key = "cacheKeyForTask (re_fl (sampleEnv 0)) (sv_profile sampleServer) rootTask"
  let ?args = "effectiveTestArgs (re_fl (sampleEnv 0)) rootTask (sv_profile sampleServer)"
  obtain s1 where "cachedResult (sampleEnv 0) ?key sampleServer = (None, s1)" using sample_miss by (metis prod.collapse)
  from runTest_exit [OF sample_taskIn(1) _ _ this] obtain res s' where
    r: "runTest (sampleEnv 0) rootTask sampleServer = Some (res, s')" "ranAll (sampleEnv 0) rootTask sampleServer res s'"
    by auto
  have "res = None"
    using r(2) by (force simp: ranAll_def Let_def sample_attemptErr failedBetween_def split: option.splits)
  with r(2) have R: "ranAll (sampleEnv 0) rootTask sampleServer None s'" by simp
  obtain deps where deps: "attemptDeps (sampleEnv 0) sampleServer rootTask ?key ?args 0 0 = Some deps"
    using sample_attemptDeps by blast
  show ?thesis
  proof (rule ranAll_None [OF R])
    fix rl
    assume keeps: "srvKeeps rootTask sampleServer (rl_srv rl)" and nc: "\<not> sv_canceled (rl_srv rl)"
      and f: "rl_failures rl = [] \<longleftrightarrow> (\<forall>rep < nat (testCount (re_fl (sampleEnv 0))). attemptErr (sampleEnv 0) sampleServer rootTask ?key ?args rep 0 = None)"
      and d: "testCount (re_fl (sampleEnv 0)) = 1 \<longrightarrow> rl_failures rl = [] \<longrightarrow> rl_cacheDeps rl = attemptDeps (sampleEnv 0) sampleServer rootTask ?key ?args 0 0"
      and st: "sv_testCache s' = sv_testCache (storeResult (sampleEnv 0) ?key rl (rl_srv rl))"
    have nf: "rl_failures rl = []" using f by (simp add: sample_attemptErr)
    then have cd: "rl_cacheDeps rl = Some deps" using d deps by simp
    have "sv_testCache (rl_srv rl) = Some (''/c'', [])" using keeps by (simp add: srvKeeps_def sampleServer_def)
    with nf cd nc have "sv_testCache s' \<noteq> Some (''/c'', [])"
      unfolding st by (simp add: storeResult_def cachePut_def sampleEnv_def)
    with r(1) \<open>res = None\<close> show ?thesis by (simp add: sampleServer_def)
  qed
qed

section \<open>Properties\<close>

text \<open>
  C8. Running a test always returns: for a known test and a non-negative \<open>-max-retries\<close>, \<open>runTest\<close>
  neither panics nor retries for ever, whatever the test binary, the cache and the operating
  system do.
\<close>

theorem runTest_returns:
  assumes "taskIn task s" and "0 \<le> maxRetries (re_fl env)"
  shows "\<exists>res s'. runTest env task s = Some (res, s')"
proof (cases "sv_canceled s")
  case True
  then show ?thesis by (simp add: runTest_def)
next
  case False
  let ?key = "cacheKeyForTask (re_fl env) (sv_profile s) task"
  obtain c s1 where c: "cachedResult env ?key s = (c, s1)" by fastforce
  show ?thesis
  proof (cases c)
    case (Some entry)
    with runTest_cached_exit [OF assms(1) False] c show ?thesis by blast
  next
    case None
    show ?thesis
    proof (cases "re_acquired env")
      case True
      with runTest_exit [OF assms False] None c show ?thesis by blast
    next
      case False
      then show ?thesis using \<open>\<not> sv_canceled s\<close> None c by (simp add: runTest_def)
    qed
  qed
qed

theorem runTest_returns_witness:
  "\<exists>res s'. runTest (sampleEnv 7) (sampleTask ''TestA'') sampleServer = Some (res, s')"
  by (rule runTest_returns [OF sample_taskIn(2)]) simp

text \<open>
  C1. The verdict on a test that is actually run: when nothing is cancelled and no valid cached
  result exists, \<open>runTest\<close> reports success exactly when in every one of the \<open>-count\<close> repetitions some
  attempt among the first and its \<open>-max-retries\<close> retries passes. It commits that verdict to the
  test's status, leaves every other test alone, and records one observation, which is a failure, a
  flaky pass (some first attempt failed) or a clean pass accordingly.
\<close>

theorem runTest_verdict:
  fixes env s task
  defines "key \<equiv> cacheKeyForTask (re_fl env) (sv_profile s) task"
    and "args \<equiv> effectiveTestArgs (re_fl env) task (sv_profile s)"
    and "reps \<equiv> nat (testCount (re_fl env))"
  assumes "taskIn task s" and "0 \<le> maxRetries (re_fl env)" and "\<not> sv_canceled s" and "re_acquired env"
    and "fst (cachedResult env key s) = None"
    and "\<forall>rep n. attemptErr env s task key args rep n \<noteq> Some ErrCanceled"
  shows "\<exists>res s'. runTest env task s = Some (res, s')
    \<and> (res = None \<longleftrightarrow> (\<forall>rep < reps. \<exists>n. int n \<le> maxRetries (re_fl env) \<and> attemptErr env s task key args rep n = None))
    \<and> committed env task (res = None)
        (if res \<noteq> None then OutcomeFail
         else if \<forall>rep < reps. attemptErr env s task key args rep 0 = None then OutcomePass else OutcomeFlaky) s s'"
proof -
  obtain s1 where "cachedResult env key s = (None, s1)" using assms(8) by (metis prod.collapse)
  from runTest_exit [OF assms(4-6) this [unfolded key_def] assms(7)] obtain res s' where
    r: "runTest env task s = Some (res, s')" "ranAll env task s res s'" by blast
  have iff: "passesRep env s task key args rep \<longleftrightarrow>
      (\<exists>n. int n \<le> maxRetries (re_fl env) \<and> attemptErr env s task key args rep n = None)" for rep
    by (rule passesRep_iff) (use assms(9) in blast)
  show ?thesis
  proof (cases res)
    case None
    with r(2) have R: "ranAll env task s None s'" by simp
    show ?thesis
    proof (rule ranAll_None [OF R, folded key_def args_def reps_def])
      fix rl
      assume "\<forall>rep < reps. passesRep env s task key args rep"
        and f: "rl_failures rl = [] \<longleftrightarrow> (\<forall>rep < reps. attemptErr env s task key args rep 0 = None)"
        and c: "committed env task True (if rl_failures rl \<noteq> [] then OutcomeFlaky else OutcomePass) s s'"
      then have "\<forall>rep < reps. \<exists>n. int n \<le> maxRetries (re_fl env) \<and> attemptErr env s task key args rep n = None"
        using iff by blast
      with r(1) None f c show ?thesis by (cases "rl_failures rl = []") auto
    qed
  next
    case (Some e)
    with r(2) assms(9) have "committed env task False OutcomeFail s s'"
      "\<exists>rep < reps. failedBetween env s task key args rep 0 (Suc (nat (maxRetries (re_fl env))))"
      by (auto simp: ranAll_def Let_def key_def args_def reps_def)
    moreover have "\<not> (\<forall>rep < reps. \<exists>n. int n \<le> maxRetries (re_fl env) \<and> attemptErr env s task key args rep n = None)"
    proof -
      from \<open>\<exists>rep < reps. failedBetween _ _ _ _ _ rep _ _\<close> obtain rep where
        rep: "rep < reps" "failedBetween env s task key args rep 0 (Suc (nat (maxRetries (re_fl env))))" by blast
      have "attemptErr env s task key args rep n \<noteq> None" if "int n \<le> maxRetries (re_fl env)" for n
        using rep(2) that assms(5) by (fastforce simp: failedBetween_def le_nat_iff)
      with rep(1) show ?thesis by blast
    qed
    ultimately show ?thesis using r(1) Some by auto
  qed
qed

theorem runTest_verdict_witness:
  "\<exists>s'. runTest (sampleEnv 2) (sampleTask ''TestA'') sampleServer = Some (None, s')
    \<and> committed (sampleEnv 2) (sampleTask ''TestA'') True OutcomeFlaky sampleServer s'"
proof -
  have two: "\<exists>n. int n \<le> 3 \<and> (if 2 \<le> n then None else Some (ErrExit ''exit status 1'')) = None"
    by (intro exI [of _ 2]) simp
  have "\<forall>rep n. attemptErr (sampleEnv 2) sampleServer task key args rep n \<noteq> Some ErrCanceled" for task key args
    by (simp add: sample_attemptErr)
  from runTest_verdict [OF sample_taskIn(2) sample_env_simps(1,3,2) sample_miss this]
  obtain res s' where r: "runTest (sampleEnv 2) (sampleTask ''TestA'') sampleServer = Some (res, s')"
    and v: "res = None" and c: "committed (sampleEnv 2) (sampleTask ''TestA'') True OutcomeFlaky sampleServer s'"
    unfolding sample_attemptErr sample_env_simps(4,5) using two by (auto split: if_splits)
  then show ?thesis by blast
qed

text \<open>
  C2. Only clean results are cached: \<open>runTest\<close> changes the result cache only when it reports
  success for a test run once (\<open>-count=1\<close>) whose very first attempt passed and whose inputs were
  captured, and then by storing exactly one entry, under the test's own key and with exactly those
  inputs.
\<close>

theorem runTest_caches_only_clean_passes:
  fixes env s task
  defines "key \<equiv> cacheKeyForTask (re_fl env) (sv_profile s) task"
    and "args \<equiv> effectiveTestArgs (re_fl env) task (sv_profile s)"
  assumes "taskIn task s" and "0 \<le> maxRetries (re_fl env)"
    and "runTest env task s = Some (res, s')" and "sv_testCache s' \<noteq> sv_testCache s"
  shows "res = None \<and> testCount (re_fl env) = 1 \<and> attemptErr env s task key args 0 0 = None
    \<and> (\<exists>dir fs deps entry. sv_testCache s = Some (dir, fs) \<and> attemptDeps env s task key args 0 0 = Some deps
         \<and> entry_Version entry = testCacheVersion \<and> entry_Key entry = key \<and> entry_Dependencies entry = deps
         \<and> sv_testCache s' = Some (dir, snd (cachePut (re_h env) dir False (re_putFault env) fs entry)))"
proof -
  have nc: "\<not> sv_canceled s" using assms(5,6) by (auto simp: runTest_def)
  obtain c s1 where c: "cachedResult env key s = (c, s1)" by fastforce
  have "c = None"
  proof (rule ccontr)
    assume "c \<noteq> None"
    then obtain entry where "cachedResult env (cacheKeyForTask (re_fl env) (sv_profile s) task) s = (Some entry, s1)"
      using c unfolding key_def by blast
    from runTest_cached_exit [OF assms(3) nc this] assms(5,6) show False by auto
  qed
  have acq: "re_acquired env"
  proof (rule ccontr)
    assume "\<not> re_acquired env"
    then have "s' = s1\<lparr>sv_canceled := True\<rparr>"
      using assms(5) nc c \<open>c = None\<close> by (simp add: runTest_def key_def Let_def)
    moreover have "sv_testCache s1 = sv_testCache s" using cachedResult_keeps [OF c, of task] by (simp add: srvKeeps_def)
    ultimately show False using assms(6) by simp
  qed
  from runTest_exit [OF assms(3,4) nc c [unfolded \<open>c = None\<close> key_def] acq] assms(5)
  have ran: "ranAll env task s res s'" by auto
  then have "res = None" using assms(6) by (auto simp: ranAll_def Let_def split: option.splits)
  with ran have R: "ranAll env task s None s'" by simp
  obtain rl where rl: "\<forall>rep < nat (testCount (re_fl env)). passesRep env s task key args rep" "srvKeeps task s (rl_srv rl)"
    "\<not> sv_canceled (rl_srv rl)"
    "rl_failures rl = [] \<longleftrightarrow> (\<forall>rep < nat (testCount (re_fl env)). attemptErr env s task key args rep 0 = None)"
    "rl_cacheDeps rl \<noteq> None \<longrightarrow> testCount (re_fl env) = 1"
    "testCount (re_fl env) = 1 \<longrightarrow> rl_failures rl = [] \<longrightarrow> rl_cacheDeps rl = attemptDeps env s task key args 0 0"
    "committed env task True (if rl_failures rl \<noteq> [] then OutcomeFlaky else OutcomePass) s s'"
    "sv_testCache s' = sv_testCache (storeResult env key rl (rl_srv rl))"
    by (rule ranAll_None [OF R, folded key_def args_def])
  have "sv_testCache (rl_srv rl) = sv_testCache s" using rl(2) by (simp add: srvKeeps_def)
  with rl(8) assms(6) obtain dir fs deps where
    st: "sv_testCache s = Some (dir, fs)" "rl_cacheDeps rl = Some deps" "rl_failures rl = []"
    by (cases "sv_testCache s"; cases "rl_cacheDeps rl") (auto simp: storeResult_def frame_simps split: if_splits)
  let ?entry = "\<lparr>entry_Version = testCacheVersion, entry_Key = key, entry_Created = re_now env,
    entry_PassedIn = rl_total rl, entry_Dependencies = deps\<rparr>"
  have "sv_testCache s' = Some (dir, snd (cachePut (re_h env) dir False (re_putFault env) fs ?entry))"
    using rl(3,8) st \<open>sv_testCache (rl_srv rl) = sv_testCache s\<close>
    by (auto simp: storeResult_def frame_simps split: prod.splits option.splits)
  moreover have "entry_Version ?entry = testCacheVersion \<and> entry_Key ?entry = key \<and> entry_Dependencies ?entry = deps" by simp
  moreover have "testCount (re_fl env) = 1" using rl(5) st(2) by simp
  moreover from this have "attemptErr env s task key args 0 0 = None" "attemptDeps env s task key args 0 0 = Some deps"
    using rl(4,6) st(2,3) by auto
  ultimately show ?thesis using \<open>res = None\<close> st(1) by blast
qed

theorem runTest_caches_only_clean_passes_witness:
  "\<exists>s'. runTest (sampleEnv 0) rootTask sampleServer = Some (None, s')
    \<and> (\<exists>dir fs entry. sv_testCache sampleServer = Some (dir, fs)
         \<and> entry_Key entry = cacheKeyForTask sampleFlags (sv_profile sampleServer) rootTask
         \<and> sv_testCache s' = Some (dir, snd (cachePut sampleHashing dir False None fs entry)))"
proof -
  obtain s' where s': "runTest (sampleEnv 0) rootTask sampleServer = Some (None, s')"
    "sv_testCache s' \<noteq> sv_testCache sampleServer" using sample_clean_run by blast
  from runTest_caches_only_clean_passes [OF sample_taskIn(1) _ s'] s'(1) show ?thesis
    by (auto simp: sampleEnv_def sampleFlags_def)
qed

end
