(* ===== verification/Fleet.thy ===== *)
theory Fleet
  imports Run_Test
begin

text \<open>
  \<open>distributed.go\<close>: the leader's state of a distributed run. Leases, workers and queued tasks are
  objects that point to each other; here a worker and a task are named by their position in
  \<open>workers\<close> and \<open>work\<close>, a lease by its ID, and \<open>f_heap\<close> holds the lease objects. The three maps
  \<open>leases\<close> of the fleet, the worker and the task are lists of IDs. Every operation of the leader
  holds \<open>Server.mu\<close>, so each is one step; \<open>None\<close> is a nil dereference.
\<close>

section \<open>State\<close>

record workLease =
  wl_id :: nat
  wl_work :: nat
  wl_worker :: nat
  wl_assigned :: time
  wl_started :: time
  wl_state :: string
  wl_cancel :: bool

record fleetWorker =
  fw_ID :: string
  fw_Name :: string
  fw_Slots :: int
  fw_Connected :: bool
  fw_LastSeen :: time
  fw_Joined :: time
  fw_Left :: time
  fw_Completed :: int
  fw_Cached :: int
  fw_Failed :: int
  fw_Duration :: duration
  fw_Error :: string
  fw_binaries :: "string list"
  fw_leases :: "nat list"

record fleetTask =
  ft_task :: testTask
  ft_estimate :: duration
  ft_done :: bool
  ft_leases :: "nat list"

text \<open>\<open>f_cancels\<close> are the leases whose local execution \<open>removeLeaseLocked\<close> cancelled.\<close>

record fleet =
  f_srv :: Server
  f_workers :: "fleetWorker list"
  f_work :: "fleetTask list"
  f_leases :: "nat list"
  f_heap :: "(nat, workLease) gomap"
  f_nextID :: nat
  f_ready :: bool
  f_stopped :: bool
  f_done :: nat
  f_infra :: "string list"
  f_wake :: bool
  f_cancels :: "nat list"

record workerWork =
  ww_Lease :: nat
  ww_Package :: string
  ww_Test :: string
  ww_Binary :: string
  ww_Args :: "string list"

record workerResult =
  wr_Lease :: nat
  wr_Passed :: bool
  wr_Cached :: bool
  wr_Duration :: duration
  wr_Attempts :: int
  wr_CacheChecks :: int
  wr_Failures :: "(duration \<times> string) list"
  wr_Attrs :: "(string, string) gomap"
  wr_History :: "Observation list"
  wr_Error :: string
  wr_Infra :: bool

record workerRequest =
  rq_Active :: "(nat, string) gomap"
  rq_Binaries :: "string list"
  rq_Results :: "workerResult list"

record workerResponse =
  rs_Work :: "workerWork list"
  rs_Cancel :: "nat list"
  rs_Done :: bool
  rs_Error :: string

definition workerBatchLimit :: int where "workerBatchLimit = 10"

definition workerBatchTarget :: duration where "workerBatchTarget = 3 * second"

definition newFleet :: "Server \<Rightarrow> fleet" where
  "newFleet s = \<lparr>f_srv = s, f_workers = [], f_work = [], f_leases = [], f_heap = [], f_nextID = 0, f_ready = False,
     f_stopped = False, f_done = 0, f_infra = [], f_wake = False, f_cancels = []\<rparr>"

definition notify :: "fleet \<Rightarrow> fleet" where
  "notify f = f\<lparr>f_wake := True\<rparr>"

abbreviation lease :: "fleet \<Rightarrow> nat \<Rightarrow> workLease" where
  "lease f i \<equiv> the (map_of (f_heap f) i)"

definition updWorker :: "nat \<Rightarrow> (fleetWorker \<Rightarrow> fleetWorker) \<Rightarrow> fleet \<Rightarrow> fleet" where
  "updWorker wi g f = f\<lparr>f_workers := (f_workers f)[wi := g (f_workers f ! wi)]\<rparr>"

definition updTask :: "nat \<Rightarrow> (fleetTask \<Rightarrow> fleetTask) \<Rightarrow> fleet \<Rightarrow> fleet" where
  "updTask ti g f = f\<lparr>f_work := (f_work f)[ti := g (f_work f ! ti)]\<rparr>"

section \<open>Workers\<close>

definition addWorker :: "time \<Rightarrow> string \<Rightarrow> int \<Rightarrow> bool \<Rightarrow> fleet \<Rightarrow> fleet" where
  "addWorker now name slots isLocal f =
     f\<lparr>f_workers := f_workers f @
       [\<lparr>fw_ID = (if isLocal then ''leader'' else ''h'' @ showNat (length (f_workers f) + 1)), fw_Name = name,
         fw_Slots = slots, fw_Connected = True, fw_LastSeen = now, fw_Joined = now, fw_Left = 0, fw_Completed = 0,
         fw_Cached = 0, fw_Failed = 0, fw_Duration = 0, fw_Error = [], fw_binaries = [], fw_leases = []\<rparr>]\<rparr>"

text \<open>The loop of \<open>updateRunningLocked\<close> over the leases of a task: \<open>running\<close> and \<open>started\<close>.\<close>

definition runningSince :: "workLease list \<Rightarrow> bool \<times> time" where
  "runningSince ls =
     foldl (\<lambda>(running, started) l.
              if wl_state l = ''running''
              then (True, if started = 0 \<or> wl_started l < started then wl_started l else started)
              else (running, started)) (False, 0) ls"

definition updateRunningLocked :: "time \<Rightarrow> nat \<Rightarrow> fleet \<Rightarrow> fleet option" where
  "updateRunningLocked now ti f =
     (let t = f_work f ! ti; s = f_srv f
      in case testOf s (task_pkg (ft_task t)) (task_test (ft_task t)) of
           None \<Rightarrow> None
         | Some ts \<Rightarrow>
             if ts_done ts then Some f
             else let (running, started) = runningSince (map (lease f) (ft_leases t))
                  in map_option (\<lambda>s'. f\<lparr>f_srv := s'\<rparr>)
                       (updTest (task_pkg (ft_task t)) (task_test (ft_task t))
                          (\<lambda>ts. ts\<lparr>ts_running := running, ts_started := started, ts_changed := now\<rparr>)
                          (\<lambda>ps. if running then ps\<lparr>ps_changed := now, ps_state := pkgStateTesting\<rparr> else ps\<lparr>ps_changed := now\<rparr>) s))"

definition removeLeaseLocked :: "time \<Rightarrow> nat \<Rightarrow> fleet \<Rightarrow> fleet option" where
  "removeLeaseLocked now i f =
     (let l = lease f i;
          f1 = f\<lparr>f_leases := removeAll i (f_leases f)\<rparr>;
          f2 = updWorker (wl_worker l) (\<lambda>w. w\<lparr>fw_leases := removeAll i (fw_leases w)\<rparr>) f1;
          f3 = updTask (wl_work l) (\<lambda>t. t\<lparr>ft_leases := removeAll i (ft_leases t)\<rparr>) f2;
          f4 = (if wl_cancel l then f3\<lparr>f_cancels := i # f_cancels f3\<rparr> else f3)
      in updateRunningLocked now (wl_work l) f4)"

definition disconnect :: "time \<Rightarrow> nat \<Rightarrow> string option \<Rightarrow> fleet \<Rightarrow> fleet option" where
  "disconnect now wi err f =
     (let f1 = updWorker wi (\<lambda>w. w\<lparr>fw_Connected := False, fw_Left := now,
                 fw_Error := (case err of Some e \<Rightarrow> e | None \<Rightarrow> fw_Error w)\<rparr>) f
      in map_option notify (foldO (removeLeaseLocked now) (fw_leases (f_workers f1 ! wi)) f1))"

section \<open>Assigning work\<close>

definition fresh :: "fleetTask \<Rightarrow> bool" where
  "fresh t \<longleftrightarrow> \<not> ft_done t \<and> ft_leases t = []"

definition affine :: "fleetWorker \<Rightarrow> fleetTask \<Rightarrow> fleetTask \<Rightarrow> bool" where
  "affine w first t \<longleftrightarrow> binHash (absBin (task_bin (ft_task t))) \<in> set (fw_binaries w)
     \<and> ft_estimate first - goDiv (ft_estimate first) 5 \<le> ft_estimate t"

text \<open>The first loop of \<open>nextLocked\<close>, with its variables \<open>first\<close> and \<open>window\<close>.\<close>

fun nextFresh :: "fleetWorker \<Rightarrow> (nat \<times> fleetTask) list \<Rightarrow> (nat \<times> fleetTask) option \<Rightarrow> nat \<Rightarrow> nat option" where
  "nextFresh w [] first window = map_option fst first"
| "nextFresh w ((i, t) # ts) first window =
     (if \<not> fresh t then nextFresh w ts first window
      else let first' = (case first of None \<Rightarrow> (i, t) | Some p \<Rightarrow> p)
           in if affine w (snd first') t then Some i
              else if Suc window = 5 then Some (fst first')
              else nextFresh w ts (Some first') (Suc window))"

definition overdue :: "fleet \<Rightarrow> nat \<Rightarrow> time \<Rightarrow> fleetTask \<Rightarrow> bool" where
  "overdue f wi now t \<longleftrightarrow> \<not> ft_done t \<and> length (ft_leases t) = 1
     \<and> list_ex (\<lambda>i. wl_worker (lease f i) \<noteq> wi
                 \<and> now - wl_assigned (lease f i) > max (10 * second) (3 * ft_estimate t)) (ft_leases t)"

definition nextLocked :: "nat \<Rightarrow> time \<Rightarrow> fleet \<Rightarrow> nat option" where
  "nextLocked wi now f =
     (case nextFresh (f_workers f ! wi) (List.enumerate 0 (f_work f)) None 0 of
        Some i \<Rightarrow> Some i
      | None \<Rightarrow> map_option fst (find (\<lambda>(i, t). overdue f wi now t) (List.enumerate 0 (f_work f))))"

text \<open>\<open>f.nextID++\<close> on a \<open>uint64\<close>.\<close>

definition nextLease :: "nat \<Rightarrow> nat" where
  "nextLease n = nat ((int n + 1) mod 2 ^ 64)"

definition leaseTo :: "nat \<Rightarrow> nat \<Rightarrow> time \<Rightarrow> fleet \<Rightarrow> nat \<times> fleet" where
  "leaseTo wi ti now f =
     (let i = nextLease (f_nextID f);
          l = \<lparr>wl_id = i, wl_work = ti, wl_worker = wi, wl_assigned = now, wl_started = 0, wl_state = ''queued'',
               wl_cancel = False\<rparr>;
          f1 = f\<lparr>f_nextID := i, f_heap := AList.update i l (f_heap f), f_leases := List.insert i (f_leases f)\<rparr>;
          f2 = updWorker wi (\<lambda>w. w\<lparr>fw_leases := List.insert i (fw_leases w)\<rparr>) f1;
          f3 = updTask ti (\<lambda>t. t\<lparr>ft_leases := List.insert i (ft_leases t)\<rparr>) f2
      in (i, f3))"

text \<open>The loop of \<open>assignLocked\<close>; its first argument is \<open>limit - len(batch)\<close>.\<close>

fun assignLoop :: "flags \<Rightarrow> nat \<Rightarrow> nat \<Rightarrow> time \<Rightarrow> duration \<Rightarrow> fleet \<Rightarrow> workerWork list \<times> fleet" where
  "assignLoop fl 0 wi now d f = ([], f)"
| "assignLoop fl (Suc n) wi now d f =
     (let w = f_workers f ! wi
      in if fw_Slots w \<le> int (length (fw_leases w)) \<and> workerBatchTarget * fw_Slots w \<le> d then ([], f)
         else case nextLocked wi now f of
                None \<Rightarrow> ([], f)
              | Some ti \<Rightarrow>
                  (let t = f_work f ! ti;
                       (i, f1) = leaseTo wi ti now f;
                       (batch, f2) = assignLoop fl n wi now (d + ft_estimate t) f1
                   in (\<lparr>ww_Lease = i, ww_Package = task_pkg (ft_task t), ww_Test = task_test (ft_task t),
                        ww_Binary = binHash (absBin (task_bin (ft_task t))),
                        ww_Args = effectiveTestArgs fl (ft_task t) (sv_profile (f_srv f))\<rparr> # batch, f2)))"

definition assignLocked :: "flags \<Rightarrow> nat \<Rightarrow> int \<Rightarrow> time \<Rightarrow> fleet \<Rightarrow> workerWork list \<times> fleet" where
  "assignLocked fl wi limit now f =
     (let w = f_workers f ! wi
      in if \<not> f_ready f \<or> f_stopped f \<or> sv_canceled (f_srv f) \<or> fw_Error w \<noteq> [] then ([], f)
         else assignLoop fl (nat limit) wi now
                (sum_list (map (\<lambda>i. ft_estimate (f_work f ! wl_work (lease f i))) (fw_leases w))) f)"

section \<open>Results\<close>

text \<open>The commitment of an accepted result, up to the release of the task's leases.\<close>

definition commitResult :: "platform \<Rightarrow> flags \<Rightarrow> time \<Rightarrow> nat \<Rightarrow> nat \<Rightarrow> workerResult \<Rightarrow> fleet \<Rightarrow> fleet option" where
  "commitResult pf fl now wi ti r f =
     (let t = f_work f ! ti; task = ft_task t;
          f1 = updTask ti (\<lambda>t. t\<lparr>ft_done := True\<rparr>) (f\<lparr>f_done := f_done f + 1\<rparr>);
          f2 = updWorker wi (\<lambda>w. w\<lparr>fw_Completed := fw_Completed w + 1, fw_Duration := fw_Duration w + wr_Duration r,
                 fw_Cached := fw_Cached w + (if wr_Cached r then 1 else 0),
                 fw_Failed := fw_Failed w + (if wr_Passed r then 0 else 1)\<rparr>) f1;
          f3 = (if wr_Infra r
                then f2\<lparr>f_infra := f_infra f2 @ [task_pkg task @ ''.'' @ task_test task @ '': '' @ wr_Error r]\<rparr> else f2);
          failures = map (\<lambda>(d, out). \<lparr>fail_dur = d, fail_out = out\<rparr>) (wr_Failures r)
      in case updTest (task_pkg task) (task_test task)
                (\<lambda>ts. ts\<lparr>ts_attempts := wr_Attempts r, ts_attrs := wr_Attrs r\<rparr>) id (f_srv f3) of
           None \<Rightarrow> None
         | Some s1 \<Rightarrow>
             (let s2 = s1\<lparr>sv_cacheChecks := sv_cacheChecks s1 + wr_CacheChecks r,
                          sv_cacheHits := sv_cacheHits s1 + (if wr_Cached r then 1 else 0),
                          sv_historyPending := sv_historyPending s1
                            @ map (\<lambda>ob. ob\<lparr>obs_Key := taskHistKey pf fl s1 task\<rparr>) (wr_History r)\<rparr>
              in map_option (\<lambda>s3. f3\<lparr>f_srv := s3\<rparr>)
                   (finishTestLocked now task (wr_Passed r) (wr_Duration r) failures
                      (if wr_Error r \<noteq> [] then Some (wr_Error r) else None) (wr_Cached r) s2)))"

definition accept :: "platform \<Rightarrow> flags \<Rightarrow> time \<Rightarrow> nat \<Rightarrow> workerResult \<Rightarrow> fleet \<Rightarrow> fleet option" where
  "accept pf fl now wi r f =
     (let w = f_workers f ! wi
      in if wr_Lease r \<notin> set (fw_leases w) \<or> ft_done (f_work f ! wl_work (lease f (wr_Lease r)))
            \<or> f_stopped f \<or> sv_canceled (f_srv f)
         then Some f
         else if wr_Infra r \<and> fw_ID w \<noteq> ''leader''
         then map_option notify
                (foldO (removeLeaseLocked now) (fw_leases w)
                   (updWorker wi (\<lambda>w. w\<lparr>fw_Error := (if wr_Error r = [] then ''helper execution error'' else wr_Error r)\<rparr>) f))
         else let ti = wl_work (lease f (wr_Lease r))
              in case commitResult pf fl now wi ti r f of
                   None \<Rightarrow> None
                 | Some f1 \<Rightarrow>
                     (case foldO (removeLeaseLocked now) (ft_leases (f_work f1 ! ti)) f1 of
                        None \<Rightarrow> None
                      | Some f2 \<Rightarrow>
                          Some (notify
                            (if failFast fl \<and> \<not> wr_Passed r
                             then f2\<lparr>f_srv := (f_srv f2)\<lparr>sv_failFastTriggered := True, sv_canceled := True\<rparr>\<rparr>
                             else f2))))"

section \<open>Exchanges with a helper\<close>

text \<open>One entry of \<open>req.Active\<close>; the IDs to cancel are collected in the first component.\<close>

definition reportActive :: "time \<Rightarrow> nat \<Rightarrow> nat \<times> string \<Rightarrow> nat list \<times> fleet \<Rightarrow> (nat list \<times> fleet) option" where
  "reportActive now wi entry acc =
     (let (i, state) = entry; (cancels, f) = acc
      in if i \<notin> set (fw_leases (f_workers f ! wi)) then Some (cancels @ [i], f)
         else if state \<notin> {''queued'', ''building'', ''running''} then Some (cancels, f)
         else let l = lease f i;
                  l' = l\<lparr>wl_started := (if state = ''running'' \<and> wl_started l = 0 then now else wl_started l),
                         wl_state := state\<rparr>
              in case updateRunningLocked now (wl_work l) (f\<lparr>f_heap := AList.update i l' (f_heap f)\<rparr>) of
                   None \<Rightarrow> None
                 | Some f1 \<Rightarrow>
                     (case map_of (sv_pkgs (f_srv f1)) (task_pkg (ft_task (f_work f ! wl_work l))) of
                        None \<Rightarrow> None
                      | Some ps \<Rightarrow>
                          Some (cancels, f1\<lparr>f_srv := (f_srv f1)\<lparr>sv_pkgs :=
                            AList.update (task_pkg (ft_task (f_work f ! wl_work l)))
                              (ps\<lparr>ps_state := pkgStateTesting, ps_changed := now\<rparr>) (sv_pkgs (f_srv f1))\<rparr>\<rparr>)))"

definition allFinished :: "fleet \<Rightarrow> bool" where
  "allFinished f \<longleftrightarrow> f_done f = length (f_work f)"

definition exchange :: "platform \<Rightarrow> flags \<Rightarrow> time \<Rightarrow> nat \<Rightarrow> workerRequest \<Rightarrow> fleet \<Rightarrow> (workerResponse \<times> fleet) option" where
  "exchange pf fl now wi req f =
     (case foldO (accept pf fl now wi) (rq_Results req) f of
        None \<Rightarrow> None
      | Some f1 \<Rightarrow>
          (let f2 = updWorker wi (\<lambda>w. w\<lparr>fw_LastSeen := now,
                      fw_binaries := fold List.insert (rq_Binaries req) (fw_binaries w)\<rparr>) f1
           in case foldO (reportActive now wi) (rq_Active req) ([], f2) of
                None \<Rightarrow> None
              | Some (cancels, f3) \<Rightarrow>
                  (let w = f_workers f3 ! wi;
                       isDone = (f_stopped f3 \<or> sv_canceled (f_srv f3) \<or> f_ready f3 \<and> allFinished f3);
                       (work, f4) =
                         (if \<not> isDone \<and> fw_Error w = []
                          then assignLocked fl wi
                                 (min workerBatchLimit (fw_Slots w + workerBatchLimit - int (length (fw_leases w)))) now f3
                          else ([], f3))
                   in Some (\<lparr>rs_Work = work, rs_Cancel = cancels, rs_Done = isDone, rs_Error = fw_Error w\<rparr>, f4))))"

section \<open>The run\<close>

text \<open>The part of \<open>run\<close> before its loop; \<open>wi\<close> is the local worker it has added.\<close>

definition compareEstimates :: "fleetTask \<Rightarrow> fleetTask \<Rightarrow> int" where
  "compareEstimates a b =
     (if ft_estimate b < ft_estimate a then -1 else if ft_estimate a < ft_estimate b then 1 else 0)"

definition estimateOf :: "Server \<Rightarrow> testTask \<Rightarrow> duration" where
  "estimateOf s task =
     (case map_of (sv_testEstimates s) (taskKey (task_pkg task) (task_test task)) of
        Some e \<Rightarrow> est_duration e | None \<Rightarrow> 0)"

definition startRun :: "flags \<Rightarrow> time \<Rightarrow> testTask list \<Rightarrow> fleet \<Rightarrow> fleet" where
  "startRun fl now tasks f0 =
     (let wi = length (f_workers f0);
          f = addWorker now ''local'' (jobs fl) True f0;
          work = SortFunc compareEstimates (f_work f @
                   map (\<lambda>task. \<lparr>ft_task = task, ft_estimate = estimateOf (f_srv f) task, ft_done = False, ft_leases = []\<rparr>) tasks);
          f1 = updWorker wi (\<lambda>w. w\<lparr>fw_binaries :=
                 fold (\<lambda>task. List.insert (binHash (absBin (task_bin task)))) tasks (fw_binaries w)\<rparr>) f
      in f1\<lparr>f_work := work, f_ready := True,
            f_srv := (f_srv f1)\<lparr>sv_testSchedule :=
              map (\<lambda>t. taskKey (task_pkg (ft_task t)) (task_test (ft_task t))) work\<rparr>\<rparr>)"

text \<open>The part after the loop: stop, release every lease, and report.\<close>

definition stopRun :: "time \<Rightarrow> fleet \<Rightarrow> fleet option" where
  "stopRun now f = foldO (removeLeaseLocked now) (f_leases f) (f\<lparr>f_stopped := True\<rparr>)"

datatype runError = RunInfra "string list" | RunFailed int | RunCanceled

definition runResult :: "fleet \<Rightarrow> runError option" where
  "runResult f =
     (if f_infra f \<noteq> [] then Some (RunInfra (f_infra f))
      else let failed = sum_list (map (\<lambda>(pkg, ps). ps_numFails ps) (sv_pkgs (f_srv f)))
           in if failed \<noteq> 0 then Some (RunFailed failed)
              else if sv_canceled (f_srv f) then Some RunCanceled else None)"

text \<open>One pass of \<open>localWorker\<close> up to the execution: the lease and task to execute, if there is one.\<close>

definition localAssign :: "flags \<Rightarrow> time \<Rightarrow> nat \<Rightarrow> fleet \<Rightarrow> ((nat \<times> testTask) option \<times> fleet) option" where
  "localAssign fl now wi f =
     (if f_stopped f \<or> sv_canceled (f_srv f) \<or> allFinished f then Some (None, f)
      else case assignLocked fl wi 1 now f of
             ([], f1) \<Rightarrow> Some (None, f1)
           | (b # _, f1) \<Rightarrow>
               (let l = lease f1 (ww_Lease b)
                in map_option (Pair (Some (wl_id l, ft_task (f_work f1 ! wl_work l))))
                     (updateRunningLocked now (wl_work l)
                        (f1\<lparr>f_heap := AList.update (ww_Lease b)
                            (l\<lparr>wl_cancel := True, wl_state := ''running'', wl_started := now\<rparr>) (f_heap f1)\<rparr>))))"

text \<open>
  \<open>executeIsolated\<close>: \<open>runTest\<close> on a server of its own, whose cache and profile are the parent's, and
  the result made from the status it leaves. \<open>mkdirErr\<close> is the error of \<open>os.MkdirTemp\<close>.
\<close>

definition isolatedServer :: "Server \<Rightarrow> gopath \<Rightarrow> gopath \<Rightarrow> bool \<Rightarrow> testTask \<Rightarrow> Server" where
  "isolatedServer parent dir root canceled task =
     \<lparr>sv_start = 0, sv_cacheDir = dir, sv_canceled = canceled, sv_profile = sv_profile parent,
      sv_tests = \<lparr>sel_unqualified = [], sel_qualified = []\<rparr>, sv_testCache = sv_testCache parent, sv_history = False,
      sv_captureHistory = (sv_history parent \<or> sv_captureHistory parent),
      sv_pkgs = [(task_pkg task,
        (newPackageStatus \<lparr>glp_Dir = [], glp_ImportPath = [], glp_Name = [], glp_TestGoFiles = [],
           glp_XTestGoFiles = [], glp_Root = root\<rparr> 0)\<lparr>ps_tests := Some [(task_test task, zeroTestStatus)]\<rparr>)],
      sv_pkgsWithTests = 0, sv_buildDepsTotal = 0, sv_buildDepsFresh = 0, sv_buildDepsCached = 0, sv_buildDepFresh = [],
      sv_buildDepCached = [], sv_buildActionToPkg = [], sv_actionMap = [], sv_phase = phaseDiscovering,
      sv_phaseStarts = [], sv_testsTotal = 0, sv_cacheChecks = 0, sv_cacheHits = 0, sv_failFastTriggered = False,
      sv_debugPass = 0, sv_debugMisses = 0, sv_debugSeedErrors = [], sv_historyLoaded = False, sv_histories = [],
      sv_historyPending = [], sv_testSchedule = [], sv_testEstimates = [], sv_testEstimateBase = 0,
      sv_testEstimateReady = False\<rparr>"

definition infraResult :: "string \<Rightarrow> workerResult" where
  "infraResult e = \<lparr>wr_Lease = 0, wr_Passed = False, wr_Cached = False, wr_Duration = 0, wr_Attempts = 0, wr_CacheChecks = 0,
     wr_Failures = [], wr_Attrs = [], wr_History = [], wr_Error = e, wr_Infra = True\<rparr>"

definition isExitError :: "testErr \<Rightarrow> bool" where
  "isExitError e = (case e of ErrExit _ \<Rightarrow> True | _ \<Rightarrow> False)"

definition isolatedResult :: "testTask \<Rightarrow> testErr option \<times> Server \<Rightarrow> workerResult option" where
  "isolatedResult task res =
     (case map_of (sv_pkgs (snd res)) (task_pkg task) of
        None \<Rightarrow> None
      | Some ps \<Rightarrow>
          (case map_of (testsOf ps) (task_test task) of
             None \<Rightarrow> None
           | Some ts \<Rightarrow>
               Some \<lparr>wr_Lease = 0, wr_Passed = ts_passed ts, wr_Cached = ts_cached ts, wr_Duration = ps_runIn ps,
                     wr_Attempts = ts_attempts ts, wr_CacheChecks = sv_cacheChecks (snd res),
                     wr_Failures = map (\<lambda>fail. (fail_dur fail, fail_out fail)) (ts_fails ts), wr_Attrs = ts_attrs ts,
                     wr_History = sv_historyPending (snd res),
                     wr_Error = (case fst res of None \<Rightarrow> [] | Some e \<Rightarrow> errText e),
                     wr_Infra = (case fst res of None \<Rightarrow> False | Some e \<Rightarrow> \<not> isExitError e)\<rparr>))"

definition executeIsolated :: "runEnv \<Rightarrow> string option \<Rightarrow> gopath \<Rightarrow> bool \<Rightarrow> Server \<Rightarrow> testTask \<Rightarrow> workerResult option" where
  "executeIsolated env mkdirErr dir canceled parent task =
     (case mkdirErr of
        Some e \<Rightarrow> Some (infraResult e)
      | None \<Rightarrow>
          (case packageRoot parent (task_pkg task) of
             None \<Rightarrow> None
           | Some root \<Rightarrow>
               (case runTest env task (isolatedServer parent dir root canceled task) of
                  None \<Rightarrow> None
                | Some res \<Rightarrow> isolatedResult task res)))"

lemma nextLease_Suc: "n + 1 < 2 ^ 64 \<Longrightarrow> nextLease n = n + 1"
  by (simp add: nextLease_def nat_add_distrib)

section \<open>What bookkeeping of leases keeps of the server\<close>

definition srvSim :: "Server \<Rightarrow> Server \<Rightarrow> bool" where
  "srvSim s s' \<longleftrightarrow>
     (\<forall>p t. map_option (\<lambda>ts. (ts_done ts, ts_passed ts)) (testOf s' p t) = map_option (\<lambda>ts. (ts_done ts, ts_passed ts)) (testOf s p t))
     \<and> (serverOK s \<longrightarrow> serverOK s') \<and> sv_canceled s' = sv_canceled s \<and> sv_historyPending s' = sv_historyPending s
     \<and> sv_profile s' = sv_profile s \<and> sv_cacheChecks s' = sv_cacheChecks s \<and> sv_cacheHits s' = sv_cacheHits s"

lemma srvSim_refl [simp]: "srvSim s s"
  by (simp add: srvSim_def)

lemma srvSim_trans: "srvSim s t \<Longrightarrow> srvSim t u \<Longrightarrow> srvSim s u"
  by (simp add: srvSim_def)

lemma srvSim_updTest:
  assumes "updTest pkg test f g s = Some s'" and "keepsTests g"
    and "\<And>ps. ps_numFails (g ps) = ps_numFails ps"
    and "\<And>ts. ts_done (f ts) = ts_done ts \<and> ts_passed (f ts) = ts_passed ts"
  shows "srvSim s s'"
proof -
  have frame: "sv_canceled s' = sv_canceled s \<and> sv_historyPending s' = sv_historyPending s
     \<and> sv_profile s' = sv_profile s \<and> sv_cacheChecks s' = sv_cacheChecks s \<and> sv_cacheHits s' = sv_cacheHits s"
    using updTest_pkgs [OF assms(1)] by auto
  have "map_option (\<lambda>ts. (ts_done ts, ts_passed ts)) (map_option f x) = map_option (\<lambda>ts. (ts_done ts, ts_passed ts)) x" for x
    using assms(4) by (cases x) auto
  then show ?thesis
    using frame testOf_updTest [OF assms(1,2)] serverOK_updTest_simple [OF _ assms(1,2), OF _ assms(3,4)]
    by (auto simp: srvSim_def)
qed

abbreviation taskOf :: "fleet \<Rightarrow> nat \<Rightarrow> testTask" where
  "taskOf f ti \<equiv> ft_task (f_work f ! ti)"

abbreviation statusOf :: "fleet \<Rightarrow> nat \<Rightarrow> testStatus option" where
  "statusOf f ti \<equiv> testOf (f_srv f) (task_pkg (taskOf f ti)) (task_test (taskOf f ti))"

lemma updateRunning_returns:
  assumes "statusOf f ti \<noteq> None"
  shows "\<exists>s'. updateRunningLocked now ti f = Some (f\<lparr>f_srv := s'\<rparr>) \<and> srvSim (f_srv f) s'"
proof -
  obtain ts where ts: "statusOf f ti = Some ts" using assms by blast
  obtain r st where rs: "runningSince (map (lease f) (ft_leases (f_work f ! ti))) = (r, st)" by fastforce
  let ?f = "\<lambda>ts. ts\<lparr>ts_running := r, ts_started := st, ts_changed := now\<rparr>"
  let ?g = "\<lambda>ps. if r then ps\<lparr>ps_changed := now, ps_state := pkgStateTesting\<rparr> else ps\<lparr>ps_changed := now\<rparr>"
  obtain s' where s': "updTest (task_pkg (taskOf f ti)) (task_test (taskOf f ti)) ?f ?g (f_srv f) = Some s'"
    using assms updTest_Some_iff by blast
  have "srvSim (f_srv f) s'" by (rule srvSim_updTest [OF s']) (simp_all add: keepsTests_def)
  moreover have "f\<lparr>f_srv := f_srv f\<rparr> = f" by simp
  ultimately show ?thesis
    using ts rs s' by (cases "ts_done ts") (auto simp: updateRunningLocked_def Let_def intro: exI [of _ "f_srv f"])
qed

section \<open>Consistency of leases\<close>

definition leasesOK :: "fleet \<Rightarrow> bool" where
  "leasesOK f \<longleftrightarrow> distinct (f_leases f)
     \<and> (\<forall>i \<in> set (f_leases f). i \<le> f_nextID f \<and> map_of (f_heap f) i \<noteq> None \<and> wl_id (lease f i) = i
          \<and> wl_worker (lease f i) < length (f_workers f) \<and> wl_work (lease f i) < length (f_work f))
     \<and> (\<forall>wi < length (f_workers f). distinct (fw_leases (f_workers f ! wi))
          \<and> set (fw_leases (f_workers f ! wi)) = {i \<in> set (f_leases f). wl_worker (lease f i) = wi})
     \<and> (\<forall>ti < length (f_work f). distinct (ft_leases (f_work f ! ti))
          \<and> set (ft_leases (f_work f ! ti)) = {i \<in> set (f_leases f). wl_work (lease f i) = ti})"

definition knownTasks :: "fleet \<Rightarrow> bool" where
  "knownTasks f \<longleftrightarrow> (\<forall>ti < length (f_work f). statusOf f ti \<noteq> None)"

text \<open>The fleet without the leases in a set.\<close>

definition dropLeases :: "nat set \<Rightarrow> fleet \<Rightarrow> fleet" where
  "dropLeases X f = f\<lparr>f_leases := filter (\<lambda>i. i \<notin> X) (f_leases f),
     f_workers := map (\<lambda>w. w\<lparr>fw_leases := filter (\<lambda>i. i \<notin> X) (fw_leases w)\<rparr>) (f_workers f),
     f_work := map (\<lambda>t. t\<lparr>ft_leases := filter (\<lambda>i. i \<notin> X) (ft_leases t)\<rparr>) (f_work f)\<rparr>"

lemma dropLeases_frame [simp]:
  "f_srv (dropLeases X f) = f_srv f" "f_heap (dropLeases X f) = f_heap f" "f_nextID (dropLeases X f) = f_nextID f"
  "f_ready (dropLeases X f) = f_ready f" "f_stopped (dropLeases X f) = f_stopped f" "f_done (dropLeases X f) = f_done f"
  "f_infra (dropLeases X f) = f_infra f" "length (f_workers (dropLeases X f)) = length (f_workers f)"
  "length (f_work (dropLeases X f)) = length (f_work f)" "f_leases (dropLeases X f) = filter (\<lambda>i. i \<notin> X) (f_leases f)"
  by (simp_all add: dropLeases_def)

lemma dropLeases_nth [simp]:
  "wi < length (f_workers f) \<Longrightarrow> f_workers (dropLeases X f) ! wi
    = (f_workers f ! wi)\<lparr>fw_leases := filter (\<lambda>i. i \<notin> X) (fw_leases (f_workers f ! wi))\<rparr>"
  "ti < length (f_work f) \<Longrightarrow> f_work (dropLeases X f) ! ti
    = (f_work f ! ti)\<lparr>ft_leases := filter (\<lambda>i. i \<notin> X) (ft_leases (f_work f ! ti))\<rparr>"
  by (simp_all add: dropLeases_def)

lemma leasesOK_drop: "leasesOK f \<Longrightarrow> leasesOK (dropLeases X f)"
  by (auto simp: leasesOK_def)

lemma leasesOK_cong:
  assumes "leasesOK f" and "f_leases f' = f_leases f" and "f_nextID f \<le> f_nextID f'" and "f_heap f' = f_heap f"
    and "map fw_leases (f_workers f') = map fw_leases (f_workers f)"
    and "map ft_leases (f_work f') = map ft_leases (f_work f)"
  shows "leasesOK f'"
proof -
  have len: "length (f_workers f') = length (f_workers f)" "length (f_work f') = length (f_work f)"
    using assms(5,6) by (metis length_map)+
  have nth: "wi < length (f_workers f) \<Longrightarrow> fw_leases (f_workers f' ! wi) = fw_leases (f_workers f ! wi)"
    "ti < length (f_work f) \<Longrightarrow> ft_leases (f_work f' ! ti) = ft_leases (f_work f ! ti)" for wi ti
    using assms(5,6) len by (metis nth_map)+
  show ?thesis using assms(1-4) by (auto simp: leasesOK_def len nth)
qed

lemma dropLeases_srv: "dropLeases X (f\<lparr>f_srv := s\<rparr>) = (dropLeases X f)\<lparr>f_srv := s\<rparr>"
  "dropLeases X (f\<lparr>f_cancels := c\<rparr>) = (dropLeases X f)\<lparr>f_cancels := c\<rparr>"
  "dropLeases X (dropLeases Y f) = dropLeases (X \<union> Y) f"
  by (simp_all add: dropLeases_def comp_def conj_commute)

lemma removeLease_returns:
  assumes "leasesOK f" and "i \<in> set (f_leases f)" and "knownTasks f"
  shows "\<exists>s' c. removeLeaseLocked now i f = Some ((dropLeases {i} f)\<lparr>f_srv := s', f_cancels := c\<rparr>) \<and> srvSim (f_srv f) s'"
proof -
  let ?l = "lease f i"
  have l: "wl_worker ?l < length (f_workers f)" "wl_work ?l < length (f_work f)"
    using assms(1,2) by (auto simp: leasesOK_def)
  have w: "i \<in> set (fw_leases (f_workers f ! wi)) \<longleftrightarrow> wi = wl_worker ?l" if "wi < length (f_workers f)" for wi
    using assms(1,2) that by (auto simp: leasesOK_def)
  have t: "i \<in> set (ft_leases (f_work f ! ti)) \<longleftrightarrow> ti = wl_work ?l" if "ti < length (f_work f)" for ti
    using assms(1,2) that by (auto simp: leasesOK_def)
  have filt: "filter (\<lambda>j. j \<noteq> i) xs = removeAll i xs" for xs by (induction xs) auto
  have fw: "(f_workers f)[wl_worker ?l := (f_workers f ! wl_worker ?l)\<lparr>fw_leases := removeAll i (fw_leases (f_workers f ! wl_worker ?l))\<rparr>]
      = f_workers (dropLeases {i} f)"
  proof (rule nth_equalityI)
    fix wi assume "wi < length ((f_workers f)[wl_worker ?l := (f_workers f ! wl_worker ?l)\<lparr>fw_leases := removeAll i (fw_leases (f_workers f ! wl_worker ?l))\<rparr>])"
    then show "(f_workers f)[wl_worker ?l := (f_workers f ! wl_worker ?l)\<lparr>fw_leases := removeAll i (fw_leases (f_workers f ! wl_worker ?l))\<rparr>] ! wi
        = f_workers (dropLeases {i} f) ! wi"
      using w by (cases "wi = wl_worker ?l") (simp_all add: filt removeAll_id)
  qed simp
  have ft: "(f_work f)[wl_work ?l := (f_work f ! wl_work ?l)\<lparr>ft_leases := removeAll i (ft_leases (f_work f ! wl_work ?l))\<rparr>]
      = f_work (dropLeases {i} f)"
  proof (rule nth_equalityI)
    fix ti assume "ti < length ((f_work f)[wl_work ?l := (f_work f ! wl_work ?l)\<lparr>ft_leases := removeAll i (ft_leases (f_work f ! wl_work ?l))\<rparr>])"
    then show "(f_work f)[wl_work ?l := (f_work f ! wl_work ?l)\<lparr>ft_leases := removeAll i (ft_leases (f_work f ! wl_work ?l))\<rparr>] ! ti
        = f_work (dropLeases {i} f) ! ti"
      using t by (cases "ti = wl_work ?l") (simp_all add: filt removeAll_id)
  qed simp
  define f4 where "f4 = (dropLeases {i} f)\<lparr>f_cancels := (if wl_cancel ?l then i # f_cancels f else f_cancels f)\<rparr>"
  have f4: "removeLeaseLocked now i f = updateRunningLocked now (wl_work ?l) f4"
    unfolding removeLeaseLocked_def updWorker_def updTask_def Let_def f4_def
    using fw ft by (simp add: dropLeases_def filt)
  have "statusOf f4 (wl_work ?l) = statusOf f (wl_work ?l)" using l(2) by (simp add: f4_def)
  with assms(3) l(2) have "statusOf f4 (wl_work ?l) \<noteq> None" by (simp add: knownTasks_def)
  from updateRunning_returns [OF this, of now] obtain s' where
    s': "updateRunningLocked now (wl_work ?l) f4 = Some (f4\<lparr>f_srv := s'\<rparr>)" "srvSim (f_srv f4) s'" by blast
  have e: "f4\<lparr>f_srv := s'\<rparr> = (dropLeases {i} f)\<lparr>f_srv := s', f_cancels := (if wl_cancel ?l then i # f_cancels f else f_cancels f)\<rparr>"
    by (simp add: f4_def)
  have "srvSim (f_srv f) s'" using s'(2) by (simp add: f4_def)
  with trans [OF f4 s'(1) [unfolded e]] show ?thesis by blast
qed

lemma srvSim_testOf: "srvSim s s' \<Longrightarrow> testOf s' p t = None \<longleftrightarrow> testOf s p t = None"
proof -
  assume "srvSim s s'"
  then have "map_option (\<lambda>ts. (ts_done ts, ts_passed ts)) (testOf s' p t)
      = map_option (\<lambda>ts. (ts_done ts, ts_passed ts)) (testOf s p t)"
    by (simp add: srvSim_def)
  then show ?thesis by (cases "testOf s' p t"; cases "testOf s p t") simp_all
qed

lemma srvSim_done:
  "srvSim s s' \<Longrightarrow> map_option ts_done (testOf s' p t) = map_option ts_done (testOf s p t)"
proof -
  assume "srvSim s s'"
  then have "map_option fst (map_option (\<lambda>ts. (ts_done ts, ts_passed ts)) (testOf s' p t))
      = map_option fst (map_option (\<lambda>ts. (ts_done ts, ts_passed ts)) (testOf s p t))"
    by (simp add: srvSim_def)
  then show ?thesis by (simp add: option.map_comp comp_def)
qed

lemma knownTasks_drop:
  assumes "knownTasks f" and "srvSim (f_srv f) s'"
  shows "knownTasks ((dropLeases X f)\<lparr>f_srv := s', f_cancels := c\<rparr>)"
  using assms srvSim_testOf [OF assms(2)] by (simp add: knownTasks_def)

lemma leasesOK_srv [simp]:
  "leasesOK (f\<lparr>f_srv := s\<rparr>) = leasesOK f" "leasesOK (f\<lparr>f_cancels := c\<rparr>) = leasesOK f"
  "leasesOK (f\<lparr>f_wake := b\<rparr>) = leasesOK f" "leasesOK (f\<lparr>f_infra := e\<rparr>) = leasesOK f"
  "leasesOK (f\<lparr>f_done := n\<rparr>) = leasesOK f" "leasesOK (f\<lparr>f_stopped := b\<rparr>) = leasesOK f"
  by (simp_all add: leasesOK_def)

lemma removeLeases_return:
  assumes "leasesOK f" and "knownTasks f" and "set xs \<subseteq> set (f_leases f)" and "distinct xs"
  shows "\<exists>s' c. foldO (removeLeaseLocked now) xs f = Some ((dropLeases (set xs) f)\<lparr>f_srv := s', f_cancels := c\<rparr>)
    \<and> srvSim (f_srv f) s'"
  using assms
proof (induction xs arbitrary: f)
  case Nil
  have "dropLeases {} f = f" by (simp add: dropLeases_def)
  then show ?case by (auto intro!: exI [of _ "f_srv f"] exI [of _ "f_cancels f"])
next
  case (Cons x xs)
  from removeLease_returns [OF Cons.prems(1) _ Cons.prems(2), of x now] Cons.prems(3) obtain s1 c1 where
    f1: "removeLeaseLocked now x f = Some ((dropLeases {x} f)\<lparr>f_srv := s1, f_cancels := c1\<rparr>)" "srvSim (f_srv f) s1"
    by auto
  let ?f1 = "(dropLeases {x} f)\<lparr>f_srv := s1, f_cancels := c1\<rparr>"
  have "leasesOK ?f1" using leasesOK_drop [OF Cons.prems(1)] by simp
  moreover have "knownTasks ?f1" by (rule knownTasks_drop [OF Cons.prems(2) f1(2)])
  moreover have "set xs \<subseteq> set (f_leases ?f1)" "distinct xs" using Cons.prems(3,4) by auto
  note Cons.IH [OF _ _ this]
  ultimately obtain s2 c2 where
    f2: "foldO (removeLeaseLocked now) xs ?f1 = Some ((dropLeases (set xs) ?f1)\<lparr>f_srv := s2, f_cancels := c2\<rparr>)"
    "srvSim (f_srv ?f1) s2" by blast
  have e: "(dropLeases (set xs) ?f1)\<lparr>f_srv := s2, f_cancels := c2\<rparr> = (dropLeases (set (x # xs)) f)\<lparr>f_srv := s2, f_cancels := c2\<rparr>"
    by (simp add: dropLeases_srv)
  have "srvSim (f_srv f) s2" using f1(2) f2(2) by (auto intro: srvSim_trans)
  moreover have "foldO (removeLeaseLocked now) (x # xs) f = foldO (removeLeaseLocked now) xs ?f1" using f1(1) by simp
  note trans [OF this f2(1) [unfolded e]]
  ultimately show ?case by blast
qed

section \<open>The invariant\<close>

definition copiesOK :: "fleet \<Rightarrow> bool" where
  "copiesOK f \<longleftrightarrow> (\<forall>ti < length (f_work f). length (ft_leases (f_work f ! ti)) \<le> 2
     \<and> inj_on (\<lambda>i. wl_worker (lease f i)) (set (ft_leases (f_work f ! ti))))"

definition doneOK :: "fleet \<Rightarrow> bool" where
  "doneOK f \<longleftrightarrow> (\<forall>ti < length (f_work f). ft_done (f_work f ! ti) \<longrightarrow> ft_leases (f_work f ! ti) = [])"

definition statusOK :: "fleet \<Rightarrow> bool" where
  "statusOK f \<longleftrightarrow> (\<forall>ti < length (f_work f). map_option ts_done (statusOf f ti) = Some (ft_done (f_work f ! ti)))
     \<and> distinct (map (\<lambda>t. task_id (ft_task t)) (f_work f))
     \<and> f_done f = length (filter ft_done (f_work f)) \<and> serverOK (f_srv f)"

definition workersOK :: "fleet \<Rightarrow> bool" where
  "workersOK f \<longleftrightarrow> (\<forall>w \<in> set (f_workers f). fw_Error w \<noteq> [] \<or> \<not> fw_Connected w \<longrightarrow> fw_leases w = [])
     \<and> (f_stopped f \<longrightarrow> f_leases f = []) \<and> (\<not> f_ready f \<longrightarrow> f_work f = [])"

definition coreOK :: "fleet \<Rightarrow> bool" where
  "coreOK f \<longleftrightarrow> leasesOK f \<and> copiesOK f \<and> doneOK f \<and> statusOK f"

definition fleetOK :: "fleet \<Rightarrow> bool" where
  "fleetOK f \<longleftrightarrow> coreOK f \<and> workersOK f"

lemma statusOK_known: "statusOK f \<Longrightarrow> knownTasks f"
  by (auto simp: statusOK_def knownTasks_def)

lemma OK_frame [simp]:
  "copiesOK (f\<lparr>f_srv := s\<rparr>) = copiesOK f" "copiesOK (f\<lparr>f_cancels := c\<rparr>) = copiesOK f"
  "copiesOK (f\<lparr>f_wake := b\<rparr>) = copiesOK f" "copiesOK (f\<lparr>f_stopped := b\<rparr>) = copiesOK f"
  "doneOK (f\<lparr>f_srv := s\<rparr>) = doneOK f" "doneOK (f\<lparr>f_cancels := c\<rparr>) = doneOK f"
  "doneOK (f\<lparr>f_wake := b\<rparr>) = doneOK f" "doneOK (f\<lparr>f_stopped := b\<rparr>) = doneOK f"
  "workersOK (f\<lparr>f_srv := s\<rparr>) = workersOK f" "workersOK (f\<lparr>f_cancels := c\<rparr>) = workersOK f"
  "workersOK (f\<lparr>f_wake := b\<rparr>) = workersOK f"
  "statusOK (f\<lparr>f_cancels := c\<rparr>) = statusOK f"
  "statusOK (f\<lparr>f_wake := b\<rparr>) = statusOK f" "statusOK (f\<lparr>f_stopped := b\<rparr>) = statusOK f"
  by (simp_all add: copiesOK_def doneOK_def workersOK_def statusOK_def)

text \<open>Dropping leases keeps the invariant, with the server changed only in its bookkeeping.\<close>

lemma copiesOK_drop: "copiesOK f \<Longrightarrow> copiesOK (dropLeases X f)"
  unfolding copiesOK_def
  by (auto intro: inj_on_subset le_trans [OF length_filter_le])

lemma doneOK_drop: "doneOK f \<Longrightarrow> doneOK (dropLeases X f)"
  by (auto simp: doneOK_def)

lemma filter_done_drop: "length (filter ft_done (f_work (dropLeases X f))) = length (filter ft_done (f_work f))"
  by (simp add: dropLeases_def filter_map comp_def)

lemma ids_drop: "map (\<lambda>t. task_id (ft_task t)) (f_work (dropLeases X f)) = map (\<lambda>t. task_id (ft_task t)) (f_work f)"
  by (simp add: dropLeases_def comp_def)

lemma statusOK_srvSim: "statusOK f \<Longrightarrow> srvSim (f_srv f) s' \<Longrightarrow> statusOK (f\<lparr>f_srv := s'\<rparr>)"
  using srvSim_done [of "f_srv f" s'] unfolding statusOK_def srvSim_def by simp

lemma statusOK_drop: "statusOK f \<Longrightarrow> statusOK (dropLeases X f)"
  using filter_done_drop [of X f] ids_drop [of X f] unfolding statusOK_def by simp

lemma workersOK_drop: "workersOK f \<Longrightarrow> workersOK (dropLeases X f)"
  by (auto simp: workersOK_def dropLeases_def)

lemma coreOK_drop:
  assumes "coreOK f" and "srvSim (f_srv f) s'"
  shows "coreOK ((dropLeases X f)\<lparr>f_srv := s', f_cancels := c\<rparr>)"
  using assms statusOK_srvSim [OF statusOK_drop, of f X s']
  by (simp add: coreOK_def leasesOK_drop copiesOK_drop doneOK_drop)

end
