(* ===== verification/Fleet_Steps.thy ===== *)
theory Fleet_Steps
  imports Fleet
begin

text \<open>
  What the steps of the leader keep (\<open>distributed.go\<close>): adding a worker, releasing and giving leases,
  heartbeats, and the commitment of a result. Each group of lemmas says that the step does not
  panic, that it keeps the invariant of \<open>Fleet\<close>, and what it changes.
\<close>

section \<open>Workers\<close>

lemma statusOK_cong:
  assumes "statusOK f" and m: "map ft_task (f_work f') = map ft_task (f_work f)" "map ft_done (f_work f') = map ft_done (f_work f)"
    and "f_done f' = f_done f" and "f_srv f' = f_srv f"
  shows "statusOK f'"
proof -
  have len: "length (f_work f') = length (f_work f)" using m(1) by (metis length_map)
  have nth: "ft_task (f_work f' ! k) = ft_task (f_work f ! k)" "ft_done (f_work f' ! k) = ft_done (f_work f ! k)"
    if "k < length (f_work f)" for k
    using m that len by (metis nth_map)+
  have "length (filter ft_done ts) = length (filter id (map ft_done ts))" for ts by (induction ts) auto
  then have "length (filter ft_done (f_work f')) = length (filter ft_done (f_work f))" using m(2) by metis
  moreover have "map (\<lambda>t. task_id (ft_task t)) (f_work f') = map (\<lambda>t. task_id (ft_task t)) (f_work f)"
    using arg_cong [OF m(1), of "map task_id"] by (simp add: comp_def)
  ultimately show ?thesis using assms(1,4,5) nth unfolding statusOK_def len by simp
qed

lemma coreOK_workers:
  assumes "coreOK f" and "map fw_leases ws = map fw_leases (f_workers f)"
  shows "coreOK (f\<lparr>f_workers := ws\<rparr>)"
proof -
  have "leasesOK (f\<lparr>f_workers := ws\<rparr>)" using assms by - (rule leasesOK_cong [of f], simp_all add: coreOK_def)
  with assms(1) show ?thesis by (simp add: coreOK_def copiesOK_def doneOK_def statusOK_def)
qed

lemma map_list_update_same: "g (h (xs ! i)) = g (xs ! i) \<Longrightarrow> map g (xs[i := h (xs ! i)]) = map g xs"
  by (metis list_update_beyond list_update_id map_update not_le_imp_less nth_map)

lemma coreOK_updWorker:
  assumes "coreOK f" and "\<And>w. fw_leases (g w) = fw_leases w"
  shows "coreOK (updWorker wi g f)"
  unfolding updWorker_def by (rule coreOK_workers [OF assms(1)], rule map_list_update_same, rule assms(2))

lemma workersOK_updWorker:
  assumes "workersOK f" and "\<And>w. fw_leases (g w) = fw_leases w \<and> fw_Error (g w) = fw_Error w \<and> fw_Connected (g w) = fw_Connected w"
  shows "workersOK (updWorker wi g f)"
proof (cases "wi < length (f_workers f)")
  case True
  then have "f_workers f ! wi \<in> set (f_workers f)" by simp
  with assms show ?thesis
    unfolding workersOK_def updWorker_def by (auto dest!: set_update_subset_insert [THEN subsetD])
next
  case False
  with assms(1) show ?thesis by (simp add: updWorker_def list_update_beyond)
qed

lemma fleetOK_addWorker:
  assumes "fleetOK f"
  shows "fleetOK (addWorker now name slots isLocal f)"
proof -
  let ?f = "addWorker now name slots isLocal f"
  have same: "f_work ?f = f_work f" "f_leases ?f = f_leases f" "f_heap ?f = f_heap f" "f_srv ?f = f_srv f" "f_nextID ?f = f_nextID f"
    "f_stopped ?f = f_stopped f" "f_ready ?f = f_ready f" "f_done ?f = f_done f"
    "length (f_workers ?f) = Suc (length (f_workers f))"
    by (simp_all add: addWorker_def)
  have nth: "f_workers ?f ! wi = f_workers f ! wi" if "wi < length (f_workers f)" for wi
    using that by (simp add: addWorker_def nth_append)
  have last: "fw_leases (f_workers ?f ! length (f_workers f)) = []" by (simp add: addWorker_def)
  have "leasesOK ?f"
    using assms unfolding fleetOK_def coreOK_def leasesOK_def same less_Suc_eq
    by (auto simp: nth last)
  moreover have "workersOK ?f" using assms unfolding fleetOK_def workersOK_def same by (simp add: addWorker_def)
  moreover have "copiesOK ?f" "doneOK ?f" "statusOK ?f"
    using assms unfolding fleetOK_def coreOK_def copiesOK_def doneOK_def statusOK_def same by simp_all
  ultimately show ?thesis by (simp add: fleetOK_def coreOK_def)
qed

section \<open>Releasing\<close>

lemma release_worker:
  assumes "coreOK f" and "wi < length (f_workers f)"
  shows "\<exists>s' c. foldO (removeLeaseLocked now) (fw_leases (f_workers f ! wi)) f
      = Some ((dropLeases (set (fw_leases (f_workers f ! wi))) f)\<lparr>f_srv := s', f_cancels := c\<rparr>) \<and> srvSim (f_srv f) s'"
  using assms by (intro removeLeases_return) (auto simp: coreOK_def leasesOK_def statusOK_known)

lemma release_task:
  assumes "leasesOK f" and "statusOK f" and "ti < length (f_work f)"
  shows "\<exists>s' c. foldO (removeLeaseLocked now) (ft_leases (f_work f ! ti)) f
      = Some ((dropLeases (set (ft_leases (f_work f ! ti))) f)\<lparr>f_srv := s', f_cancels := c\<rparr>) \<and> srvSim (f_srv f) s'"
  using assms by (intro removeLeases_return) (auto simp: leasesOK_def statusOK_known)

lemma release_all:
  assumes "coreOK f"
  shows "\<exists>s' c. foldO (removeLeaseLocked now) (f_leases f) f
      = Some ((dropLeases (set (f_leases f)) f)\<lparr>f_srv := s', f_cancels := c\<rparr>) \<and> srvSim (f_srv f) s'"
  using assms by (intro removeLeases_return) (auto simp: coreOK_def leasesOK_def statusOK_known)

text \<open>A worker that loses all its leases may be marked unavailable.\<close>

lemma workersOK_released:
  assumes "workersOK f" and "wi < length (f_workers f)" and "\<And>w. fw_leases (g w) = fw_leases w"
  shows "workersOK (dropLeases (set (fw_leases (f_workers f ! wi))) (updWorker wi g f))"
proof -
  have "fw_leases w' = []"
    if "w' \<in> set (f_workers (dropLeases (set (fw_leases (f_workers f ! wi))) (updWorker wi g f)))"
      and "fw_Error w' \<noteq> [] \<or> \<not> fw_Connected w'" for w'
  proof -
    from that(1) obtain k where k: "k < length (f_workers f)"
      "w' = f_workers (dropLeases (set (fw_leases (f_workers f ! wi))) (updWorker wi g f)) ! k"
      by (auto simp: in_set_conv_nth updWorker_def)
    have "f_workers f ! k \<in> set (f_workers f)" using k(1) by simp
    with assms(1) that(2) k assms(2) show ?thesis
      by (cases "k = wi") (auto simp: updWorker_def assms(3) workersOK_def)
  qed
  moreover have "f_stopped f \<longrightarrow> f_leases f = []" "\<not> f_ready f \<longrightarrow> f_work f = []" using assms(1) by (simp_all add: workersOK_def)
  moreover have "f_work (dropLeases X (updWorker wi g f)) = f_work (dropLeases X f)"
    "f_leases (updWorker wi g f) = f_leases f" "f_stopped (updWorker wi g f) = f_stopped f"
    "f_ready (updWorker wi g f) = f_ready f" for X by (simp_all add: updWorker_def dropLeases_def)
  moreover have "f_work f = [] \<Longrightarrow> f_work (dropLeases X f) = []" for X by (simp add: dropLeases_def)
  ultimately show ?thesis unfolding workersOK_def dropLeases_frame by simp
qed

lemma markAndRelease:
  assumes "fleetOK f" and "wi < length (f_workers f)" and "\<And>w. fw_leases (g w) = fw_leases w"
  shows "\<exists>f'. foldO (removeLeaseLocked now) (fw_leases (f_workers f ! wi)) (updWorker wi g f) = Some f' \<and> fleetOK f'
    \<and> (\<exists>s' c. f' = (dropLeases (set (fw_leases (f_workers f ! wi))) (updWorker wi g f))\<lparr>f_srv := s', f_cancels := c\<rparr>
         \<and> srvSim (f_srv f) s')"
proof -
  have core: "coreOK (updWorker wi g f)" using assms by (intro coreOK_updWorker) (simp_all add: fleetOK_def)
  have eq: "fw_leases (f_workers (updWorker wi g f) ! wi) = fw_leases (f_workers f ! wi)" "f_srv (updWorker wi g f) = f_srv f"
    using assms by (simp_all add: updWorker_def)
  have "wi < length (f_workers (updWorker wi g f))" using assms(2) by (simp add: updWorker_def)
  from release_worker [OF core this, of now] obtain s' c where
    "foldO (removeLeaseLocked now) (fw_leases (f_workers f ! wi)) (updWorker wi g f)
      = Some ((dropLeases (set (fw_leases (f_workers f ! wi))) (updWorker wi g f))\<lparr>f_srv := s', f_cancels := c\<rparr>)"
    "srvSim (f_srv f) s'" unfolding eq by blast
  moreover have "fleetOK ((dropLeases (set (fw_leases (f_workers f ! wi))) (updWorker wi g f))\<lparr>f_srv := s', f_cancels := c\<rparr>)"
    using coreOK_drop [OF core, of s'] calculation(2) workersOK_released [OF _ assms(2,3)] assms(1)
    by (simp add: eq fleetOK_def)
  ultimately show ?thesis by blast
qed

section \<open>Assigning\<close>

lemma nextFresh_Some:
  assumes "nextFresh w ps first n = Some i" and "\<forall>j t. first = Some (j, t) \<longrightarrow> fresh t"
  shows "\<exists>t. ((i, t) \<in> set ps \<or> first = Some (i, t)) \<and> fresh t"
  using assms
proof (induction w ps first n rule: nextFresh.induct)
  case (1 w first n)
  then show ?case by (cases first) auto
next
  case (2 w j t ps first n)
  show ?case
  proof (cases "fresh t")
    case False
    with 2 show ?thesis by auto
  next
    case True
    define first' where "first' = (case first of None \<Rightarrow> (j, t) | Some p \<Rightarrow> p)"
    have fr: "\<forall>k u. Some first' = Some (k, u) \<longrightarrow> fresh u" and src: "first' = (j, t) \<or> first = Some first'"
      using "2.prems"(2) True by (auto simp: first'_def split: option.splits)
    have eq: "(if affine w (snd first') t then Some j else if Suc n = 5 then Some (fst first')
        else nextFresh w ps (Some first') (Suc n)) = Some i"
      using "2.prems"(1) True unfolding nextFresh.simps Let_def first'_def [symmetric] by (simp only: not_True_eq_False if_False)
    show ?thesis
    proof (cases "affine w (snd first') t")
      case aff: True
      with eq have "i = j" by simp
      with True show ?thesis by auto
    next
      case aff: False
      show ?thesis
      proof (cases "Suc n = 5")
        case last: True
        with eq aff have "i = fst first'" by simp
        with fr src True show ?thesis by (cases first') auto
      next
        case last: False
        with eq aff have "nextFresh w ps (Some first') (Suc n) = Some i" by simp
        from "2.IH"(2) [OF _ first'_def aff last this fr] True
        obtain u where "((i, u) \<in> set ps \<or> Some first' = Some (i, u)) \<and> fresh u" by blast
        with src show ?thesis by auto
      qed
    qed
  qed
qed

lemma overdue_lease: "overdue f wi now t \<Longrightarrow> \<exists>j. ft_leases t = [j] \<and> wl_worker (lease f j) \<noteq> wi"
  unfolding overdue_def by (cases "ft_leases t") auto

lemma nextLocked_Some:
  assumes "nextLocked wi now f = Some ti"
  shows "ti < length (f_work f) \<and> \<not> ft_done (f_work f ! ti)
    \<and> (ft_leases (f_work f ! ti) = [] \<or> (\<exists>j. ft_leases (f_work f ! ti) = [j] \<and> wl_worker (lease f j) \<noteq> wi))"
proof (cases "nextFresh (f_workers f ! wi) (List.enumerate 0 (f_work f)) None 0")
  case None
  with assms have "(ti, f_work f ! ti) \<in> set (List.enumerate 0 (f_work f)) \<and> overdue f wi now (f_work f ! ti)"
    by (auto simp: nextLocked_def find_Some_iff in_set_enumerate_eq nth_enumerate_eq)
  then show ?thesis using overdue_lease [of f wi now "f_work f ! ti"]
    by (auto simp: in_set_enumerate_eq overdue_def)
next
  case (Some i)
  with assms have "i = ti" by (simp add: nextLocked_def)
  from nextFresh_Some [OF Some] this show ?thesis by (auto simp: in_set_enumerate_eq fresh_def)
qed

lemma leaseTo_effect:
  assumes "leasesOK f" and "wi < length (f_workers f)" and "ti < length (f_work f)" and "f_nextID f + 1 < 2 ^ 64"
    and "leaseTo wi ti now f = (i, f')"
  shows "i = f_nextID f + 1" and "i \<notin> set (f_leases f)" and "f_nextID f' = f_nextID f + 1"
    and "f_leases f' = i # f_leases f"
    and "f_workers f' = (f_workers f)[wi := (f_workers f ! wi)\<lparr>fw_leases := i # fw_leases (f_workers f ! wi)\<rparr>]"
    and "f_work f' = (f_work f)[ti := (f_work f ! ti)\<lparr>ft_leases := i # ft_leases (f_work f ! ti)\<rparr>]"
    and "map_of (f_heap f') i = Some \<lparr>wl_id = i, wl_work = ti, wl_worker = wi, wl_assigned = now, wl_started = 0,
           wl_state = ''queued'', wl_cancel = False\<rparr>"
    and "\<And>j. j \<noteq> i \<Longrightarrow> map_of (f_heap f') j = map_of (f_heap f) j"
    and "f_srv f' = f_srv f" and "f_stopped f' = f_stopped f" and "f_ready f' = f_ready f" and "f_done f' = f_done f"
    and "f_infra f' = f_infra f"
proof -
  show i: "i = f_nextID f + 1" using assms(4,5) nextLease_Suc [of "f_nextID f"] by (simp add: leaseTo_def Let_def)
  then show new: "i \<notin> set (f_leases f)" using assms(1) by (auto simp: leasesOK_def)
  have w: "i \<notin> set (fw_leases (f_workers f ! wi))" "i \<notin> set (ft_leases (f_work f ! ti))"
    using assms(1-3) new by (auto simp: leasesOK_def)
  have f': "f' = snd (leaseTo wi ti now f)" "nextLease (f_nextID f) = i" using assms(4,5) i nextLease_Suc by simp_all
  show "f_nextID f' = f_nextID f + 1" "f_leases f' = i # f_leases f"
    "f_workers f' = (f_workers f)[wi := (f_workers f ! wi)\<lparr>fw_leases := i # fw_leases (f_workers f ! wi)\<rparr>]"
    "f_work f' = (f_work f)[ti := (f_work f ! ti)\<lparr>ft_leases := i # ft_leases (f_work f ! ti)\<rparr>]"
    "map_of (f_heap f') i = Some \<lparr>wl_id = i, wl_work = ti, wl_worker = wi, wl_assigned = now, wl_started = 0,
           wl_state = ''queued'', wl_cancel = False\<rparr>"
    "\<And>j. j \<noteq> i \<Longrightarrow> map_of (f_heap f') j = map_of (f_heap f) j"
    "f_srv f' = f_srv f" "f_stopped f' = f_stopped f" "f_ready f' = f_ready f" "f_done f' = f_done f" "f_infra f' = f_infra f"
    using new w i
    by (simp_all add: f' leaseTo_def updWorker_def updTask_def Let_def update_conv' del: One_nat_def)
qed

lemma fleetOK_leaseTo:
  assumes ok: "fleetOK f" and wi: "wi < length (f_workers f)" and ti: "ti < length (f_work f)"
    and id: "f_nextID f + 1 < 2 ^ 64" and step: "leaseTo wi ti now f = (i, f')"
    and free: "\<not> ft_done (f_work f ! ti)"
      "ft_leases (f_work f ! ti) = [] \<or> (\<exists>j. ft_leases (f_work f ! ti) = [j] \<and> wl_worker (lease f j) \<noteq> wi)"
    and run: "\<not> f_stopped f" "f_ready f" "fw_Error (f_workers f ! wi) = []" "fw_Connected (f_workers f ! wi)"
  shows "fleetOK f'"
proof -
  have L: "leasesOK f" using ok by (simp add: fleetOK_def coreOK_def)
  note e = leaseTo_effect [OF L wi ti id step]
  have own: "\<And>j. j \<in> set (ft_leases (f_work f ! k)) \<Longrightarrow> k < length (f_work f) \<Longrightarrow> j \<noteq> i" for k
    using L e(2) by (auto simp: leasesOK_def)
  have old: "\<And>j. j \<in> set (f_leases f) \<Longrightarrow> map_of (f_heap f') j = map_of (f_heap f) j" using e(2,8) by metis
  have le: "i \<le> f_nextID f'" "f_nextID f \<le> f_nextID f'" using e(1,3) by simp_all
  have new: "lease f' i = \<lparr>wl_id = i, wl_work = ti, wl_worker = wi, wl_assigned = now, wl_started = 0,
      wl_state = ''queued'', wl_cancel = False\<rparr>" by (simp add: e(7))
  have "leasesOK f'"
    unfolding leasesOK_def
  proof (intro conjI allI impI ballI)
    show "distinct (f_leases f')" using L e(2) by (simp add: leasesOK_def e(4))
  next
    fix j assume j: "j \<in> set (f_leases f')"
    have "j \<le> f_nextID f' \<and> map_of (f_heap f') j \<noteq> None \<and> wl_id (lease f' j) = j
        \<and> wl_worker (lease f' j) < length (f_workers f') \<and> wl_work (lease f' j) < length (f_work f')"
    proof (cases "j = i")
      case True
      then show ?thesis using wi ti le(1) by (simp add: e(5-7))
    next
      case False
      with j L show ?thesis using le(2) by (fastforce simp: leasesOK_def e(4-6) old)
    qed
    then show "j \<le> f_nextID f'" "map_of (f_heap f') j \<noteq> None" "wl_id (lease f' j) = j"
      "wl_worker (lease f' j) < length (f_workers f')" "wl_work (lease f' j) < length (f_work f')" by blast+
  next
    fix k assume k: "k < length (f_workers f')"
    then show "distinct (fw_leases (f_workers f' ! k))"
      using L e(2) by (cases "k = wi") (auto simp: leasesOK_def e(5))
    have "{j \<in> set (f_leases f'). wl_worker (lease f' j) = k}
        = (if k = wi then {i} else {}) \<union> {j \<in> set (f_leases f). wl_worker (lease f j) = k}"
      by (auto simp: e(4) new old)
    then show "set (fw_leases (f_workers f' ! k)) = {j \<in> set (f_leases f'). wl_worker (lease f' j) = k}"
      using k L by (cases "k = wi") (simp_all add: e(5) leasesOK_def)
  next
    fix k assume k: "k < length (f_work f')"
    then show "distinct (ft_leases (f_work f' ! k))"
      using L e(2) by (cases "k = ti") (auto simp: leasesOK_def e(6))
    have "{j \<in> set (f_leases f'). wl_work (lease f' j) = k}
        = (if k = ti then {i} else {}) \<union> {j \<in> set (f_leases f). wl_work (lease f j) = k}"
      by (auto simp: e(4) new old)
    then show "set (ft_leases (f_work f' ! k)) = {j \<in> set (f_leases f'). wl_work (lease f' j) = k}"
      using k L by (cases "k = ti") (simp_all add: e(6) leasesOK_def)
  qed
  moreover have "copiesOK f'"
    unfolding copiesOK_def
  proof (intro allI impI)
    fix k assume "k < length (f_work f')"
    then have k: "k < length (f_work f)" by (simp add: e(6))
    have heap: "\<And>j. j \<in> set (ft_leases (f_work f ! k)) \<Longrightarrow> map_of (f_heap f') j = map_of (f_heap f) j"
      using own k e(8) by blast
    have c: "length (ft_leases (f_work f ! k)) \<le> 2" "inj_on (\<lambda>j. wl_worker (lease f j)) (set (ft_leases (f_work f ! k)))"
      using ok k by (simp_all add: fleetOK_def coreOK_def copiesOK_def)
    show "length (ft_leases (f_work f' ! k)) \<le> 2 \<and> inj_on (\<lambda>j. wl_worker (lease f' j)) (set (ft_leases (f_work f' ! k)))"
    proof (cases "k = ti")
      case True
      with k free(2) heap show ?thesis by (auto simp: e(6,7))
    next
      case False
      with k c heap show ?thesis by (simp add: e(6) inj_on_def)
    qed
  qed
  moreover have "doneOK f'"
    using ok free(1) ti unfolding fleetOK_def coreOK_def doneOK_def e(6) by (auto simp: nth_list_update)
  moreover have "statusOK f'"
  proof -
    have m: "map ft_task (f_work f') = map ft_task (f_work f)" "map ft_done (f_work f') = map ft_done (f_work f)"
      unfolding e(6)
      by (rule map_list_update_same [of _ "\<lambda>t. t\<lparr>ft_leases := i # ft_leases t\<rparr>"]; simp)+
    with ok show ?thesis by - (rule statusOK_cong [of f], simp_all add: fleetOK_def coreOK_def e(9,12))
  qed
  moreover have "workersOK f'"
    using ok run unfolding fleetOK_def workersOK_def e(10,11)
    by (auto simp: e(5) dest!: set_update_subset_insert [THEN subsetD])
  ultimately show ?thesis by (simp add: fleetOK_def coreOK_def)
qed

text \<open>What giving more leases to one worker changes: its own leases grow, and nothing else does.\<close>

definition leasedMore :: "nat \<Rightarrow> fleet \<Rightarrow> fleet \<Rightarrow> bool" where
  "leasedMore wi f f' \<longleftrightarrow> f_srv f' = f_srv f \<and> f_stopped f' = f_stopped f \<and> f_ready f' = f_ready f \<and> f_done f' = f_done f
     \<and> f_infra f' = f_infra f \<and> length (f_workers f') = length (f_workers f)
     \<and> map ft_task (f_work f') = map ft_task (f_work f) \<and> map ft_done (f_work f') = map ft_done (f_work f)
     \<and> (\<forall>k < length (f_workers f). fw_Error (f_workers f' ! k) = fw_Error (f_workers f ! k)
          \<and> fw_Connected (f_workers f' ! k) = fw_Connected (f_workers f ! k) \<and> fw_Slots (f_workers f' ! k) = fw_Slots (f_workers f ! k)
          \<and> suffix (fw_leases (f_workers f ! k)) (fw_leases (f_workers f' ! k))
          \<and> (k \<noteq> wi \<longrightarrow> fw_leases (f_workers f' ! k) = fw_leases (f_workers f ! k)))
     \<and> (\<forall>j \<in> set (f_leases f). j \<in> set (f_leases f') \<and> map_of (f_heap f') j = map_of (f_heap f) j)"

lemma leasedMore_refl: "leasedMore wi f f"
  by (simp add: leasedMore_def)

lemma leasedMore_trans: "leasedMore wi f g \<Longrightarrow> leasedMore wi g h \<Longrightarrow> leasedMore wi f h"
  unfolding leasedMore_def by (auto intro: suffix_order.trans)

lemma leasedMore_leaseTo:
  assumes "leasesOK f" and "wi < length (f_workers f)" and "ti < length (f_work f)" and "f_nextID f + 1 < 2 ^ 64"
    and "leaseTo wi ti now f = (i, f')"
  shows "leasedMore wi f f'"
proof -
  note e = leaseTo_effect [OF assms]
  have "map ft_task (f_work f') = map ft_task (f_work f)" "map ft_done (f_work f') = map ft_done (f_work f)"
    unfolding e(6) by (rule map_list_update_same [of _ "\<lambda>t. t\<lparr>ft_leases := i # ft_leases t\<rparr>"]; simp)+
  moreover have "\<forall>j \<in> set (f_leases f). map_of (f_heap f') j = map_of (f_heap f) j" using e(2,8) by metis
  ultimately show ?thesis
    unfolding leasedMore_def e(4,5,9-13) by (auto simp: nth_list_update [OF assms(2)] suffix_ConsI)
qed

text \<open>The state in which work may be given to a worker.\<close>

definition mayLease :: "nat \<Rightarrow> fleet \<Rightarrow> bool" where
  "mayLease wi f \<longleftrightarrow> wi < length (f_workers f) \<and> \<not> f_stopped f \<and> f_ready f
     \<and> fw_Error (f_workers f ! wi) = [] \<and> fw_Connected (f_workers f ! wi)"

lemma mayLease_mono: "mayLease wi f \<Longrightarrow> leasedMore wi f f' \<Longrightarrow> mayLease wi f'"
  by (simp add: mayLease_def leasedMore_def)

lemma assignLoop_OK:
  assumes "fleetOK f" and "mayLease wi f" and "f_nextID f + n < 2 ^ 64" and "assignLoop fl n wi now d f = (batch, f')"
  shows "fleetOK f' \<and> leasedMore wi f f' \<and> length batch \<le> n \<and> f_nextID f' \<le> f_nextID f + length batch
    \<and> map ww_Lease (rev batch) @ fw_leases (f_workers f ! wi) = fw_leases (f_workers f' ! wi)"
  using assms
proof (induction fl n wi now d f arbitrary: batch f' rule: assignLoop.induct)
  case (1 fl wi now d f)
  then show ?case by (simp add: leasedMore_refl)
next
  case (2 fl n wi now d f)
  let ?w = "f_workers f ! wi"
  show ?case
  proof (cases "(fw_Slots ?w \<le> int (length (fw_leases ?w)) \<and> workerBatchTarget * fw_Slots ?w \<le> d) \<or> nextLocked wi now f = None")
    case True
    then have "assignLoop fl (Suc n) wi now d f = ([], f)" by (auto simp: Let_def)
    with "2.prems"(4) have "batch = []" "f' = f" by simp_all
    with "2.prems"(1) show ?thesis by (simp add: leasedMore_refl)
  next
    case False
    then obtain ti where full: "\<not> (fw_Slots ?w \<le> int (length (fw_leases ?w)) \<and> workerBatchTarget * fw_Slots ?w \<le> d)"
      and ti: "nextLocked wi now f = Some ti" by auto
    obtain i f1 where l: "leaseTo wi ti now f = (i, f1)" by fastforce
    obtain b f2 where r: "assignLoop fl n wi now (d + ft_estimate (f_work f ! ti)) f1 = (b, f2)" by fastforce
    have res: "f' = f2" "\<exists>x. ww_Lease x = i \<and> batch = x # b"
      using "2.prems"(4) full ti l r unfolding assignLoop.simps Let_def if_not_P [OF full] by auto
    have wi: "wi < length (f_workers f)" and L: "leasesOK f" and id: "f_nextID f + 1 < 2 ^ 64"
      using "2.prems"(1-3) by (auto simp: mayLease_def fleetOK_def coreOK_def)
    note t = nextLocked_Some [OF ti]
    then have tl: "ti < length (f_work f)" by blast
    note e = leaseTo_effect [OF L wi tl id l]
    have more: "leasedMore wi f f1" by (rule leasedMore_leaseTo [OF L wi tl id l])
    have ok1: "fleetOK f1" using t "2.prems"(2)
      by (intro fleetOK_leaseTo [OF "2.prems"(1) wi tl id l]) (auto simp: mayLease_def)
    have "f_nextID f1 + n < 2 ^ 64" using "2.prems"(3) e(3) by simp
    from "2.IH" [OF refl full ti refl l [symmetric] refl ok1 mayLease_mono [OF "2.prems"(2) more] this r]
    show ?thesis using res leasedMore_trans [OF more] wi by (auto simp: e(3,5))
  qed
qed

lemma assignLocked_OK:
  assumes "fleetOK f" and "wi < length (f_workers f)" and "fw_Connected (f_workers f ! wi)" and "f_nextID f + nat limit < 2 ^ 64"
    and "assignLocked fl wi limit now f = (batch, f')"
  shows "fleetOK f' \<and> leasedMore wi f f' \<and> length batch \<le> nat limit \<and> f_nextID f' \<le> f_nextID f + length batch
    \<and> map ww_Lease (rev batch) @ fw_leases (f_workers f ! wi) = fw_leases (f_workers f' ! wi)"
proof (cases "\<not> f_ready f \<or> f_stopped f \<or> sv_canceled (f_srv f) \<or> fw_Error (f_workers f ! wi) \<noteq> []")
  case True
  with assms(5) have "batch = [] \<and> f' = f" by (simp add: assignLocked_def Let_def)
  with assms(1) show ?thesis by (simp add: leasedMore_refl)
next
  case False
  then have "mayLease wi f" using assms(2,3) by (simp add: mayLease_def)
  moreover have "assignLoop fl (nat limit) wi now
      (sum_list (map (\<lambda>i. ft_estimate (f_work f ! wl_work (lease f i))) (fw_leases (f_workers f ! wi)))) f = (batch, f')"
    using assms(5) False unfolding assignLocked_def Let_def if_not_P [OF False] by simp
  ultimately show ?thesis using assignLoop_OK [OF assms(1) _ assms(4)] by blast
qed

section \<open>Progress of leases\<close>

lemma fleetOK_srv: "fleetOK f \<Longrightarrow> srvSim (f_srv f) s' \<Longrightarrow> fleetOK (f\<lparr>f_srv := s'\<rparr>)"
  using statusOK_srvSim [of f s'] by (simp add: fleetOK_def coreOK_def)

lemma fleetOK_heap:
  assumes "fleetOK f" and "i \<in> set (f_leases f)"
    and "wl_id l = i" and "wl_work l = wl_work (lease f i)" and "wl_worker l = wl_worker (lease f i)"
  shows "fleetOK (f\<lparr>f_heap := AList.update i l (f_heap f)\<rparr>)"
proof -
  let ?f = "f\<lparr>f_heap := AList.update i l (f_heap f)\<rparr>"
  have same: "wl_work (lease ?f j) = wl_work (lease f j)" "wl_worker (lease ?f j) = wl_worker (lease f j)"
    "map_of (f_heap f) j \<noteq> None \<Longrightarrow> map_of (f_heap ?f) j \<noteq> None"
    "wl_id (lease f j) = j \<Longrightarrow> wl_id (lease ?f j) = j" for j
    using assms(3-5) by (simp_all add: update_conv')
  have "leasesOK ?f" using assms(1) unfolding fleetOK_def coreOK_def leasesOK_def same(1,2)
    by (simp add: update_conv' assms(3))
  moreover have "copiesOK ?f" using assms(1) unfolding fleetOK_def coreOK_def copiesOK_def same(2) by simp
  ultimately show ?thesis using assms(1) by (simp add: fleetOK_def coreOK_def doneOK_def statusOK_def workersOK_def)
qed

lemma lease_of_worker:
  assumes "fleetOK f" and "wi < length (f_workers f)" and "i \<in> set (fw_leases (f_workers f ! wi))"
  shows "i \<in> set (f_leases f)" "wl_worker (lease f i) = wi" "wl_work (lease f i) < length (f_work f)" "wl_id (lease f i) = i"
    "i \<in> set (ft_leases (f_work f ! wl_work (lease f i)))"
  using assms by (auto simp: fleetOK_def coreOK_def leasesOK_def)

lemma srvSim_pkg:
  assumes "map_of (sv_pkgs s) p = Some ps" and "testsOf ps' = testsOf ps" and "ps_numFails ps' = ps_numFails ps"
  shows "srvSim s (s\<lparr>sv_pkgs := AList.update p ps' (sv_pkgs s)\<rparr>)"
proof -
  have "testOf (s\<lparr>sv_pkgs := AList.update p ps' (sv_pkgs s)\<rparr>) q t = testOf s q t" for q t
    using assms by (simp add: testOf_def)
  moreover have "serverOK s \<Longrightarrow> serverOK (s\<lparr>sv_pkgs := AList.update p ps' (sv_pkgs s)\<rparr>)"
    using assms by (auto simp: serverOK_def pkgOK_def)
  ultimately show ?thesis by (simp add: srvSim_def)
qed

text \<open>What a heartbeat may change: the state of leases, the status page, and the worker's own entry.\<close>

definition beats :: "nat \<Rightarrow> fleet \<Rightarrow> fleet \<Rightarrow> bool" where
  "beats wi f f' \<longleftrightarrow> f_workers f' = f_workers f \<and> f_work f' = f_work f \<and> f_leases f' = f_leases f \<and> f_nextID f' = f_nextID f
     \<and> f_done f' = f_done f \<and> f_stopped f' = f_stopped f \<and> f_ready f' = f_ready f \<and> f_infra f' = f_infra f
     \<and> srvSim (f_srv f) (f_srv f')
     \<and> (\<forall>i. wl_work (lease f' i) = wl_work (lease f i) \<and> wl_worker (lease f' i) = wl_worker (lease f i))"

lemma beats_refl: "beats wi f f"
  by (simp add: beats_def)

lemma beats_trans: "beats wi f g \<Longrightarrow> beats wi g h \<Longrightarrow> beats wi f h"
  unfolding beats_def by (auto intro: srvSim_trans)

lemma setLease_returns:
  assumes "fleetOK f" and "i \<in> set (f_leases f)"
    and "wl_id l = i" and "wl_work l = wl_work (lease f i)" and "wl_worker l = wl_worker (lease f i)"
  shows "\<exists>f1. updateRunningLocked now (wl_work (lease f i)) (f\<lparr>f_heap := AList.update i l (f_heap f)\<rparr>) = Some f1
    \<and> fleetOK f1 \<and> beats wi f f1 \<and> f_heap f1 = AList.update i l (f_heap f)"
proof -
  let ?f = "f\<lparr>f_heap := AList.update i l (f_heap f)\<rparr>"
  have ok: "fleetOK ?f" by (rule fleetOK_heap [OF assms])
  have "wl_work (lease f i) < length (f_work f)" using assms(1,2) by (auto simp: fleetOK_def coreOK_def leasesOK_def)
  then have "statusOf ?f (wl_work (lease f i)) \<noteq> None"
    using assms(1) statusOK_known [of f] by (simp add: fleetOK_def coreOK_def knownTasks_def)
  from updateRunning_returns [OF this, of now] obtain s' where
    s': "updateRunningLocked now (wl_work (lease f i)) ?f = Some (?f\<lparr>f_srv := s'\<rparr>)" "srvSim (f_srv ?f) s'" by blast
  have "beats wi f (?f\<lparr>f_srv := s'\<rparr>)" using s'(2) assms(4,5) by (auto simp: beats_def update_conv')
  with s' fleetOK_srv [OF ok s'(2)] show ?thesis by (intro exI [of _ "?f\<lparr>f_srv := s'\<rparr>"]) simp
qed

lemma reportActive_OK:
  assumes "fleetOK f" and "wi < length (f_workers f)"
  shows "\<exists>cancels' f'. reportActive now wi entry (cancels, f) = Some (cancels', f') \<and> fleetOK f' \<and> beats wi f f'
    \<and> cancels' = cancels @ (if fst entry \<in> set (fw_leases (f_workers f ! wi)) then [] else [fst entry])"
proof -
  obtain i st where e: "entry = (i, st)" by fastforce
  show ?thesis
  proof (cases "i \<in> set (fw_leases (f_workers f ! wi)) \<and> st \<in> {''queued'', ''building'', ''running''}")
    case False
    then show ?thesis using assms(1) by (auto simp: e reportActive_def beats_refl)
  next
    case True
    let ?l = "lease f i"
    let ?l' = "?l\<lparr>wl_started := (if st = ''running'' \<and> wl_started ?l = 0 then now else wl_started ?l), wl_state := st\<rparr>"
    let ?pkg = "task_pkg (ft_task (f_work f ! wl_work ?l))"
    note own = lease_of_worker [OF assms, of i]
    from setLease_returns [OF assms(1) own(1), of ?l' now wi] True own(4) obtain f1 where
      f1: "updateRunningLocked now (wl_work ?l) (f\<lparr>f_heap := AList.update i ?l' (f_heap f)\<rparr>) = Some f1" "fleetOK f1" "beats wi f f1"
      by auto
    have "statusOf f1 (wl_work ?l) \<noteq> None"
      using f1(2,3) own(3) True statusOK_known [of f1] by (simp add: fleetOK_def coreOK_def knownTasks_def beats_def)
    then obtain ps where ps: "map_of (sv_pkgs (f_srv f1)) ?pkg = Some ps"
      using f1(3) by (auto simp: testOf_def beats_def split: option.splits)
    let ?s = "(f_srv f1)\<lparr>sv_pkgs := AList.update ?pkg (ps\<lparr>ps_state := pkgStateTesting, ps_changed := now\<rparr>) (sv_pkgs (f_srv f1))\<rparr>"
    have sim: "srvSim (f_srv f1) ?s" by (rule srvSim_pkg [OF ps]) (simp_all add: testsOf_def)
    have "reportActive now wi entry (cancels, f) = Some (cancels, f1\<lparr>f_srv := ?s\<rparr>)"
      using True f1(1) ps by (simp add: e reportActive_def Let_def) blast
    moreover have "beats wi f (f1\<lparr>f_srv := ?s\<rparr>)"
      using f1(3) sim by (auto simp: beats_def intro: srvSim_trans)
    ultimately show ?thesis using fleetOK_srv [OF f1(2) sim] True by (simp add: e)
  qed
qed

lemma reports_OK:
  assumes "fleetOK f" and "wi < length (f_workers f)"
  shows "\<exists>f'. foldO (reportActive now wi) entries (cancels, f)
      = Some (cancels @ map fst (filter (\<lambda>e. fst e \<notin> set (fw_leases (f_workers f ! wi))) entries), f')
    \<and> fleetOK f' \<and> beats wi f f'"
  using assms
proof (induction entries arbitrary: cancels f)
  case Nil
  then show ?case by (simp add: beats_refl)
next
  case (Cons e es)
  from reportActive_OK [OF Cons.prems, of now e cancels] obtain f1 where
    f1: "reportActive now wi e (cancels, f)
      = Some (cancels @ (if fst e \<in> set (fw_leases (f_workers f ! wi)) then [] else [fst e]), f1)" "fleetOK f1" "beats wi f f1"
    by blast
  have w: "f_workers f1 = f_workers f" using f1(3) by (simp add: beats_def)
  then have "wi < length (f_workers f1)" using Cons.prems(2) by simp
  from Cons.IH [OF f1(2) this, of "cancels @ (if fst e \<in> set (fw_leases (f_workers f ! wi)) then [] else [fst e])"]
  show ?case using f1(1,3) beats_trans by (auto simp: w)
qed

section \<open>Committing results\<close>

text \<open>The part of the state a result is committed to: the task, the counters and the server.\<close>

lemma length_filter_update:
  "i < length xs \<Longrightarrow> \<not> P (xs ! i) \<Longrightarrow> P y \<Longrightarrow> length (filter P (xs[i := y])) = Suc (length (filter P xs))"
  by (induction xs arbitrary: i) (auto split: nat.splits)

lemma coreOK_updTask_done:
  assumes "fleetOK f" and "ti < length (f_work f)" and "\<not> ft_done (f_work f ! ti)"
    and "map_option ts_done (testOf s' (task_pkg (taskOf f ti)) (task_test (taskOf f ti))) = Some True"
    and "\<And>p t. (p, t) \<noteq> task_id (taskOf f ti) \<Longrightarrow> testOf s' p t = testOf (f_srv f) p t" and "serverOK s'"
    and f': "f_leases f' = f_leases f" "f_nextID f' = f_nextID f" "f_heap f' = f_heap f"
      "map fw_leases (f_workers f') = map fw_leases (f_workers f)"
      "f_work f' = (f_work f)[ti := (f_work f ! ti)\<lparr>ft_done := True\<rparr>]" "f_done f' = f_done f + 1" "f_srv f' = s'"
  shows "leasesOK f' \<and> copiesOK f' \<and> statusOK f'"
proof -
  have m: "map ft_leases (f_work f') = map ft_leases (f_work f)" "map ft_task (f_work f') = map ft_task (f_work f)"
    unfolding f'(5) by (rule map_list_update_same [of _ "\<lambda>t. t\<lparr>ft_done := True\<rparr>"]; simp)+
  have L: "leasesOK f" "copiesOK f" "statusOK f" using assms(1) by (auto simp: fleetOK_def coreOK_def)
  have len: "length (f_work f') = length (f_work f)" by (simp add: f'(5))
  have nth: "ft_leases (f_work f' ! k) = ft_leases (f_work f ! k)" "ft_task (f_work f' ! k) = ft_task (f_work f ! k)"
    if "k < length (f_work f)" for k using m that len by (metis nth_map)+
  have "leasesOK f'" by (rule leasesOK_cong [OF L(1)]) (use f' m in simp_all)
  moreover have "copiesOK f'" using L(2) unfolding copiesOK_def len f'(3) by (simp add: nth)
  moreover have "statusOK f'"
    unfolding statusOK_def
  proof (intro conjI allI impI)
    have ids: "distinct (map (\<lambda>t. task_id (ft_task t)) (f_work f))" using L(3) by (simp add: statusOK_def)
    show "distinct (map (\<lambda>t. task_id (ft_task t)) (f_work f'))"
      using ids arg_cong [OF m(2), of "map task_id"] by (simp add: comp_def)
    fix k assume "k < length (f_work f')"
    then have k: "k < length (f_work f)" by (simp add: len)
    show "map_option ts_done (statusOf f' k) = Some (ft_done (f_work f' ! k))"
    proof (cases "k = ti")
      case True
      then show ?thesis using assms(4) k by (simp add: nth f'(5,7))
    next
      case False
      then have "task_id (taskOf f k) \<noteq> task_id (taskOf f ti)"
        using ids k assms(2) by (auto simp: distinct_conv_nth)
      then show ?thesis using assms(5) L(3) k False unfolding statusOK_def f'(7) nth(2) [OF k] by (simp add: f'(5))
    qed
  next
    have "length (filter ft_done ((f_work f)[ti := (f_work f ! ti)\<lparr>ft_done := True\<rparr>])) = Suc (length (filter ft_done (f_work f)))"
      using assms(2,3) by (simp add: length_filter_update)
    then show "f_done f' = length (filter ft_done (f_work f'))" using L(3) by (simp add: f'(5,6) statusOK_def)
  qed (simp add: f'(7) assms(6))
  ultimately show ?thesis by blast
qed

text \<open>The server after a result was committed, as \<open>accept\<close> promises.\<close>

definition committedSrv :: "platform \<Rightarrow> flags \<Rightarrow> testTask \<Rightarrow> workerResult \<Rightarrow> Server \<Rightarrow> Server \<Rightarrow> bool" where
  "committedSrv pf fl task r s s' \<longleftrightarrow>
     map_option (\<lambda>ts. (ts_done ts, ts_passed ts)) (testOf s' (task_pkg task) (task_test task)) = Some (True, wr_Passed r)
     \<and> (\<forall>p t. (p, t) \<noteq> task_id task \<longrightarrow> map_option (\<lambda>ts. (ts_done ts, ts_passed ts)) (testOf s' p t)
          = map_option (\<lambda>ts. (ts_done ts, ts_passed ts)) (testOf s p t))
     \<and> sv_historyPending s' = sv_historyPending s @ map (\<lambda>ob. ob\<lparr>obs_Key := taskHistKey pf fl s task\<rparr>) (wr_History r)
     \<and> sv_cacheChecks s' = sv_cacheChecks s + wr_CacheChecks r
     \<and> sv_cacheHits s' = sv_cacheHits s + (if wr_Cached r then 1 else 0)"

lemma committedSrv_sim: "committedSrv pf fl task r s s' \<Longrightarrow> srvSim s' s'' \<Longrightarrow> committedSrv pf fl task r s s''"
  by (simp add: committedSrv_def srvSim_def)

lemma taskHistKey_profile: "sv_profile s' = sv_profile s \<Longrightarrow> taskHistKey pf fl s' task = taskHistKey pf fl s task"
  by (simp add: taskHistKey_def)

lemma commitServer:
  assumes ok: "serverOK s" and ts: "testOf s (task_pkg task) (task_test task) = Some ts" "\<not> ts_done ts"
  shows "\<exists>s1 s3. updTest (task_pkg task) (task_test task)
        (\<lambda>ts. ts\<lparr>ts_attempts := wr_Attempts r, ts_attrs := wr_Attrs r\<rparr>) id s = Some s1
    \<and> finishTestLocked now task (wr_Passed r) d failures err (wr_Cached r)
        (s1\<lparr>sv_cacheChecks := sv_cacheChecks s1 + wr_CacheChecks r,
            sv_cacheHits := sv_cacheHits s1 + (if wr_Cached r then 1 else 0),
            sv_historyPending := sv_historyPending s1
              @ map (\<lambda>ob. ob\<lparr>obs_Key := taskHistKey pf fl s1 task\<rparr>) (wr_History r)\<rparr>) = Some s3
    \<and> committedSrv pf fl task r s s3 \<and> serverOK s3 \<and> sv_canceled s3 = sv_canceled s
    \<and> (\<forall>p t. (p, t) \<noteq> task_id task \<longrightarrow> testOf s3 p t = testOf s p t)"
proof -
  let ?u = "\<lambda>ts. ts\<lparr>ts_attempts := wr_Attempts r, ts_attrs := wr_Attrs r\<rparr>"
  obtain s1 where s1: "updTest (task_pkg task) (task_test task) ?u id s = Some s1"
    using ts(1) updTest_Some_iff [of "task_pkg task" "task_test task" ?u id s] by auto
  have ok1: "serverOK s1" by (rule serverOK_updTest_simple [OF ok s1]) simp_all
  have frame: "sv_canceled s1 = sv_canceled s" "sv_historyPending s1 = sv_historyPending s" "sv_profile s1 = sv_profile s"
    "sv_cacheChecks s1 = sv_cacheChecks s" "sv_cacheHits s1 = sv_cacheHits s"
    using updTest_pkgs [OF s1] by auto
  note t1 = testOf_updTest [OF s1 keepsTests_id(1)]
  define s2 where "s2 = s1\<lparr>sv_cacheChecks := sv_cacheChecks s1 + wr_CacheChecks r,
            sv_cacheHits := sv_cacheHits s1 + (if wr_Cached r then 1 else 0),
            sv_historyPending := sv_historyPending s1
              @ map (\<lambda>ob. ob\<lparr>obs_Key := taskHistKey pf fl s1 task\<rparr>) (wr_History r)\<rparr>"
  have t2: "testOf s2 p t = testOf s1 p t" for p t by (simp add: s2_def testOf_def)
  have ok2: "serverOK s2" using ok1 by (simp add: s2_def serverOK_def)
  have st2: "testOf s2 (task_pkg task) (task_test task) = Some (?u ts)" using ts(1) by (simp add: t1 t2)
  then obtain s3 where s3: "finishTestLocked now task (wr_Passed r) d failures err (wr_Cached r) s2 = Some s3"
    unfolding finishTestLocked_def using updTest_Some_iff by fastforce
  note t3 = testOf_updTest [OF s3 [unfolded finishTestLocked_def] keepsTests_finish]
  have ok3: "serverOK s3" by (rule serverOK_finish [OF ok2 s3 st2]) (simp add: ts(2))
  have fr3: "sv_canceled s3 = sv_canceled s2" "sv_historyPending s3 = sv_historyPending s2"
    "sv_cacheChecks s3 = sv_cacheChecks s2" "sv_cacheHits s3 = sv_cacheHits s2"
    using updTest_pkgs [OF s3 [unfolded finishTestLocked_def]] by auto
  have other: "testOf s3 p t = testOf s p t" if "(p, t) \<noteq> task_id task" for p t
    using that by (auto simp: t3 t2 t1)
  have "committedSrv pf fl task r s s3"
    using st2 other taskHistKey_profile [OF frame(3)] by (auto simp: committedSrv_def t3 finishStatus_def fr3 s2_def frame)
  moreover have "sv_canceled s3 = sv_canceled s" by (simp add: fr3 s2_def frame)
  ultimately show ?thesis using s1 s3 ok3 other unfolding s2_def by blast
qed

end
