(* ===== verification/Fleet_Run.thy ===== *)
theory Fleet_Run
  imports Fleet_Steps
begin

text \<open>
  The leader's operations as a whole (\<open>accept\<close>, \<open>disconnect\<close>, \<open>exchange\<close>, \<open>run\<close>, \<open>localWorker\<close>), the
  step relation of a distributed run with its invariant, and the properties of leasing.
\<close>

section \<open>Results\<close>

definition acceptable :: "nat \<Rightarrow> workerResult \<Rightarrow> fleet \<Rightarrow> bool" where
  "acceptable wi r f \<longleftrightarrow> wr_Lease r \<in> set (fw_leases (f_workers f ! wi))
     \<and> \<not> ft_done (f_work f ! wl_work (lease f (wr_Lease r))) \<and> \<not> f_stopped f \<and> \<not> sv_canceled (f_srv f)"

lemma accept_ignored: "\<not> acceptable wi r f \<Longrightarrow> accept pf fl now wi r f = Some f"
  by (auto simp: acceptable_def accept_def Let_def)

text \<open>What \<open>commitResult\<close> leaves, before the leases of the task are released.\<close>

lemma commit_returns:
  fixes f wi r
  defines "ti \<equiv> wl_work (lease f (wr_Lease r))"
  assumes ok: "fleetOK f" and wi: "wi < length (f_workers f)" and acc: "acceptable wi r f"
  shows "\<exists>f1. commitResult pf fl now wi ti r f = Some f1
    \<and> leasesOK f1 \<and> copiesOK f1 \<and> statusOK f1 \<and> workersOK f1
    \<and> f_work f1 = (f_work f)[ti := (f_work f ! ti)\<lparr>ft_done := True\<rparr>] \<and> f_done f1 = f_done f + 1
    \<and> f_leases f1 = f_leases f \<and> f_heap f1 = f_heap f \<and> f_nextID f1 = f_nextID f \<and> f_stopped f1 = f_stopped f
    \<and> f_ready f1 = f_ready f \<and> map fw_leases (f_workers f1) = map fw_leases (f_workers f)
    \<and> map fw_Connected (f_workers f1) = map fw_Connected (f_workers f)
    \<and> f_infra f1 = f_infra f @ (if wr_Infra r
         then [task_pkg (taskOf f ti) @ ''.'' @ task_test (taskOf f ti) @ '': '' @ wr_Error r] else [])
    \<and> sv_canceled (f_srv f1) = sv_canceled (f_srv f)
    \<and> committedSrv pf fl (taskOf f ti) r (f_srv f) (f_srv f1)"
proof -
  let ?task = "taskOf f ti"
  have lease: "wr_Lease r \<in> set (fw_leases (f_workers f ! wi))" using acc by (simp add: acceptable_def)
  have ti: "ti < length (f_work f)" "\<not> ft_done (f_work f ! ti)"
    using lease_of_worker(3) [OF ok wi lease] acc by (simp_all add: ti_def acceptable_def)
  have st: "map_option ts_done (statusOf f ti) = Some False" "serverOK (f_srv f)"
    using ok ti unfolding fleetOK_def coreOK_def statusOK_def by auto
  then obtain ts where ts: "statusOf f ti = Some ts" "\<not> ts_done ts" by auto
  let ?fails = "map (\<lambda>(d, out). \<lparr>fail_dur = d, fail_out = out\<rparr>) (wr_Failures r)"
  let ?err = "if wr_Error r \<noteq> [] then Some (wr_Error r) else None"
  from commitServer [OF st(2) ts, of r now "wr_Duration r" ?fails ?err pf fl] obtain s1 s3 where
    s: "updTest (task_pkg ?task) (task_test ?task)
        (\<lambda>ts. ts\<lparr>ts_attempts := wr_Attempts r, ts_attrs := wr_Attrs r\<rparr>) id (f_srv f) = Some s1"
    "finishTestLocked now ?task (wr_Passed r) (wr_Duration r) ?fails ?err (wr_Cached r)
        (s1\<lparr>sv_cacheChecks := sv_cacheChecks s1 + wr_CacheChecks r,
            sv_cacheHits := sv_cacheHits s1 + (if wr_Cached r then 1 else 0),
            sv_historyPending := sv_historyPending s1
              @ map (\<lambda>ob. ob\<lparr>obs_Key := taskHistKey pf fl s1 ?task\<rparr>) (wr_History r)\<rparr>) = Some s3"
    and c: "committedSrv pf fl ?task r (f_srv f) s3" "serverOK s3" "sv_canceled s3 = sv_canceled (f_srv f)"
      "\<forall>p t. (p, t) \<noteq> task_id ?task \<longrightarrow> testOf s3 p t = testOf (f_srv f) p t" by blast
  let ?g = "\<lambda>w. w\<lparr>fw_Completed := fw_Completed w + 1, fw_Duration := fw_Duration w + wr_Duration r,
                 fw_Cached := fw_Cached w + (if wr_Cached r then 1 else 0),
                 fw_Failed := fw_Failed w + (if wr_Passed r then 0 else 1)\<rparr>"
  define f3 where "f3 = f\<lparr>f_done := f_done f + 1, f_work := (f_work f)[ti := (f_work f ! ti)\<lparr>ft_done := True\<rparr>],
    f_workers := (f_workers f)[wi := ?g (f_workers f ! wi)],
    f_infra := f_infra f @ (if wr_Infra r
         then [task_pkg ?task @ ''.'' @ task_test ?task @ '': '' @ wr_Error r] else []), f_srv := s3\<rparr>"
  have eq: "commitResult pf fl now wi ti r f = Some f3"
    using s by (simp add: commitResult_def Let_def updTask_def updWorker_def f3_def)
  have fr: "f_leases f3 = f_leases f" "f_nextID f3 = f_nextID f" "f_heap f3 = f_heap f" "f_srv f3 = s3"
    "f_work f3 = (f_work f)[ti := (f_work f ! ti)\<lparr>ft_done := True\<rparr>]" "f_done f3 = f_done f + 1"
    by (simp_all add: f3_def)
  have ws: "map fw_leases (f_workers f3) = map fw_leases (f_workers f)" "map fw_Connected (f_workers f3) = map fw_Connected (f_workers f)"
    by (simp_all add: f3_def map_list_update_same [of _ ?g])
  have "map_option ts_done (testOf s3 (task_pkg ?task) (task_test ?task)) = Some True"
    using c(1) by (auto simp: committedSrv_def)
  then have core: "leasesOK f3 \<and> copiesOK f3 \<and> statusOK f3"
    using c(2,4) by (intro coreOK_updTask_done [OF ok ti, of s3]) (simp_all add: fr ws)
  have "workersOK (updWorker wi ?g f)" using ok by (intro workersOK_updWorker) (simp_all add: fleetOK_def)
  then have "workersOK f3" unfolding workersOK_def updWorker_def f3_def by simp
  with core eq c(1,3) ws show ?thesis by (intro exI [of _ f3]) (simp add: f3_def)
qed

text \<open>What no result and no heartbeat changes.\<close>

definition sameShape :: "fleet \<Rightarrow> fleet \<Rightarrow> bool" where
  "sameShape f f' \<longleftrightarrow> map fw_Connected (f_workers f') = map fw_Connected (f_workers f)
     \<and> map ft_task (f_work f') = map ft_task (f_work f) \<and> f_nextID f' = f_nextID f
     \<and> f_stopped f' = f_stopped f \<and> f_ready f' = f_ready f"

lemma sameShape_refl [simp]: "sameShape f f"
  by (simp add: sameShape_def)

lemma sameShape_trans: "sameShape f g \<Longrightarrow> sameShape g h \<Longrightarrow> sameShape f h"
  by (simp add: sameShape_def)

lemma sameShape_len:
  assumes "sameShape f f'"
  shows "length (f_workers f') = length (f_workers f)" "length (f_work f') = length (f_work f)"
  using assms arg_cong [of _ _ length] unfolding sameShape_def by (metis length_map)+

lemma sameShape_connected:
  "sameShape f f' \<Longrightarrow> wi < length (f_workers f) \<Longrightarrow> fw_Connected (f_workers f' ! wi) = fw_Connected (f_workers f ! wi)"
proof -
  assume a: "sameShape f f'" "wi < length (f_workers f)"
  then have "map fw_Connected (f_workers f') ! wi = map fw_Connected (f_workers f) ! wi" by (simp add: sameShape_def)
  then show ?thesis using a sameShape_len(1) [OF a(1)] by simp
qed

lemma sameShape_drop: "sameShape f ((dropLeases X f)\<lparr>f_srv := s, f_cancels := c\<rparr>)"
  by (simp add: sameShape_def dropLeases_def comp_def)

lemma beats_shape: "beats wi f f' \<Longrightarrow> sameShape f f'"
  by (simp add: beats_def sameShape_def)

lemma fleetOK_frame [simp]:
  "fleetOK (f\<lparr>f_wake := b\<rparr>) = fleetOK f" "fleetOK (notify f) = fleetOK f"
  by (simp_all add: fleetOK_def coreOK_def notify_def)

lemma fleetOK_flags:
  "fleetOK f \<Longrightarrow> fleetOK (f\<lparr>f_srv := (f_srv f)\<lparr>sv_failFastTriggered := a, sv_canceled := b\<rparr>\<rparr>)"
proof -
  let ?s = "(f_srv f)\<lparr>sv_failFastTriggered := a, sv_canceled := b\<rparr>"
  assume "fleetOK f"
  moreover have "testOf ?s p t = testOf (f_srv f) p t" "serverOK ?s = serverOK (f_srv f)" for p t
    by (simp_all add: testOf_def serverOK_def)
  ultimately show ?thesis by (simp add: fleetOK_def coreOK_def statusOK_def)
qed

lemma committedSrv_flags:
  "committedSrv pf fl task r s s' \<Longrightarrow> committedSrv pf fl task r s (s'\<lparr>sv_failFastTriggered := a, sv_canceled := b\<rparr>)"
  by (simp add: committedSrv_def testOf_def)

lemma accept_commits:
  fixes f wi r
  defines "ti \<equiv> wl_work (lease f (wr_Lease r))"
  assumes ok: "fleetOK f" and wi: "wi < length (f_workers f)" and acc: "acceptable wi r f"
    and local: "\<not> (wr_Infra r \<and> fw_ID (f_workers f ! wi) \<noteq> ''leader'')"
  shows "\<exists>f'. accept pf fl now wi r f = Some f' \<and> fleetOK f' \<and> sameShape f f'
    \<and> ti < length (f_work f) \<and> f_done f' = f_done f + 1
    \<and> (\<forall>k < length (f_work f). ft_done (f_work f' ! k) = (ft_done (f_work f ! k) \<or> k = ti)
         \<and> ft_leases (f_work f' ! k) = (if k = ti then [] else ft_leases (f_work f ! k)))
    \<and> sv_canceled (f_srv f') = (failFast fl \<and> \<not> wr_Passed r)
    \<and> committedSrv pf fl (taskOf f ti) r (f_srv f) (f_srv f')
    \<and> f_infra f' = f_infra f @ (if wr_Infra r
         then [task_pkg (taskOf f ti) @ ''.'' @ task_test (taskOf f ti) @ '': '' @ wr_Error r] else [])"
proof -
  have lease: "wr_Lease r \<in> set (fw_leases (f_workers f ! wi))" using acc by (simp add: acceptable_def)
  have ti: "ti < length (f_work f)" using lease_of_worker(3) [OF ok wi lease] by (simp add: ti_def)
  from commit_returns [OF ok wi acc, of pf fl now] obtain f1 where
    f1: "commitResult pf fl now wi ti r f = Some f1" "leasesOK f1" "copiesOK f1" "statusOK f1" "workersOK f1"
    "f_work f1 = (f_work f)[ti := (f_work f ! ti)\<lparr>ft_done := True\<rparr>]" "f_done f1 = f_done f + 1"
    "f_leases f1 = f_leases f" "f_heap f1 = f_heap f" "f_nextID f1 = f_nextID f" "f_stopped f1 = f_stopped f" "f_ready f1 = f_ready f"
    "map fw_Connected (f_workers f1) = map fw_Connected (f_workers f)"
    "f_infra f1 = f_infra f @ (if wr_Infra r
         then [task_pkg (taskOf f ti) @ ''.'' @ task_test (taskOf f ti) @ '': '' @ wr_Error r] else [])"
    "sv_canceled (f_srv f1) = sv_canceled (f_srv f)" "committedSrv pf fl (taskOf f ti) r (f_srv f) (f_srv f1)"
    unfolding ti_def by blast
  let ?X = "set (ft_leases (f_work f1 ! ti))"
  have ti1: "ti < length (f_work f1)" using ti by (simp add: f1(6))
  from release_task [OF f1(2,4) ti1, of now] obtain s' c where
    rel: "foldO (removeLeaseLocked now) (ft_leases (f_work f1 ! ti)) f1 = Some ((dropLeases ?X f1)\<lparr>f_srv := s', f_cancels := c\<rparr>)"
    "srvSim (f_srv f1) s'" by blast
  define f2 where "f2 = (dropLeases ?X f1)\<lparr>f_srv := s', f_cancels := c\<rparr>"
  have X: "?X = set (ft_leases (f_work f ! ti))" using ti by (simp add: f1(6))
  have other: "filter (\<lambda>i. i \<notin> ?X) (ft_leases (f_work f ! k)) = ft_leases (f_work f ! k)"
    if "k < length (f_work f)" "k \<noteq> ti" for k
    using ok that ti unfolding X by (intro filter_True) (auto simp: fleetOK_def coreOK_def leasesOK_def)
  have work: "ft_done (f_work f2 ! k) = (ft_done (f_work f ! k) \<or> k = ti)
      \<and> ft_leases (f_work f2 ! k) = (if k = ti then [] else ft_leases (f_work f ! k))" if "k < length (f_work f)" for k
    using that ti other [OF that] by (cases "k = ti") (simp_all add: f2_def f1(6))
  have len2: "length (f_work f2) = length (f_work f)" by (simp add: f2_def f1(6))
  have "leasesOK f2" "copiesOK f2" "statusOK f2" "workersOK f2"
    unfolding f2_def using f1(2-5) statusOK_srvSim [OF statusOK_drop, of f1 ?X s'] rel(2)
    by (simp_all add: leasesOK_drop copiesOK_drop workersOK_drop)
  moreover have "doneOK f2" using ok work unfolding fleetOK_def coreOK_def doneOK_def len2 by auto
  ultimately have ok2: "fleetOK f2" by (simp add: fleetOK_def coreOK_def)
  have tasks: "map ft_task (f_work f1) = map ft_task (f_work f)"
    unfolding f1(6) by (rule map_list_update_same [of _ "\<lambda>t. t\<lparr>ft_done := True\<rparr>"]) simp
  have shape: "sameShape f f2"
    unfolding f2_def by (rule sameShape_trans [OF _ sameShape_drop]) (use f1(10-13) tasks in \<open>simp add: sameShape_def\<close>)
  have srv: "committedSrv pf fl (taskOf f ti) r (f_srv f) (f_srv f2)" "sv_canceled (f_srv f2) = False"
    using committedSrv_sim [OF f1(16), of s'] rel(2) f1(15) acc by (simp_all add: f2_def srvSim_def acceptable_def)
  define f3 where "f3 = (if failFast fl \<and> \<not> wr_Passed r
      then f2\<lparr>f_srv := (f_srv f2)\<lparr>sv_failFastTriggered := True, sv_canceled := True\<rparr>\<rparr> else f2)"
  have eq: "accept pf fl now wi r f = Some (notify f3)"
    using acc local f1(1) rel(1) unfolding accept_def Let_def ti_def acceptable_def f3_def f2_def by auto
  have "fleetOK f3" "sameShape f f3" "f_work f3 = f_work f2" "f_done f3 = f_done f + 1" "f_infra f3 = f_infra f2"
    "sv_canceled (f_srv f3) = (failFast fl \<and> \<not> wr_Passed r)" "committedSrv pf fl (taskOf f ti) r (f_srv f) (f_srv f3)"
    using ok2 fleetOK_flags [OF ok2] shape srv committedSrv_flags [OF srv(1)] f1(7)
    by (auto simp: f3_def sameShape_def f2_def)
  with eq work ti show ?thesis
    by (intro exI [of _ "notify f3"]) (simp add: sameShape_def notify_def f2_def f1(14))
qed

text \<open>Marking a worker and releasing its leases: nobody else's lease and no test status changes.\<close>

definition releasedBy :: "nat \<Rightarrow> fleet \<Rightarrow> fleet \<Rightarrow> bool" where
  "releasedBy wi f f' \<longleftrightarrow> fw_leases (f_workers f' ! wi) = []
     \<and> set (f_leases f') = set (f_leases f) - set (fw_leases (f_workers f ! wi))
     \<and> (\<forall>k < length (f_work f). ft_done (f_work f' ! k) = ft_done (f_work f ! k)
          \<and> ft_leases (f_work f' ! k) = filter (\<lambda>i. wl_worker (lease f i) \<noteq> wi) (ft_leases (f_work f ! k)))
     \<and> length (f_work f') = length (f_work f) \<and> f_done f' = f_done f \<and> srvSim (f_srv f) (f_srv f')"

lemma markAndRelease_effect:
  assumes ok: "fleetOK f" and wi: "wi < length (f_workers f)" and g: "\<And>w. fw_leases (g w) = fw_leases w"
  shows "\<exists>f'. foldO (removeLeaseLocked now) (fw_leases (f_workers f ! wi)) (updWorker wi g f) = Some f' \<and> fleetOK f'
    \<and> releasedBy wi f f' \<and> map ft_task (f_work f') = map ft_task (f_work f) \<and> f_nextID f' = f_nextID f
    \<and> f_stopped f' = f_stopped f \<and> f_ready f' = f_ready f
    \<and> map fw_Connected (f_workers f') = (map fw_Connected (f_workers f))[wi := fw_Connected (g (f_workers f ! wi))]
    \<and> fw_Error (f_workers f' ! wi) = fw_Error (g (f_workers f ! wi)) \<and> f_infra f' = f_infra f"
proof -
  let ?X = "set (fw_leases (f_workers f ! wi))"
  from markAndRelease [OF ok wi, of g now] g obtain s' c where
    f': "foldO (removeLeaseLocked now) (fw_leases (f_workers f ! wi)) (updWorker wi g f)
      = Some ((dropLeases ?X (updWorker wi g f))\<lparr>f_srv := s', f_cancels := c\<rparr>)"
    "fleetOK ((dropLeases ?X (updWorker wi g f))\<lparr>f_srv := s', f_cancels := c\<rparr>)" "srvSim (f_srv f) s'" by blast
  have w: "f_work (updWorker wi g f) = f_work f" "length (f_workers (updWorker wi g f)) = length (f_workers f)"
    "f_workers (updWorker wi g f) ! wi = g (f_workers f ! wi)" "f_leases (updWorker wi g f) = f_leases f"
    using wi by (simp_all add: updWorker_def)
  have "filter (\<lambda>i. i \<notin> ?X) (ft_leases (f_work f ! k)) = filter (\<lambda>i. wl_worker (lease f i) \<noteq> wi) (ft_leases (f_work f ! k))"
    if "k < length (f_work f)" for k
    using ok wi that by (intro filter_cong refl) (auto simp: fleetOK_def coreOK_def leasesOK_def)
  then have "releasedBy wi f ((dropLeases ?X (updWorker wi g f))\<lparr>f_srv := s', f_cancels := c\<rparr>)"
    using wi f'(3) by (auto simp: releasedBy_def w g updWorker_def filter_empty_conv)
  moreover have "map fw_Connected (f_workers (dropLeases ?X (updWorker wi g f)))
      = (map fw_Connected (f_workers f))[wi := fw_Connected (g (f_workers f ! wi))]"
    by (simp add: dropLeases_def updWorker_def comp_def map_update)
  moreover have "map ft_task (f_work (dropLeases ?X (updWorker wi g f))) = map ft_task (f_work f)"
    by (simp add: dropLeases_def updWorker_def comp_def)
  ultimately show ?thesis using f'(1,2) wi by (simp add: updWorker_def)
qed

lemma releasedBy_frame [simp]:
  "releasedBy wi f (notify f') = releasedBy wi f f'" "releasedBy wi f (f'\<lparr>f_wake := b\<rparr>) = releasedBy wi f f'"
  by (simp_all add: releasedBy_def notify_def)

lemma accept_helperError:
  assumes ok: "fleetOK f" and wi: "wi < length (f_workers f)" and acc: "acceptable wi r f"
    and helper: "wr_Infra r" "fw_ID (f_workers f ! wi) \<noteq> ''leader''"
  shows "\<exists>f'. accept pf fl now wi r f = Some f' \<and> fleetOK f' \<and> sameShape f f' \<and> releasedBy wi f f'
    \<and> fw_Error (f_workers f' ! wi) \<noteq> []"
proof -
  let ?g = "\<lambda>w. w\<lparr>fw_Error := (if wr_Error r = [] then ''helper execution error'' else wr_Error r)\<rparr>"
  from markAndRelease_effect [OF ok wi, of ?g now] obtain f' where
    f': "foldO (removeLeaseLocked now) (fw_leases (f_workers f ! wi)) (updWorker wi ?g f) = Some f'" "fleetOK f'"
    "releasedBy wi f f'" "map ft_task (f_work f') = map ft_task (f_work f)" "f_nextID f' = f_nextID f"
    "f_stopped f' = f_stopped f" "f_ready f' = f_ready f"
    "map fw_Connected (f_workers f') = (map fw_Connected (f_workers f))[wi := fw_Connected (f_workers f ! wi)]"
    "fw_Error (f_workers f' ! wi) = (if wr_Error r = [] then ''helper execution error'' else wr_Error r)"
    by auto
  have "accept pf fl now wi r f = Some (notify f')"
    using acc helper f'(1) by (auto simp: accept_def Let_def acceptable_def)
  moreover have "(map fw_Connected (f_workers f))[wi := fw_Connected (f_workers f ! wi)] = map fw_Connected (f_workers f)"
    using wi by (metis list_update_id nth_map)
  ultimately show ?thesis using f' by (intro exI [of _ "notify f'"]) (simp add: sameShape_def notify_def)
qed

lemma accept_OK:
  assumes "fleetOK f" and "wi < length (f_workers f)"
  shows "\<exists>f'. accept pf fl now wi r f = Some f' \<and> fleetOK f' \<and> sameShape f f'"
proof (cases "acceptable wi r f")
  case False
  then show ?thesis using accept_ignored assms(1) by simp
next
  case True
  then show ?thesis
    using accept_commits [OF assms True, of pf fl now] accept_helperError [OF assms True, of pf fl now] by blast
qed

lemma accepts_OK:
  assumes "fleetOK f" and "wi < length (f_workers f)"
  shows "\<exists>f'. foldO (accept pf fl now wi) rs f = Some f' \<and> fleetOK f' \<and> sameShape f f'"
  using assms
proof (induction rs arbitrary: f)
  case Nil
  then show ?case by simp
next
  case (Cons r rs)
  from accept_OK [OF Cons.prems, of pf fl now r] obtain f1 where
    f1: "accept pf fl now wi r f = Some f1" "fleetOK f1" "sameShape f f1" by blast
  with Cons.prems(2) have "wi < length (f_workers f1)" by (simp add: sameShape_len(1))
  from Cons.IH [OF f1(2) this] f1 show ?case by (auto intro: sameShape_trans)
qed

section \<open>Exchanges\<close>

lemma disconnect_OK:
  assumes "fleetOK f" and "wi < length (f_workers f)"
  shows "\<exists>f'. disconnect now wi err f = Some f' \<and> fleetOK f' \<and> releasedBy wi f f' \<and> \<not> fw_Connected (f_workers f' ! wi)
    \<and> length (f_workers f') = length (f_workers f)"
proof -
  let ?g = "\<lambda>w. w\<lparr>fw_Connected := False, fw_Left := now, fw_Error := (case err of Some e \<Rightarrow> e | None \<Rightarrow> fw_Error w)\<rparr>"
  from markAndRelease_effect [OF assms, of ?g now] obtain f' where
    f': "foldO (removeLeaseLocked now) (fw_leases (f_workers f ! wi)) (updWorker wi ?g f) = Some f'" "fleetOK f'"
    "releasedBy wi f f'" "map fw_Connected (f_workers f') = (map fw_Connected (f_workers f))[wi := False]"
    by auto
  have len: "length (f_workers f') = length (f_workers f)" using arg_cong [OF f'(4), of length] by simp
  have "map fw_Connected (f_workers f') ! wi = False" using assms(2) by (simp add: f'(4))
  then have "\<not> fw_Connected (f_workers f' ! wi)" using assms(2) len by simp
  moreover have "disconnect now wi err f = Some (notify f')"
    using f'(1) assms(2) by (simp add: disconnect_def Let_def updWorker_def)
  ultimately show ?thesis using f'(2,3) len by (simp add: notify_def)
qed

lemma seen_OK:
  assumes "fleetOK f" and "\<And>w. fw_leases (g w) = fw_leases w \<and> fw_Error (g w) = fw_Error w \<and> fw_Connected (g w) = fw_Connected w"
  shows "fleetOK (updWorker wi g f)" "sameShape f (updWorker wi g f)"
    "map fw_leases (f_workers (updWorker wi g f)) = map fw_leases (f_workers f)"
proof -
  show "fleetOK (updWorker wi g f)"
    using assms coreOK_updWorker [of f g wi] workersOK_updWorker [of f g wi] by (simp add: fleetOK_def)
  have "map fw_Connected (f_workers (updWorker wi g f)) = map fw_Connected (f_workers f)"
    unfolding updWorker_def using assms(2) by (simp add: map_list_update_same [of fw_Connected g])
  then show "sameShape f (updWorker wi g f)" by (simp add: sameShape_def updWorker_def)
  show "map fw_leases (f_workers (updWorker wi g f)) = map fw_leases (f_workers f)"
    unfolding updWorker_def using assms(2) by (simp add: map_list_update_same [of fw_leases g])
qed

lemma exchange_OK:
  assumes ok: "fleetOK f" and wi: "wi < length (f_workers f)" and conn: "fw_Connected (f_workers f ! wi)"
    and id: "f_nextID f + 10 < 2 ^ 64"
  shows "\<exists>res f' f3. exchange pf fl now wi req f = Some (res, f') \<and> fleetOK f' \<and> fleetOK f3 \<and> sameShape f f3 \<and> leasedMore wi f3 f'
    \<and> rs_Cancel res = map fst (filter (\<lambda>e. fst e \<notin> set (fw_leases (f_workers f3 ! wi))) (rq_Active req))
    \<and> map ww_Lease (rev (rs_Work res)) @ fw_leases (f_workers f3 ! wi) = fw_leases (f_workers f' ! wi)
    \<and> int (length (rs_Work res)) \<le> max 0 (min 10 (fw_Slots (f_workers f3 ! wi) + 10 - int (length (fw_leases (f_workers f3 ! wi)))))
    \<and> f_nextID f' \<le> f_nextID f + length (rs_Work res)"
proof -
  from accepts_OK [OF ok wi, of pf fl now "rq_Results req"] obtain f1 where
    f1: "foldO (accept pf fl now wi) (rq_Results req) f = Some f1" "fleetOK f1" "sameShape f f1" by blast
  define f2 where "f2 = updWorker wi (\<lambda>w. w\<lparr>fw_LastSeen := now,
      fw_binaries := fold List.insert (rq_Binaries req) (fw_binaries w)\<rparr>) f1"
  have f2: "fleetOK f2" "sameShape f f2" unfolding f2_def
    by (rule seen_OK [OF f1(2)], simp, rule sameShape_trans [OF f1(3) seen_OK(2) [OF f1(2)]], simp)
  have wi2: "wi < length (f_workers f2)" using wi sameShape_len(1) [OF f2(2)] by simp
  from reports_OK [OF f2(1) wi2, of now "rq_Active req" "[]"] obtain f3 where
    f3: "foldO (reportActive now wi) (rq_Active req) ([], f2)
      = Some (map fst (filter (\<lambda>e. fst e \<notin> set (fw_leases (f_workers f2 ! wi))) (rq_Active req)), f3)"
    "fleetOK f3" "beats wi f2 f3" by auto
  have w3: "f_workers f3 = f_workers f2" using f3(3) by (simp add: beats_def)
  have shape: "sameShape f f3" by (rule sameShape_trans [OF f2(2) beats_shape [OF f3(3)]])
  have wi3: "wi < length (f_workers f3)" "fw_Connected (f_workers f3 ! wi)"
    using wi2 w3 sameShape_connected [OF shape wi] conn by simp_all
  define isDone where "isDone = (f_stopped f3 \<or> sv_canceled (f_srv f3) \<or> f_ready f3 \<and> allFinished f3)"
  define lim where "lim = min workerBatchLimit (fw_Slots (f_workers f3 ! wi) + workerBatchLimit - int (length (fw_leases (f_workers f3 ! wi))))"
  obtain work f4 where a: "(if \<not> isDone \<and> fw_Error (f_workers f3 ! wi) = [] then assignLocked fl wi lim now f3 else ([], f3)) = (work, f4)"
    by fastforce
  have "nat lim \<le> 10" by (simp add: lim_def workerBatchLimit_def)
  with id shape have "f_nextID f3 + nat lim < 2 ^ 64" by (simp add: sameShape_def)
  from assignLocked_OK [OF f3(2) wi3 this, of fl now] a have
    a': "fleetOK f4 \<and> leasedMore wi f3 f4 \<and> length work \<le> nat lim \<and> f_nextID f4 \<le> f_nextID f3 + length work
       \<and> map ww_Lease (rev work) @ fw_leases (f_workers f3 ! wi) = fw_leases (f_workers f4 ! wi)"
    using f3(2) by (auto simp: leasedMore_refl split: if_splits)
  have "exchange pf fl now wi req f
      = Some (\<lparr>rs_Work = work, rs_Cancel = map fst (filter (\<lambda>e. fst e \<notin> set (fw_leases (f_workers f2 ! wi))) (rq_Active req)),
               rs_Done = isDone, rs_Error = fw_Error (f_workers f3 ! wi)\<rparr>, f4)"
    unfolding exchange_def f1(1) option.case Let_def f2_def [symmetric] f3(1) prod.case isDone_def [symmetric]
      lim_def [symmetric] a by (rule refl)
  moreover have "int (length work) \<le> max 0 (min 10 (fw_Slots (f_workers f3 ! wi) + 10 - int (length (fw_leases (f_workers f3 ! wi)))))"
  proof -
    have "int (length work) \<le> max 0 lim" using a' by linarith
    then show ?thesis by (simp add: lim_def workerBatchLimit_def)
  qed
  moreover have "f_nextID f4 \<le> f_nextID f + length work" using a' shape by (simp add: sameShape_def)
  ultimately show ?thesis using f3(2) a' shape by (simp, intro exI [of _ f3], simp add: w3)
qed

section \<open>The run\<close>

lemma localAssign_OK:
  assumes ok: "fleetOK f" and wi: "wi < length (f_workers f)" "fw_Connected (f_workers f ! wi)" and id: "f_nextID f + 1 < 2 ^ 64"
  shows "\<exists>work f'. localAssign fl now wi f = Some (work, f') \<and> fleetOK f'
    \<and> (\<forall>i task. work = Some (i, task) \<longrightarrow> i \<in> set (fw_leases (f_workers f' ! wi)) \<and> task = taskOf f' (wl_work (lease f' i)))"
proof (cases "f_stopped f \<or> sv_canceled (f_srv f) \<or> allFinished f")
  case True
  then show ?thesis using ok by (simp add: localAssign_def)
next
  case False
  obtain batch f1 where a: "assignLocked fl wi 1 now f = (batch, f1)" by fastforce
  from assignLocked_OK [OF ok wi _ a] id have
    a': "fleetOK f1" "leasedMore wi f f1" "map ww_Lease (rev batch) @ fw_leases (f_workers f ! wi) = fw_leases (f_workers f1 ! wi)"
    by auto
  show ?thesis
  proof (cases batch)
    case Nil
    with a False a'(1) show ?thesis by (simp add: localAssign_def)
  next
    case (Cons b bs)
    let ?l = "lease f1 (ww_Lease b)"
    let ?l' = "?l\<lparr>wl_cancel := True, wl_state := ''running'', wl_started := now\<rparr>"
    have wi1: "wi < length (f_workers f1)" using a'(2) wi(1) by (simp add: leasedMore_def)
    have b: "ww_Lease b \<in> set (fw_leases (f_workers f1 ! wi))"
      using arg_cong [OF a'(3), of set] Cons by auto
    note own = lease_of_worker [OF a'(1) wi1 b]
    from setLease_returns [OF a'(1) own(1), of ?l' now wi] own(4) obtain f2 where
      f2: "updateRunningLocked now (wl_work ?l) (f1\<lparr>f_heap := AList.update (ww_Lease b) ?l' (f_heap f1)\<rparr>) = Some f2"
      "fleetOK f2" "beats wi f1 f2" by auto
    have "localAssign fl now wi f = Some (Some (ww_Lease b, taskOf f1 (wl_work ?l)), f2)"
      using False a Cons f2(1) own(4) by (simp add: localAssign_def Let_def)
    then show ?thesis using f2(2,3) b by (auto simp: beats_def)
  qed
qed

text \<open>The tasks given to \<open>run\<close>: known, not yet done, and each once.\<close>

definition runnable :: "testTask list \<Rightarrow> Server \<Rightarrow> bool" where
  "runnable tasks s \<longleftrightarrow> distinct (map task_id tasks)
     \<and> (\<forall>task \<in> set tasks. map_option ts_done (testOf s (task_pkg task) (task_test task)) = Some False)"

lemma startRun_OK:
  assumes ok: "fleetOK f" and new: "\<not> f_ready f" "\<not> f_stopped f" and tasks: "runnable tasks (f_srv f)"
  shows "fleetOK (startRun fl now tasks f)" and "map ft_task (f_work (startRun fl now tasks f))
      = map ft_task (SortFunc compareEstimates (map (\<lambda>task. \<lparr>ft_task = task, ft_estimate = estimateOf (f_srv f) task,
          ft_done = False, ft_leases = []\<rparr>) tasks))"
proof -
  have none: "f_work f = []" "f_leases f = []" "f_done f = 0" "serverOK (f_srv f)"
    using ok new(1) by (auto simp: fleetOK_def coreOK_def workersOK_def statusOK_def leasesOK_def)
  let ?new = "map (\<lambda>task. \<lparr>ft_task = task, ft_estimate = estimateOf (f_srv f) task, ft_done = False, ft_leases = []\<rparr>) tasks"
  define f1 where "f1 = updWorker (length (f_workers f)) (\<lambda>w. w\<lparr>fw_binaries :=
      fold (\<lambda>task. List.insert (binHash (absBin (task_bin task)))) tasks (fw_binaries w)\<rparr>)
      (addWorker now ''local'' (jobs fl) True f)"
  have ok1: "fleetOK f1" unfolding f1_def by (rule seen_OK(1) [OF fleetOK_addWorker [OF ok]]) simp
  have f1: "f_work f1 = []" "f_leases f1 = []" "f_done f1 = 0" "f_srv f1 = f_srv f" "f_stopped f1 = f_stopped f" "f_nextID f1 = f_nextID f"
    "f_heap f1 = f_heap f"
    by (simp_all add: f1_def updWorker_def addWorker_def none)
  let ?srv = "(f_srv f1)\<lparr>sv_testSchedule := map (\<lambda>t. taskKey (task_pkg (ft_task t)) (task_test (ft_task t)))
      (SortFunc compareEstimates ?new)\<rparr>"
  let ?f = "f1\<lparr>f_work := SortFunc compareEstimates ?new, f_ready := True, f_srv := ?srv\<rparr>"
  have eq: "startRun fl now tasks f = ?f"
    by (simp add: startRun_def Let_def f1_def none updWorker_def addWorker_def)
  have nth: "ft_done (SortFunc compareEstimates ?new ! k) = False \<and> ft_leases (SortFunc compareEstimates ?new ! k) = []
      \<and> ft_task (SortFunc compareEstimates ?new ! k) \<in> set tasks" if "k < length tasks" for k
    using nth_mem [of k "SortFunc compareEstimates ?new"] that by auto
  have "leasesOK ?f"
    using ok1 nth by (simp add: fleetOK_def coreOK_def leasesOK_def f1)
  moreover have "copiesOK ?f" "doneOK ?f" using nth by (simp_all add: copiesOK_def doneOK_def)
  moreover have "statusOK ?f"
    unfolding statusOK_def
  proof (intro conjI allI impI)
    have test: "testOf ?srv p t = testOf (f_srv f) p t" for p t by (simp add: testOf_def f1)
    fix k assume "k < length (f_work ?f)"
    then have "ft_task (SortFunc compareEstimates ?new ! k) \<in> set tasks" "ft_done (SortFunc compareEstimates ?new ! k) = False"
      using nth by simp_all
    with tasks show "map_option ts_done (statusOf ?f k) = Some (ft_done (f_work ?f ! k))"
      by (simp add: runnable_def test)
  next
    show "distinct (map (\<lambda>t. task_id (ft_task t)) (f_work ?f))"
      using tasks by (simp add: runnable_def comp_def)
    have "filter ft_done (SortFunc compareEstimates ?new) = []" by (auto simp: filter_empty_conv)
    then show "f_done ?f = length (filter ft_done (f_work ?f))" by (simp add: f1)
    show "serverOK (f_srv ?f)" using none(4) by (simp add: f1 serverOK_def)
  qed
  moreover have "workersOK ?f" using ok1 by (simp add: fleetOK_def workersOK_def f1)
  ultimately show "fleetOK (startRun fl now tasks f)" by (simp add: eq fleetOK_def coreOK_def)
  show "map ft_task (f_work (startRun fl now tasks f)) = map ft_task (SortFunc compareEstimates ?new)" by (simp add: eq)
qed

lemma stopRun_OK:
  assumes "fleetOK f"
  shows "\<exists>f'. stopRun now f = Some f' \<and> fleetOK f' \<and> f_leases f' = [] \<and> f_stopped f'
    \<and> f_done f' = f_done f \<and> f_infra f' = f_infra f \<and> srvSim (f_srv f) (f_srv f')
    \<and> map ft_task (f_work f') = map ft_task (f_work f)"
proof -
  have core: "coreOK (f\<lparr>f_stopped := True\<rparr>)" using assms by (simp add: fleetOK_def coreOK_def)
  from release_all [OF core, of now] obtain s' c where
    r: "stopRun now f = Some ((dropLeases (set (f_leases f)) (f\<lparr>f_stopped := True\<rparr>))\<lparr>f_srv := s', f_cancels := c\<rparr>)"
    "srvSim (f_srv f) s'" by (auto simp: stopRun_def)
  let ?f = "(dropLeases (set (f_leases f)) (f\<lparr>f_stopped := True\<rparr>))\<lparr>f_srv := s', f_cancels := c\<rparr>"
  have ok: "coreOK ?f" using coreOK_drop [OF core, of s'] r(2) by simp
  have empty: "f_leases ?f = []" by (simp add: filter_empty_conv)
  have "workersOK (dropLeases (set (f_leases f)) f)" using assms workersOK_drop by (simp add: fleetOK_def)
  then have "workersOK ((dropLeases (set (f_leases f)) f)\<lparr>f_stopped := True\<rparr>)"
    unfolding workersOK_def by (simp add: filter_empty_conv)
  moreover have "dropLeases X (f\<lparr>f_stopped := True\<rparr>) = (dropLeases X f)\<lparr>f_stopped := True\<rparr>" for X by (simp add: dropLeases_def)
  ultimately have "workersOK ?f" by simp
  with ok have "fleetOK ?f" unfolding fleetOK_def by blast
  moreover have "map ft_task (f_work ?f) = map ft_task (f_work f)" by (simp add: dropLeases_def comp_def)
  ultimately show ?thesis using r empty by (intro exI [of _ ?f]) simp
qed

section \<open>Runs of the leader\<close>

text \<open>
  Each step holds \<open>Server.mu\<close> once. An \<open>exchange\<close> that delivers results is a sequence of \<open>result\<close> steps
  and an exchange without results, so other workers' steps between them are covered too. Lease IDs
  are 64-bit; the steps that give leases assume that the next ten IDs have not been used up.
\<close>

inductive fleet_step :: "platform \<Rightarrow> flags \<Rightarrow> fleet \<Rightarrow> fleet \<Rightarrow> bool" for pf :: platform and fl :: flags where
  join: "fleet_step pf fl f (addWorker now name slots False f)"
| start: "\<not> f_ready f \<Longrightarrow> \<not> f_stopped f \<Longrightarrow> runnable tasks (f_srv f) \<Longrightarrow> fleet_step pf fl f (startRun fl now tasks f)"
| exchange: "wi < length (f_workers f) \<Longrightarrow> fw_Connected (f_workers f ! wi) \<Longrightarrow> f_nextID f + 10 < 2 ^ 64
    \<Longrightarrow> exchange pf fl now wi req f = Some (res, f') \<Longrightarrow> fleet_step pf fl f f'"
| assign: "wi < length (f_workers f) \<Longrightarrow> fw_Connected (f_workers f ! wi) \<Longrightarrow> f_nextID f + 10 < 2 ^ 64
    \<Longrightarrow> localAssign fl now wi f = Some (work, f') \<Longrightarrow> fleet_step pf fl f f'"
| result: "wi < length (f_workers f) \<Longrightarrow> accept pf fl now wi r f = Some f' \<Longrightarrow> fleet_step pf fl f f'"
| leave: "wi < length (f_workers f) \<Longrightarrow> disconnect now wi err f = Some f' \<Longrightarrow> fleet_step pf fl f f'"
| cancel: "fleet_step pf fl f (f\<lparr>f_srv := (f_srv f)\<lparr>sv_canceled := True\<rparr>\<rparr>)"
| stop: "stopRun now f = Some f' \<Longrightarrow> fleet_step pf fl f f'"
| shutdown: "\<not> f_ready f \<or> f_stopped f \<Longrightarrow> fleet_step pf fl f (f\<lparr>f_stopped := True\<rparr>)"

inductive_cases fleet_stepE: "fleet_step pf fl f f'"

definition fleet_start :: "fleet \<Rightarrow> bool" where
  "fleet_start f \<longleftrightarrow> (\<exists>s. serverOK s \<and> f = newFleet s)"

abbreviation fleet_reach :: "platform \<Rightarrow> flags \<Rightarrow> fleet \<Rightarrow> bool" where
  "fleet_reach pf fl \<equiv> reach fleet_start (fleet_step pf fl)"

lemma fleetOK_new: "serverOK s \<Longrightarrow> fleetOK (newFleet s)"
  by (simp add: newFleet_def fleetOK_def coreOK_def leasesOK_def copiesOK_def doneOK_def statusOK_def workersOK_def)

lemma fleetOK_cancel: "fleetOK f \<Longrightarrow> fleetOK (f\<lparr>f_srv := (f_srv f)\<lparr>sv_canceled := True\<rparr>\<rparr>)"
  using fleetOK_flags [of f True "sv_failFastTriggered (f_srv f)"] by simp

text \<open>\<open>shutdown\<close> runs when \<open>Run\<close> returns: \<open>run\<close> was not started, or it has stopped.\<close>

lemma fleetOK_stopped:
  assumes "fleetOK f" "\<not> f_ready f \<or> f_stopped f"
  shows "fleetOK (f\<lparr>f_stopped := True\<rparr>)"
proof -
  have "f_leases f = []"
  proof (cases "f_stopped f")
    case False
    then have "f_work f = []" using assms by (simp add: fleetOK_def workersOK_def)
    moreover have "\<forall>i \<in> set (f_leases f). wl_work (lease f i) < length (f_work f)"
      using assms(1) by (simp add: fleetOK_def coreOK_def leasesOK_def)
    ultimately show ?thesis by (cases "f_leases f") auto
  qed (use assms in \<open>simp add: fleetOK_def workersOK_def\<close>)
  with assms(1) show ?thesis
    unfolding fleetOK_def coreOK_def leasesOK_def copiesOK_def doneOK_def statusOK_def workersOK_def by simp
qed

lemma fleetOK_step:
  assumes "fleetOK f" and "fleet_step pf fl f f'"
  shows "fleetOK f'"
  using assms(2)
proof (cases rule: fleet_step.cases)
  case (exchange wi now req res)
  then show ?thesis using exchange_OK [OF assms(1), of wi pf fl now req] by auto
next
  case (assign wi now work)
  then show ?thesis using localAssign_OK [OF assms(1), of wi fl now] by auto
next
  case (result wi now r)
  then show ?thesis using accept_OK [OF assms(1), of wi pf fl now r] by auto
next
  case (leave wi now err)
  then show ?thesis using disconnect_OK [OF assms(1), of wi now err] by auto
next
  case (stop now)
  then show ?thesis using stopRun_OK [OF assms(1), of now] by auto
qed (simp_all add: assms(1) fleetOK_addWorker startRun_OK(1) fleetOK_cancel fleetOK_stopped)

interpretation fleet_run: invariant_system fleet_start "fleet_step pf fl" fleetOK for pf fl
  by unfold_locales (auto simp: fleet_start_def fleetOK_new intro: fleetOK_step)

section \<open>What runs next\<close>

lemma nextFresh_found:
  assumes "n < 5"
  shows "nextFresh w ps (Some p) n = Some (case find (\<lambda>(i, t). affine w (snd p) t) (take (5 - n) (filter (\<lambda>(i, t). fresh t) ps)) of
      Some q \<Rightarrow> fst q | None \<Rightarrow> fst p)"
  using assms
proof (induction ps arbitrary: n)
  case Nil
  then show ?case by simp
next
  case (Cons q ps)
  obtain i t where q: "q = (i, t)" by fastforce
  show ?case
  proof (cases "fresh t \<and> \<not> affine w (snd p) t")
    case False
    with Cons show ?thesis by (cases "5 - n") (auto simp: q Let_def)
  next
    case True
    show ?thesis
    proof (cases "Suc n = 5")
      case last: True
      then have "5 - n = 1" by simp
      with True last show ?thesis by (simp add: q Let_def)
    next
      case last: False
      with Cons.prems have "Suc n < 5" "5 - n = Suc (5 - Suc n)" by simp_all
      with True last Cons.IH [of "Suc n"] show ?thesis by (simp add: q Let_def)
    qed
  qed
qed

lemma nextFresh_spec:
  "nextFresh w ps None 0 = (case filter (\<lambda>(i, t). fresh t) ps of [] \<Rightarrow> None
     | p # fs \<Rightarrow> Some (case find (\<lambda>(i, t). affine w (snd p) t) (take 5 (p # fs)) of Some q \<Rightarrow> fst q | None \<Rightarrow> fst p))"
proof (induction ps)
  case Nil
  then show ?case by simp
next
  case (Cons q ps)
  obtain i t where q: "q = (i, t)" by fastforce
  show ?case
  proof (cases "fresh t")
    case False
    with Cons show ?thesis by (simp add: q)
  next
    case True
    then show ?thesis using nextFresh_found [of 1 w ps "(i, t)"] by (simp add: q Let_def)
  qed
qed

section \<open>The outcome\<close>

lemma serverOK_failed:
  assumes "serverOK s"
  shows "sum_list (map (\<lambda>(pkg, ps). ps_numFails ps) (sv_pkgs s)) = 0
    \<longleftrightarrow> (\<forall>pkg test ts. testOf s pkg test = Some ts \<longrightarrow> ts_done ts \<longrightarrow> ts_passed ts)"
proof -
  have keys: "distinct (map fst (sv_pkgs s))" using assms by (simp add: serverOK_def gomap_ok_def)
  then have ok: "pkgOK ps" if "(pkg, ps) \<in> set (sv_pkgs s)" for pkg ps
    using assms that by (auto simp: serverOK_def)
  have "sum_list (map (\<lambda>(pkg, ps). ps_numFails ps) (sv_pkgs s)) = 0 \<longleftrightarrow> (\<forall>(pkg, ps) \<in> set (sv_pkgs s). ps_numFails ps = 0)"
    using ok by (subst sum_list_nonneg_eq_0_iff) (auto simp: pkgOK_def)
  also have "\<dots> \<longleftrightarrow> (\<forall>(pkg, ps) \<in> set (sv_pkgs s). \<forall>test ts. map_of (testsOf ps) test = Some ts \<longrightarrow> ts_done ts \<longrightarrow> ts_passed ts)"
  proof -
    have "ps_numFails ps = 0 \<longleftrightarrow> (\<forall>test ts. map_of (testsOf ps) test = Some ts \<longrightarrow> ts_done ts \<longrightarrow> ts_passed ts)" if "pkgOK ps" for ps
      using that by (auto simp: pkgOK_def failedTests_def filter_empty_conv gomap_ok_def case_prod_beta)
    with ok show ?thesis by fastforce
  qed
  also have "\<dots> \<longleftrightarrow> (\<forall>pkg test ts. testOf s pkg test = Some ts \<longrightarrow> ts_done ts \<longrightarrow> ts_passed ts)"
    using keys by (fastforce simp: testOf_def split: option.splits)
  finally show ?thesis .
qed

lemma verdict_cong:
  "map_option (\<lambda>ts. (ts_done ts, ts_passed ts)) x = map_option (\<lambda>ts. (ts_done ts, ts_passed ts)) y
    \<Longrightarrow> (\<forall>ts. x = Some ts \<longrightarrow> ts_done ts \<longrightarrow> ts_passed ts) \<longleftrightarrow> (\<forall>ts. y = Some ts \<longrightarrow> ts_done ts \<longrightarrow> ts_passed ts)"
  by (cases x; cases y) auto

lemma runResult_None:
  assumes "serverOK (f_srv f)"
  shows "runResult f = None \<longleftrightarrow> f_infra f = [] \<and> \<not> sv_canceled (f_srv f)
    \<and> (\<forall>pkg test ts. testOf (f_srv f) pkg test = Some ts \<longrightarrow> ts_done ts \<longrightarrow> ts_passed ts)"
  using serverOK_failed [OF assms] by (auto simp: runResult_def Let_def)

lemma allFinished_done:
  assumes "statusOK f" and "allFinished f" and "ti < length (f_work f)"
  shows "map_option ts_done (statusOf f ti) = Some True"
proof -
  have "length (filter ft_done (f_work f)) = length (f_work f)" using assms(1,2) by (simp add: statusOK_def allFinished_def)
  then have "\<forall>t \<in> set (f_work f). ft_done t" by (metis length_filter_less nat_less_le)
  then show ?thesis using assms(1,3) by (simp add: statusOK_def)
qed

section \<open>A small run for the examples\<close>

definition sampleStarted :: fleet where
  "sampleStarted = startRun sampleFlags 5 [sampleTask ''TestA'', sampleTask ''TestB'']
     (addWorker 4 ''vm'' 1 False (newFleet sampleServer))"

definition emptyRequest :: workerRequest where
  "emptyRequest = \<lparr>rq_Active = [], rq_Binaries = [], rq_Results = []\<rparr>"

definition sampleFleet :: fleet where
  "sampleFleet = (case exchange samplePlatform sampleFlags 6 0 emptyRequest sampleStarted of Some (res, f) \<Rightarrow> f | None \<Rightarrow> sampleStarted)"

definition sampleResult :: workerResult where
  "sampleResult = (infraResult [])\<lparr>wr_Lease := 1, wr_Passed := True, wr_Attempts := 1, wr_Infra := False\<rparr>"

lemma sampleStarted_reach: "fleet_reach samplePlatform sampleFlags sampleStarted"
proof -
  have "fleet_reach samplePlatform sampleFlags (newFleet sampleServer)"
    using sampleServer_OK by (intro reach_start) (auto simp: fleet_start_def)
  then have "fleet_reach samplePlatform sampleFlags (addWorker 4 ''vm'' 1 False (newFleet sampleServer))"
    by (rule reach_step) (rule join)
  then show ?thesis unfolding sampleStarted_def
  proof (rule reach_step, intro fleet_step.start)
    show "runnable [sampleTask ''TestA'', sampleTask ''TestB''] (f_srv (addWorker 4 ''vm'' 1 False (newFleet sampleServer)))"
      by (simp add: runnable_def sampleTask_def addWorker_def newFleet_def sampleServer_def testOf_def samplePackage_def
          testsOf_def zeroTestStatus_def)
  qed (simp_all add: addWorker_def newFleet_def)
qed

lemma sampleFleet_facts:
  "exchange samplePlatform sampleFlags 6 0 emptyRequest sampleStarted \<noteq> None"
  "length (f_workers sampleStarted) = 2" "fw_Connected (f_workers sampleStarted ! 0)" "f_nextID sampleStarted = 0"
  "length (f_workers sampleFleet) = 2"
  "fw_Connected (f_workers sampleFleet ! 0)" "f_nextID sampleFleet = 2" "fw_leases (f_workers sampleFleet ! 0) = [2, 1]"
  "wl_work (lease sampleFleet 1) = 0" "\<not> ft_done (f_work sampleFleet ! 0)" "\<not> f_stopped sampleFleet"
  "\<not> sv_canceled (f_srv sampleFleet)" "task_test (taskOf sampleFleet 0) = ''TestA''" "length (f_work sampleFleet) = 2"
  by code_simp+

lemma sampleFleet_reach: "fleet_reach samplePlatform sampleFlags sampleFleet"
proof -
  obtain res f where e: "exchange samplePlatform sampleFlags 6 0 emptyRequest sampleStarted = Some (res, f)"
    using sampleFleet_facts(1) by auto
  then have "f = sampleFleet" by (simp add: sampleFleet_def)
  with e have "fleet_step samplePlatform sampleFlags sampleStarted sampleFleet"
    using sampleFleet_facts(2-4) by (intro fleet_step.exchange [of 0]) simp_all
  with sampleStarted_reach show ?thesis by (rule reach_step)
qed

definition sampleFinished :: fleet where
  "sampleFinished = (case foldO (accept samplePlatform sampleFlags 9 0) [sampleResult, sampleResult\<lparr>wr_Lease := 2\<rparr>] sampleFleet of
     Some f \<Rightarrow> f | None \<Rightarrow> sampleFleet)"

lemma sampleFinished_facts:
  "foldO (accept samplePlatform sampleFlags 9 0) [sampleResult, sampleResult\<lparr>wr_Lease := 2\<rparr>] sampleFleet \<noteq> None"
  "allFinished sampleFinished" "runResult (the (stopRun 10 sampleFinished)) = None" "length (f_work sampleFinished) = 2"
  by code_simp+

lemma results_reach:
  assumes "fleet_reach pf fl f" and "foldO (accept pf fl now wi) rs f = Some f'" and "wi < length (f_workers f)"
  shows "fleet_reach pf fl f'"
  using assms
proof (induction rs arbitrary: f)
  case (Cons r rs)
  then obtain f1 where f1: "accept pf fl now wi r f = Some f1" "foldO (accept pf fl now wi) rs f1 = Some f'"
    by (auto split: option.splits)
  have reach1: "fleet_reach pf fl f1" by (rule reach_step [OF Cons.prems(1)]) (rule result [OF Cons.prems(3) f1(1)])
  have "sameShape f f1" using accept_OK [OF fleet_run.reach_inv [OF Cons.prems(1)] Cons.prems(3), of pf fl now r] f1(1) by auto
  then have "wi < length (f_workers f1)" using Cons.prems(3) by (simp add: sameShape_len(1))
  with Cons.IH [OF reach1 f1(2)] show ?case .
qed simp

lemma sampleFinished_reach: "fleet_reach samplePlatform sampleFlags sampleFinished"
proof -
  obtain f where f: "foldO (accept samplePlatform sampleFlags 9 0) [sampleResult, sampleResult\<lparr>wr_Lease := 2\<rparr>] sampleFleet = Some f"
    using sampleFinished_facts(1) by blast
  then have "f = sampleFinished" by (simp only: sampleFinished_def option.case)
  with results_reach [OF sampleFleet_reach f] sampleFleet_facts(5) show ?thesis by simp
qed

section \<open>Properties\<close>

text \<open>
  C5. In every state a distributed run can reach, the three maps of leases agree: a live lease is
  in the entry of exactly its worker and of exactly its task. A task has at most two live leases,
  never two on one worker, and none once it is done; it is done exactly when its test's status is;
  \<open>done\<close> counts the finished tasks; and a stopped fleet has no leases.
\<close>

theorem fleet_leases_consistent:
  assumes "fleet_reach pf fl f"
  shows "(\<forall>i \<in> set (f_leases f). wl_worker (lease f i) < length (f_workers f) \<and> wl_work (lease f i) < length (f_work f))
    \<and> (\<forall>wi < length (f_workers f). set (fw_leases (f_workers f ! wi)) = {i \<in> set (f_leases f). wl_worker (lease f i) = wi})
    \<and> (\<forall>ti < length (f_work f). set (ft_leases (f_work f ! ti)) = {i \<in> set (f_leases f). wl_work (lease f i) = ti}
         \<and> card (set (ft_leases (f_work f ! ti))) \<le> 2 \<and> inj_on (\<lambda>i. wl_worker (lease f i)) (set (ft_leases (f_work f ! ti)))
         \<and> (ft_done (f_work f ! ti) \<longrightarrow> ft_leases (f_work f ! ti) = [])
         \<and> map_option ts_done (statusOf f ti) = Some (ft_done (f_work f ! ti)))
    \<and> f_done f = length (filter ft_done (f_work f)) \<and> (f_stopped f \<longrightarrow> f_leases f = [])"
proof -
  have "fleetOK f" by (rule fleet_run.reach_inv [OF assms])
  then show ?thesis
    unfolding fleetOK_def coreOK_def leasesOK_def copiesOK_def doneOK_def statusOK_def workersOK_def
    by (meson card_length le_trans)
qed

theorem fleet_leases_consistent_witness:
  "set (fw_leases (f_workers sampleFleet ! 0)) = {i \<in> set (f_leases sampleFleet). wl_worker (lease sampleFleet i) = 0}"
  using fleet_leases_consistent [OF sampleFleet_reach] sampleFleet_facts(5) by simp

text \<open>
  C22. The leader never panics: in every reachable state and for every connected worker, delivering
  any result, losing the worker, exchanging any request, giving out work locally and stopping the
  run all return (the lease IDs not being used up), whatever the helper sends.
\<close>

theorem fleet_never_panics:
  assumes "fleet_reach pf fl f" and "wi < length (f_workers f)" and "fw_Connected (f_workers f ! wi)"
    and "f_nextID f + 10 < 2 ^ 64"
  shows "accept pf fl now wi r f \<noteq> None \<and> disconnect now wi err f \<noteq> None \<and> exchange pf fl now wi req f \<noteq> None
    \<and> localAssign fl now wi f \<noteq> None \<and> stopRun now f \<noteq> None"
proof -
  have ok: "fleetOK f" by (rule fleet_run.reach_inv [OF assms(1)])
  show ?thesis
    using accept_OK [OF ok assms(2), of pf fl now r] disconnect_OK [OF ok assms(2), of now err]
      exchange_OK [OF ok assms(2-4), of pf fl now req] localAssign_OK [OF ok assms(2,3), of fl now] assms(4)
      stopRun_OK [OF ok, of now] by auto
qed

theorem fleet_never_panics_witness:
  "accept samplePlatform sampleFlags 9 0 sampleResult sampleFleet \<noteq> None"
  using fleet_never_panics [OF sampleFleet_reach, of 0 9 sampleResult] sampleFleet_facts(5-7) by simp

text \<open>
  C4. The first result of a live lease is committed, and only that one. \<open>accept\<close> marks the task done,
  counts it, gives its test the verdict of the result and no other test any, appends the result's
  observations under the leader's own history key, and releases every lease of the task, so that a
  result that arrives later under any lease of the task, from any worker, changes nothing.
\<close>

theorem first_result_wins:
  fixes f wi r
  defines "ti \<equiv> wl_work (lease f (wr_Lease r))"
  assumes "fleet_reach pf fl f" and "wi < length (f_workers f)" and "acceptable wi r f"
    and "\<not> (wr_Infra r \<and> fw_ID (f_workers f ! wi) \<noteq> ''leader'')"
  shows "\<exists>f'. accept pf fl now wi r f = Some f'
    \<and> f_done f' = f_done f + 1 \<and> ft_done (f_work f' ! ti) \<and> committedSrv pf fl (taskOf f ti) r (f_srv f) (f_srv f')
    \<and> (\<forall>k < length (f_work f). k \<noteq> ti \<longrightarrow> ft_done (f_work f' ! k) = ft_done (f_work f ! k)
         \<and> ft_leases (f_work f' ! k) = ft_leases (f_work f ! k))
    \<and> (\<forall>wj < length (f_workers f). \<forall>r' now'. wr_Lease r' \<in> set (ft_leases (f_work f ! ti))
         \<longrightarrow> accept pf fl now' wj r' f' = Some f')"
proof -
  have ok: "fleetOK f" by (rule fleet_run.reach_inv [OF assms(2)])
  from accept_commits [OF ok assms(3-5), of pf fl now] obtain f' where
    f': "accept pf fl now wi r f = Some f'" "fleetOK f'" "sameShape f f'" "ti < length (f_work f)" "f_done f' = f_done f + 1"
    "\<forall>k < length (f_work f). ft_done (f_work f' ! k) = (ft_done (f_work f ! k) \<or> k = ti)
         \<and> ft_leases (f_work f' ! k) = (if k = ti then [] else ft_leases (f_work f ! k))"
    "committedSrv pf fl (taskOf f ti) r (f_srv f) (f_srv f')" unfolding ti_def by blast
  have "\<not> acceptable wj r' f'" if "wj < length (f_workers f)" "wr_Lease r' \<in> set (ft_leases (f_work f ! ti))" for wj r'
  proof
    assume "acceptable wj r' f'"
    then have own: "wr_Lease r' \<in> set (fw_leases (f_workers f' ! wj))" by (simp add: acceptable_def)
    have wj: "wj < length (f_workers f')" using that(1) sameShape_len(1) [OF f'(3)] by simp
    let ?k = "wl_work (lease f' (wr_Lease r'))"
    have k: "?k < length (f_work f)" "wr_Lease r' \<in> set (ft_leases (f_work f' ! ?k))"
      using lease_of_worker(3,5) [OF f'(2) wj own] sameShape_len(2) [OF f'(3)] by simp_all
    with f'(6) have "?k \<noteq> ti" "wr_Lease r' \<in> set (ft_leases (f_work f ! ?k))" by (auto split: if_splits)
    with k(1) f'(4) that(2) ok show False by (auto simp: fleetOK_def coreOK_def leasesOK_def)
  qed
  then show ?thesis using f' accept_ignored by (intro exI [of _ f']) auto
qed

theorem first_result_wins_witness:
  "\<exists>f'. accept samplePlatform sampleFlags 9 0 sampleResult sampleFleet = Some f' \<and> f_done f' = f_done sampleFleet + 1
    \<and> ft_done (f_work f' ! 0)"
proof -
  have "acceptable 0 sampleResult sampleFleet" "\<not> wr_Infra sampleResult" "wr_Lease sampleResult = 1"
    using sampleFleet_facts by (simp_all add: acceptable_def sampleResult_def infraResult_def)
  then show ?thesis using first_result_wins [OF sampleFleet_reach, of 0 sampleResult 9] sampleFleet_facts(5,9) by auto
qed

text \<open>
  C19. Work of a lost helper is not lost. When a worker disconnects, its leases and only its leases are
  released; no test status and no other worker's lease changes; and every unfinished task that only
  it was running is fresh again, so it is handed out before any speculative copy.
\<close>

theorem disconnect_requeues:
  assumes "fleet_reach pf fl f" and "wi < length (f_workers f)"
  shows "\<exists>f'. disconnect now wi err f = Some f' \<and> fw_leases (f_workers f' ! wi) = []
    \<and> set (f_leases f') = set (f_leases f) - set (fw_leases (f_workers f ! wi)) \<and> f_done f' = f_done f
    \<and> (\<forall>p t. map_option (\<lambda>ts. (ts_done ts, ts_passed ts)) (testOf (f_srv f') p t)
          = map_option (\<lambda>ts. (ts_done ts, ts_passed ts)) (testOf (f_srv f) p t))
    \<and> (\<forall>ti < length (f_work f). \<not> ft_done (f_work f ! ti)
         \<and> set (ft_leases (f_work f ! ti)) \<subseteq> set (fw_leases (f_workers f ! wi)) \<longrightarrow> fresh (f_work f' ! ti))"
proof -
  have ok: "fleetOK f" by (rule fleet_run.reach_inv [OF assms(1)])
  from disconnect_OK [OF ok assms(2), of now err] obtain f' where
    f': "disconnect now wi err f = Some f'" "releasedBy wi f f'" by blast
  have "fresh (f_work f' ! ti)" if "ti < length (f_work f)" "\<not> ft_done (f_work f ! ti)"
      "set (ft_leases (f_work f ! ti)) \<subseteq> set (fw_leases (f_workers f ! wi))" for ti
    using f'(2) that lease_of_worker(2) [OF ok assms(2)] by (auto simp: releasedBy_def fresh_def filter_empty_conv)
  with f' show ?thesis by (intro exI [of _ f']) (simp add: releasedBy_def srvSim_def)
qed

theorem disconnect_requeues_witness:
  "\<exists>f'. disconnect 9 0 None sampleFleet = Some f' \<and> fw_leases (f_workers f' ! 0) = []"
  using disconnect_requeues [OF sampleFleet_reach, of 0 9 None] sampleFleet_facts(5) by auto

text \<open>
  C21. The answer to a helper: at most ten new tasks, each under a fresh lease that the helper now
  holds, and no lease beyond ten more than its slots unless it had them already; and the helper is
  told to cancel exactly the executions it reports that it holds no lease for.
\<close>

theorem exchange_answers:
  assumes "fleet_reach pf fl f" and "wi < length (f_workers f)" and "fw_Connected (f_workers f ! wi)"
    and "f_nextID f + 10 < 2 ^ 64"
  shows "\<exists>res f' held. exchange pf fl now wi req f = Some (res, f')
    \<and> length (rs_Work res) \<le> 10 \<and> fw_leases (f_workers f' ! wi) = map ww_Lease (rev (rs_Work res)) @ held
    \<and> distinct (map ww_Lease (rs_Work res)) \<and> ww_Lease ` set (rs_Work res) \<inter> set held = {}
    \<and> int (length (fw_leases (f_workers f' ! wi))) \<le> max (int (length held)) (fw_Slots (f_workers f' ! wi) + 10)
    \<and> rs_Cancel res = map fst (filter (\<lambda>e. fst e \<notin> set held) (rq_Active req))"
proof -
  have ok: "fleetOK f" by (rule fleet_run.reach_inv [OF assms(1)])
  from exchange_OK [OF ok assms(2-4), of pf fl now req] obtain res f' f3 where
    e: "exchange pf fl now wi req f = Some (res, f')" "fleetOK f'" "fleetOK f3" "sameShape f f3" "leasedMore wi f3 f'"
    "rs_Cancel res = map fst (filter (\<lambda>e. fst e \<notin> set (fw_leases (f_workers f3 ! wi))) (rq_Active req))"
    "map ww_Lease (rev (rs_Work res)) @ fw_leases (f_workers f3 ! wi) = fw_leases (f_workers f' ! wi)"
    "int (length (rs_Work res)) \<le> max 0 (min 10 (fw_Slots (f_workers f3 ! wi) + 10 - int (length (fw_leases (f_workers f3 ! wi)))))"
    by blast
  have wi3: "wi < length (f_workers f3)" using assms(2) sameShape_len(1) [OF e(4)] by simp
  then have slots: "fw_Slots (f_workers f' ! wi) = fw_Slots (f_workers f3 ! wi)" "wi < length (f_workers f')"
    using e(5) by (simp_all add: leasedMore_def)
  have "distinct (fw_leases (f_workers f' ! wi))" using e(2) slots(2) by (simp add: fleetOK_def coreOK_def leasesOK_def)
  then have d: "distinct (map ww_Lease (rev (rs_Work res)) @ fw_leases (f_workers f3 ! wi))" by (simp only: e(7))
  have len: "int (length (fw_leases (f_workers f' ! wi))) = int (length (rs_Work res)) + int (length (fw_leases (f_workers f3 ! wi)))"
    using arg_cong [OF e(7), of length] by simp
  have "distinct (rev (map ww_Lease (rs_Work res)))" "ww_Lease ` set (rs_Work res) \<inter> set (fw_leases (f_workers f3 ! wi)) = {}"
    using d by (simp_all only: distinct_append rev_map set_rev set_map)
  moreover have "length (rs_Work res) \<le> 10"
    "int (length (fw_leases (f_workers f' ! wi))) \<le> max (int (length (fw_leases (f_workers f3 ! wi)))) (fw_Slots (f_workers f' ! wi) + 10)"
    using e(8) unfolding len slots(1) by linarith+
  ultimately show ?thesis using e(1,6,7) by (intro exI [of _ res] exI [of _ f'] exI [of _ "fw_leases (f_workers f3 ! wi)"]) simp
qed

theorem exchange_answers_witness:
  "\<exists>res f' held. exchange samplePlatform sampleFlags 7 0 emptyRequest sampleFleet = Some (res, f') \<and> length (rs_Work res) \<le> 10
    \<and> fw_leases (f_workers f' ! 0) = map ww_Lease (rev (rs_Work res)) @ held"
  using exchange_answers [OF sampleFleet_reach, of 0 7 emptyRequest] sampleFleet_facts(5-7) by auto


text \<open>
  C6. A distributed run succeeds exactly when it should. When the loop of \<open>run\<close> ends, because every
  task is done or the run was cancelled, and \<open>run\<close> has released the remaining leases, it returns nil
  if and only if no infrastructure error was recorded, the run was not cancelled and no finished
  test failed; and then every task's test is done and passed.
\<close>

theorem run_succeeds_iff_all_passed:
  assumes "fleet_reach pf fl f" and "allFinished f \<or> sv_canceled (f_srv f)" and "stopRun now f = Some f'"
  shows "(runResult f' = None \<longleftrightarrow> f_infra f = [] \<and> \<not> sv_canceled (f_srv f)
      \<and> (\<forall>pkg test ts. testOf (f_srv f) pkg test = Some ts \<longrightarrow> ts_done ts \<longrightarrow> ts_passed ts))
    \<and> (runResult f' = None \<longrightarrow> (\<forall>ti < length (f_work f). \<exists>ts. statusOf f ti = Some ts \<and> ts_done ts \<and> ts_passed ts))"
proof -
  have ok: "fleetOK f" by (rule fleet_run.reach_inv [OF assms(1)])
  from stopRun_OK [OF ok, of now] assms(3) have
    f': "fleetOK f'" "f_infra f' = f_infra f" "srvSim (f_srv f) (f_srv f')" by auto
  have "map_option (\<lambda>ts. (ts_done ts, ts_passed ts)) (testOf (f_srv f') pkg test)
      = map_option (\<lambda>ts. (ts_done ts, ts_passed ts)) (testOf (f_srv f) pkg test)" for pkg test
    using f'(3) by (simp add: srvSim_def)
  then have "(\<forall>ts. testOf (f_srv f') pkg test = Some ts \<longrightarrow> ts_done ts \<longrightarrow> ts_passed ts)
      \<longleftrightarrow> (\<forall>ts. testOf (f_srv f) pkg test = Some ts \<longrightarrow> ts_done ts \<longrightarrow> ts_passed ts)" for pkg test
    by (rule verdict_cong)
  moreover have "serverOK (f_srv f')" using f'(1) by (simp add: fleetOK_def coreOK_def statusOK_def)
  ultimately have iff: "runResult f' = None \<longleftrightarrow> f_infra f = [] \<and> \<not> sv_canceled (f_srv f)
      \<and> (\<forall>pkg test ts. testOf (f_srv f) pkg test = Some ts \<longrightarrow> ts_done ts \<longrightarrow> ts_passed ts)"
    using runResult_None [of f'] f'(2,3) by (simp add: srvSim_def)
  moreover have "\<exists>ts. statusOf f ti = Some ts \<and> ts_done ts \<and> ts_passed ts" if "runResult f' = None" "ti < length (f_work f)" for ti
    using that iff assms(2) allFinished_done [of f ti] ok by (auto simp: fleetOK_def coreOK_def)
  ultimately show ?thesis by blast
qed

theorem run_succeeds_iff_all_passed_witness:
  "\<exists>ts. statusOf sampleFinished 1 = Some ts \<and> ts_done ts \<and> ts_passed ts"
proof -
  obtain f' where f': "stopRun 10 sampleFinished = Some f'"
    using stopRun_OK [OF fleet_run.reach_inv [OF sampleFinished_reach]] by blast
  with sampleFinished_facts(3) have "runResult f' = None" by simp
  then show ?thesis
    using run_succeeds_iff_all_passed [OF sampleFinished_reach _ f'] sampleFinished_facts(2,4) by auto
qed

end
