(* ===== verification/Worker_Conn.thy ===== *)
theory Worker_Conn
  imports Fleet_Run
begin

text \<open>
  The connection between the leader and a helper (\<open>worker.go\<close>): the handshake on both sides, the
  leader's loop over one connection (\<open>serveWorker\<close>), the end of a distributed run (\<open>shutdown\<close>) and the
  settings a helper takes over from the leader (\<open>runWorkerConnection\<close>).
\<close>

section \<open>The handshake\<close>

record workerHello =
  wh_Version :: int
  wh_Name :: string
  wh_Slots :: int
  wh_GOOS :: string
  wh_GOARCH :: string

record workerConfig =
  wc_Version :: int
  wc_ID :: string
  wc_Error :: string
  wc_Tags :: "string list"
  wc_Race :: bool
  wc_Count :: int
  wc_CountSet :: bool
  wc_MaxRetries :: int
  wc_MaxOutput :: int
  wc_Cache :: bool
  wc_History :: bool
  wc_FailFast :: bool
  wc_JSON :: bool

definition workerProtocolVersion :: int where "workerProtocolVersion = 1"

definition zeroConfig :: workerConfig where
  "zeroConfig = \<lparr>wc_Version = 0, wc_ID = [], wc_Error = [], wc_Tags = [], wc_Race = False, wc_Count = 0, wc_CountSet = False,
     wc_MaxRetries = 0, wc_MaxOutput = 0, wc_Cache = False, wc_History = False, wc_FailFast = False, wc_JSON = False\<rparr>"

definition config :: "flags \<Rightarrow> Server \<Rightarrow> string \<Rightarrow> workerConfig" where
  "config fl srv wid =
     \<lparr>wc_Version = workerProtocolVersion, wc_ID = wid, wc_Error = [], wc_Tags = Tags (sv_profile srv), wc_Race = Race (sv_profile srv),
      wc_Count = testCount fl, wc_CountSet = testCountSet fl, wc_MaxRetries = maxRetries fl, wc_MaxOutput = maxOutput fl,
      wc_Cache = (sv_testCache srv \<noteq> None), wc_History = sv_history srv, wc_FailFast = failFast fl, wc_JSON = jsonSummary fl\<rparr>"

text \<open>The switch of \<open>serveWorker\<close>: why a helper is rejected, or the empty string.\<close>

definition rejectHello :: "platform \<Rightarrow> workerHello \<Rightarrow> string" where
  "rejectHello pf hello =
     (if wh_Version hello \<noteq> workerProtocolVersion then ''incompatible gotst worker protocol''
      else if wh_GOOS hello \<noteq> goos pf \<or> wh_GOARCH hello \<noteq> goarch pf then ''helper GOOS/GOARCH must match the leader''
      else if wh_Slots hello < 1 \<or> wh_Slots hello > 1024 then ''helper must announce between 1 and 1024 slots''
      else if length (wh_Name hello) > 256 then ''helper name exceeds 256 bytes''
      else [])"

definition helperHello :: "platform \<Rightarrow> flags \<Rightarrow> string \<Rightarrow> workerHello" where
  "helperHello pf fl name =
     \<lparr>wh_Version = workerProtocolVersion, wh_Name = name, wh_Slots = jobs fl, wh_GOOS = goos pf, wh_GOARCH = goarch pf\<rparr>"

text \<open>
  What \<open>runWorkerConnection\<close> makes of the leader's configuration: an error, or the helper's flags and
  profile and whether it captures history. \<open>defs\<close> is the outcome of \<open>loadProfileDefinitions\<close>.
\<close>

definition adoptConfig :: "flags \<Rightarrow> profileError + profileDefinitions \<Rightarrow> workerConfig
    \<Rightarrow> string + profileError + flags \<times> runProfile \<times> bool" where
  "adoptConfig fl defs cfg =
     (if wc_Error cfg \<noteq> [] then Inl (wc_Error cfg)
      else if wc_Version cfg \<noteq> workerProtocolVersion \<or> wc_Count cfg < 1 \<or> wc_MaxRetries cfg < 0 \<or> wc_MaxOutput cfg < 0
      then Inl ''invalid leader configuration''
      else case defs of
             Inl e \<Rightarrow> Inr (Inl e)
           | Inr d \<Rightarrow>
               Inr (Inr (fl\<lparr>testCount := wc_Count cfg, testCountSet := wc_CountSet cfg, maxRetries := wc_MaxRetries cfg,
                            maxOutput := wc_MaxOutput cfg, useCache := wc_Cache cfg, failFast := wc_FailFast cfg,
                            jsonSummary := wc_JSON cfg\<rparr>,
                         zeroProfile\<lparr>Root := defs_root d, Tags := wc_Tags cfg, Race := wc_Race cfg\<rparr>,
                         wc_History cfg)))"

section \<open>One connection of the leader\<close>

text \<open>
  What a round of the loop reads: a request, an error, or the end of the stream; with the time and
  the error of sending the answer, if any.
\<close>

datatype connRead = ReadRequest workerRequest | ReadError string | ReadEOF

record connRound =
  cr_now :: time
  cr_read :: connRead
  cr_sendErr :: "string option"

text \<open>
  The loop of \<open>serveWorker\<close>: \<open>connErr\<close>, the answers sent, and the fleet. What other connections and the
  local worker do between two rounds is not part of it.
\<close>

fun serveRounds :: "platform \<Rightarrow> flags \<Rightarrow> nat \<Rightarrow> connRound list \<Rightarrow> fleet
    \<Rightarrow> (string option \<times> workerResponse list \<times> fleet) option" where
  "serveRounds pf fl wi [] f = Some (None, [], f)"
| "serveRounds pf fl wi (r # rs) f =
     (case cr_read r of
        ReadEOF \<Rightarrow> Some (None, [], f)
      | ReadError e \<Rightarrow> Some (Some e, [], f)
      | ReadRequest req \<Rightarrow>
          (case exchange pf fl (cr_now r) wi req f of
             None \<Rightarrow> None
           | Some (res, f') \<Rightarrow>
               (case cr_sendErr r of
                  Some e \<Rightarrow> Some (Some e, [], f')
                | None \<Rightarrow>
                    if rs_Done res \<or> rs_Error res \<noteq> [] then Some (None, [res], f')
                    else map_option (\<lambda>(e, rss, f''). (e, res # rss, f'')) (serveRounds pf fl wi rs f'))))"

text \<open>
  \<open>serveWorker\<close>: \<open>hello\<close> is the first message, \<open>None\<close> when it does not decode; \<open>cfgErr\<close> the error of sending
  the configuration. The result is the configuration sent, the answers and the fleet.
\<close>

definition serveWorker :: "platform \<Rightarrow> flags \<Rightarrow> time \<Rightarrow> time \<Rightarrow> workerHello option \<Rightarrow> string option
    \<Rightarrow> connRound list \<Rightarrow> fleet \<Rightarrow> (workerConfig option \<times> workerResponse list \<times> fleet) option" where
  "serveWorker pf fl now endTime helloMsg cfgErr rounds f =
     (case helloMsg of
        None \<Rightarrow> Some (None, [], f)
      | Some hello \<Rightarrow>
          (let reject = rejectHello pf hello
           in if reject \<noteq> []
              then Some (Some (zeroConfig\<lparr>wc_Version := workerProtocolVersion, wc_Error := reject\<rparr>), [], f)
              else let wi = length (f_workers f);
                       f1 = addWorker now (wh_Name hello) (wh_Slots hello) False f;
                       cfg = config fl (f_srv f) (fw_ID (f_workers f1 ! wi))
                   in case cfgErr of
                        Some e \<Rightarrow> map_option (\<lambda>f'. (Some cfg, [], f')) (disconnect endTime wi (Some e) f1)
                      | None \<Rightarrow>
                          (case serveRounds pf fl wi rounds f1 of
                             None \<Rightarrow> None
                           | Some (connErr, rss, f2) \<Rightarrow>
                               map_option (\<lambda>f'. (Some cfg, rss, f')) (disconnect endTime wi connErr f2))))"

text \<open>\<open>shutdown\<close>: it sets \<open>stopped\<close> and waits, two seconds at most, until no helper is connected.\<close>

definition shutdown :: "fleet \<Rightarrow> fleet" where
  "shutdown f = f\<lparr>f_stopped := True\<rparr>"

definition helpersConnected :: "fleet \<Rightarrow> bool" where
  "helpersConnected f \<longleftrightarrow> list_ex (\<lambda>w. fw_ID w \<noteq> ''leader'' \<and> fw_Connected w) (f_workers f)"

section \<open>A connection keeps the fleet consistent\<close>

lemma fleet_reach_step: "fleet_reach pf fl f \<Longrightarrow> fleet_step pf fl f f' \<Longrightarrow> fleet_reach pf fl f'"
  by (rule reach_step)

lemma exchange_bounds:
  assumes ok: "fleetOK f" "wi < length (f_workers f)" "fw_Connected (f_workers f ! wi)" "f_nextID f + 10 < 2 ^ 64"
  shows "\<exists>res f'. exchange pf fl now wi req f = Some (res, f') \<and> length (f_workers f') = length (f_workers f)
    \<and> fw_Connected (f_workers f' ! wi) \<and> f_nextID f' \<le> f_nextID f + 10"
proof -
  from exchange_OK [OF ok, of pf fl now req] obtain res f' f3 where
    e: "exchange pf fl now wi req f = Some (res, f')" "sameShape f f3" "leasedMore wi f3 f'"
    "int (length (rs_Work res)) \<le> max 0 (min 10 (fw_Slots (f_workers f3 ! wi) + 10 - int (length (fw_leases (f_workers f3 ! wi)))))"
    "f_nextID f' \<le> f_nextID f + length (rs_Work res)" by blast
  have "length (rs_Work res) \<le> 10" using e(4) by simp
  moreover have "length (f_workers f') = length (f_workers f)" "fw_Connected (f_workers f' ! wi)"
    using e(3) ok(2,3) sameShape_len(1) [OF e(2)] sameShape_connected [OF e(2) ok(2)] by (simp_all add: leasedMore_def)
  ultimately show ?thesis using e(1,5) by auto
qed

lemma serveRounds_reach:
  assumes "fleet_reach pf fl f" "wi < length (f_workers f)" "fw_Connected (f_workers f ! wi)" "f_nextID f + 10 * length rounds < 2 ^ 64"
  shows "\<exists>e rss f'. serveRounds pf fl wi rounds f = Some (e, rss, f') \<and> fleet_reach pf fl f' \<and> length (f_workers f') = length (f_workers f)"
  using assms
proof (induction rounds arbitrary: f)
  case Nil
  then show ?case by simp
next
  case (Cons r rs)
  show ?case
  proof (cases "cr_read r")
    case (ReadRequest req)
    have id: "f_nextID f + 10 < 2 ^ 64" using Cons.prems(4) by simp
    from exchange_bounds [OF fleet_run.reach_inv [OF Cons.prems(1)] Cons.prems(2,3) id, of pf fl "cr_now r" req]
    obtain res f' where x: "exchange pf fl (cr_now r) wi req f = Some (res, f')" "length (f_workers f') = length (f_workers f)"
      "fw_Connected (f_workers f' ! wi)" "f_nextID f' \<le> f_nextID f + 10" by blast
    have re: "fleet_reach pf fl f'"
      by (rule fleet_reach_step [OF Cons.prems(1) fleet_step.exchange [OF Cons.prems(2,3) id x(1)]])
    have "f_nextID f' + 10 * length rs < 2 ^ 64" using Cons.prems(4) x(4) by simp
    from Cons.IH [OF re _ x(3) this] Cons.prems(2) x re ReadRequest show ?thesis
      by (auto split: option.splits)
  qed (use Cons.prems(1) in auto)
qed

section \<open>The helper's arguments\<close>

text \<open>
  The arguments that \<open>effectiveTestArgs\<close> adds at the end; adding them again changes nothing, because
  they are removed and added in the same order.
\<close>

definition finalArgs :: "flags \<Rightarrow> string list \<Rightarrow> string list" where
  "finalArgs fl xs =
     (let a1 = setTestArg xs ''-test.count'' ''1'';
          a2 = (if failFast fl then setTestArg a1 ''-test.failfast'' ''true'' else a1)
      in if jsonSummary fl then setTestArg a2 ''-test.v'' ''true'' else a2)"

lemma finalArgs_idem: "finalArgs fl (finalArgs fl xs) = finalArgs fl xs"
  by (auto simp: finalArgs_def Let_def setTestArg_def HasPrefix_def intro!: filter_cong)

lemma effectiveTestArgs_final: "effectiveTestArgs fl task profile = finalArgs fl (profileTestArgs (bin_args (task_bin task)) profile)"
  by (simp add: effectiveTestArgs_def finalArgs_def)

lemma set_finalArgs: "set (finalArgs fl xs) \<subseteq> set xs \<union> {''-test.count=1'', ''-test.failfast=true'', ''-test.v=true''}"
  by (auto simp: finalArgs_def Let_def setTestArg_def)

section \<open>Properties\<close>



text \<open>
  C18. A helper runs a test the way the leader would. It accepts the configuration of every leader
  whose flags passed the checks of \<open>main\<close>, and with the flags and the profile it then has, the arguments
  of a test it was sent are exactly the arguments the leader resolved, the counts and limits of
  the run are the leader's, and so are build tags and race detection. (The profile must not pass
  the private verbosity flag of \<open>go test -json\<close>, which both sides strip.)
\<close>

theorem helper_runs_leaders_test:
  assumes "flagsOK fl" and "''-test.v=test2json'' \<notin> normalizeTestFlag ` set (TestFlags (sv_profile srv))"
  shows "\<exists>fl' p h. adoptConfig flh (Inr defs) (config fl srv wid) = Inr (Inr (fl', p, h))
    \<and> effectiveTestArgs fl' (task\<lparr>task_bin := (task_bin task)\<lparr>bin_args := effectiveTestArgs fl task (sv_profile srv)\<rparr>\<rparr>) p
        = effectiveTestArgs fl task (sv_profile srv)
    \<and> testCount fl' = testCount fl \<and> maxRetries fl' = maxRetries fl \<and> maxOutput fl' = maxOutput fl
    \<and> Tags p = Tags (sv_profile srv) \<and> Race p = Race (sv_profile srv) \<and> h = sv_history srv"
proof -
  let ?A = "effectiveTestArgs fl task (sv_profile srv)"
  have "''-test.v=test2json'' \<notin> set (setTestArg xs n v)"
    if "''-test.v=test2json'' \<notin> set xs" "''-test.v=test2json'' \<noteq> n @ ''='' @ v" for xs n v
    using that by (auto simp: setTestArg_def)
  then have "''-test.v=test2json'' \<notin> set (profileTestArgs (bin_args (task_bin task)) (sv_profile srv))"
    using assms(2) by (auto simp: profileTestArgs_def Let_def directTestArgs_def)
  then have "''-test.v=test2json'' \<notin> set ?A"
    using set_finalArgs by (fastforce simp: effectiveTestArgs_final)
  then have "directTestArgs ?A = ?A" by (auto simp: directTestArgs_def filter_id_conv)
  then have "effectiveTestArgs fl' (task\<lparr>task_bin := (task_bin task)\<lparr>bin_args := ?A\<rparr>\<rparr>) p = ?A"
    if "failFast fl' = failFast fl" "jsonSummary fl' = jsonSummary fl" "\<not> shortSet p" "Timeout p = 0" "TestFlags p = []" for fl' p
    using that finalArgs_idem [of fl] by (simp add: effectiveTestArgs_final profileTestArgs_def finalArgs_def)
  then show ?thesis using assms(1)
    by (auto simp: adoptConfig_def config_def flagsOK_def workerProtocolVersion_def zeroProfile_def)
qed

theorem helper_runs_leaders_test_witness:
  "\<exists>fl' p h. adoptConfig sampleFlags (Inr \<lparr>defs_path = [], defs_root = ''/src'', profiles = [], implicit = True\<rparr>)
      (config sampleFlags sampleServer ''h1'') = Inr (Inr (fl', p, h)) \<and> testCount fl' = testCount sampleFlags"
proof -
  have "flagsOK sampleFlags" "''-test.v=test2json'' \<notin> normalizeTestFlag ` set (TestFlags (sv_profile sampleServer))"
    by (simp_all add: flagsOK_def sampleFlags_def sampleServer_def zeroProfile_def)
  from helper_runs_leaders_test [OF this, of sampleFlags "\<lparr>defs_path = [], defs_root = ''/src'', profiles = [], implicit = True\<rparr>" "''h1''"]
  show ?thesis by blast
qed

end
