(* ===== verification/Worker_Loop.thy ===== *)
theory Worker_Loop
  imports Worker_Conn
begin

text \<open>
  The helper's side of a distributed run (\<open>worker.go\<close>): \<open>workerLoop\<close>, which keeps its execution slots full, reports results and cancels
  executions. The loop is a state machine: its cases of \<open>select\<close> and the goroutines it starts are
  the steps. Pointers to \<open>helperExecution\<close> are positions in the list of all executions so far.
\<close>

section \<open>The loop\<close>

datatype execPhase = NotStarted | Preparing | Executing | Finished

text \<open>
  \<open>he_started\<close> says that \<open>cancel\<close> is set, \<open>he_canceled\<close> that it was called; \<open>he_phase\<close> is how far the
  execution's goroutine is.
\<close>

record helperExecution =
  he_work :: workerWork
  he_started :: bool
  he_canceled :: bool
  he_state :: string
  he_phase :: execPhase

record helperLoop =
  hl_jobs :: int
  hl_execs :: "helperExecution list"
  hl_active :: "(nat, nat) gomap"
  hl_queue :: "nat list"
  hl_running :: int
  hl_ready :: "(nat \<times> string) list"
  hl_results :: "workerResult list"
  hl_pending :: "workerResult list"
  hl_binaries :: "string list"
  hl_dirty :: bool
  hl_inFlight :: bool

definition newLoop :: "int \<Rightarrow> helperLoop" where
  "newLoop j = \<lparr>hl_jobs = j, hl_execs = [], hl_active = [], hl_queue = [], hl_running = 0, hl_ready = [], hl_results = [],
     hl_pending = [], hl_binaries = [], hl_dirty = True, hl_inFlight = False\<rparr>"

definition execLease :: "helperLoop \<Rightarrow> nat \<Rightarrow> nat" where
  "execLease l e = ww_Lease (he_work (hl_execs l ! e))"

definition updExec :: "nat \<Rightarrow> (helperExecution \<Rightarrow> helperExecution) \<Rightarrow> helperLoop \<Rightarrow> helperLoop" where
  "updExec e g l = l\<lparr>hl_execs := (hl_execs l)[e := g (hl_execs l ! e)]\<rparr>"

text \<open>The closure \<open>start\<close>: it takes executions from the queue while there is a free slot.\<close>

definition launch :: "nat \<Rightarrow> helperLoop \<Rightarrow> helperLoop" where
  "launch e l = (updExec e (\<lambda>x. x\<lparr>he_state := ''building'', he_started := True, he_phase := Preparing\<rparr>) l)
     \<lparr>hl_running := hl_running l + 1\<rparr>"

fun startFrom :: "nat list \<Rightarrow> helperLoop \<Rightarrow> helperLoop" where
  "startFrom [] l = l\<lparr>hl_queue := []\<rparr>"
| "startFrom (e # q) l =
     (if hl_running l < hl_jobs l
      then if map_of (hl_active l) (execLease l e) \<noteq> Some e then startFrom q l else startFrom q (launch e l)
      else l\<lparr>hl_queue := e # q\<rparr>)"

definition startQueued :: "helperLoop \<Rightarrow> helperLoop" where
  "startQueued l = startFrom (hl_queue l) l"

text \<open>The head of the loop: a request when something changed and none is in flight.\<close>

definition sendRequest :: "helperLoop \<Rightarrow> (workerRequest \<times> helperLoop) option" where
  "sendRequest l =
     (if hl_dirty l \<and> \<not> hl_inFlight l
      then Some (\<lparr>rq_Active = map (\<lambda>(i, e). (i, he_state (hl_execs l ! e))) (hl_active l), rq_Binaries = hl_binaries l,
                  rq_Results = hl_pending l\<rparr>,
                 l\<lparr>hl_pending := [], hl_binaries := [], hl_dirty := False, hl_inFlight := True\<rparr>)
      else None)"

definition cancelExec :: "nat \<Rightarrow> helperLoop \<Rightarrow> helperLoop" where
  "cancelExec i l =
     (case map_of (hl_active l) i of
        None \<Rightarrow> l
      | Some e \<Rightarrow> (updExec e (\<lambda>x. if he_started x then x\<lparr>he_canceled := True\<rparr> else x) l)\<lparr>hl_active := AList.delete i (hl_active l)\<rparr>)"

definition addWork :: "workerWork \<Rightarrow> helperLoop \<Rightarrow> helperLoop" where
  "addWork w l =
     l\<lparr>hl_execs := hl_execs l @ [\<lparr>he_work = w, he_started = False, he_canceled = False, he_state = ''queued'', he_phase = NotStarted\<rparr>],
       hl_active := AList.update (ww_Lease w) (length (hl_execs l)) (hl_active l), hl_queue := hl_queue l @ [length (hl_execs l)]\<rparr>"

datatype helperExit = Return "string option" | Continue helperLoop

definition onResponse :: "string + workerResponse \<Rightarrow> helperLoop \<Rightarrow> helperExit" where
  "onResponse r l =
     (case r of
        Inl e \<Rightarrow> Return (Some (''leader connection: '' @ e))
      | Inr res \<Rightarrow>
          if rs_Error res \<noteq> [] then Return (Some (rs_Error res))
          else if rs_Done res then Return None
          else Continue (startQueued (fold addWork (rs_Work res) (fold cancelExec (rs_Cancel res) (l\<lparr>hl_inFlight := False\<rparr>)))))"

definition onReady :: "helperLoop \<Rightarrow> helperLoop" where
  "onReady l =
     (case hl_ready l of
        [] \<Rightarrow> l
      | (i, h) # rest \<Rightarrow>
          (let l1 = l\<lparr>hl_ready := rest, hl_binaries := hl_binaries l @ [h], hl_dirty := True\<rparr>
           in case map_of (hl_active l) i of
                None \<Rightarrow> l1
              | Some e \<Rightarrow> updExec e (\<lambda>x. x\<lparr>he_state := ''running''\<rparr>) l1))"

definition onResult :: "helperLoop \<Rightarrow> helperLoop" where
  "onResult l =
     (case hl_results l of
        [] \<Rightarrow> l
      | r # rest \<Rightarrow>
          (let l1 = l\<lparr>hl_results := rest, hl_running := hl_running l - 1\<rparr>;
               l2 = (if map_of (hl_active l) (wr_Lease r) \<noteq> None
                     then l1\<lparr>hl_active := AList.delete (wr_Lease r) (hl_active l), hl_pending := hl_pending l @ [r]\<rparr> else l1)
           in (startQueued l2)\<lparr>hl_dirty := True\<rparr>))"

definition onTick :: "helperLoop \<Rightarrow> helperLoop" where
  "onTick l = l\<lparr>hl_dirty := True\<rparr>"

text \<open>
  The goroutine of an execution: the binary is prepared (\<open>Inl\<close> is the builder's error), then the test runs.
  A canceled execution that was still being prepared sends a result too.
\<close>

definition emptyResult :: "nat \<Rightarrow> workerResult" where
  "emptyResult i = (infraResult [])\<lparr>wr_Lease := i, wr_Infra := False\<rparr>"

definition prepared :: "nat \<Rightarrow> string + string \<Rightarrow> helperLoop \<Rightarrow> helperLoop" where
  "prepared e r l =
     (case r of
        Inl err \<Rightarrow> (updExec e (\<lambda>x. x\<lparr>he_phase := Finished\<rparr>) l)
                     \<lparr>hl_results := hl_results l @ [(infraResult err)\<lparr>wr_Lease := execLease l e\<rparr>]\<rparr>
      | Inr h \<Rightarrow>
          if he_canceled (hl_execs l ! e)
          then (updExec e (\<lambda>x. x\<lparr>he_phase := Finished\<rparr>) l)\<lparr>hl_results := hl_results l @ [emptyResult (execLease l e)]\<rparr>
          else (updExec e (\<lambda>x. x\<lparr>he_phase := Executing\<rparr>) l)\<lparr>hl_ready := hl_ready l @ [(execLease l e, h)]\<rparr>)"

definition executed :: "nat \<Rightarrow> workerResult \<Rightarrow> helperLoop \<Rightarrow> helperLoop" where
  "executed e r l =
     (updExec e (\<lambda>x. x\<lparr>he_phase := Finished\<rparr>) l)\<lparr>hl_results := hl_results l @ [r\<lparr>wr_Lease := execLease l e\<rparr>]\<rparr>"

text \<open>
  The steps of a helper. \<open>hs_sent\<close> collects the leases whose result was sent to the leader, \<open>hs_canceled\<close>
  those the leader canceled. The leases of new work are new, as the leader promises. The channels
  \<open>ready\<close> and \<open>results\<close> hold one entry per slot.
\<close>

record helperSystem =
  hs_loop :: helperLoop
  hs_sent :: "nat list"
  hs_canceled :: "nat list"

definition leasesOf :: "helperLoop \<Rightarrow> nat list" where
  "leasesOf l = map (\<lambda>x. ww_Lease (he_work x)) (hl_execs l)"

inductive helper_step :: "helperSystem \<Rightarrow> helperSystem \<Rightarrow> bool" where
  sent: "sendRequest (hs_loop s) = Some (req, l')
    \<Longrightarrow> helper_step s (s\<lparr>hs_loop := l', hs_sent := hs_sent s @ map wr_Lease (rq_Results req)\<rparr>)"
| answered: "hl_inFlight (hs_loop s) \<Longrightarrow> onResponse (Inr res) (hs_loop s) = Continue l'
    \<Longrightarrow> distinct (leasesOf (hs_loop s) @ map ww_Lease (rs_Work res))
    \<Longrightarrow> helper_step s (s\<lparr>hs_loop := l',
          hs_canceled := hs_canceled s @ filter (\<lambda>i. i \<in> set (rs_Cancel res)) (gokeys (hl_active (hs_loop s)))\<rparr>)"
| isReady: "hl_ready (hs_loop s) \<noteq> [] \<Longrightarrow> helper_step s (s\<lparr>hs_loop := onReady (hs_loop s)\<rparr>)"
| finished: "hl_results (hs_loop s) \<noteq> [] \<Longrightarrow> helper_step s (s\<lparr>hs_loop := onResult (hs_loop s)\<rparr>)"
| ticked: "helper_step s (s\<lparr>hs_loop := onTick (hs_loop s)\<rparr>)"
| built: "e < length (hl_execs (hs_loop s)) \<Longrightarrow> he_phase (hl_execs (hs_loop s) ! e) = Preparing
    \<Longrightarrow> int (length (hl_ready (hs_loop s))) < hl_jobs (hs_loop s) \<or> r = Inl err \<or> he_canceled (hl_execs (hs_loop s) ! e)
    \<Longrightarrow> helper_step s (s\<lparr>hs_loop := prepared e r (hs_loop s)\<rparr>)"
| ran: "e < length (hl_execs (hs_loop s)) \<Longrightarrow> he_phase (hl_execs (hs_loop s) ! e) = Executing
    \<Longrightarrow> helper_step s (s\<lparr>hs_loop := executed e r (hs_loop s)\<rparr>)"

definition helper_start :: "helperSystem \<Rightarrow> bool" where
  "helper_start s \<longleftrightarrow> (\<exists>j \<ge> 1. s = \<lparr>hs_loop = newLoop j, hs_sent = [], hs_canceled = []\<rparr>)"

section \<open>Consistency of the loop\<close>

definition busy :: "helperExecution \<Rightarrow> bool" where
  "busy x \<longleftrightarrow> he_phase x = Preparing \<or> he_phase x = Executing"

definition activeOK :: "helperLoop \<Rightarrow> bool" where
  "activeOK l \<longleftrightarrow> distinct (leasesOf l) \<and> gomap_ok (hl_active l)
     \<and> (\<forall>i e. map_of (hl_active l) i = Some e \<longrightarrow> e < length (hl_execs l) \<and> execLease l e = i)"

definition queueOK :: "nat list \<Rightarrow> helperLoop \<Rightarrow> bool" where
  "queueOK q l \<longleftrightarrow> distinct q \<and> (\<forall>e \<in> set q. e < length (hl_execs l) \<and> he_phase (hl_execs l ! e) = NotStarted)
     \<and> (\<forall>i e. map_of (hl_active l) i = Some e \<longrightarrow> he_phase (hl_execs l ! e) = NotStarted \<longrightarrow> e \<in> set q)"

definition slotsOK :: "helperLoop \<Rightarrow> bool" where
  "slotsOK l \<longleftrightarrow> hl_running l = int (length (filter busy (hl_execs l))) + int (length (hl_results l)) \<and> hl_running l \<le> hl_jobs l"

definition finishedOK :: "helperLoop \<Rightarrow> bool" where
  "finishedOK l \<longleftrightarrow> (\<forall>i e. map_of (hl_active l) i = Some e \<longrightarrow> he_phase (hl_execs l ! e) = Finished
     \<longrightarrow> i \<in> wr_Lease ` set (hl_results l))"

definition loopOK :: "nat list \<Rightarrow> helperLoop \<Rightarrow> bool" where
  "loopOK q l \<longleftrightarrow> activeOK l \<and> queueOK q l \<and> slotsOK l \<and> finishedOK l \<and> 1 \<le> hl_jobs l"

text \<open>Every lease received is active, has a result that is not sent yet or was sent, or was canceled.\<close>

definition accounted :: "helperSystem \<Rightarrow> bool" where
  "accounted s \<longleftrightarrow>
     mset (gokeys (hl_active (hs_loop s)) @ map wr_Lease (hl_pending (hs_loop s)) @ hs_sent s @ hs_canceled s)
       = mset (leasesOf (hs_loop s))"

lemma leasesOf_simps [simp]:
  "leasesOf (l\<lparr>hl_ready := a\<rparr>) = leasesOf l" "leasesOf (l\<lparr>hl_binaries := b\<rparr>) = leasesOf l" "leasesOf (l\<lparr>hl_dirty := c\<rparr>) = leasesOf l"
  "leasesOf (l\<lparr>hl_inFlight := c\<rparr>) = leasesOf l" "leasesOf (l\<lparr>hl_pending := d\<rparr>) = leasesOf l" "leasesOf (l\<lparr>hl_results := d\<rparr>) = leasesOf l"
  "leasesOf (l\<lparr>hl_running := n\<rparr>) = leasesOf l" "leasesOf (l\<lparr>hl_active := m\<rparr>) = leasesOf l" "leasesOf (l\<lparr>hl_queue := q\<rparr>) = leasesOf l"
  by (simp_all add: leasesOf_def)

definition helperOK :: "helperSystem \<Rightarrow> bool" where
  "helperOK s \<longleftrightarrow> loopOK (hl_queue (hs_loop s)) (hs_loop s) \<and> accounted s
     \<and> (hl_queue (hs_loop s) = [] \<or> hl_running (hs_loop s) = hl_jobs (hs_loop s))"

lemma length_filter_update_drop:
  "i < length xs \<Longrightarrow> P (xs ! i) \<Longrightarrow> \<not> P y \<Longrightarrow> Suc (length (filter P (xs[i := y]))) = length (filter P xs)"
  by (induction xs arbitrary: i) (auto split: nat.splits)

lemma length_filter_update_same:
  "i < length xs \<Longrightarrow> P (xs ! i) = P y \<Longrightarrow> length (filter P (xs[i := y])) = length (filter P xs)"
  by (induction xs arbitrary: i) (auto split: nat.splits)

lemma leasesOf_updExec: "(\<And>x. he_work (g x) = he_work x) \<Longrightarrow> leasesOf (updExec e g l) = leasesOf l"
  by (cases "e < length (hl_execs l)") (simp_all add: leasesOf_def updExec_def map_list_update_same list_update_beyond)

lemma execLease_leasesOf: "e < length (hl_execs l) \<Longrightarrow> execLease l e = leasesOf l ! e"
  by (simp add: execLease_def leasesOf_def)

lemma activeOK_cong:
  assumes "activeOK l" "leasesOf l' = leasesOf l" "hl_active l' = hl_active l"
  shows "activeOK l'"
proof -
  have len: "length (hl_execs l') = length (hl_execs l)" using arg_cong [OF assms(2), of length] by (simp add: leasesOf_def)
  have "execLease l' e = execLease l e" if "e < length (hl_execs l)" for e using that len assms(2) by (simp add: execLease_leasesOf)
  then show ?thesis using assms len by (auto simp: activeOK_def)
qed

text \<open>Steps that change neither leases nor phases.\<close>

lemma loopOK_cong:
  assumes "loopOK q l" "leasesOf l' = leasesOf l" "hl_active l' = hl_active l" "map he_phase (hl_execs l') = map he_phase (hl_execs l)"
    "hl_results l' = hl_results l" "hl_running l' = hl_running l" "hl_jobs l' = hl_jobs l"
  shows "loopOK q l'"
proof -
  have len: "length (hl_execs l') = length (hl_execs l)" using arg_cong [OF assms(4), of length] by simp
  have ph: "he_phase (hl_execs l' ! e) = he_phase (hl_execs l ! e)" if "e < length (hl_execs l)" for e
    using arg_cong [OF assms(4), of "\<lambda>ps. ps ! e"] that len by simp
  have "length (filter busy xs) = length (filter (\<lambda>p. p = Preparing \<or> p = Executing) (map he_phase xs))" for xs
    by (induction xs) (auto simp: busy_def)
  from this [of "hl_execs l"] this [of "hl_execs l'"] have "slotsOK l'"
    using assms(1,5-7) unfolding assms(4) by (simp add: loopOK_def slotsOK_def)
  moreover have "queueOK q l'" "finishedOK l'"
    using assms(1,3,5) ph len by (auto simp: loopOK_def queueOK_def finishedOK_def activeOK_def)
  ultimately show ?thesis using assms activeOK_cong [of l l'] by (simp add: loopOK_def)
qed

lemma phases_updExec: "(\<And>x. he_phase (g x) = he_phase x) \<Longrightarrow> map he_phase (hl_execs (updExec e g l)) = map he_phase (hl_execs l)"
  by (cases "e < length (hl_execs l)") (simp_all add: updExec_def map_list_update_same list_update_beyond)

lemma loopOK_launch:
  assumes ok: "loopOK (e # q) l" and act: "map_of (hl_active l) (execLease l e) = Some e" and free: "hl_running l < hl_jobs l"
  shows "loopOK q (launch e l)"
proof -
  let ?g = "\<lambda>x. x\<lparr>he_state := ''building'', he_started := True, he_phase := Preparing\<rparr>"
  note o = ok [unfolded loopOK_def]
  have e: "e < length (hl_execs l)" "he_phase (hl_execs l ! e) = NotStarted" "e \<notin> set q" "distinct q" using o by (auto simp: queueOK_def)
  have l': "hl_execs (launch e l) = (hl_execs l)[e := ?g (hl_execs l ! e)]" "hl_active (launch e l) = hl_active l"
    "hl_results (launch e l) = hl_results l" "hl_running (launch e l) = hl_running l + 1" "hl_jobs (launch e l) = hl_jobs l"
    by (simp_all add: launch_def updExec_def)
  have "leasesOf (launch e l) = leasesOf (updExec e ?g l)" by (simp add: launch_def leasesOf_def)
  then have "leasesOf (launch e l) = leasesOf l" by (simp add: leasesOf_updExec)
  then have "activeOK (launch e l)" using activeOK_cong [of l "launch e l"] o l'(2) by simp
  moreover have "length (filter busy ((hl_execs l)[e := ?g (hl_execs l ! e)])) = Suc (length (filter busy (hl_execs l)))"
    using e by (intro length_filter_update) (simp_all add: busy_def)
  then have "slotsOK (launch e l)" using o free by (simp add: slotsOK_def l')
  moreover have "queueOK q (launch e l)" using o e by (auto simp: queueOK_def l' nth_list_update)
  moreover have "finishedOK (launch e l)" using o e by (auto simp: finishedOK_def l' nth_list_update split: if_splits)
  ultimately show ?thesis using o by (simp add: loopOK_def l')
qed

lemma loopOK_skip:
  assumes ok: "loopOK (e # q) l" and "map_of (hl_active l) (execLease l e) \<noteq> Some e"
  shows "loopOK q l"
proof -
  have "e' \<noteq> e" if "map_of (hl_active l) i = Some e'" for i e'
    using assms that by (auto simp: loopOK_def activeOK_def)
  then show ?thesis using ok by (auto simp: loopOK_def queueOK_def)
qed

lemma loopOK_queue: "loopOK q (l\<lparr>hl_queue := q'\<rparr>) = loopOK q l"
  by (simp add: loopOK_def activeOK_def queueOK_def slotsOK_def finishedOK_def leasesOf_def execLease_def)

definition keepsWork :: "helperLoop \<Rightarrow> helperLoop \<Rightarrow> bool" where
  "keepsWork l l' \<longleftrightarrow> leasesOf l' = leasesOf l \<and> hl_active l' = hl_active l \<and> hl_pending l' = hl_pending l \<and> hl_jobs l' = hl_jobs l"

lemma keepsWork_launch: "keepsWork l (launch e l)"
proof -
  have "leasesOf (launch e l) = leasesOf (updExec e (\<lambda>x. x\<lparr>he_state := ''building'', he_started := True, he_phase := Preparing\<rparr>) l)"
    by (simp add: launch_def leasesOf_def)
  then show ?thesis by (simp add: keepsWork_def leasesOf_updExec) (simp add: launch_def updExec_def)
qed

lemma startFrom_OK:
  "loopOK q l \<Longrightarrow> loopOK (hl_queue (startFrom q l)) (startFrom q l) \<and> keepsWork l (startFrom q l)
     \<and> (hl_queue (startFrom q l) = [] \<or> hl_running (startFrom q l) = hl_jobs l)"
proof (induction q l rule: startFrom.induct)
  case (1 l)
  then show ?case by (simp add: loopOK_queue keepsWork_def leasesOf_def)
next
  case (2 e q l)
  show ?case
  proof (cases "hl_running l < hl_jobs l")
    case False
    moreover have "hl_running l \<le> hl_jobs l" using 2(3) by (simp add: loopOK_def slotsOK_def)
    ultimately show ?thesis using 2(3) by (simp add: loopOK_queue keepsWork_def leasesOf_def)
  next
    case True
    show ?thesis
    proof (cases "map_of (hl_active l) (execLease l e) = Some e")
      case act: True
      then have "startFrom (e # q) l = startFrom q (launch e l)" using True by simp
      with 2(2) [OF True _ loopOK_launch [OF 2(3) act True]] act keepsWork_launch [of l e] show ?thesis by (auto simp: keepsWork_def)
    next
      case act: False
      then have "startFrom (e # q) l = startFrom q l" using True by simp
      with 2(1) [OF True act loopOK_skip [OF 2(3) act]] show ?thesis by simp
    qed
  qed
qed

lemma startQueued_OK:
  assumes "loopOK (hl_queue l) l"
  shows "loopOK (hl_queue (startQueued l)) (startQueued l)" "keepsWork l (startQueued l)"
    "hl_queue (startQueued l) = [] \<or> hl_running (startQueued l) = hl_jobs (startQueued l)"
  using startFrom_OK [OF assms] by (auto simp: startQueued_def keepsWork_def)

section \<open>Canceling and receiving work\<close>

lemma loopOK_shrink:
  assumes "loopOK q l" "leasesOf l' = leasesOf l" "hl_active l' = AList.delete i (hl_active l)"
    "map he_phase (hl_execs l') = map he_phase (hl_execs l)" "hl_results l' = hl_results l" "hl_running l' = hl_running l"
    "hl_jobs l' = hl_jobs l"
  shows "loopOK q l'"
proof -
  let ?m = "l'\<lparr>hl_active := hl_active l\<rparr>"
  have m: "loopOK q ?m" by (rule loopOK_cong [OF assms(1)]) (use assms in simp_all)
  have "activeOK l'" using m assms(3) by (auto simp: loopOK_def activeOK_def leasesOf_def execLease_def split: if_splits)
  moreover have "queueOK q l'" "finishedOK l'" "slotsOK l'"
    using m assms(3) by (auto simp: loopOK_def queueOK_def finishedOK_def slotsOK_def split: if_splits)
  ultimately show ?thesis using m by (simp add: loopOK_def)
qed

lemma cancelExec_fields:
  "leasesOf (cancelExec i l) = leasesOf l" "hl_active (cancelExec i l) = AList.delete i (hl_active l)"
  "map he_phase (hl_execs (cancelExec i l)) = map he_phase (hl_execs l)" "hl_results (cancelExec i l) = hl_results l"
  "hl_running (cancelExec i l) = hl_running l" "hl_jobs (cancelExec i l) = hl_jobs l" "hl_queue (cancelExec i l) = hl_queue l"
  "hl_pending (cancelExec i l) = hl_pending l"
proof -
  let ?g = "\<lambda>x. if he_started x then x\<lparr>he_canceled := True\<rparr> else x"
  have g: "leasesOf (updExec e ?g l) = leasesOf l" "map he_phase (hl_execs (updExec e ?g l)) = map he_phase (hl_execs l)" for e
    by (simp_all add: leasesOf_updExec phases_updExec)
  have none: "map_of m i = None \<Longrightarrow> AList.delete i m = m" for m :: "(nat, nat) gomap"
    by (simp add: delete_id map_of_eq_None_iff)
  show "leasesOf (cancelExec i l) = leasesOf l" "hl_active (cancelExec i l) = AList.delete i (hl_active l)"
    "map he_phase (hl_execs (cancelExec i l)) = map he_phase (hl_execs l)" "hl_results (cancelExec i l) = hl_results l"
    "hl_running (cancelExec i l) = hl_running l" "hl_jobs (cancelExec i l) = hl_jobs l" "hl_queue (cancelExec i l) = hl_queue l"
    "hl_pending (cancelExec i l) = hl_pending l"
    using g by (auto simp: cancelExec_def leasesOf_def none split: option.splits) (simp_all add: updExec_def)
qed

lemma gokeys_delete: "gokeys (AList.delete i m) = filter (\<lambda>k. k \<noteq> i) (gokeys m)"
  by (induction m) (auto simp: AList.delete_eq)

lemma cancels_OK:
  "loopOK q l \<Longrightarrow> loopOK q (fold cancelExec ids l) \<and> leasesOf (fold cancelExec ids l) = leasesOf l
     \<and> gokeys (hl_active (fold cancelExec ids l)) = filter (\<lambda>k. k \<notin> set ids) (gokeys (hl_active l))
     \<and> hl_queue (fold cancelExec ids l) = hl_queue l \<and> hl_pending (fold cancelExec ids l) = hl_pending l"
proof (induction ids arbitrary: l)
  case Nil
  then show ?case by simp
next
  case (Cons i ids)
  have "loopOK q (cancelExec i l)" by (rule loopOK_shrink [OF Cons.prems cancelExec_fields(1-6)])
  from Cons.IH [OF this] show ?case
    by (simp add: cancelExec_fields gokeys_delete)
qed

lemma addWork_OK:
  assumes ok: "loopOK (hl_queue l) l" and new: "ww_Lease w \<notin> set (leasesOf l)"
  shows "loopOK (hl_queue (addWork w l)) (addWork w l) \<and> leasesOf (addWork w l) = leasesOf l @ [ww_Lease w]
     \<and> gokeys (hl_active (addWork w l)) = gokeys (hl_active l) @ [ww_Lease w] \<and> hl_pending (addWork w l) = hl_pending l"
proof -
  note o = ok [unfolded loopOK_def]
  let ?n = "length (hl_execs l)" and ?l = "addWork w l"
  have keys: "set (gokeys (hl_active l)) \<subseteq> set (leasesOf l)"
  proof
    fix i assume "i \<in> set (gokeys (hl_active l))"
    then obtain e where "map_of (hl_active l) i = Some e" by (metis domD dom_map_of_conv_image_fst set_map)
    then have "e < ?n" "leasesOf l ! e = i" using o by (auto simp: activeOK_def execLease_leasesOf [symmetric])
    then show "i \<in> set (leasesOf l)" by (metis leasesOf_def length_map nth_mem)
  qed
  then have fresh: "ww_Lease w \<notin> set (gokeys (hl_active l))" using new by blast
  have l: "leasesOf ?l = leasesOf l @ [ww_Lease w]" "hl_active ?l = AList.update (ww_Lease w) ?n (hl_active l)"
    "hl_queue ?l = hl_queue l @ [?n]" "hl_results ?l = hl_results l" "hl_running ?l = hl_running l" "hl_jobs ?l = hl_jobs l"
    "hl_execs ?l = hl_execs l @ [\<lparr>he_work = w, he_started = False, he_canceled = False, he_state = ''queued'', he_phase = NotStarted\<rparr>]"
    by (simp_all add: addWork_def leasesOf_def)
  have old: "map_of (hl_active l) i = Some e \<Longrightarrow> e < ?n \<and> execLease l e = i" for i e using o by (auto simp: activeOK_def)
  have "activeOK ?l"
    using o new old by (auto simp: activeOK_def l execLease_def nth_append dest: old)
  moreover have "queueOK (hl_queue ?l) ?l"
    using o old by (auto simp: queueOK_def l nth_append dest: old)
  moreover have "slotsOK ?l" "finishedOK ?l"
    using o old by (auto simp: slotsOK_def finishedOK_def l busy_def nth_append dest: old)
  ultimately show ?thesis using o l fresh gokeys_update [of "ww_Lease w" ?n "hl_active l"]
    by (auto simp: loopOK_def addWork_def)
qed

lemma addWorks_OK:
  "loopOK (hl_queue l) l \<Longrightarrow> distinct (leasesOf l @ map ww_Lease ws) \<Longrightarrow>
     loopOK (hl_queue (fold addWork ws l)) (fold addWork ws l) \<and> leasesOf (fold addWork ws l) = leasesOf l @ map ww_Lease ws
     \<and> gokeys (hl_active (fold addWork ws l)) = gokeys (hl_active l) @ map ww_Lease ws \<and> hl_pending (fold addWork ws l) = hl_pending l"
proof (induction ws arbitrary: l)
  case Nil
  then show ?case by simp
next
  case (Cons w ws)
  have "ww_Lease w \<notin> set (leasesOf l)" using Cons.prems(2) by auto
  note a = addWork_OK [OF Cons.prems(1) this]
  then have "distinct (leasesOf (addWork w l) @ map ww_Lease ws)" using Cons.prems(2) by auto
  from Cons.IH [OF conjunct1 [OF a] this] a show ?case by simp
qed

section \<open>Every step keeps the loop consistent\<close>

lemma helperOK_sent:
  assumes ok: "helperOK s" and sd: "sendRequest (hs_loop s) = Some (req, l')"
  shows "helperOK (s\<lparr>hs_loop := l', hs_sent := hs_sent s @ map wr_Lease (rq_Results req)\<rparr>)"
proof -
  let ?l = "hs_loop s"
  have l': "l' = ?l\<lparr>hl_pending := [], hl_binaries := [], hl_dirty := False, hl_inFlight := True\<rparr>" "rq_Results req = hl_pending ?l"
    using sd by (auto simp: sendRequest_def split: if_splits)
  have "loopOK (hl_queue ?l) l'"
    by (rule loopOK_cong [of "hl_queue ?l" ?l]) (use ok in \<open>simp_all add: helperOK_def l'\<close>)
  moreover have "accounted (s\<lparr>hs_loop := l', hs_sent := hs_sent s @ map wr_Lease (rq_Results req)\<rparr>)"
    using ok unfolding helperOK_def accounted_def l' by (simp add: ac_simps)
  ultimately show ?thesis using ok by (simp add: helperOK_def l')
qed

lemma helperOK_answered:
  assumes ok: "helperOK s" and rs: "onResponse (Inr res) (hs_loop s) = Continue l'"
    and new: "distinct (leasesOf (hs_loop s) @ map ww_Lease (rs_Work res))"
  shows "helperOK (s\<lparr>hs_loop := l',
    hs_canceled := hs_canceled s @ filter (\<lambda>i. i \<in> set (rs_Cancel res)) (gokeys (hl_active (hs_loop s)))\<rparr>)"
proof -
  let ?l = "hs_loop s"
  define l1 where "l1 = ?l\<lparr>hl_inFlight := False\<rparr>"
  define l2 where "l2 = fold cancelExec (rs_Cancel res) l1"
  define l3 where "l3 = fold addWork (rs_Work res) l2"
  have l': "l' = startQueued l3" using rs by (auto simp: onResponse_def l1_def l2_def l3_def split: if_splits)
  have "loopOK (hl_queue ?l) l1"
    by (rule loopOK_cong [of "hl_queue ?l" ?l]) (use ok in \<open>simp_all add: helperOK_def l1_def\<close>)
  then have "loopOK (hl_queue l1) l1" by (simp add: l1_def)
  from cancels_OK [OF this, of "rs_Cancel res"] have
    c: "loopOK (hl_queue l2) l2" "leasesOf l2 = leasesOf ?l" "hl_pending l2 = hl_pending ?l"
    "gokeys (hl_active l2) = filter (\<lambda>k. k \<notin> set (rs_Cancel res)) (gokeys (hl_active ?l))"
    by (simp_all add: l2_def l1_def)
  from addWorks_OK [OF c(1), of "rs_Work res"] new c(2) have
    w: "loopOK (hl_queue l3) l3" "leasesOf l3 = leasesOf ?l @ map ww_Lease (rs_Work res)" "hl_pending l3 = hl_pending ?l"
    "gokeys (hl_active l3) = filter (\<lambda>k. k \<notin> set (rs_Cancel res)) (gokeys (hl_active ?l)) @ map ww_Lease (rs_Work res)"
    by (simp_all add: l3_def c)
  note st = startQueued_OK [OF w(1)]
  have k: "leasesOf l' = leasesOf l3" "hl_active l' = hl_active l3" "hl_pending l' = hl_pending l3" using st(2) by (simp_all add: l' keepsWork_def)
  have "accounted (s\<lparr>hs_loop := l', hs_canceled := hs_canceled s @ filter (\<lambda>i. i \<in> set (rs_Cancel res)) (gokeys (hl_active ?l))\<rparr>)"
  proof -
    have "mset (filter (\<lambda>i. i \<notin> C) ks) + mset (filter (\<lambda>i. i \<in> C) ks) = mset ks" for C and ks :: "nat list"
      by (induction ks) auto
    from this [of "set (rs_Cancel res)" "gokeys (hl_active ?l)"] ok show ?thesis
      unfolding helperOK_def accounted_def by (simp add: k w ac_simps del: mset_map mset_filter)
  qed
  with st(1,3) show ?thesis by (simp add: helperOK_def l')
qed

lemma helperOK_ready:
  assumes ok: "helperOK s"
  shows "helperOK (s\<lparr>hs_loop := onReady (hs_loop s)\<rparr>)"
proof -
  let ?l = "hs_loop s" and ?g = "\<lambda>x. x\<lparr>he_state := ''running''\<rparr>"
  have g: "leasesOf (updExec e ?g m) = leasesOf m" "map he_phase (hl_execs (updExec e ?g m)) = map he_phase (hl_execs m)" for e m
    by (simp_all add: leasesOf_updExec phases_updExec)
  have f: "leasesOf (onReady ?l) = leasesOf ?l" "map he_phase (hl_execs (onReady ?l)) = map he_phase (hl_execs ?l)"
    by (auto simp: onReady_def Let_def g split: list.splits prod.splits option.splits)
  have r: "hl_active (onReady ?l) = hl_active ?l" "hl_results (onReady ?l) = hl_results ?l" "hl_running (onReady ?l) = hl_running ?l"
    "hl_jobs (onReady ?l) = hl_jobs ?l" "hl_queue (onReady ?l) = hl_queue ?l" "hl_pending (onReady ?l) = hl_pending ?l"
    by (auto simp: onReady_def Let_def updExec_def split: list.splits prod.splits option.splits)
  have "loopOK (hl_queue ?l) (onReady ?l)"
    by (rule loopOK_cong [OF _ f(1) r(1) f(2) r(2-4)]) (use ok in \<open>simp add: helperOK_def\<close>)
  then show ?thesis using ok by (simp add: helperOK_def accounted_def r f)
qed

lemma helperOK_finished:
  assumes ok: "helperOK s" and "hl_results (hs_loop s) \<noteq> []"
  shows "helperOK (s\<lparr>hs_loop := onResult (hs_loop s)\<rparr>)"
proof -
  let ?l = "hs_loop s"
  obtain r rest where r: "hl_results ?l = r # rest" using assms(2) by (cases "hl_results ?l") auto
  let ?i = "wr_Lease r"
  define l2 where "l2 = ?l\<lparr>hl_results := rest, hl_running := hl_running ?l - 1, hl_active := AList.delete ?i (hl_active ?l),
      hl_pending := (if map_of (hl_active ?l) ?i \<noteq> None then hl_pending ?l @ [r] else hl_pending ?l)\<rparr>"
  have none: "map_of (hl_active ?l) ?i = None \<Longrightarrow> AList.delete ?i (hl_active ?l) = hl_active ?l"
    by (simp add: delete_id map_of_eq_None_iff)
  have res: "onResult ?l = (startQueued l2)\<lparr>hl_dirty := True\<rparr>"
    by (auto simp: onResult_def r l2_def none)
  note o = ok [unfolded helperOK_def loopOK_def]
  have "activeOK l2" "queueOK (hl_queue l2) l2" "slotsOK l2"
    using o by (auto simp: l2_def activeOK_def queueOK_def slotsOK_def r leasesOf_def execLease_def split: if_splits)
  moreover have "finishedOK l2" using o by (auto simp: l2_def finishedOK_def r split: if_splits)
  ultimately have ok2: "loopOK (hl_queue l2) l2" using o by (simp add: loopOK_def l2_def)
  note st = startQueued_OK [OF ok2]
  have k: "leasesOf (startQueued l2) = leasesOf ?l" "hl_active (startQueued l2) = AList.delete ?i (hl_active ?l)"
    "hl_pending (startQueued l2) = (if map_of (hl_active ?l) ?i \<noteq> None then hl_pending ?l @ [r] else hl_pending ?l)"
    using st(2) by (simp_all add: keepsWork_def l2_def)
  have dirty: "leasesOf (m\<lparr>hl_dirty := b\<rparr>) = leasesOf m" for m b by (simp add: leasesOf_def)
  have act: "map_of (hl_active ?l) ?i \<noteq> None \<longleftrightarrow> ?i \<in> set (gokeys (hl_active ?l))" by (simp add: map_of_eq_None_iff del: not_None_eq)
  have "mset (filter (\<lambda>k. k \<noteq> i) ks) + (if i \<in> set ks then {#i#} else {#}) = mset ks" if "distinct ks" for i and ks :: "nat list"
    using that by (induction ks) (auto simp: filter_id_conv)
  from this [of "gokeys (hl_active ?l)" ?i] have keys: "mset (filter (\<lambda>k. k \<noteq> ?i) (gokeys (hl_active ?l)))
      + (if ?i \<in> set (gokeys (hl_active ?l)) then {#?i#} else {#}) = mset (gokeys (hl_active ?l))"
    using o by (simp add: activeOK_def gomap_ok_def)
  have acc: "mset (gokeys (hl_active ?l)) + (mset (map wr_Lease (hl_pending ?l)) + (mset (hs_sent s) + mset (hs_canceled s))) = mset (leasesOf ?l)"
    using o by (simp add: accounted_def)
  have "accounted (s\<lparr>hs_loop := onResult ?l\<rparr>)"
    unfolding accounted_def res using acc unfolding keys [symmetric]
    by (cases "?i \<in> set (gokeys (hl_active ?l))") (use act in \<open>simp_all add: k dirty gokeys_delete del: set_map not_None_eq\<close>)
  moreover have "loopOK (hl_queue (onResult ?l)) (onResult ?l)"
    unfolding res by (rule loopOK_cong [of _ "startQueued l2"]) (use st(1) in \<open>simp_all add: dirty\<close>)
  ultimately show ?thesis using st(3) by (simp add: helperOK_def res)
qed

lemma helperOK_tick: "helperOK s \<Longrightarrow> helperOK (s\<lparr>hs_loop := onTick (hs_loop s)\<rparr>)"
  using loopOK_cong [of "hl_queue (hs_loop s)" "hs_loop s" "onTick (hs_loop s)"]
  by (simp add: helperOK_def accounted_def onTick_def)

text \<open>A goroutine that goes on, or that ends and leaves its result.\<close>

lemma helperOK_phase:
  assumes ok: "helperOK s" and e: "e < length (hl_execs (hs_loop s))" and b: "busy (hl_execs (hs_loop s) ! e)"
    and l': "hl_execs l' = hl_execs (updExec e (\<lambda>x. x\<lparr>he_phase := ph\<rparr>) (hs_loop s))" "hl_active l' = hl_active (hs_loop s)"
      "hl_queue l' = hl_queue (hs_loop s)" "hl_running l' = hl_running (hs_loop s)" "hl_jobs l' = hl_jobs (hs_loop s)"
      "hl_pending l' = hl_pending (hs_loop s)"
    and r: "ph = Finished \<and> hl_results l' = hl_results (hs_loop s) @ [r] \<and> wr_Lease r = execLease (hs_loop s) e
      \<or> ph = Executing \<and> hl_results l' = hl_results (hs_loop s)"
  shows "helperOK (s\<lparr>hs_loop := l'\<rparr>)"
proof -
  let ?l = "hs_loop s" and ?g = "\<lambda>x. x\<lparr>he_phase := ph\<rparr>"
  note o = ok [unfolded helperOK_def loopOK_def]
  have x: "hl_execs l' = (hl_execs ?l)[e := ?g (hl_execs ?l ! e)]" using l'(1) by (simp add: updExec_def)
  have lo: "leasesOf l' = leasesOf ?l" using leasesOf_updExec [of ?g e ?l] l'(1) by (simp add: leasesOf_def)
  have act: "activeOK l'" using activeOK_cong [of ?l l'] o lo l'(2) by simp
  have q: "queueOK (hl_queue ?l) l'" using o e b r by (auto simp: queueOK_def x l'(2) nth_list_update busy_def split: if_splits)
  have uniq: "i = execLease ?l e" if "map_of (hl_active ?l) i = Some e" for i using o that by (auto simp: activeOK_def)
  have f: "finishedOK l'" using o e r uniq by (auto simp: finishedOK_def x l'(2) nth_list_update split: if_splits)
  have "slotsOK l'"
  proof (cases "ph = Finished")
    case True
    then have "Suc (length (filter busy (hl_execs l'))) = length (filter busy (hl_execs ?l))"
      unfolding x using e b by (intro length_filter_update_drop) (simp_all add: busy_def)
    then show ?thesis using o r True by (simp add: slotsOK_def l'(4,5))
  next
    case False
    then have "length (filter busy (hl_execs l')) = length (filter busy (hl_execs ?l))"
      unfolding x using e b r by (intro length_filter_update_same) (auto simp: busy_def)
    then show ?thesis using o r False by (simp add: slotsOK_def l'(4,5))
  qed
  then show ?thesis using o act q f by (simp add: helperOK_def loopOK_def accounted_def lo l'(2-6))
qed

lemma helperOK_prepared:
  assumes "helperOK s" "e < length (hl_execs (hs_loop s))" "he_phase (hl_execs (hs_loop s) ! e) = Preparing"
  shows "helperOK (s\<lparr>hs_loop := prepared e r (hs_loop s)\<rparr>)"
proof -
  have b: "busy (hl_execs (hs_loop s) ! e)" using assms(3) by (simp add: busy_def)
  show ?thesis
  proof (cases r)
    case (Inl err)
    show ?thesis
      by (rule helperOK_phase [OF assms(1,2) b, of _ Finished "(infraResult err)\<lparr>wr_Lease := execLease (hs_loop s) e\<rparr>"])
        (simp_all add: prepared_def Inl updExec_def)
  next
    case (Inr h)
    show ?thesis
    proof (cases "he_canceled (hl_execs (hs_loop s) ! e)")
      case True
      show ?thesis
        by (rule helperOK_phase [OF assms(1,2) b, of _ Finished "emptyResult (execLease (hs_loop s) e)"])
          (simp_all add: prepared_def Inr True updExec_def emptyResult_def)
    next
      case False
      show ?thesis
        by (rule helperOK_phase [OF assms(1,2) b, of _ Executing]) (simp_all add: prepared_def Inr False updExec_def)
    qed
  qed
qed

lemma helperOK_executed:
  assumes "helperOK s" "e < length (hl_execs (hs_loop s))" "he_phase (hl_execs (hs_loop s) ! e) = Executing"
  shows "helperOK (s\<lparr>hs_loop := executed e r (hs_loop s)\<rparr>)"
proof -
  have b: "busy (hl_execs (hs_loop s) ! e)" using assms(3) by (simp add: busy_def)
  show ?thesis
    by (rule helperOK_phase [OF assms(1,2) b, of _ Finished "r\<lparr>wr_Lease := execLease (hs_loop s) e\<rparr>"])
      (simp_all add: executed_def updExec_def)
qed

interpretation helper: invariant_system helper_start helper_step helperOK
proof unfold_locales
  fix s t
  show "helper_start s \<Longrightarrow> helperOK s"
    by (auto simp: helper_start_def helperOK_def loopOK_def activeOK_def queueOK_def slotsOK_def finishedOK_def accounted_def
        newLoop_def leasesOf_def)
  assume ok: "helperOK s" and st: "helper_step s t"
  from st show "helperOK t"
  proof cases
    case (sent req l')
    then show ?thesis using helperOK_sent [OF ok] by simp
  next
    case (answered res l')
    then show ?thesis using helperOK_answered [OF ok] by simp
  next
    case isReady
    then show ?thesis using helperOK_ready [OF ok] by simp
  next
    case finished
    then show ?thesis using helperOK_finished [OF ok] by simp
  next
    case ticked
    then show ?thesis using helperOK_tick [OF ok] by simp
  next
    case (built e r err)
    then show ?thesis using helperOK_prepared [OF ok] by simp
  next
    case (ran e r)
    then show ?thesis using helperOK_executed [OF ok] by simp
  qed
qed

section \<open>A small helper for the examples\<close>

definition sampleWork :: workerWork where
  "sampleWork = \<lparr>ww_Lease = 7, ww_Package = ''m/p'', ww_Test = ''TestA'', ww_Binary = ''ab12'', ww_Args = []\<rparr>"

definition sampleResponse :: workerResponse where
  "sampleResponse = \<lparr>rs_Work = [sampleWork], rs_Cancel = [], rs_Done = False, rs_Error = []\<rparr>"

definition sampleWorking :: helperSystem where
  "sampleWorking = \<lparr>hs_loop = (newLoop 1)\<lparr>hl_execs := [\<lparr>he_work = sampleWork, he_started = True, he_canceled = False,
      he_state = ''building'', he_phase = Preparing\<rparr>], hl_active := [(7, 0)], hl_running := 1, hl_dirty := False\<rparr>,
    hs_sent = [], hs_canceled = []\<rparr>"

lemma sampleWorking_reach: "reach helper_start helper_step sampleWorking"
proof -
  let ?s0 = "\<lparr>hs_loop = newLoop 1, hs_sent = [], hs_canceled = []\<rparr>"
  let ?l1 = "(newLoop 1)\<lparr>hl_dirty := False, hl_inFlight := True\<rparr>"
  have "reach helper_start helper_step ?s0" by (rule reach_start) (auto simp: helper_start_def)
  moreover have "helper_step ?s0 (?s0\<lparr>hs_loop := ?l1\<rparr>)"
    using helper_step.sent [of ?s0 "\<lparr>rq_Active = [], rq_Binaries = [], rq_Results = []\<rparr>" ?l1]
    by (simp add: sendRequest_def newLoop_def)
  ultimately have 1: "reach helper_start helper_step (?s0\<lparr>hs_loop := ?l1\<rparr>)" by (rule reach_step)
  have "helper_step (?s0\<lparr>hs_loop := ?l1\<rparr>) sampleWorking"
    using helper_step.answered [of "?s0\<lparr>hs_loop := ?l1\<rparr>" sampleResponse "hs_loop sampleWorking"]
    by (simp add: onResponse_def sampleResponse_def sampleWorking_def newLoop_def startQueued_def addWork_def sampleWork_def
        execLease_def launch_def updExec_def leasesOf_def)
  with 1 show ?thesis by (rule reach_step)
qed

section \<open>Properties\<close>



end
