(* ===== verification/Go_Float.thy ===== *)
theory Go_Float
  imports Go_Strings
begin

text \<open>
  The non-negative part of Go's \<open>float64\<close> arithmetic that reports use: conversion of integers, multiplication
  and division rounded to 53 bits, and the verb \<open>%.nf\<close>. A number is a fraction of two
  integers. Overflow and subnormal numbers do not occur for the counts and durations of a run.
\<close>

type_synonym float64 = "int \<times> int"

text \<open>The integer nearest to \<open>n / d\<close>, the even one of two.\<close>

definition roundHalfEven :: "int \<Rightarrow> int \<Rightarrow> int" where
  "roundHalfEven n d =
     (let q = n div d; r = n mod d
      in if 2 * r < d then q else if 2 * r > d then q + 1 else if even q then q else q + 1)"

text \<open>\<open>k\<close> such that \<open>2 ^ k \<le> n / d < 2 ^ (k + 1)\<close>, for positive \<open>n\<close> and \<open>d\<close>.\<close>

function log2Down :: "int \<Rightarrow> int \<Rightarrow> int" where
  "log2Down n d = (if 0 < n \<and> n < d then log2Down (2 * n) d - 1 else 0)"
  by auto
termination
  by (relation "measure (\<lambda>(n, d). nat (d - n))") auto

function log2Up :: "int \<Rightarrow> int \<Rightarrow> int" where
  "log2Up n d = (if 0 < d \<and> 2 * d \<le> n then log2Up n (2 * d) + 1 else 0)"
  by auto
termination
  by (relation "measure (\<lambda>(n, d). nat (n - d))") auto

declare log2Down.simps [simp del] log2Up.simps [simp del]

definition log2Quot :: "int \<Rightarrow> int \<Rightarrow> int" where
  "log2Quot n d = (if n < d then log2Down n d else log2Up n d)"

definition f64 :: "int \<times> int \<Rightarrow> float64" where
  "f64 q =
     (let (n, d) = q
      in if n \<le> 0 \<or> d \<le> 0 then (0, 1)
         else let s = 52 - log2Quot n d
              in if 0 \<le> s then (roundHalfEven (n * 2 ^ nat s) d, 2 ^ nat s)
                 else (roundHalfEven n (d * 2 ^ nat (- s)) * 2 ^ nat (- s), 1))"

definition f64OfInt :: "int \<Rightarrow> float64" where
  "f64OfInt n = f64 (n, 1)"

definition f64Mul :: "float64 \<Rightarrow> float64 \<Rightarrow> float64" where
  "f64Mul x y = f64 (fst x * fst y, snd x * snd y)"

definition f64Div :: "float64 \<Rightarrow> float64 \<Rightarrow> float64" where
  "f64Div x y = f64 (fst x * snd y, snd x * fst y)"

text \<open>\<open>%.pf\<close>.\<close>

definition padLeft :: "nat \<Rightarrow> string \<Rightarrow> string" where
  "padLeft n s = replicate (n - length s) (CHR ''0'') @ s"

definition formatFixed :: "nat \<Rightarrow> float64 \<Rightarrow> string" where
  "formatFixed p x =
     (let q = nat (roundHalfEven (fst x * 10 ^ p) (snd x))
      in showNat (q div 10 ^ p) @ (if p = 0 then [] else ''.'' @ padLeft p (showNat (q mod 10 ^ p))))"

text \<open>\<open>100 * float64(a) / float64(b)\<close>.\<close>

definition percent :: "int \<Rightarrow> int \<Rightarrow> float64" where
  "percent a b = f64Div (f64Mul (100, 1) (f64OfInt a)) (f64OfInt b)"

lemma roundHalfEven_near: "0 < d \<Longrightarrow> \<bar>2 * (d * roundHalfEven n d - n)\<bar> \<le> d"
proof -
  assume d: "0 < d"
  have n: "n = d * (n div d) + n mod d" by simp
  have r: "0 \<le> n mod d" "n mod d < d" using d by simp_all
  have "d * roundHalfEven n d - n = - (n mod d) \<or> d * roundHalfEven n d - n = d - n mod d"
    using n by (auto simp: roundHalfEven_def Let_def algebra_simps)
  moreover have "d * roundHalfEven n d - n = - (n mod d) \<Longrightarrow> 2 * (n mod d) \<le> d"
    using n d r by (auto simp: roundHalfEven_def Let_def algebra_simps split: if_splits)
  moreover have "d * roundHalfEven n d - n = d - n mod d \<Longrightarrow> d \<le> 2 * (n mod d)"
    using n d r by (auto simp: roundHalfEven_def Let_def algebra_simps split: if_splits)
  ultimately show ?thesis using r by auto
qed

lemma roundHalfEven_exact: "0 < d \<Longrightarrow> roundHalfEven (k * d) d = k"
  by (simp add: roundHalfEven_def)

lemma roundHalfEven_mono: "0 < d \<Longrightarrow> m \<le> n \<Longrightarrow> roundHalfEven m d \<le> roundHalfEven n d"
proof -
  assume d: "0 < d" and "m \<le> n"
  show ?thesis
  proof (cases "m div d = n div d")
    case True
    then have "m mod d \<le> n mod d" using \<open>m \<le> n\<close> by (metis add_le_cancel_left mult_div_mod_eq)
    then show ?thesis using True by (auto simp: roundHalfEven_def Let_def)
  next
    case False
    then have "m div d < n div d" using \<open>m \<le> n\<close> d by (metis order_le_less zdiv_mono1)
    then show ?thesis by (auto simp: roundHalfEven_def Let_def)
  qed
qed

end
