(* ===== verification/Progress.thy ===== *)
theory Progress
  imports Fleet Go_Float
begin

text \<open>
  What a run reports while it goes on and at its end: \<open>progress.go\<close> (snapshot, estimate of the remaining time,
  progress line, flaky tests), \<open>workerDataLocked\<close> of \<open>distributed.go\<close> and \<open>summary.go\<close> (phases and workers of a
  distributed run). Output is a string; the clock is an argument.
\<close>

section \<open>Rounding durations\<close>

text \<open>\<open>time.Duration.Round\<close>: to the nearest multiple, half away from zero.\<close>

definition durationRound :: "duration \<Rightarrow> duration \<Rightarrow> duration" where
  "durationRound d m =
     (if m \<le> 0 then d
      else let r = \<bar>d\<bar> mod m; a = (if 2 * r < m then \<bar>d\<bar> - r else \<bar>d\<bar> + m - r)
           in if d < 0 then - a else a)"

definition roundDuration :: "duration \<Rightarrow> duration" where
  "roundDuration d = (if d < second then durationRound d millisecond else durationRound d second)"

definition formatEstimate :: "duration \<Rightarrow> string" where
  "formatEstimate d =
     (if d \<le> 0 then ''0s'' else if d < second then ''<1s'' else durationString (durationRound d second))"

section \<open>The estimate of the remaining time\<close>

text \<open>The helpers that count: connected and without an error.\<close>

definition usableHelpers :: "fleet option \<Rightarrow> fleetWorker list" where
  "usableHelpers fo =
     (case fo of
        None \<Rightarrow> []
      | Some f \<Rightarrow> filter (\<lambda>w. fw_ID w \<noteq> ''leader'' \<and> fw_Connected w \<and> fw_Error w = []) (f_workers f))"

definition etaCapacity :: "flags \<Rightarrow> fleet option \<Rightarrow> int" where
  "etaCapacity fl fo = max 1 (jobs fl) + sum_list (map fw_Slots (usableHelpers fo))"

text \<open>The estimated time that an unfinished test still needs.\<close>

definition etaRemaining :: "time \<Rightarrow> testStatus \<Rightarrow> duration \<Rightarrow> duration" where
  "etaRemaining now ts d =
     (if ts_running ts
      then let r = max 0 (d - (now - ts_started ts)) in if r = 0 then max second (goDiv d 2) else r
      else d)"

definition scheduledTest :: "Server \<Rightarrow> string \<Rightarrow> testStatus option" where
  "scheduledTest s key =
     (case CutByte nul key of None \<Rightarrow> None | Some (pkg, test) \<Rightarrow> testOf s pkg test)"

definition scheduledEstimate :: "Server \<Rightarrow> string \<Rightarrow> testEstimate" where
  "scheduledEstimate s key = (case map_of (sv_testEstimates s) key of Some e \<Rightarrow> e | None \<Rightarrow> \<lparr>est_duration = 0, est_known = False\<rparr>)"

text \<open>
  The first loop of \<open>testETALocked\<close>: the slots taken by running tests, the queue, and the number of
  tests without an estimate of their own.
\<close>

definition etaStep :: "time \<Rightarrow> Server \<Rightarrow> nat \<Rightarrow> string \<Rightarrow> duration list \<times> duration list \<times> int \<Rightarrow> duration list \<times> duration list \<times> int" where
  "etaStep now s cap key acc =
     (case acc of (slots, queued, unknown) \<Rightarrow>
        (case scheduledTest s key of
           None \<Rightarrow> acc
         | Some ts \<Rightarrow>
             if ts_done ts then acc
             else let est = scheduledEstimate s key;
                      unknown' = unknown + (if est_known est then 0 else 1);
                      remaining = etaRemaining now ts (est_duration est)
                  in if ts_running ts \<and> length slots < cap then (slots @ [remaining], queued, unknown')
                     else (slots, queued @ [remaining], unknown')))"

text \<open>The index of the first smallest element.\<close>

fun argminFrom :: "duration list \<Rightarrow> nat \<Rightarrow> nat \<Rightarrow> nat \<Rightarrow> nat" where
  "argminFrom slots i j 0 = i"
| "argminFrom slots i j (Suc n) = argminFrom slots (if slots ! j < slots ! i then j else i) (Suc j) n"

definition assignSlot :: "duration \<Rightarrow> duration list \<Rightarrow> duration list" where
  "assignSlot d slots = (let i = argminFrom slots 0 1 (length slots - 1) in slots[i := slots ! i + d])"

definition testETALocked :: "flags \<Rightarrow> fleet option \<Rightarrow> time \<Rightarrow> Server \<Rightarrow> duration \<times> int \<times> bool" where
  "testETALocked fl fo now s =
     (if \<not> sv_testEstimateReady s \<or> sv_phase s \<notin> {phaseTesting, phaseDone, phaseFailed} then (0, 0, False)
      else let cap = nat (etaCapacity fl fo);
               (running, queued, unknown) = fold (etaStep now s cap) (sv_testSchedule s) ([], [], 0);
               slots = fold assignSlot queued (running @ replicate (cap - length running) 0)
           in (Max (set slots), unknown, True))"

section \<open>Snapshots\<close>

record progressSnapshot =
  pr_Phase :: runPhase
  pr_Elapsed :: duration
  pr_BuildOnly :: bool
  pr_PackagesDiscovered :: int
  pr_PackagesTotal :: int
  pr_PackagesBuilt :: int
  pr_PackagesCached :: int
  pr_PackagesListed :: int
  pr_PackagesDone :: int
  pr_TestsTotal :: int
  pr_TestsDone :: int
  pr_TestsRunning :: int
  pr_TestsFlaky :: int
  pr_TestETA :: duration
  pr_ETAMedian :: duration
  pr_ETAUnknown :: int
  pr_ETAAvailable :: bool
  pr_CacheEnabled :: bool
  pr_CacheChecks :: int
  pr_CacheHits :: int
  pr_Helpers :: int

definition testPackages :: "Server \<Rightarrow> packageStatus list" where
  "testPackages s = filter (\<lambda>ps. hasTests (ps_glp ps)) (map snd (sv_pkgs s))"

definition topLevelTests :: "Server \<Rightarrow> testStatus list" where
  "topLevelTests s =
     concat (map (\<lambda>ps. map snd (filter (\<lambda>(name, ts). isRunnableTopLevelTest name) (testsOf ps))) (testPackages s))"

definition countIf :: "('a \<Rightarrow> bool) \<Rightarrow> 'a list \<Rightarrow> int" where
  "countIf P xs = int (length (filter P xs))"

definition snapshot :: "flags \<Rightarrow> fleet option \<Rightarrow> time \<Rightarrow> Server \<Rightarrow> progressSnapshot" where
  "snapshot fl fo now s =
     (let (eta, unknown, available) = testETALocked fl fo now s
      in \<lparr>pr_Phase = sv_phase s, pr_Elapsed = durationRound (now - sv_start s) second, pr_BuildOnly = buildOnly fl,
          pr_PackagesDiscovered = int (length (sv_pkgs s)), pr_PackagesTotal = sv_pkgsWithTests s,
          pr_PackagesBuilt = countIf (\<lambda>ps. ps_exeHash ps \<noteq> []) (testPackages s),
          pr_PackagesCached = countIf (\<lambda>ps. ps_exeHash ps \<noteq> [] \<and> ps_exeCached ps) (testPackages s),
          pr_PackagesListed = countIf (\<lambda>ps. ps_tests ps \<noteq> None) (testPackages s),
          pr_PackagesDone = countIf (\<lambda>ps. ps_state ps = pkgStateDone) (testPackages s),
          pr_TestsTotal = sv_testsTotal s, pr_TestsDone = countIf ts_done (topLevelTests s),
          pr_TestsRunning = countIf ts_running (topLevelTests s),
          pr_TestsFlaky = countIf (\<lambda>ts. ts_passed ts \<and> ts_fails ts \<noteq> []) (topLevelTests s),
          pr_TestETA = eta, pr_ETAMedian = sv_testEstimateBase s, pr_ETAUnknown = unknown, pr_ETAAvailable = available,
          pr_CacheEnabled = (sv_testCache s \<noteq> None), pr_CacheChecks = sv_cacheChecks s, pr_CacheHits = sv_cacheHits s,
          pr_Helpers = int (length (usableHelpers fo))\<rparr>)"

definition phaseText :: "runPhase \<Rightarrow> string" where
  "phaseText ph =
     (case ph of phaseDiscovering \<Rightarrow> ''discovering'' | phaseBuilding \<Rightarrow> ''building'' | phaseListing \<Rightarrow> ''listing''
      | phaseTesting \<Rightarrow> ''testing'' | phaseDone \<Rightarrow> ''done'' | phaseFailed \<Rightarrow> ''failed'')"

definition writeBuildProgress :: "progressSnapshot \<Rightarrow> string" where
  "writeBuildProgress p =
     showInt (pr_PackagesTotal p) @ ''/'' @ showInt (pr_PackagesDiscovered p) @ '' test pkgs; ''
     @ showInt (pr_PackagesBuilt p) @ ''/'' @ showInt (pr_PackagesTotal p) @ '' built''
     @ (if pr_PackagesBuilt p = 0 then '' ('' @ showInt (pr_PackagesCached p) @ '' cached)''
        else '' ('' @ showInt (pr_PackagesCached p) @ '' cached, ''
             @ formatFixed 1 (percent (pr_PackagesCached p) (pr_PackagesBuilt p)) @ ''%)'')"

definition progressLine :: "progressSnapshot \<Rightarrow> string" where
  "progressLine p =
     ''gotst: '' @ phaseText (pr_Phase p) @ '': ''
     @ (case pr_Phase p of
          phaseDiscovering \<Rightarrow> showInt (pr_PackagesDiscovered p) @ '' pkgs matched; '' @ showInt (pr_PackagesTotal p) @ '' with tests''
        | phaseBuilding \<Rightarrow> writeBuildProgress p
        | phaseListing \<Rightarrow>
            showInt (pr_PackagesDiscovered p) @ '' pkgs matched, '' @ showInt (pr_PackagesTotal p) @ '' with tests; ''
            @ showInt (pr_PackagesListed p) @ ''/'' @ showInt (pr_PackagesTotal p) @ '' test pkgs listed; ''
            @ showInt (pr_TestsTotal p) @ '' tests found''
        | ph \<Rightarrow>
            if ph \<noteq> phaseTesting \<and> pr_BuildOnly p then writeBuildProgress p
            else showInt (pr_PackagesDone p) @ ''/'' @ showInt (pr_PackagesTotal p) @ '' test pkgs, ''
                 @ showInt (pr_TestsDone p) @ ''/'' @ showInt (pr_TestsTotal p) @ '' tests; ''
                 @ showInt (pr_TestsRunning p) @ '' running'')
     @ (if pr_Phase p \<in> {phaseTesting, phaseDone, phaseFailed} \<and> \<not> pr_BuildOnly p
        then (if pr_TestsFlaky p > 0 then ''; '' @ showInt (pr_TestsFlaky p) @ '' flaky'' else [])
             @ (if \<not> pr_CacheEnabled p then ''; cache off''
                else if pr_CacheChecks p = 0 then ''; cache hits 0/0''
                else ''; cache hits '' @ showInt (pr_CacheHits p) @ ''/'' @ showInt (pr_CacheChecks p) @ '' (''
                     @ formatFixed 1 (percent (pr_CacheHits p) (pr_CacheChecks p)) @ ''%)'')
             @ (if pr_ETAAvailable p
                then ''; ETA '' @ formatEstimate (pr_TestETA p)
                     @ (if pr_ETAUnknown p \<noteq> 0
                        then '' ('' @ showInt (pr_ETAUnknown p) @ '' unknown at '' @ formatEstimate (pr_ETAMedian p) @ '' median)''
                        else [])
                else [])
        else [])
     @ ''; '' @ durationString (pr_Elapsed p)
     @ (if pr_Helpers p \<noteq> 0 then ''; '' @ showInt (pr_Helpers p) @ '' helpers'' else [])"

section \<open>Flaky tests\<close>

record flakyTestSummary =
  fl_Package :: string
  fl_Test :: string
  fl_Attempts :: int
  fl_Failures :: int
  fl_Attrs :: "(string, string) gomap"
  fl_FailedAttempts :: "failInfo list"

definition compareFlaky :: "flakyTestSummary \<Rightarrow> flakyTestSummary \<Rightarrow> int" where
  "compareFlaky a b =
     (let c = cmpOf (fl_Package a) (fl_Package b) in if c \<noteq> 0 then c else cmpOf (fl_Test a) (fl_Test b))"

definition flakyTests :: "Server \<Rightarrow> flakyTestSummary list" where
  "flakyTests s =
     SortFunc compareFlaky
       (concat (map (\<lambda>(pkg, ps).
          map (\<lambda>(test, ts). \<lparr>fl_Package = pkg, fl_Test = test, fl_Attempts = ts_attempts ts,
                             fl_Failures = int (length (ts_fails ts)), fl_Attrs = ts_attrs ts, fl_FailedAttempts = ts_fails ts\<rparr>)
            (filter (\<lambda>(test, ts). ts_passed ts \<and> ts_fails ts \<noteq> []) (testsOf ps))) (sv_pkgs s)))"

text \<open>The text of \<open>printFlakySummary\<close>; \<open>encode\<close> is the JSON encoder.\<close>

definition flakyDiagnostics :: "flakyTestSummary \<Rightarrow> string" where
  "flakyDiagnostics f =
     concat (map (\<lambda>(i, fail).
       [nl] @ ''[gotst: '' @ fl_Package f @ '' '' @ fl_Test f @ '' failed attempt '' @ showNat (i + 1) @ ''/'' @ showInt (fl_Failures f)
       @ '', '' @ durationString (fail_dur fail) @ '']'' @ [nl] @ fail_out fail
       @ (if HasSuffix (fail_out fail) [nl] then [] else [nl])) (enumerate 0 (fl_FailedAttempts f)))"

definition flakySummaryText :: "(flakyTestSummary list \<Rightarrow> string) \<Rightarrow> flags \<Rightarrow> Server \<Rightarrow> string" where
  "flakySummaryText encode fl s =
     (let flakes = flakyTests s
      in if flakes = [] then []
         else (if jsonSummary fl then [nl] @ ''FLAKY TEST DIAGNOSTICS:'' @ [nl] @ concat (map flakyDiagnostics flakes) else [])
              @ [nl] @ ''FLAKY TESTS ('' @ showNat (length flakes) @ ''):'' @ [nl]
              @ concat (map (\<lambda>f. ''  '' @ fl_Package f @ '' '' @ fl_Test f @ '': passed after '' @ showInt (fl_Attempts f)
                              @ '' attempts ('' @ showInt (fl_Failures f) @ '' failed)'' @ [nl]) flakes)
              @ (if jsonSummary fl then ''gotst flaky tests JSON: '' @ encode flakes @ [nl] else []))"

section \<open>The estimate is a greedy schedule\<close>

text \<open>The remaining times of the scheduled tests that are not done, in dispatch order.\<close>

definition unfinishedTests :: "Server \<Rightarrow> (string \<times> testStatus) list" where
  "unfinishedTests s =
     concat (map (\<lambda>key. case scheduledTest s key of None \<Rightarrow> [] | Some ts \<Rightarrow> if ts_done ts then [] else [(key, ts)]) (sv_testSchedule s))"

definition remainingTimes :: "time \<Rightarrow> Server \<Rightarrow> duration list" where
  "remainingTimes now s = map (\<lambda>(key, ts). etaRemaining now ts (est_duration (scheduledEstimate s key))) (unfinishedTests s)"

lemma argminFrom_bound: "i < length slots \<Longrightarrow> j + n \<le> length slots \<Longrightarrow> argminFrom slots i j n < length slots"
  by (induction n arbitrary: i j) auto

lemma argminFrom_min:
  assumes "\<forall>k < j. slots ! i \<le> slots ! k" and "k < j + n"
  shows "slots ! argminFrom slots i j n \<le> slots ! k"
  using assms
proof (induction n arbitrary: i j)
  case (Suc n)
  have "\<forall>k < Suc j. slots ! (if slots ! j < slots ! i then j else i) \<le> slots ! k"
    using Suc.prems(1) by (auto simp: less_Suc_eq)
  then show ?case using Suc.IH Suc.prems(2) by simp
qed simp

lemma assignSlot_cases:
  assumes "slots \<noteq> []"
  obtains i where "i < length slots" and "\<forall>x \<in> set slots. slots ! i \<le> x" and "assignSlot d slots = slots[i := slots ! i + d]"
proof -
  let ?i = "argminFrom slots 0 1 (length slots - 1)"
  have len: "1 + (length slots - 1) = length slots" using assms by simp
  have "?i < length slots" using assms argminFrom_bound [of 0 slots 1 "length slots - 1"] by simp
  moreover have "\<forall>x \<in> set slots. slots ! ?i \<le> x"
    using argminFrom_min [of 1 slots 0 _ "length slots - 1"] len by (auto simp: in_set_conv_nth)
  ultimately show thesis using that by (simp add: assignSlot_def Let_def)
qed

text \<open>
  What holds of \<open>m\<close> slots that the jobs \<open>ds\<close>, none longer than \<open>L\<close>, are assigned to.
\<close>

definition greedySlots :: "nat \<Rightarrow> duration \<Rightarrow> duration list \<Rightarrow> duration list \<Rightarrow> bool" where
  "greedySlots m L ds slots \<longleftrightarrow>
     length slots = m \<and> sum_list slots = sum_list ds \<and> (\<forall>x \<in> set slots. 0 \<le> x)
     \<and> (\<forall>d \<in> set ds. \<exists>x \<in> set slots. d \<le> x)
     \<and> (\<forall>x \<in> set slots. int m * x \<le> sum_list ds + (int m - 1) * L)"

lemma sum_list_ge_length:
  fixes c :: int
  shows "\<forall>x \<in> set xs. c \<le> x \<Longrightarrow> int (length xs) * c \<le> sum_list xs"
  by (induction xs) (auto simp: algebra_simps)

lemma sum_list_le_length:
  fixes c :: int
  shows "\<forall>x \<in> set xs. x \<le> c \<Longrightarrow> sum_list xs \<le> int (length xs) * c"
  by (induction xs) (auto simp: algebra_simps)

lemma sum_list_update_int:
  fixes xs :: "int list"
  shows "i < length xs \<Longrightarrow> sum_list (xs[i := v]) = sum_list xs - xs ! i + v"
  by (induction xs arbitrary: i) (auto split: nat.splits)

lemma greedySlots_assign:
  assumes g: "greedySlots m L ds slots" and m: "0 < m" and d: "0 \<le> d" "d \<le> L"
  shows "greedySlots m L (ds @ [d]) (assignSlot d slots)"
proof -
  have "slots \<noteq> []" using g m by (auto simp: greedySlots_def)
  then obtain i where i: "i < length slots" and least: "\<forall>x \<in> set slots. slots ! i \<le> x"
    and upd: "assignSlot d slots = slots[i := slots ! i + d]"
    by (rule assignSlot_cases)
  have len: "length slots = m" and sum: "sum_list slots = sum_list ds" using g by (auto simp: greedySlots_def)
  have sub: "set (slots[i := slots ! i + d]) \<subseteq> insert (slots ! i + d) (set slots)" by (rule set_update_subset_insert)
  have new: "slots ! i + d \<in> set (slots[i := slots ! i + d])" using i by (simp add: set_update_memI)
  have pos: "0 \<le> slots ! i" using g i by (auto simp: greedySlots_def)
  have "sum_list (slots[i := slots ! i + d]) = sum_list ds + d"
    using i sum by (simp add: sum_list_update_int)
  moreover have "\<exists>y \<in> set (slots[i := slots ! i + d]). x \<le> y" if x: "x \<in> set slots" for x
  proof -
    obtain k where k: "k < length slots" "slots ! k = x" using x unfolding in_set_conv_nth by blast
    have "slots[i := slots ! i + d] ! k \<in> set (slots[i := slots ! i + d])" using k by (intro nth_mem) simp
    moreover have "x \<le> slots[i := slots ! i + d] ! k" using k d i by (cases "k = i") auto
    ultimately show ?thesis by blast
  qed
  moreover have "int m * (slots ! i + d) \<le> sum_list ds + d + (int m - 1) * L"
  proof -
    have "int m * (slots ! i) \<le> sum_list ds" using sum_list_ge_length [OF least] len sum by simp
    moreover have "(int m - 1) * d \<le> (int m - 1) * L" using m d by (intro mult_left_mono) auto
    ultimately show ?thesis by (simp add: algebra_simps)
  qed
  moreover have "int m * x \<le> sum_list ds + d + (int m - 1) * L" if "x \<in> set slots" for x
    using g that d by (auto simp: greedySlots_def)
  moreover have "\<exists>x \<in> set (slots[i := slots ! i + d]). d \<le> x"
    using new pos by (intro bexI [of _ "slots ! i + d"]) auto
  moreover have "\<exists>x \<in> set (slots[i := slots ! i + d]). e \<le> x" if e: "e \<in> set ds" for e
  proof -
    obtain x where "x \<in> set slots" "e \<le> x" using g e by (auto simp: greedySlots_def)
    then show ?thesis using calculation(2) by (meson order_trans)
  qed
  moreover have "\<forall>x \<in> set (slots[i := slots ! i + d]). 0 \<le> x" using sub g pos d by (auto simp: greedySlots_def)
  ultimately show ?thesis using len sub new unfolding greedySlots_def upd
    by (auto simp: ac_simps)
qed

lemma greedySlots_fold:
  assumes "0 < m" and "greedySlots m L ds slots" and "\<forall>d \<in> set queued. 0 \<le> d \<and> d \<le> L"
  shows "greedySlots m L (ds @ queued) (fold assignSlot queued slots)"
  using assms(2,3)
proof (induction queued arbitrary: ds slots)
  case (Cons d queued)
  have "greedySlots m L (ds @ [d]) (assignSlot d slots)" using Cons.prems assms(1) by (intro greedySlots_assign) auto
  then show ?case using Cons.IH [of "ds @ [d]"] Cons.prems by simp
qed simp

lemma greedySlots_init:
  assumes "length running \<le> m" and "0 < m" and "0 \<le> L" and "\<forall>d \<in> set running. 0 \<le> d \<and> d \<le> L"
  shows "greedySlots m L running (running @ replicate (m - length running) 0)"
proof -
  have pos: "0 \<le> sum_list running" using assms(4) by (intro sum_list_nonneg) auto
  have nn: "0 \<le> (int m - 1) * L" using assms by simp
  have "int m * x \<le> sum_list running + (int m - 1) * L" if "x \<in> set running" for x
  proof -
    have "x \<le> sum_list running" using assms(4) that by (intro member_le_sum_list) auto
    moreover have "(int m - 1) * x \<le> (int m - 1) * L" using assms that by (intro mult_left_mono) auto
    ultimately show ?thesis by (simp add: algebra_simps)
  qed
  then show ?thesis using assms pos nn by (auto simp: greedySlots_def sum_list_replicate)
qed

lemma etaRemaining_nonneg: "0 \<le> d \<Longrightarrow> 0 \<le> etaRemaining now ts d"
  by (cases "d \<le> now - ts_started ts") (simp_all add: etaRemaining_def Let_def second_def max_def)

text \<open>The first loop distributes the remaining times over the slots and the queue.\<close>

lemma etaLoop_remaining:
  "fold (etaStep now s cap) keys (slots, queued, unknown) = (slots', queued', unknown') \<Longrightarrow> length slots \<le> cap \<Longrightarrow>
   length slots' \<le> cap
   \<and> mset (slots' @ queued')
     = mset (slots @ queued) + mset (remainingTimes now (s\<lparr>sv_testSchedule := keys\<rparr>))
   \<and> unknown' = unknown + countIf (\<lambda>(key, ts). \<not> est_known (scheduledEstimate s key)) (unfinishedTests (s\<lparr>sv_testSchedule := keys\<rparr>))"
proof (induction keys arbitrary: slots queued unknown)
  case Nil
  then show ?case by (simp add: remainingTimes_def unfinishedTests_def countIf_def)
next
  case (Cons key keys)
  have [simp]: "scheduledTest (s\<lparr>sv_testSchedule := ks\<rparr>) k = scheduledTest s k"
    "scheduledEstimate (s\<lparr>sv_testSchedule := ks\<rparr>) k = scheduledEstimate s k" for k ks
    by (auto simp: scheduledTest_def testOf_def scheduledEstimate_def split: option.split)
  obtain sl q u where step: "etaStep now s cap key (slots, queued, unknown) = (sl, q, u)" by (metis prod_cases3)
  have rest: "fold (etaStep now s cap) keys (sl, q, u) = (slots', queued', unknown')"
    using Cons.prems(1) step by simp
  have len: "length sl \<le> cap"
    using step Cons.prems(2) by (auto simp: etaStep_def Let_def split: option.splits if_splits)
  show ?case using Cons.IH [OF rest len] step
    by (auto simp: etaStep_def Let_def remainingTimes_def unfinishedTests_def countIf_def
             split: option.splits if_splits)
qed

lemma testETALocked_cases:
  assumes "testETALocked fl fo now s = (eta, unknown, True)"
  obtains running queued where
    "length running \<le> nat (etaCapacity fl fo)"
    and "mset (running @ queued) = mset (remainingTimes now s)"
    and "unknown = countIf (\<lambda>(key, ts). \<not> est_known (scheduledEstimate s key)) (unfinishedTests s)"
    and "eta = Max (set (fold assignSlot queued (running @ replicate (nat (etaCapacity fl fo) - length running) 0)))"
proof -
  obtain running queued u where
    loop: "fold (etaStep now s (nat (etaCapacity fl fo))) (sv_testSchedule s) ([], [], 0) = (running, queued, u)"
    by (metis prod_cases3)
  show thesis using etaLoop_remaining [OF loop] assms loop
    by (intro that [of running queued]) (auto simp: testETALocked_def Let_def split: if_splits)
qed


definition etaServer :: Server where
  "etaServer = sampleServer\<lparr>sv_testSchedule := [''m/p'' @ [nul] @ ''TestB'', ''m/p'' @ [nul] @ ''TestA''],
     sv_testEstimates := [(''m/p'' @ [nul] @ ''TestB'', \<lparr>est_duration = 3000000000, est_known = True\<rparr>)],
     sv_testEstimateReady := True\<rparr>"


end
