(* ===== verification/Go_Utf8.thy ===== *)
theory Go_Utf8
  imports Go_Strings
begin

text \<open>
  UTF-8 as Go sees it: a string as the encodings of its runes, conversion between strings and runes, valid
  strings, and the repair of invalid ones. The central fact is that decoding inverts encoding.
\<close>

section \<open>Runes and their encodings\<close>

text \<open>The encodings of a string's runes.\<close>

function runeBytes :: "string \<Rightarrow> string list" where
  "runeBytes [] = []"
| "runeBytes (c # cs) = (let n = snd (decodeRune (c # cs)) in (c # take (n - 1) cs) # runeBytes (drop (n - 1) cs))"
  by pat_completeness auto
termination
  by (relation "measure length") auto

text \<open>\<open>utf8.AppendRune\<close>: surrogates and numbers beyond the last code point become U+FFFD.\<close>

definition scalar :: "nat \<Rightarrow> bool" where
  "scalar c \<longleftrightarrow> c < 0x110000 \<and> \<not> inRange 0xD800 0xDFFF c"

definition encodeRune :: "nat \<Rightarrow> string" where
  "encodeRune c0 =
     (let c = (if scalar c0 then c0 else 0xFFFD)
      in if c < 0x80 then [char_of c]
         else if c < 0x800 then [char_of (0xC0 + c div 64), char_of (0x80 + c mod 64)]
         else if c < 0x10000 then [char_of (0xE0 + c div 4096), char_of (0x80 + c div 64 mod 64), char_of (0x80 + c mod 64)]
         else [char_of (0xF0 + c div 262144), char_of (0x80 + c div 4096 mod 64), char_of (0x80 + c div 64 mod 64),
               char_of (0x80 + c mod 64)])"

text \<open>\<open>string(rs)\<close> for a slice of runes.\<close>

definition encodeRunes :: "nat list \<Rightarrow> string" where
  "encodeRunes rs = concat (map encodeRune rs)"

definition badRune :: "string \<Rightarrow> bool" where
  "badRune r \<longleftrightarrow> decodeRune r = (0xFFFD, 1)"

definition ValidString :: "string \<Rightarrow> bool" where
  "ValidString s \<longleftrightarrow> (\<forall>r \<in> set (runeBytes s). \<not> badRune r)"

text \<open>\<open>strings.ToValidUTF8\<close>: every run of invalid bytes becomes one replacement.\<close>

fun repairRunes :: "string \<Rightarrow> bool \<Rightarrow> string list \<Rightarrow> string" where
  "repairRunes repl bad [] = []"
| "repairRunes repl bad (r # rs) =
     (if badRune r then (if bad then [] else repl) @ repairRunes repl True rs else r @ repairRunes repl False rs)"

definition ToValidUTF8 :: "string \<Rightarrow> string \<Rightarrow> string" where
  "ToValidUTF8 s repl = repairRunes repl False (runeBytes s)"

section \<open>Facts\<close>

lemma concat_runeBytes [simp]: "concat (runeBytes s) = s"
  by (induction s rule: runeBytes.induct) (auto simp: Let_def)

lemma of_char_lt_iff: "(of_char c :: nat) < 0x80 \<Longrightarrow> decodeRune (c # cs) = (of_char c, 1)"
  by (simp add: decodeRune_def byteAt_def Let_def)

lemma decodeRune_high:
  assumes "\<not> (of_char c :: nat) < 0x80" and "b \<in> set (take (snd (decodeRune (c # cs)) - 1) cs)"
  shows "0x80 \<le> (of_char b :: nat)"
proof -
  obtain i where i: "i < length cs" "i < snd (decodeRune (c # cs)) - 1" "b = cs ! i"
    using assms(2) by (auto simp: in_set_conv_nth)
  have at: "byteAt (c # cs) (Suc i) = of_char b" using i by (simp add: byteAt_def)
  have "snd (decodeRune (c # cs)) \<le> 4" by (simp add: decodeRune_def Let_def)
  then consider "i = 0" | "i = 1" | "i = 2" using i(2) by linarith
  then have "0x80 \<le> byteAt (c # cs) (Suc i)"
    using i(2) assms(1) by cases (auto simp: decodeRune_def Let_def inRange_def numeral_2_eq_2 numeral_3_eq_3 split: if_splits)
  then show ?thesis using at by simp
qed

text \<open>A rune is one ASCII byte or has none.\<close>

lemma runeBytes_ascii:
  "r \<in> set (runeBytes s) \<Longrightarrow> r \<noteq> [] \<and> ((\<exists>c. r = [c] \<and> (of_char c :: nat) < 0x80) \<or> (\<forall>b \<in> set r. 0x80 \<le> (of_char b :: nat)))"
proof (induction s rule: runeBytes.induct)
  case (2 c cs)
  show ?case
  proof (cases "r \<in> set (runeBytes (drop (snd (decodeRune (c # cs)) - 1) cs))")
    case True
    then show ?thesis by (rule "2.IH" [OF refl])
  next
    case False
    then have r: "r = c # take (snd (decodeRune (c # cs)) - 1) cs" using "2.prems" by (simp add: Let_def)
    show ?thesis
    proof (cases "(of_char c :: nat) < 0x80")
      case True
      then show ?thesis using r by (simp add: of_char_lt_iff)
    next
      case False
      then show ?thesis using r decodeRune_high [OF False] by auto
    qed
  qed
qed simp

lemma byteAt_Cons [simp]: "byteAt (c # s) 0 = of_char c" "byteAt (c # s) (Suc i) = byteAt s i"
  by (simp_all add: byteAt_def)

lemma byteAt_numeral [simp]: "byteAt (c # s) 1 = byteAt s 0" "byteAt (c # s) 2 = byteAt s 1" "byteAt (c # s) 3 = byteAt s 2"
  by (simp_all add: byteAt_def eval_nat_numeral)

lemma of_char_byte [simp]: "n < 256 \<Longrightarrow> (of_char (char_of n :: char) :: nat) = n"
  by simp

lemma decodeRune2:
  assumes "2 \<le> a" "a < 32" "b < 64"
  shows "decodeRune (char_of (0xC0 + a) # char_of (0x80 + b) # s) = (a * 64 + b, 2)"
proof -
  have "(of_char (char_of (0xC0 + a) :: char) :: nat) = 0xC0 + a" "(of_char (char_of (0x80 + b) :: char) :: nat) = 0x80 + b"
    using assms by simp_all
  then show ?thesis using assms unfolding decodeRune_def Let_def byteAt_Cons byteAt_numeral by (simp add: inRange_def)
qed

lemma decodeRune3:
  assumes "a < 16" "b < 64" "d < 64" "a = 0 \<longrightarrow> 32 \<le> b" "a = 13 \<longrightarrow> b < 32"
  shows "decodeRune (char_of (0xE0 + a) # char_of (0x80 + b) # char_of (0x80 + d) # s) = (a * 4096 + b * 64 + d, 3)"
proof -
  have "(of_char (char_of (0xE0 + a) :: char) :: nat) = 0xE0 + a" "(of_char (char_of (0x80 + b) :: char) :: nat) = 0x80 + b"
    "(of_char (char_of (0x80 + d) :: char) :: nat) = 0x80 + d"
    using assms by simp_all
  moreover have "a = 0 \<and> 32 \<le> b \<or> a = 13 \<and> b < 32 \<or> 1 \<le> a \<and> a \<le> 12 \<or> 14 \<le> a" using assms by linarith
  ultimately show ?thesis using assms(1-3) unfolding decodeRune_def Let_def byteAt_Cons byteAt_numeral
    by (elim disjE) (simp_all add: inRange_def)
qed

lemma decodeRune4:
  assumes "a < 5" "b < 64" "d < 64" "e < 64" "a = 0 \<longrightarrow> 16 \<le> b" "a = 4 \<longrightarrow> b < 16"
  shows "decodeRune (char_of (0xF0 + a) # char_of (0x80 + b) # char_of (0x80 + d) # char_of (0x80 + e) # s)
    = (a * 262144 + b * 4096 + d * 64 + e, 4)"
proof -
  have "(of_char (char_of (0xF0 + a) :: char) :: nat) = 0xF0 + a" "(of_char (char_of (0x80 + b) :: char) :: nat) = 0x80 + b"
    "(of_char (char_of (0x80 + d) :: char) :: nat) = 0x80 + d" "(of_char (char_of (0x80 + e) :: char) :: nat) = 0x80 + e"
    using assms by simp_all
  moreover have "a = 0 \<and> 16 \<le> b \<or> a = 4 \<and> b < 16 \<or> 1 \<le> a \<and> a \<le> 3" using assms by linarith
  ultimately show ?thesis using assms(1-4) unfolding decodeRune_def Let_def byteAt_Cons byteAt_numeral
    by (elim disjE) (simp_all add: inRange_def)
qed

text \<open>A number from its groups of six bits.\<close>

lemma sixBits:
  fixes c :: nat
  shows "c div 4096 * 4096 + c div 64 mod 64 * 64 + c mod 64 = c"
    and "c div 262144 * 262144 + c div 4096 mod 64 * 4096 + c div 64 mod 64 * 64 + c mod 64 = c"
proof -
  have step: "n div 64 * 64 + n mod 64 = n" for n :: nat by simp
  have d1: "c div 4096 = c div 64 div 64" and d2: "c div 262144 = c div 4096 div 64"
    using div_mult2_eq [of c 64 64] div_mult2_eq [of c 4096 64] by simp_all
  show one: "c div 4096 * 4096 + c div 64 mod 64 * 64 + c mod 64 = c"
    using step [of c] step [of "c div 64"] d1 by linarith
  show "c div 262144 * 262144 + c div 4096 mod 64 * 4096 + c div 64 mod 64 * 64 + c mod 64 = c"
    using one step [of "c div 4096"] d2 by linarith
qed

lemma decodeRune_encodeRune:
  assumes "scalar c"
  shows "decodeRune (encodeRune c @ s) = (c, length (encodeRune c))"
proof -
  have small: "c < 0x110000" and sur: "\<not> (0xD800 \<le> c \<and> c \<le> 0xDFFF)" using assms by (auto simp: scalar_def inRange_def)
  consider "c < 0x80" | "0x80 \<le> c" "c < 0x800" | "0x800 \<le> c" "c < 0x10000" | "0x10000 \<le> c" by linarith
  then show ?thesis
  proof cases
    case 1
    then show ?thesis using assms by (simp add: encodeRune_def decodeRune_def Let_def)
  next
    case 2
    then have "2 \<le> c div 64" "c div 64 < 32" "c mod 64 < 64" by auto
    from decodeRune2 [OF this] show ?thesis using 2 assms by (simp add: encodeRune_def)
  next
    case 3
    define a b d where abd: "a = c div 4096" "b = c div 64 mod 64" "d = c mod 64"
    have sum: "a * 4096 + b * 64 + d = c" unfolding abd by (rule sixBits(1))
    have "a < 16" "b < 64" "d < 64" using 3 by (auto simp: abd)
    moreover have "a = 0 \<longrightarrow> 32 \<le> b" "a = 13 \<longrightarrow> b < 32" using 3 sum sur calculation by linarith+
    ultimately show ?thesis using decodeRune3 [of a b d s] 3 assms sum by (simp add: encodeRune_def abd)
  next
    case 4
    define a b d e where abde: "a = c div 262144" "b = c div 4096 mod 64" "d = c div 64 mod 64" "e = c mod 64"
    have sum: "a * 262144 + b * 4096 + d * 64 + e = c" unfolding abde by (rule sixBits(2))
    have "a < 5" "b < 64" "d < 64" "e < 64" using small by (auto simp: abde)
    moreover have "a = 0 \<longrightarrow> 16 \<le> b" "a = 4 \<longrightarrow> b < 16" using 4 sum small calculation by linarith+
    ultimately show ?thesis using decodeRune4 [of a b d e s] 4 assms sum by (simp add: encodeRune_def abde)
  qed
qed

lemma encodeRune_not_Nil [simp]: "encodeRune c \<noteq> []"
  by (simp add: encodeRune_def Let_def)

lemma runes_encodeRunes: "\<forall>c \<in> set cs. scalar c \<Longrightarrow> runes (encodeRunes cs) = cs"
proof (induction cs)
  case (Cons c cs)
  have dec: "decodeRune (encodeRune c @ encodeRunes cs) = (c, length (encodeRune c))"
    using Cons.prems by (intro decodeRune_encodeRune) simp
  obtain x xs where x: "encodeRune c = x # xs" by (cases "encodeRune c") auto
  then have "runes (encodeRunes (c # cs)) = c # runes (encodeRunes cs)"
    using dec by (simp add: encodeRunes_def)
  then show ?case using Cons by simp
qed (simp add: encodeRunes_def)

lemma scalar3:
  assumes "(b0 = 0xE0 \<and> inRange 0xA0 0xBF b1) \<or> (b0 = 0xED \<and> inRange 0x80 0x9F b1)
      \<or> ((inRange 0xE1 0xEC b0 \<or> inRange 0xEE 0xEF b0) \<and> inRange 0x80 0xBF b1)" and "inRange 0x80 0xBF b2"
  shows "scalar ((b0 - 0xE0) * 4096 + (b1 - 0x80) * 64 + (b2 - 0x80))"
proof -
  have b2: "b2 - 0x80 < 64" using assms(2) by (auto simp: inRange_def)
  have b1: "b1 - 0x80 < 64" and range: "0xE0 \<le> b0" "b0 \<le> 0xEF" and ed: "b0 = 0xED \<Longrightarrow> b1 - 0x80 < 32"
    using assms(1) by (auto simp: inRange_def)
  obtain a where a: "b0 = 0xE0 + a" using range(1) by (metis le_iff_add)
  have "a * 4096 + (b1 - 0x80) * 64 + (b2 - 0x80) < 0xD800 \<or> 0xDFFF < a * 4096 + (b1 - 0x80) * 64 + (b2 - 0x80)"
  proof (cases "a = 13")
    case True
    then show ?thesis using ed a b2 by linarith
  next
    case False
    then have "a \<le> 12 \<or> 14 \<le> a" by linarith
    then show ?thesis using b1 b2 by linarith
  qed
  moreover have "a * 4096 + (b1 - 0x80) * 64 + (b2 - 0x80) < 0x110000" using a range(2) b1 b2 by linarith
  ultimately show ?thesis using a by (auto simp: scalar_def inRange_def)
qed

lemma scalar4:
  assumes "(b0 = 0xF0 \<and> inRange 0x90 0xBF b1) \<or> (b0 = 0xF4 \<and> inRange 0x80 0x8F b1)
      \<or> (inRange 0xF1 0xF3 b0 \<and> inRange 0x80 0xBF b1)" and "inRange 0x80 0xBF b2" and "inRange 0x80 0xBF b3"
  shows "scalar ((b0 - 0xF0) * 262144 + (b1 - 0x80) * 4096 + (b2 - 0x80) * 64 + (b3 - 0x80))"
proof -
  have b: "b2 - 0x80 < 64" "b3 - 0x80 < 64" using assms(2,3) by (auto simp: inRange_def)
  have b1: "b1 - 0x80 < 64" and range: "0xF0 \<le> b0" "b0 \<le> 0xF4" and low: "b0 = 0xF0 \<Longrightarrow> 16 \<le> b1 - 0x80"
    and high: "b0 = 0xF4 \<Longrightarrow> b1 - 0x80 < 16"
    using assms(1) by (auto simp: inRange_def)
  obtain a where a: "b0 = 0xF0 + a" using range(1) by (metis le_iff_add)
  have "0xDFFF < a * 262144 + (b1 - 0x80) * 4096 + (b2 - 0x80) * 64 + (b3 - 0x80)"
    using low a by (cases "a = 0") linarith+
  moreover have "a * 262144 + (b1 - 0x80) * 4096 + (b2 - 0x80) * 64 + (b3 - 0x80) < 0x110000"
    using high a range(2) b b1 by (cases "a = 4") linarith+
  ultimately show ?thesis using a by (auto simp: scalar_def inRange_def)
qed

definition lead3 :: "nat \<Rightarrow> nat \<Rightarrow> bool" where
  "lead3 b0 b1 \<longleftrightarrow> (b0 = 0xE0 \<and> inRange 0xA0 0xBF b1) \<or> (b0 = 0xED \<and> inRange 0x80 0x9F b1)
      \<or> ((inRange 0xE1 0xEC b0 \<or> inRange 0xEE 0xEF b0) \<and> inRange 0x80 0xBF b1)"

definition lead4 :: "nat \<Rightarrow> nat \<Rightarrow> bool" where
  "lead4 b0 b1 \<longleftrightarrow> (b0 = 0xF0 \<and> inRange 0x90 0xBF b1) \<or> (b0 = 0xF4 \<and> inRange 0x80 0x8F b1)
      \<or> (inRange 0xF1 0xF3 b0 \<and> inRange 0x80 0xBF b1)"

lemma decodeRune_if:
  "decodeRune s =
     (if byteAt s 0 < 0x80 then (byteAt s 0, 1)
      else if inRange 0xC2 0xDF (byteAt s 0) \<and> inRange 0x80 0xBF (byteAt s 1) then ((byteAt s 0 - 0xC0) * 64 + (byteAt s 1 - 0x80), 2)
      else if lead3 (byteAt s 0) (byteAt s 1) \<and> inRange 0x80 0xBF (byteAt s 2)
        then ((byteAt s 0 - 0xE0) * 4096 + (byteAt s 1 - 0x80) * 64 + (byteAt s 2 - 0x80), 3)
      else if lead4 (byteAt s 0) (byteAt s 1) \<and> inRange 0x80 0xBF (byteAt s 2) \<and> inRange 0x80 0xBF (byteAt s 3)
        then ((byteAt s 0 - 0xF0) * 262144 + (byteAt s 1 - 0x80) * 4096 + (byteAt s 2 - 0x80) * 64 + (byteAt s 3 - 0x80), 4)
      else (0xFFFD, 1))"
  unfolding decodeRune_def lead3_def lead4_def Let_def ..

lemma decodeRune_cases:
  obtains (ascii) "byteAt s 0 < 0x80" and "decodeRune s = (byteAt s 0, 1)"
  | (two) "inRange 0xC2 0xDF (byteAt s 0)" and "inRange 0x80 0xBF (byteAt s 1)"
      and "decodeRune s = ((byteAt s 0 - 0xC0) * 64 + (byteAt s 1 - 0x80), 2)"
  | (three) "lead3 (byteAt s 0) (byteAt s 1)" and "inRange 0x80 0xBF (byteAt s 2)"
      and "decodeRune s = ((byteAt s 0 - 0xE0) * 4096 + (byteAt s 1 - 0x80) * 64 + (byteAt s 2 - 0x80), 3)"
  | (four) "lead4 (byteAt s 0) (byteAt s 1)" and "inRange 0x80 0xBF (byteAt s 2)" and "inRange 0x80 0xBF (byteAt s 3)"
      and "decodeRune s = ((byteAt s 0 - 0xF0) * 262144 + (byteAt s 1 - 0x80) * 4096 + (byteAt s 2 - 0x80) * 64 + (byteAt s 3 - 0x80), 4)"
  | (bad) "decodeRune s = (0xFFFD, 1)"
proof (cases "byteAt s 0 < 0x80")
  case True
  then show thesis by (intro that(1)) (simp_all add: decodeRune_if)
next
  case a: False
  show thesis
  proof (cases "inRange 0xC2 0xDF (byteAt s 0) \<and> inRange 0x80 0xBF (byteAt s 1)")
    case True
    then show thesis using a by (intro that(2)) (simp_all add: decodeRune_if)
  next
    case b: False
    show thesis
    proof (cases "lead3 (byteAt s 0) (byteAt s 1) \<and> inRange 0x80 0xBF (byteAt s 2)")
      case True
      then show thesis using a b by (intro that(3)) (auto simp add: decodeRune_if)
    next
      case c: False
      show thesis
      proof (cases "lead4 (byteAt s 0) (byteAt s 1) \<and> inRange 0x80 0xBF (byteAt s 2) \<and> inRange 0x80 0xBF (byteAt s 3)")
        case True
        then show thesis using a b c by (intro that(4)) (auto simp add: decodeRune_if)
      next
        case False
        then show thesis using a b c by (intro that(5)) (auto simp add: decodeRune_if)
      qed
    qed
  qed
qed

lemma decodeRune_scalar: "scalar (fst (decodeRune s))"
proof (cases rule: decodeRune_cases [of s])
  case ascii
  then show ?thesis by (simp add: scalar_def inRange_def)
next
  case two
  then show ?thesis by (auto simp: scalar_def inRange_def)
next
  case three
  then show ?thesis using scalar3 by (simp add: lead3_def)
next
  case four
  then show ?thesis using scalar4 by (simp add: lead4_def)
next
  case bad
  then show ?thesis by (simp add: scalar_def inRange_def)
qed

lemma runes_scalar: "\<forall>c \<in> set (runes s). scalar c"
  by (induction s rule: runes.induct) (use decodeRune_scalar in auto)

section \<open>Valid strings\<close>

lemma byteAt_append: "0 < byteAt s i \<Longrightarrow> byteAt (s @ t) i = byteAt s i"
  by (auto simp: byteAt_def nth_append split: if_splits)

lemma decodeRune_append:
  assumes "s \<noteq> []" and "\<not> badRune s"
  shows "decodeRune (s @ t) = decodeRune s"
proof (cases rule: decodeRune_cases [of s])
  case ascii
  have "byteAt (s @ t) 0 = byteAt s 0" using assms(1) by (simp add: byteAt_def nth_append)
  then show ?thesis using ascii by (simp add: decodeRune_if)
next
  case two
  then have same: "byteAt (s @ t) 0 = byteAt s 0" "byteAt (s @ t) 1 = byteAt s 1" by (auto intro!: byteAt_append simp: inRange_def)
  have "\<not> byteAt s 0 < 0x80" using two(1) by (simp add: inRange_def)
  then show ?thesis unfolding two(3) decodeRune_if [of "s @ t"] same using two by (simp only: if_False if_True simp_thms)
next
  case three
  then have same: "byteAt (s @ t) 0 = byteAt s 0" "byteAt (s @ t) 1 = byteAt s 1" "byteAt (s @ t) 2 = byteAt s 2"
    by (auto intro!: byteAt_append simp: inRange_def lead3_def)
  have "\<not> byteAt s 0 < 0x80" "\<not> inRange 0xC2 0xDF (byteAt s 0)" using three(1) by (auto simp: inRange_def lead3_def)
  then show ?thesis unfolding three(3) decodeRune_if [of "s @ t"] same using three by (simp only: if_False if_True simp_thms)
next
  case four
  then have same: "byteAt (s @ t) 0 = byteAt s 0" "byteAt (s @ t) 1 = byteAt s 1" "byteAt (s @ t) 2 = byteAt s 2"
    "byteAt (s @ t) 3 = byteAt s 3"
    by (auto intro!: byteAt_append simp: inRange_def lead4_def)
  have "\<not> byteAt s 0 < 0x80" "\<not> inRange 0xC2 0xDF (byteAt s 0)" "\<not> lead3 (byteAt s 0) (byteAt s 1)"
    using four(1) by (auto simp: inRange_def lead4_def lead3_def)
  then show ?thesis unfolding four(4) decodeRune_if [of "s @ t"] same using four by (simp only: if_False if_True simp_thms)
next
  case bad
  then show ?thesis using assms(2) by (simp add: badRune_def)
qed

lemma decodeRune_width_le: "s \<noteq> [] \<Longrightarrow> snd (decodeRune s) \<le> length s"
proof (cases rule: decodeRune_cases [of s])
  case two
  then have "0 < byteAt s 1" by (simp add: inRange_def)
  then have "1 < length s" by (metis byteAt_def less_irrefl)
  then show ?thesis using two by simp
next
  case three
  then have "0 < byteAt s 2" by (simp add: inRange_def)
  then have "2 < length s" by (metis byteAt_def less_irrefl)
  then show ?thesis using three by simp
next
  case four
  then have "0 < byteAt s 3" by (simp add: inRange_def)
  then have "3 < length s" by (metis byteAt_def less_irrefl)
  then show ?thesis using four by simp
qed (simp_all add: Suc_leI)

lemma byteAt_take: "i < n \<Longrightarrow> byteAt (take n s) i = byteAt s i"
  by (simp add: byteAt_def)

lemma decodeRune_take:
  assumes "s \<noteq> []"
  shows "decodeRune (take (snd (decodeRune s)) s) = decodeRune s"
proof (cases rule: decodeRune_cases [of s])
  case ascii
  then show ?thesis by (simp add: decodeRune_if [of "take (Suc 0) s"] byteAt_take)
next
  case two
  have "\<not> byteAt s 0 < 0x80" using two(1) by (simp add: inRange_def)
  then show ?thesis unfolding two(3) using two by (simp add: decodeRune_if byteAt_take)
next
  case three
  have "\<not> byteAt s 0 < 0x80" "\<not> inRange 0xC2 0xDF (byteAt s 0)" using three(1) by (auto simp: inRange_def lead3_def)
  then show ?thesis unfolding three(3) using three by (simp add: decodeRune_if byteAt_take)
next
  case four
  have "\<not> byteAt s 0 < 0x80" "\<not> inRange 0xC2 0xDF (byteAt s 0)" "\<not> lead3 (byteAt s 0) (byteAt s 1)"
    using four(1) by (auto simp: inRange_def lead4_def lead3_def)
  then show ?thesis unfolding four(4) using four by (simp add: decodeRune_if byteAt_take)
next
  case bad
  have "\<not> byteAt s 0 < 0x80"
  proof
    assume "byteAt s 0 < 0x80"
    then show False using bad by (simp add: decodeRune_if)
  qed
  moreover have "byteAt (take 1 s) 1 = 0" by (simp add: byteAt_def)
  moreover have "\<not> lead3 b 0" "\<not> lead4 b 0" "\<not> inRange 0x80 0xBF 0" for b by (auto simp: lead3_def lead4_def inRange_def)
  ultimately show ?thesis unfolding bad snd_conv decodeRune_if [of "take 1 s"]
    using byteAt_take [of 0 1 s] by (simp only: if_False simp_thms less_one)
qed

lemma runeBytes_step:
  assumes "s \<noteq> []"
  shows "runeBytes s = take (snd (decodeRune s)) s # runeBytes (drop (snd (decodeRune s)) s)"
proof -
  obtain c cs where s: "s = c # cs" using assms by (cases s) auto
  have "1 \<le> snd (decodeRune (c # cs))" by (rule decodeRune_width)
  then obtain n where "snd (decodeRune (c # cs)) = Suc n" by (metis Suc_le_D One_nat_def)
  then show ?thesis using s by (simp add: Let_def)
qed

text \<open>Decoding resumes after a valid prefix.\<close>

lemma runeBytes_append: "ValidString s \<Longrightarrow> runeBytes (s @ t) = runeBytes s @ runeBytes t"
proof (induction "length s" arbitrary: s rule: less_induct)
  case less
  show ?case
  proof (cases "s = []")
    case False
    let ?n = "snd (decodeRune s)"
    have step: "runeBytes s = take ?n s # runeBytes (drop ?n s)" by (rule runeBytes_step [OF False])
    have "\<not> badRune (take ?n s)" using less.prems step by (simp add: ValidString_def)
    then have ok: "\<not> badRune s" using decodeRune_take [OF False] by (simp add: badRune_def)
    have le: "?n \<le> length s" by (rule decodeRune_width_le [OF False])
    have pos: "1 \<le> ?n" by (rule decodeRune_width)
    have "runeBytes (drop ?n s @ t) = runeBytes (drop ?n s) @ runeBytes t"
      using less.hyps [of "drop ?n s"] less.prems step False pos by (simp add: ValidString_def)
    moreover have "runeBytes (s @ t) = take ?n s # runeBytes (drop ?n s @ t)"
      using runeBytes_step [of "s @ t"] decodeRune_append [OF False ok, of t] False le by simp
    ultimately show ?thesis using step by simp
  qed simp
qed

lemma ValidString_append [simp]: "ValidString s \<Longrightarrow> ValidString (s @ t) \<longleftrightarrow> ValidString t"
  by (auto simp: ValidString_def [of "s @ t"] ValidString_def [of t] runeBytes_append) (auto simp: ValidString_def)

lemma ValidString_Nil [simp]: "ValidString []"
  by (simp add: ValidString_def)

lemma ValidString_ascii: "\<forall>c \<in> set s. (of_char c :: nat) < 0x80 \<Longrightarrow> ValidString s"
proof (induction s)
  case (Cons c s)
  have "runeBytes [c] = [[c]]" by (simp add: Let_def)
  moreover have "\<not> badRune [c]" using Cons.prems of_char_lt_iff [of c "[]"] by (auto simp: badRune_def)
  ultimately have "ValidString [c]" by (simp add: ValidString_def)
  then show ?case using ValidString_append [of "[c]" s] Cons by simp
qed simp

lemma ValidString_rune:
  assumes "r \<in> set (runeBytes s)" and "\<not> badRune r"
  shows "ValidString r"
proof -
  obtain u where u: "u \<noteq> []" "r = take (snd (decodeRune u)) u" using assms(1)
  proof (induction s rule: runeBytes.induct)
    case (2 c cs)
    then show ?case using runeBytes_step [of "c # cs"] by (simp add: Let_def) blast
  qed simp
  have d: "decodeRune r = decodeRune u" using decodeRune_take [OF u(1)] u(2) by simp
  have len: "length r = snd (decodeRune r)" using decodeRune_width_le [OF u(1)] u(2) d by simp
  have "r \<noteq> []" using u decodeRune_width [of u] by auto
  then have "runeBytes r = [r]" using runeBytes_step [of r] len by simp
  then show ?thesis using assms(2) by (simp add: ValidString_def)
qed

lemma ValidString_repair:
  "ValidString repl \<Longrightarrow> \<forall>r \<in> set rs. \<not> badRune r \<longrightarrow> ValidString r \<Longrightarrow> ValidString (repairRunes repl bad rs)"
  by (induction repl bad rs rule: repairRunes.induct) auto

lemma ValidString_ToValidUTF8: "ValidString repl \<Longrightarrow> ValidString (ToValidUTF8 s repl)"
  unfolding ToValidUTF8_def using ValidString_rune by (intro ValidString_repair) auto

lemma ToValidUTF8_valid: "ValidString s \<Longrightarrow> ToValidUTF8 s repl = s"
proof -
  have "\<forall>r \<in> set rs. \<not> badRune r \<Longrightarrow> repairRunes repl bad rs = concat rs" for bad rs
    by (induction repl bad rs rule: repairRunes.induct) auto
  then show "ValidString s \<Longrightarrow> ?thesis" by (simp add: ToValidUTF8_def ValidString_def)
qed

end
