(* ===== verification/Fleet_Summary.thy ===== *)
theory Fleet_Summary
  imports Progress Fleet_Run Go_Utf8
begin

text \<open>
  What a distributed run reports about its workers: \<open>workerDataLocked\<close> of \<open>distributed.go\<close>, the rows of the status
  page, and \<open>summary.go\<close>, the phases and workers of the whole run as text and as Markdown. The alignment of
  \<open>text/tabwriter\<close> is the argument \<open>align\<close>.
\<close>

section \<open>Worker rows\<close>

record workerData =
  wd_ID :: string
  wd_Name :: string
  wd_Status :: string
  wd_Error :: string
  wd_Slots :: int
  wd_Completed :: int
  wd_Cached :: int
  wd_Failed :: int
  wd_Duration :: duration
  wd_Work :: "string list"

definition workerTimeout :: duration where
  "workerTimeout = 15 * second"

definition workerStatus :: "time \<Rightarrow> fleet \<Rightarrow> fleetWorker \<Rightarrow> string" where
  "workerStatus now f w =
     (if fw_Error w \<noteq> [] then ''unavailable''
      else if f_stopped f then ''finished''
      else if \<not> fw_Connected w then ''disconnected''
      else if fw_ID w \<noteq> ''leader'' \<and> now - fw_LastSeen w > workerTimeout then ''unresponsive''
      else if fw_leases w \<noteq> [] then ''working''
      else ''idle'')"

definition leaseText :: "fleet \<Rightarrow> nat \<Rightarrow> string" where
  "leaseText f i =
     (let task = taskOf f (wl_work (lease f i))
      in bin_pkg (task_bin task) @ ''.'' @ task_test task @ '' ('' @ wl_state (lease f i) @ '')'')"

definition workerRow :: "time \<Rightarrow> fleet \<Rightarrow> fleetWorker \<Rightarrow> workerData" where
  "workerRow now f w =
     \<lparr>wd_ID = fw_ID w, wd_Name = fw_Name w, wd_Status = workerStatus now f w, wd_Error = fw_Error w,
      wd_Slots = fw_Slots w, wd_Completed = fw_Completed w, wd_Cached = fw_Cached w, wd_Failed = fw_Failed w,
      wd_Duration = durationRound (fw_Duration w) millisecond,
      wd_Work = sortStrings (map (leaseText f) (fw_leases w))\<rparr>"

definition workerDataLocked :: "time \<Rightarrow> fleet option \<Rightarrow> workerData list" where
  "workerDataLocked now fo = (case fo of None \<Rightarrow> [] | Some f \<Rightarrow> map (workerRow now f) (f_workers f))"

section \<open>The summary of a run\<close>

text \<open>\<open>ws_Busy\<close> is \<open>None\<close> for the code's negative value.\<close>

record workerSummary =
  ws_ID :: string
  ws_Name :: string
  ws_Error :: string
  ws_Slots :: int
  ws_Completed :: int
  ws_Cached :: int
  ws_Failed :: int
  ws_Joined :: duration
  ws_TestTime :: duration
  ws_Busy :: "float64 option"

record fleetSummary =
  sum_Phases :: "(runPhase \<times> duration) list"
  sum_Workers :: "workerSummary list"

text \<open>
  The loop over \<open>phaseStarts\<close>: the phases with their durations, and the testing phase's start and
  end, both zero when there is none.
\<close>

fun phaseDurations :: "time \<Rightarrow> (runPhase \<times> time) list \<Rightarrow> (runPhase \<times> duration) list" where
  "phaseDurations end [] = []"
| "phaseDurations end ((ph, at) # rest) =
     (if ph = phaseDone \<or> ph = phaseFailed then []
      else (ph, (case rest of [] \<Rightarrow> end | (_, next) # _ \<Rightarrow> next) - at) # phaseDurations end rest)"

fun testingSpan :: "time \<Rightarrow> (runPhase \<times> time) list \<Rightarrow> time \<times> time \<Rightarrow> time \<times> time" where
  "testingSpan end [] span = span"
| "testingSpan end ((ph, at) # rest) span =
     (if ph = phaseDone \<or> ph = phaseFailed then span
      else testingSpan end rest
             (if ph = phaseTesting then (at, case rest of [] \<Rightarrow> end | (_, next) # _ \<Rightarrow> next) else span))"

definition connectedSpan :: "time \<times> time \<Rightarrow> fleetWorker \<Rightarrow> time \<times> time" where
  "connectedSpan span w =
     (max (fw_Joined w) (fst span), if fw_Left w \<noteq> 0 \<and> fw_Left w < snd span then fw_Left w else snd span)"

definition workerBusy :: "time \<times> time \<Rightarrow> fleetWorker \<Rightarrow> float64 option" where
  "workerBusy span w =
     (let (from, to) = connectedSpan span w
      in if fst span \<noteq> 0 \<and> to > from \<and> fw_Slots w > 0
         then Some (f64Div (f64OfInt (fw_Duration w)) (f64Mul (f64OfInt (to - from)) (f64OfInt (fw_Slots w))))
         else None)"

definition fleetSummaryLocked :: "time \<Rightarrow> fleet \<Rightarrow> fleetSummary" where
  "fleetSummaryLocked end f =
     (let s = f_srv f; span = testingSpan end (sv_phaseStarts s) (0, 0)
      in \<lparr>sum_Phases = phaseDurations end (sv_phaseStarts s),
          sum_Workers = map (\<lambda>w.
            \<lparr>ws_ID = fw_ID w, ws_Name = fw_Name w, ws_Error = fw_Error w, ws_Slots = fw_Slots w,
             ws_Completed = fw_Completed w, ws_Cached = fw_Cached w, ws_Failed = fw_Failed w,
             ws_Joined = fw_Joined w - sv_start s, ws_TestTime = fw_Duration w, ws_Busy = workerBusy span w\<rparr>)
            (f_workers f)\<rparr>)"

section \<open>Text and Markdown\<close>

definition phasesString :: "fleetSummary \<Rightarrow> string" where
  "phasesString fs =
     Join '', '' (map (\<lambda>(ph, d). phaseText ph @ '' '' @ durationString (roundDuration d)) (sum_Phases fs))"

definition busyString :: "workerSummary \<Rightarrow> string" where
  "busyString w = (case ws_Busy w of None \<Rightarrow> ''-'' | Some b \<Rightarrow> formatFixed 0 (f64Mul b (100, 1)) @ ''%'')"

abbreviation tab :: string where
  "tab \<equiv> [CHR 0x09]"

definition writeText :: "(string \<Rightarrow> string) \<Rightarrow> fleetSummary \<Rightarrow> string" where
  "writeText align fs =
     ''  phases: '' @ phasesString fs @ [nl]
     @ align (Join tab [''  WORKER'', ''NAME'', ''SLOTS'', ''JOINED'', ''TESTS'', ''CACHED'', ''FAILED'', ''TEST TIME'', ''BUSY'', ''ERROR''] @ [nl]
       @ concat (map (\<lambda>w. Join tab [''  '' @ ws_ID w, ws_Name w, showInt (ws_Slots w), durationString (roundDuration (ws_Joined w)),
                            showInt (ws_Completed w), showInt (ws_Cached w), showInt (ws_Failed w),
                            durationString (roundDuration (ws_TestTime w)), busyString w, ws_Error w] @ [nl]) (sum_Workers fs)))"

text \<open>The runes that \<open>unicode.IsSpace\<close> accepts.\<close>

definition spaceRune :: "string \<Rightarrow> bool" where
  "spaceRune r \<longleftrightarrow>
     (let c = fst (decodeRune r)
      in inRange 0x09 0x0D c \<or> c \<in> {0x20, 0x85, 0xA0, 0x1680, 0x2028, 0x2029, 0x202F, 0x205F, 0x3000} \<or> inRange 0x2000 0x200A c)"

fun fieldRuns :: "('a \<Rightarrow> bool) \<Rightarrow> 'a list \<Rightarrow> 'a list \<Rightarrow> 'a list list" where
  "fieldRuns p cur [] = (if cur = [] then [] else [cur])"
| "fieldRuns p cur (c # cs) =
     (if p c then (if cur = [] then [] else [cur]) @ fieldRuns p [] cs else fieldRuns p (cur @ [c]) cs)"

text \<open>\<open>strings.Fields\<close> of any string.\<close>

definition unicodeFields :: "string \<Rightarrow> string list" where
  "unicodeFields s = map concat (fieldRuns spaceRune [] (runeBytes s))"

definition escapePipes :: "string \<Rightarrow> string" where
  "escapePipes s = concat (map (\<lambda>c. if c = CHR ''|'' then [CHR 0x5C, c] else [c]) s)"

definition ellipsis :: string where
  "ellipsis = [CHR 0xE2, CHR 0x80, CHR 0xA6]"

definition markdownCell :: "string \<Rightarrow> string" where
  "markdownCell s =
     Join '' '' (unicodeFields (escapePipes (if length s > 200 then ToValidUTF8 (take 200 s) [] @ ellipsis else s)))"

definition markdownRow :: "workerSummary \<Rightarrow> string" where
  "markdownRow w =
     ''| '' @ Join '' | '' [ws_ID w, markdownCell (ws_Name w), showInt (ws_Slots w), durationString (roundDuration (ws_Joined w)),
       showInt (ws_Completed w), showInt (ws_Cached w), showInt (ws_Failed w), durationString (roundDuration (ws_TestTime w)),
       busyString w, markdownCell (ws_Error w)] @ '' |'' @ [nl]"

definition writeMarkdown :: "fleetSummary \<Rightarrow> string" where
  "writeMarkdown fs =
     ''### gotst distributed run'' @ [nl, nl] @ ''Phases: '' @ phasesString fs @ [nl, nl]
     @ ''| Worker | Name | Slots | Joined | Tests | Cached | Failed | Test time | Busy | Error |'' @ [nl]
     @ ''|---|---|--:|--:|--:|--:|--:|--:|--:|---|'' @ [nl]
     @ concat (map markdownRow (sum_Workers fs)) @ [nl]"

text \<open>
  \<open>printFleetSummary\<close>: the text for standard output, and what is appended to the file that \<open>GITHUB_STEP_SUMMARY\<close> names.
\<close>

definition printFleetSummary :: "(string \<Rightarrow> string) \<Rightarrow> string \<Rightarrow> time \<Rightarrow> fleet option \<Rightarrow> string \<times> (string \<times> string) option" where
  "printFleetSummary align stepSummary now fo =
     (case fo of
        None \<Rightarrow> ([], None)
      | Some f \<Rightarrow>
          let fs = fleetSummaryLocked now f
          in ([nl] @ ''DISTRIBUTED RUN SUMMARY:'' @ [nl] @ writeText align fs,
              if stepSummary \<noteq> [] then Some (stepSummary, writeMarkdown fs) else None))"

section \<open>A Markdown cell stays one cell\<close>

text \<open>\<open>pipesEscaped e s\<close>: every bar of \<open>s\<close> follows a backslash, where \<open>e\<close> says whether \<open>s\<close> itself follows one.\<close>

fun pipesEscaped :: "bool \<Rightarrow> string \<Rightarrow> bool" where
  "pipesEscaped e [] = True"
| "pipesEscaped e (c # cs) = ((c = CHR ''|'' \<longrightarrow> e) \<and> pipesEscaped (c = CHR 0x5C) cs)"

definition afterBackslash :: "bool \<Rightarrow> string \<Rightarrow> bool" where
  "afterBackslash e s = (if s = [] then e else last s = CHR 0x5C)"

lemma pipesEscaped_append [simp]:
  "pipesEscaped e (s @ t) \<longleftrightarrow> pipesEscaped e s \<and> pipesEscaped (afterBackslash e s) t"
  by (induction s arbitrary: e) (auto simp: afterBackslash_def)

lemma pipesEscaped_mono: "pipesEscaped False s \<Longrightarrow> pipesEscaped e s"
  by (cases s) auto

lemma pipesEscaped_escapePipes: "pipesEscaped e (escapePipes s)"
  by (induction s arbitrary: e) (auto simp: escapePipes_def afterBackslash_def)

lemma pipesEscaped_iff: "pipesEscaped False s \<longleftrightarrow> (\<forall>u v. s = u @ CHR ''|'' # v \<longrightarrow> (\<exists>w. u = w @ [CHR 0x5C]))"
proof
  assume ok: "pipesEscaped False s"
  show "\<forall>u v. s = u @ CHR ''|'' # v \<longrightarrow> (\<exists>w. u = w @ [CHR 0x5C])"
  proof (intro allI impI)
    fix u v assume "s = u @ CHR ''|'' # v"
    then have "afterBackslash False u" using ok by simp
    then show "\<exists>w. u = w @ [CHR 0x5C]" unfolding afterBackslash_def
      by (metis append_butlast_last_id)
  qed
next
  assume all: "\<forall>u v. s = u @ CHR ''|'' # v \<longrightarrow> (\<exists>w. u = w @ [CHR 0x5C])"
  have "pipesEscaped (afterBackslash False u) t" if "s = u @ t" for u t
    using that
  proof (induction t arbitrary: u)
    case (Cons c t)
    have "c = CHR ''|'' \<longrightarrow> afterBackslash False u" using all Cons.prems by (force simp: afterBackslash_def)
    moreover have "pipesEscaped (afterBackslash False (u @ [c])) t" using Cons.prems by (intro Cons.IH) simp
    ultimately show ?case by (simp add: afterBackslash_def)
  qed simp
  from this [of "[]" s] show "pipesEscaped False s" by (simp add: afterBackslash_def)
qed

lemma of_char_backslash: "(of_char (CHR 0x5C) :: nat) < 0x80"
  by code_simp

lemma spaceRune_simps [simp]: "spaceRune [nl]" "spaceRune [CHR 0x0D]" "\<not> spaceRune [CHR 0x5C]"
  by (simp_all add: spaceRune_def decodeRune_def byteAt_def inRange_def Let_def)

lemma spaceRune_last:
  assumes "spaceRune r" and "r \<in> set (runeBytes s)"
  shows "\<not> afterBackslash e r"
proof -
  have ne: "r \<noteq> []" using runeBytes_ascii [OF assms(2)] by simp
  have "last r \<noteq> CHR 0x5C"
  proof
    assume last: "last r = CHR 0x5C"
    then have "CHR 0x5C \<in> set r" using ne by (metis last_in_set)
    then have "\<not> (\<forall>b \<in> set r. 0x80 \<le> (of_char b :: nat))" using of_char_backslash by (meson not_le)
    then obtain c where "r = [c]" using runeBytes_ascii [OF assms(2)] by blast
    then show False using last assms(1) by simp
  qed
  then show ?thesis using ne by (simp add: afterBackslash_def)
qed

lemma fieldRuns_escaped:
  assumes "pipesEscaped False (concat cur)" and "pipesEscaped (afterBackslash False (concat cur)) (concat rs)"
    and "\<forall>r \<in> set rs. r \<in> set (runeBytes s)" and "w \<in> set (fieldRuns spaceRune cur rs)"
  shows "pipesEscaped False (concat w)"
  using assms
proof (induction rs arbitrary: cur)
  case Nil
  then show ?case by (auto split: if_splits)
next
  case (Cons r rs)
  show ?case
  proof (cases "spaceRune r")
    case True
    then have "\<not> afterBackslash (afterBackslash False (concat cur)) r" using Cons.prems(3) by (intro spaceRune_last) auto
    then have "pipesEscaped (afterBackslash False (concat [])) (concat rs)"
      using Cons.prems(2) by (simp add: afterBackslash_def)
    moreover have "w = cur \<or> w \<in> set (fieldRuns spaceRune [] rs)"
      using Cons.prems(4) True by (auto split: if_splits)
    ultimately show ?thesis using Cons.IH [of "[]"] Cons.prems by auto
  next
    case False
    have "afterBackslash False (concat (cur @ [r])) = afterBackslash (afterBackslash False (concat cur)) r"
      by (auto simp: afterBackslash_def)
    then show ?thesis using Cons.IH [of "cur @ [r]"] Cons.prems False by simp
  qed
qed

lemma fieldRuns_runes: "w \<in> set (fieldRuns p cur rs) \<Longrightarrow> \<forall>r \<in> set w. r \<in> set cur \<or> r \<in> set rs \<and> \<not> p r"
  by (induction rs arbitrary: cur) (fastforce split: if_splits)+

lemma Join_escaped: "\<forall>w \<in> set ws. pipesEscaped False w \<Longrightarrow> pipesEscaped False (Join '' '' ws)"
  by (induction ws rule: induct_list012) (auto intro: pipesEscaped_mono simp: afterBackslash_def)

lemma set_Join: "c \<in> set (Join sep ws) \<Longrightarrow> c \<in> set sep \<or> (\<exists>w \<in> set ws. c \<in> set w)"
  by (induction sep ws rule: Join.induct) auto

text \<open>
  Whatever a worker calls itself and whatever error it reports, \<open>markdownCell\<close> makes it a single line in which
  every bar follows a backslash, so that the cell neither ends the table row nor adds a column to it.
\<close>

theorem markdownCell_stays_in_cell:
  "nl \<notin> set (markdownCell s) \<and> CHR 0x0D \<notin> set (markdownCell s)
   \<and> (\<forall>u v. markdownCell s = u @ CHR ''|'' # v \<longrightarrow> (\<exists>w. u = w @ [CHR 0x5C]))"
proof -
  define t where "t = escapePipes (if length s > 200 then ToValidUTF8 (take 200 s) [] @ ellipsis else s)"
  have cell: "markdownCell s = Join '' '' (unicodeFields t)" by (simp add: markdownCell_def t_def)
  have "pipesEscaped False t" by (simp add: t_def pipesEscaped_escapePipes)
  then have "\<forall>w \<in> set (unicodeFields t). pipesEscaped False w"
    using fieldRuns_escaped [of "[]" "runeBytes t" t] by (auto simp: unicodeFields_def afterBackslash_def)
  then have pipes: "pipesEscaped False (markdownCell s)" using cell Join_escaped by simp
  have "c \<notin> set (markdownCell s)" if c: "spaceRune [c]" "(of_char c :: nat) < 0x80" "c \<noteq> CHR '' ''" for c
  proof
    assume "c \<in> set (markdownCell s)"
    then obtain w where "w \<in> set (fieldRuns spaceRune [] (runeBytes t))" "c \<in> set (concat w)"
      using set_Join [of c "'' ''" "unicodeFields t"] c(3) unfolding cell by (auto simp: unicodeFields_def)
    then obtain r where "r \<in> set (runeBytes t)" "\<not> spaceRune r" "c \<in> set r"
      using fieldRuns_runes by fastforce
    then show False using runeBytes_ascii [of r t] c by auto
  qed
  then have "nl \<notin> set (markdownCell s)" "CHR 0x0D \<notin> set (markdownCell s)" by simp_all
  then show ?thesis using pipes pipesEscaped_iff by blast
qed

theorem markdownCell_stays_in_cell_witness:
  "markdownCell [CHR ''a'', nl, CHR ''|''] = (''a '' @ [CHR 0x5C]) @ CHR ''|'' # []
   \<and> nl \<notin> set (markdownCell [CHR ''a'', nl, CHR ''|'']) \<and> (\<exists>w. ''a '' @ [CHR 0x5C] = w @ [CHR 0x5C])"
proof -
  have cell: "markdownCell [CHR ''a'', nl, CHR ''|''] = (''a '' @ [CHR 0x5C]) @ CHR ''|'' # []"
    by (simp add: markdownCell_def escapePipes_def unicodeFields_def spaceRune_def decodeRune_def byteAt_def
        inRange_def Let_def)
  then show ?thesis using markdownCell_stays_in_cell [of "[CHR ''a'', nl, CHR ''|'']"] by blast
qed

section \<open>The phases add up\<close>

definition isFinal :: "runPhase \<Rightarrow> bool" where
  "isFinal ph \<longleftrightarrow> ph = phaseDone \<or> ph = phaseFailed"

text \<open>
  The durations of the phases that the summary lists add up to the time from the first phase to the first
  final one, or to the end when there is none: no time between the phases is lost or counted twice.
\<close>

theorem phaseDurations_total:
  "sum_list (map snd (phaseDurations end starts)) =
     (case starts of [] \<Rightarrow> 0
      | (_, first) # _ \<Rightarrow> (case filter (\<lambda>(ph, _). isFinal ph) starts of [] \<Rightarrow> end | (_, at) # _ \<Rightarrow> at) - first)
   \<and> map fst (phaseDurations end starts) = map fst (takeWhile (\<lambda>(ph, _). \<not> isFinal ph) starts)"
  by (induction starts) (auto simp: isFinal_def split: list.splits)

end
