(* ===== verification/Status_Page.thy ===== *)
theory Status_Page
  imports Fleet_Summary
begin

text \<open>
  The status page of \<open>web.go\<close>: the data the page shows, the bounded output of failed tests, the patches that keep a
  browser's copy of the page current, and the choice of listening addresses. The HTML template is the
  argument \<open>render\<close>, the browser's side of a patch is \<open>applyPatch\<close> of \<open>live.js\<close>, and the network is an argument.
\<close>

section \<open>Formatting\<close>

definition durationTruncate :: "duration \<Rightarrow> duration \<Rightarrow> duration" where
  "durationTruncate d m = (if m \<le> 0 then d else goDiv d m * m)"

definition formatAge :: "time \<Rightarrow> time \<Rightarrow> string" where
  "formatAge now changed =
     (if changed = 0 \<or> changed > now then ''0s ago''
      else durationString (durationTruncate (now - changed) second) @ '' ago'')"

function sizeUnit :: "int \<Rightarrow> int \<Rightarrow> nat \<Rightarrow> int \<times> nat" where
  "sizeUnit val div' exp =
     (if val \<ge> 1024 \<and> exp < 3 then sizeUnit (val div 1024) (div' * 1024) (Suc exp) else (div', exp))"
  by auto
termination
  by (relation "measure (\<lambda>(_, _, exp). 3 - exp)") auto

declare sizeUnit.simps [simp del]

definition formatByteSize :: "int \<Rightarrow> string" where
  "formatByteSize n =
     (if n < 1024 then showInt n @ '' B''
      else let (d, exp) = sizeUnit (n div 1024) 1024 0
           in formatFixed 1 (f64Div (f64OfInt n) (f64OfInt d)) @ '' '' @ [''KMGT'' ! exp] @ ''iB'')"

text \<open>\<open>Time.UnixNano\<close> wraps around at 64 bits.\<close>

definition unixNano :: "time \<Rightarrow> int" where
  "unixNano t = (t - 62135596800000000000 + 2 ^ 63) mod 2 ^ 64 - 2 ^ 63"

section \<open>Output of failed tests\<close>

definition webFailureOutputLimit :: nat where "webFailureOutputLimit = 512000"

definition truncationMarker :: string where
  "truncationMarker = [nl] @ ''[output truncated at 500 KiB]'' @ [nl]"

definition replacementRune :: string where
  "replacementRune = [CHR 0xEF, CHR 0xBF, CHR 0xBD]"

fun trimToValid :: "nat \<Rightarrow> string \<Rightarrow> string" where
  "trimToValid 0 s = []"
| "trimToValid (Suc n) s = (if s \<noteq> [] \<and> \<not> ValidString s then trimToValid n (butlast s) else s)"

definition failureSegment :: "nat \<Rightarrow> failInfo \<Rightarrow> string" where
  "failureSegment i fail =
     ''--- failed attempt '' @ showNat (i + 1) @ '' ('' @ durationString (fail_dur fail) @ '') ---'' @ [nl]
     @ ToValidUTF8 (fail_out fail) replacementRune"

text \<open>The fuel of \<open>trimToValid\<close> is one more than the number of bytes there are to drop.\<close>

definition dropPartialRune :: "string \<Rightarrow> string" where
  "dropPartialRune s = trimToValid (Suc (length s)) s"

fun failureLoop :: "nat \<Rightarrow> failInfo list \<Rightarrow> string \<Rightarrow> string" where
  "failureLoop i [] b = b"
| "failureLoop i (fail # fails) b =
     (let segment = failureSegment i fail
      in if length b + length segment \<le> webFailureOutputLimit
         then failureLoop (Suc i) fails (b @ segment @ (if HasSuffix segment [nl] then [] else [nl]))
         else let remaining = int webFailureOutputLimit - int (length b) - int (length truncationMarker);
                  result = b @ (if remaining > 0 then dropPartialRune (take (nat remaining) segment) else []);
                  room = webFailureOutputLimit - length truncationMarker
              in (if length result > room then dropPartialRune (take room result) else result) @ truncationMarker)"

definition boundedFailureOutput :: "failInfo list \<Rightarrow> string" where
  "boundedFailureOutput failures = failureLoop 0 failures []"

section \<open>The data of the page\<close>

record packageData =
  pd_ImportPath :: string
  pd_NumTestsKnown :: bool
  pd_NumTests :: int
  pd_NumTestsDone :: int
  pd_Status :: string
  pd_Passed :: bool
  pd_Failed :: bool
  pd_LastChanged :: string
  pd_LastChangedUnix :: int

record testIssueData =
  ti_ID :: string
  ti_Name :: string
  ti_Status :: string
  ti_Flaky :: bool
  ti_Output :: string
  ti_Attempts :: int

record slowTestData =
  sl_Name :: string
  sl_Duration :: duration
  sl_Cached :: bool

record statusData =
  sd_StartedAt :: string
  sd_StartedAgo :: string
  sd_Phase :: runPhase
  sd_ExitStatus :: string
  sd_ExitClass :: string
  sd_PackagesTotal :: int
  sd_PackagesLinked :: int
  sd_PackagesLinkFresh :: int
  sd_PackagesLinkCache :: int
  sd_PackagesDone :: int
  sd_PackagesTestCache :: int
  sd_PackagesTestFresh :: int
  sd_PackagesRemaining :: int
  sd_LinksRemaining :: int
  sd_BinarySize :: string
  sd_TestsTotal :: int
  sd_TestsDone :: int
  sd_TestsPassed :: int
  sd_TestsCached :: int
  sd_TestCacheDisabled :: bool
  sd_TestsFresh :: int
  sd_TestsFailed :: int
  sd_TestsFlaky :: int
  sd_TestsRunning :: int
  sd_TestsRemaining :: int
  sd_BuildDepsTotal :: int
  sd_BuildDepsFresh :: int
  sd_BuildDepsCached :: int
  sd_BuildDepsObserved :: int
  sd_BuildDepsRemain :: int
  sd_TestETA :: string
  sd_ETAMedian :: string
  sd_ETAUnknown :: int
  sd_ETAAvailable :: bool
  sd_Packages :: "packageData list"
  sd_Issues :: "testIssueData list"
  sd_Slowest :: "slowTestData list"
  sd_Workers :: "workerData list"

definition testDuration :: "testStatus \<Rightarrow> duration" where
  "testDuration ts = (if ts_passed ts then ts_passedIn ts else sum_list (map fail_dur (ts_fails ts)))"

definition newTestIssue :: "string \<Rightarrow> string \<Rightarrow> testStatus \<Rightarrow> bool \<Rightarrow> nat \<Rightarrow> testIssueData" where
  "newTestIssue pkg test ts flaky i =
     \<lparr>ti_ID = ''test-issue-'' @ showNat i, ti_Name = pkg @ ''.'' @ test, ti_Status = (if flaky then ''FLAKY'' else ''FAILED''),
      ti_Flaky = flaky, ti_Output = boundedFailureOutput (ts_fails ts), ti_Attempts = ts_attempts ts\<rparr>"

definition sortedPackages :: "Server \<Rightarrow> (string \<times> packageStatus) list" where
  "sortedPackages s =
     filter (\<lambda>(_, ps). hasTests (ps_glp ps)) (map (\<lambda>p. (p, the (map_of (sv_pkgs s) p))) (sortStrings (gokeys (sv_pkgs s))))"

definition shownTests :: "packageStatus \<Rightarrow> (string \<times> testStatus) list" where
  "shownTests ps = filter (\<lambda>(name, _). isRunnableTopLevelTest name) (testsOf ps)"

text \<open>The tests of the page in the order of the loops; that of the tests of a package is the order of a Go map.\<close>

definition pageTests :: "Server \<Rightarrow> (string \<times> string \<times> testStatus) list" where
  "pageTests s = concat (map (\<lambda>(p, ps). map (\<lambda>(name, ts). (p, name, ts)) (shownTests ps)) (sortedPackages s))"

definition packageRow :: "time \<Rightarrow> string \<times> packageStatus \<Rightarrow> packageData" where
  "packageRow now entry =
     (case entry of (importPath, ps) \<Rightarrow>
        let tests = shownTests ps; n = int (length tests); d = countIf (\<lambda>(_, ts). ts_done ts) tests
        in \<lparr>pd_ImportPath = importPath, pd_NumTestsKnown = (ps_tests ps \<noteq> None), pd_NumTests = n, pd_NumTestsDone = d,
            pd_Status =
              (case ps_state ps of
                 pkgStateDiscovered \<Rightarrow> ''waiting to link''
               | pkgStateBuilt \<Rightarrow> if ps_tests ps \<noteq> None then ''queued'' else ''linked''
               | pkgStateTesting \<Rightarrow> ''testing; '' @ showInt d @ ''/'' @ showInt n
               | pkgStateDone \<Rightarrow>
                   (if ps_numFails ps > 0 then ''FAILED in '' else ''PASSED in '') @ durationString (ps_runIn ps)),
            pd_Passed = (ps_state ps = pkgStateDone \<and> \<not> ps_numFails ps > 0),
            pd_Failed = (ps_state ps = pkgStateDone \<and> ps_numFails ps > 0),
            pd_LastChanged = formatAge now (ps_changed ps), pd_LastChangedUnix = unixNano (ps_changed ps)\<rparr>)"

definition testedFromCache :: "packageStatus \<Rightarrow> bool" where
  "testedFromCache ps \<longleftrightarrow> list_all (\<lambda>(_, ts). ts_done ts \<and> ts_cached ts) (shownTests ps)"

definition testedPackage :: "packageStatus \<Rightarrow> bool" where
  "testedPackage ps \<longleftrightarrow> ps_state ps = pkgStateDone \<and> shownTests ps \<noteq> []"

text \<open>A done test that failed, or passed after failures, becomes an issue numbered in the order of the loops.\<close>

definition isIssue :: "string \<times> string \<times> testStatus \<Rightarrow> bool" where
  "isIssue t = (case t of (_, _, ts) \<Rightarrow> ts_done ts \<and> (ts_passed ts \<longrightarrow> ts_fails ts \<noteq> []))"

definition pageIssues :: "Server \<Rightarrow> testIssueData list" where
  "pageIssues s = map (\<lambda>(i, p, name, ts). newTestIssue p name ts (ts_passed ts) i) (enumerate 0 (filter isIssue (pageTests s)))"

definition compareIssues :: "testIssueData \<Rightarrow> testIssueData \<Rightarrow> int" where
  "compareIssues a b = cmpOf (ti_Name a) (ti_Name b)"

definition compareSlow :: "slowTestData \<Rightarrow> slowTestData \<Rightarrow> int" where
  "compareSlow a b =
     (let c = cmpOf (sl_Duration b) (sl_Duration a) in if c \<noteq> 0 then c else cmpOf (sl_Name a) (sl_Name b))"

definition pageSlow :: "Server \<Rightarrow> slowTestData list" where
  "pageSlow s =
     map (\<lambda>(p, name, ts). \<lparr>sl_Name = p @ ''.'' @ name, sl_Duration = testDuration ts, sl_Cached = ts_cached ts\<rparr>)
       (filter (\<lambda>(_, _, ts). ts_done ts) (pageTests s))"

definition statusPage :: "(time \<Rightarrow> string) \<Rightarrow> flags \<Rightarrow> fleet option \<Rightarrow> time \<Rightarrow> Server \<Rightarrow> statusData" where
  "statusPage rfc fl fo now s =
     (let pkgs = map snd (sortedPackages s);
          tests = map (\<lambda>(_, _, ts). ts) (pageTests s);
          (eta, unknown, available) = testETALocked fl fo now s;
          linked = countIf (\<lambda>ps. ps_exeHash ps \<noteq> []) pkgs;
          done' = countIf (\<lambda>ps. ps_state ps = pkgStateDone) pkgs;
          testsDone = countIf ts_done tests;
          testsRunning = countIf ts_running tests
      in \<lparr>sd_StartedAt = rfc (sv_start s), sd_StartedAgo = formatAge now (sv_start s), sd_Phase = sv_phase s,
          sd_ExitStatus = (case sv_phase s of phaseDone \<Rightarrow> ''success'' | phaseFailed \<Rightarrow> ''failure'' | _ \<Rightarrow> ''not exited''),
          sd_ExitClass = (case sv_phase s of phaseDone \<Rightarrow> ''passed'' | phaseFailed \<Rightarrow> ''failed'' | _ \<Rightarrow> []),
          sd_PackagesTotal = sv_pkgsWithTests s, sd_PackagesLinked = linked,
          sd_PackagesLinkFresh = countIf (\<lambda>ps. ps_exeHash ps \<noteq> [] \<and> \<not> ps_exeCached ps) pkgs,
          sd_PackagesLinkCache = countIf (\<lambda>ps. ps_exeHash ps \<noteq> [] \<and> ps_exeCached ps) pkgs,
          sd_PackagesDone = done',
          sd_PackagesTestCache = countIf (\<lambda>ps. testedPackage ps \<and> testedFromCache ps) pkgs,
          sd_PackagesTestFresh = countIf (\<lambda>ps. testedPackage ps \<and> \<not> testedFromCache ps) pkgs,
          sd_PackagesRemaining = max 0 (sv_pkgsWithTests s - done'), sd_LinksRemaining = max 0 (sv_pkgsWithTests s - linked),
          sd_BinarySize = formatByteSize (sum_list (map ps_exeSize (filter (\<lambda>ps. hasTests (ps_glp ps) \<and> ps_exeHash ps \<noteq> []) (map snd (sv_pkgs s))))),
          sd_TestsTotal = sv_testsTotal s, sd_TestsDone = testsDone,
          sd_TestsPassed = countIf (\<lambda>ts. ts_done ts \<and> ts_passed ts) tests,
          sd_TestsCached = countIf (\<lambda>ts. ts_done ts \<and> ts_cached ts) tests, sd_TestCacheDisabled = testCountSet fl,
          sd_TestsFresh = countIf (\<lambda>ts. ts_done ts \<and> \<not> ts_cached ts) tests,
          sd_TestsFailed = countIf (\<lambda>ts. ts_done ts \<and> \<not> ts_passed ts) tests,
          sd_TestsFlaky = countIf (\<lambda>ts. ts_done ts \<and> ts_passed ts \<and> ts_fails ts \<noteq> []) tests,
          sd_TestsRunning = testsRunning, sd_TestsRemaining = max 0 (sv_testsTotal s - testsDone - testsRunning),
          sd_BuildDepsTotal = sv_buildDepsTotal s, sd_BuildDepsFresh = sv_buildDepsFresh s, sd_BuildDepsCached = sv_buildDepsCached s,
          sd_BuildDepsObserved = sv_buildDepsFresh s + sv_buildDepsCached s,
          sd_BuildDepsRemain = max 0 (sv_buildDepsTotal s - sv_buildDepsFresh s - sv_buildDepsCached s),
          sd_TestETA = formatEstimate eta, sd_ETAMedian = formatEstimate (sv_testEstimateBase s), sd_ETAUnknown = unknown,
          sd_ETAAvailable = available,
          sd_Packages = map (packageRow now) (sortedPackages s),
          sd_Issues = SortFunc compareIssues (pageIssues s),
          sd_Slowest = take 50 (SortFunc compareSlow (pageSlow s)),
          sd_Workers = workerDataLocked now fo\<rparr>)"

section \<open>Patches\<close>

record htmlPatch =
  hp_Seq :: "64 word"
  hp_Prefix :: nat
  hp_Suffix :: nat
  hp_Insert :: string
  hp_Final :: bool

function prefixLoop :: "nat list \<Rightarrow> nat list \<Rightarrow> nat \<Rightarrow> nat" where
  "prefixLoop old new i = (if i < length old \<and> i < length new \<and> old ! i = new ! i then prefixLoop old new (Suc i) else i)"
  by auto
termination
  by (relation "measure (\<lambda>(old, _, i). length old - i)") auto

function suffixLoop :: "nat list \<Rightarrow> nat list \<Rightarrow> nat \<Rightarrow> nat \<Rightarrow> nat" where
  "suffixLoop old new pre i =
     (if i < length old - pre \<and> i < length new - pre \<and> old ! (length old - 1 - i) = new ! (length new - 1 - i)
      then suffixLoop old new pre (Suc i) else i)"
  by auto
termination
  by (relation "measure (\<lambda>(old, _, _, i). length old - i)") auto

declare prefixLoop.simps [simp del] suffixLoop.simps [simp del]

definition makeHTMLPatch :: "string \<Rightarrow> string \<Rightarrow> htmlPatch" where
  "makeHTMLPatch oldHTML newHTML =
     (let old = runes oldHTML; new = runes newHTML;
          pre = prefixLoop old new 0; suf = suffixLoop old new pre 0
      in \<lparr>hp_Seq = 0, hp_Prefix = pre, hp_Suffix = suf, hp_Insert = encodeRunes (drop pre (take (length new - suf) new)),
          hp_Final = False\<rparr>)"

text \<open>\<open>applyPatch\<close> of \<open>live.js\<close> on the code points of the browser's copy.\<close>

definition applyPatch :: "nat list \<Rightarrow> htmlPatch \<Rightarrow> nat list" where
  "applyPatch current p =
     take (hp_Prefix p) current @ runes (hp_Insert p)
     @ (if hp_Suffix p = 0 then [] else drop (length current - hp_Suffix p) current)"

section \<open>A live client\<close>

text \<open>
  The variables of \<open>run\<close>, and what a call of \<open>push\<close> meets: the time, the context's error while it waits for the
  update interval, the error of the write, the time after it, the acknowledgements received until the context ends, and
  the context's error then.
\<close>

record liveState =
  lc_lastHTML :: string
  lc_seq :: "64 word"
  lc_lastPush :: time

record pushEnv =
  pe_now :: time
  pe_waitErr :: "string option"
  pe_writeErr :: "string option"
  pe_sent :: time
  pe_acks :: "64 word list"
  pe_ctxErr :: string

definition liveUpdateInterval :: duration where "liveUpdateInterval = 500 * millisecond"

definition push :: "pushEnv \<Rightarrow> string \<Rightarrow> bool \<Rightarrow> liveState \<Rightarrow> string option \<times> liveState \<times> htmlPatch list" where
  "push env html final st =
     (if html = lc_lastHTML st \<and> \<not> final then (None, st, [])
      else if lc_lastPush st \<noteq> 0 \<and> liveUpdateInterval - (pe_now env - lc_lastPush st) > 0 \<and> pe_waitErr env \<noteq> None
        then (pe_waitErr env, st, [])
      else let st1 = st\<lparr>lc_seq := lc_seq st + 1\<rparr>;
               patch = (makeHTMLPatch (lc_lastHTML st) html)\<lparr>hp_Seq := lc_seq st1, hp_Final := final\<rparr>
           in (case pe_writeErr env of
                 Some e \<Rightarrow> (Some e, st1, [])
               | None \<Rightarrow>
                   let st2 = st1\<lparr>lc_lastPush := pe_sent env, lc_lastHTML := html\<rparr>
                   in (if \<not> final \<or> lc_seq st2 \<in> set (pe_acks env) then None else Some (pe_ctxErr env), st2, [patch])))"

datatype liveEvent = Tick "string + string" pushEnv | Command string bool pushEnv | Done

text \<open>
  The loop of \<open>run\<close> on the events its \<open>select\<close> takes; the result has the patches written and the answers sent to
  the commands.
\<close>

fun liveLoop :: "liveEvent list \<Rightarrow> liveState \<Rightarrow> liveState \<times> htmlPatch list \<times> string option list" where
  "liveLoop [] st = (st, [], [])"
| "liveLoop (Done # evs) st = (st, [], [])"
| "liveLoop (Tick rendered env # evs) st =
     (case rendered of
        Inl e \<Rightarrow> (st, [], [])
      | Inr html \<Rightarrow>
          (case push env html False st of
             (Some e, st', ps) \<Rightarrow> (st', ps, [])
           | (None, st', ps) \<Rightarrow> (case liveLoop evs st' of (st'', ps', as) \<Rightarrow> (st'', ps @ ps', as))))"
| "liveLoop (Command html final env # evs) st =
     (case push env html final st of
        (err, st', ps) \<Rightarrow>
          if final \<or> err \<noteq> None then (st', ps, [err])
          else (case liveLoop evs st' of (st'', ps', as) \<Rightarrow> (st'', ps @ ps', err # as)))"

definition newLive :: liveState where
  "newLive = \<lparr>lc_lastHTML = [], lc_seq = 0, lc_lastPush = 0\<rparr>"

definition liveRun :: "string + string \<Rightarrow> pushEnv \<Rightarrow> liveEvent list \<Rightarrow> liveState \<times> htmlPatch list \<times> string option list" where
  "liveRun rendered env evs =
     (case rendered of
        Inl e \<Rightarrow> liveLoop evs newLive
      | Inr html \<Rightarrow>
          (case push env html False newLive of
             (Some e, st, ps) \<Rightarrow> (st, ps, [])
           | (None, st, ps) \<Rightarrow> (case liveLoop evs st of (st', ps', as) \<Rightarrow> (st', ps @ ps', as))))"

text \<open>\<open>readAcks\<close> passes on one pending acknowledgement and drops what comes while it is pending; \<open>msgs\<close> are the decoded messages.\<close>

definition readAck :: "string + 64 word \<Rightarrow> 64 word option \<Rightarrow> 64 word option" where
  "readAck msg pending = (case msg of Inl e \<Rightarrow> pending | Inr ack \<Rightarrow> if ack \<noteq> 0 \<and> pending = None then Some ack else pending)"

section \<open>Requests\<close>

datatype pageReply = HTML string | Script | RenderError string | LiveSocket | NotFound

definition serveStatusRoot :: "(statusData \<Rightarrow> string + string) \<Rightarrow> statusData \<Rightarrow> pageReply" where
  "serveStatusRoot render d =
     (case render d of Inl e \<Rightarrow> RenderError (''executing template: '' @ e) | Inr html \<Rightarrow> HTML html)"

definition ServeHTTP :: "(statusData \<Rightarrow> string + string) \<Rightarrow> statusData \<Rightarrow> string \<Rightarrow> pageReply" where
  "ServeHTTP render d path =
     (if path = ''/'' then serveStatusRoot render d
      else if path = ''/live.js'' then Script
      else if path = ''/live-ws'' then LiveSocket
      else NotFound)"

section \<open>Listeners\<close>

text \<open>\<open>netip.Addr\<close>: an address is invalid, four bytes, or sixteen bytes with a zone.\<close>

datatype netipAddr = NoAddr | Addr4 string | Addr6 string string

definition mapped4 :: string where
  "mapped4 = replicate 10 (CHR 0x00) @ [CHR 0xFF, CHR 0xFF]"

definition Unmap :: "netipAddr \<Rightarrow> netipAddr" where
  "Unmap a = (case a of Addr6 b zone \<Rightarrow> if HasPrefix b mapped4 then Addr4 (drop 12 b) else a | _ \<Rightarrow> a)"

definition AddrFromSlice :: "string \<Rightarrow> netipAddr option" where
  "AddrFromSlice b = (if length b = 4 then Some (Addr4 b) else if length b = 16 then Some (Addr6 b []) else None)"

definition IsUnspecified :: "netipAddr \<Rightarrow> bool" where
  "IsUnspecified a \<longleftrightarrow> a = Addr4 (replicate 4 (CHR 0x00)) \<or> a = Addr6 (replicate 16 (CHR 0x00)) []"

definition Is4 :: "netipAddr \<Rightarrow> bool" where
  "Is4 a \<longleftrightarrow> (case a of Addr4 _ \<Rightarrow> True | _ \<Rightarrow> False)"

definition listenerCoversIP :: "string option \<Rightarrow> netipAddr \<Rightarrow> bool" where
  "listenerCoversIP addrIP ip =
     (case addrIP of
        None \<Rightarrow> False
      | Some b \<Rightarrow>
          (case AddrFromSlice b of
             None \<Rightarrow> False
           | Some bound0 \<Rightarrow>
               let bound = Unmap bound0; ip' = Unmap ip
               in if IsUnspecified bound then Is4 bound = Is4 ip' else bound = ip'))"

text \<open>
  The loop of \<open>startStatusListeners\<close> over the daemon's addresses. \<open>listen\<close> opens an address at the port; the result
  has the addresses opened, in order, and whether any address is served.
\<close>

fun bindLoop :: "(netipAddr \<Rightarrow> int \<Rightarrow> bool) \<Rightarrow> string option \<Rightarrow> int \<Rightarrow> netipAddr list \<Rightarrow> netipAddr list \<Rightarrow> netipAddr list \<times> bool" where
  "bindLoop listen addrIP port seen [] = ([], False)"
| "bindLoop listen addrIP port seen (ip0 # ips) =
     (let ip = Unmap ip0
      in if ip = NoAddr \<or> ip \<in> set seen then bindLoop listen addrIP port seen ips
         else if listenerCoversIP addrIP ip
           then (fst (bindLoop listen addrIP port (ip # seen) ips), True)
         else if listen ip port
           then (ip # fst (bindLoop listen addrIP port (ip # seen) ips), True)
         else bindLoop listen addrIP port (ip # seen) ips)"

record ipnStatus =
  st_BackendState :: string
  st_Self :: "string option"
  st_TailscaleIPs :: "netipAddr list"

definition JoinHostPort :: "string \<Rightarrow> int \<Rightarrow> string" where
  "JoinHostPort host port =
     (if CHR '':'' \<in> set host \<or> CHR ''%'' \<in> set host then ''['' @ host @ '']:'' @ showInt port else host @ '':'' @ showInt port)"

definition TrimSuffixDot :: "string \<Rightarrow> string" where
  "TrimSuffixDot s = (if HasSuffix s ''.'' then butlast s else s)"

text \<open>
  \<open>primary\<close> is the result of listening at the configured address: an error, or the address's IP and port when it is a TCP address;
  \<open>status\<close> is the daemon's status. The result lists the further addresses listened at and the URL to show.
\<close>

definition startStatusListeners :: "string + (string option \<times> int) option \<Rightarrow> (netipAddr \<Rightarrow> int \<Rightarrow> bool) \<Rightarrow> string + ipnStatus option
    \<Rightarrow> string + netipAddr list \<times> string" where
  "startStatusListeners primary listen status =
     (case primary of
        Inl e \<Rightarrow> Inl e
      | Inr tcpAddr \<Rightarrow>
          (case status of
             Inr (Some st) \<Rightarrow>
               (case st_Self st of
                  None \<Rightarrow> Inr ([], [])
                | Some dns \<Rightarrow>
                    if st_BackendState st \<noteq> ''Running'' then Inr ([], [])
                    else (case tcpAddr of
                            None \<Rightarrow> Inr ([], [])
                          | Some (addrIP, port) \<Rightarrow>
                              let (opened, bound) = bindLoop listen addrIP port [] (st_TailscaleIPs st);
                                  dnsName = TrimSuffixDot dns
                              in if \<not> bound \<or> dnsName = [] then Inr (opened, [])
                                 else Inr (opened, ''http://'' @ JoinHostPort dnsName port)))
           | _ \<Rightarrow> Inr ([], [])))"

section \<open>The browser's copy\<close>

lemma prefixLoop_common:
  "i \<le> length old \<Longrightarrow> i \<le> length new \<Longrightarrow> take i old = take i new \<Longrightarrow>
   prefixLoop old new i \<le> length old \<and> prefixLoop old new i \<le> length new
   \<and> take (prefixLoop old new i) old = take (prefixLoop old new i) new"
proof (induction old new i rule: prefixLoop.induct)
  case (1 old new i)
  show ?case
  proof (cases "i < length old \<and> i < length new \<and> old ! i = new ! i")
    case True
    then have "take (Suc i) old = take (Suc i) new" using "1.prems"(3) by (simp add: take_Suc_conv_app_nth)
    then show ?thesis using "1.IH" True by (subst (1 2 3 4) prefixLoop.simps) simp
  next
    case False
    then show ?thesis using "1.prems" by (subst (1 2 3 4) prefixLoop.simps) (simp only: if_False)
  qed
qed

lemma suffixLoop_common:
  "i \<le> length old - pre \<Longrightarrow> i \<le> length new - pre \<Longrightarrow> drop (length old - i) old = drop (length new - i) new \<Longrightarrow>
   (let n = suffixLoop old new pre i
    in n \<le> length old - pre \<and> n \<le> length new - pre \<and> drop (length old - n) old = drop (length new - n) new)"
proof (induction old new pre i rule: suffixLoop.induct)
  case (1 old new pre i)
  show ?case
  proof (cases "i < length old - pre \<and> i < length new - pre \<and> old ! (length old - 1 - i) = new ! (length new - 1 - i)")
    case True
    have step: "drop (length xs - Suc i) xs = xs ! (length xs - 1 - i) # drop (length xs - i) xs" if "i < length xs" for xs :: "nat list"
    proof -
      have "length xs - Suc i < length xs" "Suc (length xs - Suc i) = length xs - i" using that by auto
      then show ?thesis using Cons_nth_drop_Suc [of "length xs - Suc i" xs] by simp
    qed
    have len: "i < length old" "i < length new" using True by auto
    have "drop (length old - Suc i) old = drop (length new - Suc i) new"
      unfolding step [OF len(1)] step [OF len(2)] using True "1.prems"(3) by simp
    then show ?thesis using "1.IH" True by (subst suffixLoop.simps) simp
  next
    case False
    then show ?thesis using "1.prems" by (subst suffixLoop.simps) (simp only: if_False Let_def simp_thms)
  qed
qed

lemma applyPatch_makeHTMLPatch:
  "applyPatch (runes old) (makeHTMLPatch old new\<lparr>hp_Seq := q, hp_Final := f\<rparr>) = runes new"
proof -
  let ?o = "runes old" and ?n = "runes new"
  define pre where "pre = prefixLoop ?o ?n 0"
  define suf where "suf = suffixLoop ?o ?n pre 0"
  have pre: "pre \<le> length ?o" "pre \<le> length ?n" "take pre ?o = take pre ?n"
    using prefixLoop_common [of 0 ?o ?n] by (auto simp: pre_def)
  have suf: "suf \<le> length ?o - pre" "suf \<le> length ?n - pre" "drop (length ?o - suf) ?o = drop (length ?n - suf) ?n"
    using suffixLoop_common [of 0 ?o pre ?n] by (auto simp: suf_def Let_def)
  have patch: "makeHTMLPatch old new = \<lparr>hp_Seq = 0, hp_Prefix = pre, hp_Suffix = suf,
      hp_Insert = encodeRunes (drop pre (take (length ?n - suf) ?n)), hp_Final = False\<rparr>"
    by (simp add: makeHTMLPatch_def Let_def pre_def suf_def)
  have "\<forall>c \<in> set (drop pre (take (length ?n - suf) ?n)). scalar c"
    using runes_scalar [of new] by (meson in_set_dropD in_set_takeD)
  then have ins: "runes (encodeRunes (drop pre (take (length ?n - suf) ?n))) = drop pre (take (length ?n - suf) ?n)"
    by (rule runes_encodeRunes)
  have mid: "take pre ?n @ drop pre (take (length ?n - suf) ?n) = take (length ?n - suf) ?n"
  proof -
    have "pre \<le> length ?n - suf" using suf(2) pre(2) by linarith
    then show ?thesis using append_take_drop_id [of pre "take (length ?n - suf) ?n"] by (simp add: min_def)
  qed
  have tail: "(if suf = 0 then [] else drop (length ?o - suf) ?o) = drop (length ?n - suf) ?n"
    using suf(3) by simp
  show ?thesis unfolding applyPatch_def patch
    using ins mid tail pre(3) suf(3) append_take_drop_id [of "length ?n - suf" ?n] by (simp flip: append_assoc)
qed

definition browser :: "htmlPatch list \<Rightarrow> nat list" where
  "browser ps = fold (\<lambda>p page. applyPatch page p) ps []"

text \<open>The patches are numbered one after the other.\<close>

fun numbered :: "64 word \<Rightarrow> htmlPatch list \<Rightarrow> bool" where
  "numbered q [] = True"
| "numbered q (p # ps) = (hp_Seq p = q + 1 \<and> numbered (q + 1) ps)"

lemma numbered_append [simp]: "numbered q (ps @ ps') \<longleftrightarrow> numbered q ps \<and> numbered (q + of_nat (length ps)) ps'"
  by (induction ps arbitrary: q) (auto simp: ac_simps)

lemma push_sync:
  assumes "push env html final st = (err, st', ps)"
  shows "fold (\<lambda>p page. applyPatch page p) ps (runes (lc_lastHTML st)) = runes (lc_lastHTML st')
    \<and> (err = None \<longrightarrow> lc_lastHTML st' = html \<and> lc_seq st' = lc_seq st + of_nat (length ps))
    \<and> numbered (lc_seq st) ps \<and> length ps \<le> 1
    \<and> (final \<and> err = None \<longrightarrow> (\<exists>p. ps = [p] \<and> hp_Final p \<and> hp_Seq p \<in> set (pe_acks env)))
    \<and> (\<not> final \<longrightarrow> (\<forall>p \<in> set ps. \<not> hp_Final p))"
  using assms applyPatch_makeHTMLPatch
  by (cases "pe_writeErr env"; cases "pe_waitErr env") (auto simp: push_def Let_def dest: sym split: if_splits)

definition inSync :: "liveState \<Rightarrow> htmlPatch list \<Rightarrow> liveState \<Rightarrow> bool" where
  "inSync st ps st' \<longleftrightarrow> fold (\<lambda>p page. applyPatch page p) ps (runes (lc_lastHTML st)) = runes (lc_lastHTML st')
     \<and> numbered (lc_seq st) ps \<and> (\<forall>p \<in> set (butlast ps). \<not> hp_Final p)"

lemma inSync_push:
  assumes "push env html final st = (err, st1, ps)"
  shows "inSync st ps st1"
proof -
  have "length ps \<le> 1" using push_sync [OF assms] by blast
  then have "butlast ps = []" by (cases ps) auto
  then show ?thesis using push_sync [OF assms] by (simp add: inSync_def)
qed

lemma inSync_then:
  assumes "push env html False st = (None, st1, ps)" and "inSync st1 ps' st2"
  shows "inSync st (ps @ ps') st2"
  using push_sync [OF assms(1)] assms(2) by (auto simp: inSync_def butlast_append dest: in_set_butlastD split: if_splits)

lemma liveLoop_sync: "liveLoop evs st = (st', ps, as) \<Longrightarrow> inSync st ps st'"
proof (induction evs st arbitrary: st' ps as rule: liveLoop.induct)
  case (3 rendered env evs st)
  show ?case
  proof (cases rendered)
    case (Inl e)
    then show ?thesis using "3.prems" by (auto simp: inSync_def)
  next
    case (Inr html)
    obtain err st1 ps1 where p: "push env html False st = (err, st1, ps1)" by (metis prod_cases3)
    show ?thesis
    proof (cases err)
      case None
      obtain st2 ps2 as2 where l: "liveLoop evs st1 = (st2, ps2, as2)" by (metis prod_cases3)
      have "inSync st1 ps2 st2" using "3.IH" [OF Inr p [symmetric] None refl l] .
      then show ?thesis using "3.prems" Inr p None l inSync_then by auto
    next
      case (Some e)
      then show ?thesis using "3.prems" Inr p inSync_push by auto
    qed
  qed
next
  case (4 html final env evs st)
  obtain err st1 ps1 where p: "push env html final st = (err, st1, ps1)" by (metis prod_cases3)
  show ?case
  proof (cases "final \<or> err \<noteq> None")
    case True
    then show ?thesis using "4.prems" p inSync_push by auto
  next
    case False
    obtain st2 ps2 as2 where l: "liveLoop evs st1 = (st2, ps2, as2)" by (metis prod_cases3)
    have "inSync st1 ps2 st2" using "4.IH" [OF p [symmetric] refl False l] .
    then show ?thesis using "4.prems" p l False inSync_then by auto
  qed
qed (auto simp: inSync_def)

lemma newLive_simps [simp]: "lc_lastHTML newLive = []" "lc_seq newLive = 0"
  by (simp_all add: newLive_def)

lemma liveRun_sync: "liveRun rendered env evs = (st, ps, as) \<Longrightarrow> inSync newLive ps st"
proof (cases rendered)
  case (Inr html)
  assume run: "liveRun rendered env evs = (st, ps, as)"
  obtain err st1 ps1 where p: "push env html False newLive = (err, st1, ps1)" by (metis prod_cases3)
  obtain st2 ps2 as2 where l: "liveLoop evs st1 = (st2, ps2, as2)" by (metis prod_cases3)
  show ?thesis
  proof (cases err)
    case None
    then show ?thesis using run Inr p l inSync_then liveLoop_sync [OF l] by (auto simp: liveRun_def)
  next
    case (Some e)
    then show ?thesis using run Inr p inSync_push by (auto simp: liveRun_def)
  qed
qed (auto simp: liveRun_def intro: liveLoop_sync)

text \<open>
  The browser's copy of the status page never drifts: after the patches a live client has written, in whatever
  order its ticks, commands and failures came, the browser holds exactly the runes of the last page pushed, the
  patches are numbered one after the other from one, and no patch but the last is final. A final push then reports success only after the browser
  has acknowledged that very patch, and by then it shows the final page.
\<close>

theorem live_page_in_sync:
  assumes run: "liveRun rendered env evs = (st, ps, as)"
  shows "browser ps = runes (lc_lastHTML st) \<and> numbered 0 ps \<and> (\<forall>p \<in> set (butlast ps). \<not> hp_Final p)
    \<and> (\<forall>env' html st' qs. push env' html True st = (None, st', qs) \<longrightarrow>
         browser (ps @ qs) = runes html \<and> (\<exists>p. qs = [p] \<and> hp_Final p \<and> hp_Seq p \<in> set (pe_acks env')))"
proof -
  have sync: "browser ps = runes (lc_lastHTML st)" "numbered 0 ps" "\<forall>p \<in> set (butlast ps). \<not> hp_Final p"
    using liveRun_sync [OF run] by (simp_all add: inSync_def browser_def)
  have "browser (ps @ qs) = runes html \<and> (\<exists>p. qs = [p] \<and> hp_Final p \<and> hp_Seq p \<in> set (pe_acks env'))"
    if final: "push env' html True st = (None, st', qs)" for env' html st' qs
    using push_sync [OF final] sync(1) by (auto simp: browser_def)
  then show ?thesis using sync by blast
qed

definition quietEnv :: "64 word list \<Rightarrow> pushEnv" where
  "quietEnv acks = \<lparr>pe_now = 1, pe_waitErr = None, pe_writeErr = None, pe_sent = 1, pe_acks = acks, pe_ctxErr = ''context canceled''\<rparr>"

theorem live_page_in_sync_witness:
  "\<exists>st ps as. liveRun (Inr ''ab'') (quietEnv []) [Tick (Inr ''acb'') (quietEnv [])] = (st, ps, as)
    \<and> length ps = 2 \<and> browser ps = runes ''acb''"
proof -
  obtain st ps as where run: "liveRun (Inr ''ab'') (quietEnv []) [Tick (Inr ''acb'') (quietEnv [])] = (st, ps, as)"
    by (metis prod_cases3)
  have "length ps = 2" "lc_lastHTML st = ''acb''"
    using run by (auto simp: liveRun_def push_def quietEnv_def newLive_def Let_def)
  then show ?thesis using run live_page_in_sync [OF run] by auto
qed

section \<open>Output stays within its bound\<close>

lemma trimToValid: "length s < n \<Longrightarrow> ValidString (trimToValid n s) \<and> length (trimToValid n s) \<le> length s"
proof (induction n s rule: trimToValid.induct)
  case (2 n s)
  show ?case
  proof (cases "s \<noteq> [] \<and> \<not> ValidString s")
    case True
    then have "length (butlast s) < n" using "2.prems" by (cases s rule: rev_cases) auto
    then show ?thesis using "2.IH" [OF True] True by (auto simp: le_diff_conv)
  next
    case False
    then show ?thesis by auto
  qed
qed simp

lemma dropPartialRune: "ValidString (dropPartialRune s)" "length (dropPartialRune s) \<le> length s"
  using trimToValid [of s "Suc (length s)"] by (simp_all add: dropPartialRune_def)

lemma digit_ascii: "c \<in> set (showNat n) \<Longrightarrow> (of_char c :: nat) < 0x80"
  using showNat_digits by fastforce

lemma ValidString_showNat: "ValidString (showNat n)"
  by (intro ValidString_ascii) (simp add: digit_ascii)

lemma ValidString_fracString: "ValidString (fracString k n)"
proof (rule ValidString_ascii, rule ballI)
  fix c assume "c \<in> set (fracString k n)"
  then have "c = CHR ''.'' \<or> c \<in> set (showNat (10 ^ k + n mod 10 ^ k))"
    by (auto simp: fracString_def Let_def dest!: set_dropWhileD list.set_sel(2) [rotated] split: if_splits)
  then show "(of_char c :: nat) < 0x80" using digit_ascii by auto
qed

lemma ValidString_micro: "ValidString [CHR 0xC2, CHR 0xB5, CHR ''s'']" "ValidString replacementRune"
  by (simp_all add: ValidString_def badRune_def decodeRune_def byteAt_def inRange_def Let_def replacementRune_def)

lemma ValidString_const: "ValidString ''s''" "ValidString ''ns''" "ValidString ''ms''" "ValidString ''h''" "ValidString ''m''"
    "ValidString ''0s''" "ValidString ''-''" "ValidString [nl]" "ValidString ''--- failed attempt ''" "ValidString '' (''"
    "ValidString '') ---''" "ValidString truncationMarker"
  by (intro ValidString_ascii; simp add: truncationMarker_def)+

lemma ValidString_durationString: "ValidString (durationString d)"
proof -
  have minus: "ValidString (CHR ''-'' # s) \<longleftrightarrow> ValidString s" for s
    using ValidString_append [OF ValidString_const(7), of s] by simp
  show ?thesis
    unfolding durationString_def Let_def
    by (simp add: minus ValidString_showNat ValidString_fracString ValidString_micro ValidString_const)
qed

lemma ValidString_segment: "ValidString (failureSegment i fail)"
  by (simp add: failureSegment_def ValidString_const ValidString_showNat ValidString_durationString ValidString_ToValidUTF8 ValidString_micro
      del: append_Cons)

lemma failureLoop_bounded:
  "ValidString b \<Longrightarrow> length b \<le> webFailureOutputLimit + 1 \<Longrightarrow>
   ValidString (failureLoop i fails b) \<and> length (failureLoop i fails b) \<le> webFailureOutputLimit + 1"
proof (induction i fails b rule: failureLoop.induct)
  case (2 i fail fails b)
  let ?seg = "failureSegment i fail"
  show ?case
  proof (cases "length b + length ?seg \<le> webFailureOutputLimit")
    case True
    have "ValidString (b @ ?seg @ (if HasSuffix ?seg [nl] then [] else [nl]))"
      using "2.prems"(1) ValidString_segment ValidString_const by simp
    moreover have "length (b @ ?seg @ (if HasSuffix ?seg [nl] then [] else [nl])) \<le> webFailureOutputLimit + 1"
      using True by simp
    ultimately show ?thesis using "2.IH" [OF refl True] True by (simp add: Let_def)
  next
    case False
    define piece where "piece = (let remaining = int webFailureOutputLimit - int (length b) - int (length truncationMarker)
      in if remaining > 0 then dropPartialRune (take (nat remaining) ?seg) else [])"
    define room where "room = webFailureOutputLimit - length truncationMarker"
    have out: "failureLoop i (fail # fails) b
        = (if length (b @ piece) > room then dropPartialRune (take room (b @ piece)) else b @ piece) @ truncationMarker"
      using False by (simp add: Let_def piece_def room_def)
    have fits: "room + length truncationMarker = webFailureOutputLimit"
      by (simp add: room_def webFailureOutputLimit_def truncationMarker_def)
    have piece: "ValidString piece" by (simp add: piece_def Let_def dropPartialRune)
    have "length (dropPartialRune (take room (b @ piece))) \<le> room" using dropPartialRune(2) [of "take room (b @ piece)"] by simp
    then show ?thesis unfolding out
      using piece fits "2.prems"(1) dropPartialRune(1) ValidString_const(12) by auto
  qed
qed simp

lemma boundedFailureOutput_tight:
  assumes "k + 31 = webFailureOutputLimit"
  shows "length (boundedFailureOutput [\<lparr>fail_dur = 0, fail_out = replicate (Suc k) (CHR ''x'')\<rparr>]) = webFailureOutputLimit + 1"
proof -
  let ?f = "\<lparr>fail_dur = 0, fail_out = replicate (Suc k) (CHR ''x'')\<rparr> :: failInfo"
  have one: "showNat (Suc 0) = ''1''" by code_simp
  have "ValidString (replicate n (CHR ''x''))" for n by (intro ValidString_ascii) simp
  then have seg: "failureSegment 0 ?f = (''--- failed attempt 1 (0s) ---'' @ [nl] @ replicate k (CHR ''x'')) @ [CHR ''x'']"
    by (simp add: failureSegment_def ToValidUTF8_valid durationString_def Let_def one replicate_append_same
        del: replicate_Suc flip: replicate_Suc)
  have len: "length (failureSegment 0 ?f) = webFailureOutputLimit" unfolding seg using assms by simp
  have "\<not> HasSuffix (failureSegment 0 ?f) [nl]" unfolding seg by (simp add: HasSuffix_def HasPrefix_def)
  then show ?thesis using len by (simp add: boundedFailureOutput_def Let_def)
qed

text \<open>
  C38. What the page shows of a test's failures is valid UTF-8 and at most one byte longer than the limit of 500 KiB, however much the
  test wrote; the extra byte is real, since the line break after a segment is not counted.
\<close>

theorem boundedFailureOutput_bounds:
  "(\<forall>failures. ValidString (boundedFailureOutput failures) \<and> length (boundedFailureOutput failures) \<le> webFailureOutputLimit + 1)
   \<and> (\<exists>failures. length (boundedFailureOutput failures) = webFailureOutputLimit + 1)"
proof
  show "\<forall>failures. ValidString (boundedFailureOutput failures) \<and> length (boundedFailureOutput failures) \<le> webFailureOutputLimit + 1"
    using failureLoop_bounded [of "[]"] by (simp add: boundedFailureOutput_def)
  have "511969 + 31 = webFailureOutputLimit" by (simp add: webFailureOutputLimit_def)
  then show "\<exists>failures. length (boundedFailureOutput failures) = webFailureOutputLimit + 1"
    using boundedFailureOutput_tight by blast
qed

section \<open>The numbers of the page\<close>

lemma countIf_simps [simp]: "countIf P [] = 0" "countIf P (x # xs) = (if P x then 1 else 0) + countIf P xs"
  by (simp_all add: countIf_def)

lemma countIf_mset: "mset xs = mset ys \<Longrightarrow> countIf P xs = countIf P ys"
  by (metis countIf_def mset_filter size_mset)

lemma countIf_split: "countIf P xs = countIf (\<lambda>x. P x \<and> Q x) xs + countIf (\<lambda>x. P x \<and> \<not> Q x) xs"
  by (induction xs) auto

lemma countIf_map: "countIf P (map f xs) = countIf (P \<circ> f) xs"
  by (induction xs) auto

text \<open>Sorting the keys of a map loses and repeats no entry.\<close>

lemma mset_sorted_entries:
  assumes "gomap_ok m"
  shows "mset (map (\<lambda>p. (p, the (map_of m p))) (sortStrings (gokeys m))) = mset m"
proof -
  have "map (\<lambda>p. (p, the (map_of m p))) (gokeys m) = m"
    using assms by (auto simp: gomap_ok_def intro!: map_idI)
  then show ?thesis by (metis mset_SortFunc mset_map)
qed

lemma mset_sortedPackages:
  assumes "gomap_ok (sv_pkgs s)"
  shows "mset (map snd (sortedPackages s)) = mset (testPackages s)"
proof -
  have "mset (sortedPackages s) = mset (filter (\<lambda>(_, ps). hasTests (ps_glp ps)) (sv_pkgs s))"
    unfolding sortedPackages_def using mset_sorted_entries [OF assms] by (metis mset_filter)
  then have "mset (map snd (sortedPackages s)) = mset (map snd (filter (\<lambda>(_, ps). hasTests (ps_glp ps)) (sv_pkgs s)))"
    by (metis mset_map)
  moreover have "map snd (filter (\<lambda>(_, ps). hasTests (ps_glp ps)) m) = filter (\<lambda>ps. hasTests (ps_glp ps)) (map snd m)"
    for m :: "(string, packageStatus) gomap"
    by (induction m) auto
  ultimately show ?thesis by (simp add: testPackages_def)
qed

lemma pageTests_status:
  "map (\<lambda>(_, _, ts). ts) (pageTests s) = concat (map (\<lambda>ps. map snd (shownTests ps)) (map snd (sortedPackages s)))"
proof -
  have one: "map (\<lambda>(_, _, ts). ts) (map (\<lambda>(name, ts). (p, name, ts)) xs) = map snd xs" for p :: string and xs :: "(string \<times> testStatus) list"
    by (induction xs) auto
  show ?thesis unfolding pageTests_def by (induction "sortedPackages s") (auto simp: one map_concat o_def case_prod_beta)
qed

lemma mset_pageTests:
  assumes "gomap_ok (sv_pkgs s)"
  shows "mset (map (\<lambda>(_, _, ts). ts) (pageTests s)) = mset (topLevelTests s)"
proof -
  have "mset (concat (map f xs)) = mset (concat (map f ys))" if "mset xs = mset ys" for f :: "packageStatus \<Rightarrow> testStatus list" and xs ys
    using that by (metis (no_types, lifting) mset_concat mset_map sum_mset_sum_list)
  from this [OF mset_sortedPackages [OF assms]] show ?thesis
    unfolding pageTests_status topLevelTests_def shownTests_def by (simp add: o_def)
qed

interpretation issue_compare: go_compare compareIssues
  by unfold_locales (auto simp: compareIssues_def cmpOf_le)

lemma compareSlow_le:
  "compareSlow a b \<le> 0 \<longleftrightarrow> sl_Duration b < sl_Duration a \<or> sl_Duration a = sl_Duration b \<and> sl_Name a \<le> sl_Name b"
  by (auto simp: compareSlow_def cmpOf_def Let_def)

interpretation slow_compare: go_compare compareSlow
  by unfold_locales (auto simp: compareSlow_le)

lemma issues_counted:
  "int (length (filter isIssue xs))
   = countIf (\<lambda>ts. ts_done ts \<and> \<not> ts_passed ts) (map (\<lambda>(_, _, ts). ts) xs)
     + countIf (\<lambda>ts. ts_done ts \<and> ts_passed ts \<and> ts_fails ts \<noteq> []) (map (\<lambda>(_, _, ts). ts) xs)"
  by (induction xs) (auto simp: isIssue_def)

lemma done_counted: "int (length (filter (\<lambda>(_, _, ts). ts_done ts) xs)) = countIf ts_done (map (\<lambda>(_, _, ts). ts) xs)"
  by (induction xs) auto

text \<open>
  The page and the progress line tell the same story, whatever order Go's maps are read in: packages linked and done and tests
  done and running are the numbers of the snapshot, with the same estimate; the done tests split
  into passed and failed and into cached and fresh ones, the linked packages into cached and fresh ones; there is one issue per failed
  or flaky test, in the order of names; and the slow tests shown are the fifty slowest, slowest first.
\<close>

theorem status_page_consistent:
  assumes ok: "gomap_ok (sv_pkgs s)"
  shows "let d = statusPage rfc fl fo now s; p = snapshot fl fo now s
    in sd_PackagesLinked d = pr_PackagesBuilt p \<and> sd_PackagesDone d = pr_PackagesDone p
       \<and> sd_TestsDone d = pr_TestsDone p \<and> sd_TestsRunning d = pr_TestsRunning p
       \<and> sd_TestETA d = formatEstimate (pr_TestETA p) \<and> sd_ETAUnknown d = pr_ETAUnknown p
       \<and> sd_TestsDone d = sd_TestsPassed d + sd_TestsFailed d \<and> sd_TestsDone d = sd_TestsCached d + sd_TestsFresh d
       \<and> sd_PackagesLinked d = sd_PackagesLinkCache d + sd_PackagesLinkFresh d
       \<and> int (length (sd_Issues d)) = sd_TestsFailed d + sd_TestsFlaky d
       \<and> sorted_wrt (\<lambda>a b. ti_Name a \<le> ti_Name b) (sd_Issues d)
       \<and> sorted_wrt (\<lambda>a b. sl_Duration b \<le> sl_Duration a) (sd_Slowest d)
       \<and> length (sd_Slowest d) = min 50 (nat (sd_TestsDone d))"
proof -
  let ?pkgs = "map snd (sortedPackages s)" and ?tests = "map (\<lambda>(_, _, ts). ts) (pageTests s)"
  obtain eta unknown available where e: "testETALocked fl fo now s = (eta, unknown, available)" by (metis prod_cases3)
  note pk = countIf_mset [OF mset_sortedPackages [OF ok]] and te = countIf_mset [OF mset_pageTests [OF ok]]
  have slowLen: "int (length (pageSlow s)) = countIf ts_done ?tests"
    using done_counted [of "pageTests s"] by (simp add: pageSlow_def)
  have names: "sorted_wrt (\<lambda>a b. ti_Name a \<le> ti_Name b) (SortFunc compareIssues (pageIssues s))"
    using issue_compare.sorted_SortFunc [of "pageIssues s"] by (simp add: compareIssues_def cmpOf_le)
  have "sorted_wrt (\<lambda>a b. compareSlow a b \<le> 0) (take 50 (SortFunc compareSlow (pageSlow s)))"
    using slow_compare.sorted_SortFunc by (rule sorted_wrt_take)
  then have slow: "sorted_wrt (\<lambda>a b. sl_Duration b \<le> sl_Duration a) (take 50 (SortFunc compareSlow (pageSlow s)))"
    by (rule sorted_wrt_mono_rel [rotated]) (auto simp: compareSlow_le)
  let ?d = "statusPage rfc fl fo now s" and ?p = "snapshot fl fo now s"
  have d: "sd_PackagesLinked ?d = countIf (\<lambda>ps. ps_exeHash ps \<noteq> []) ?pkgs"
    "sd_PackagesDone ?d = countIf (\<lambda>ps. ps_state ps = pkgStateDone) ?pkgs"
    "sd_TestsDone ?d = countIf ts_done ?tests" "sd_TestsRunning ?d = countIf ts_running ?tests"
    "sd_TestETA ?d = formatEstimate eta" "sd_ETAUnknown ?d = unknown"
    "sd_TestsPassed ?d = countIf (\<lambda>ts. ts_done ts \<and> ts_passed ts) ?tests"
    "sd_TestsFailed ?d = countIf (\<lambda>ts. ts_done ts \<and> \<not> ts_passed ts) ?tests"
    "sd_TestsCached ?d = countIf (\<lambda>ts. ts_done ts \<and> ts_cached ts) ?tests"
    "sd_TestsFresh ?d = countIf (\<lambda>ts. ts_done ts \<and> \<not> ts_cached ts) ?tests"
    "sd_TestsFlaky ?d = countIf (\<lambda>ts. ts_done ts \<and> ts_passed ts \<and> ts_fails ts \<noteq> []) ?tests"
    "sd_PackagesLinkCache ?d = countIf (\<lambda>ps. ps_exeHash ps \<noteq> [] \<and> ps_exeCached ps) ?pkgs"
    "sd_PackagesLinkFresh ?d = countIf (\<lambda>ps. ps_exeHash ps \<noteq> [] \<and> \<not> ps_exeCached ps) ?pkgs"
    "sd_Issues ?d = SortFunc compareIssues (pageIssues s)" "sd_Slowest ?d = take 50 (SortFunc compareSlow (pageSlow s))"
    by (simp_all only: statusPage_def Let_def e prod.case statusData.simps)
  have p: "pr_PackagesBuilt ?p = countIf (\<lambda>ps. ps_exeHash ps \<noteq> []) (testPackages s)"
    "pr_PackagesDone ?p = countIf (\<lambda>ps. ps_state ps = pkgStateDone) (testPackages s)"
    "pr_TestsDone ?p = countIf ts_done (topLevelTests s)" "pr_TestsRunning ?p = countIf ts_running (topLevelTests s)"
    "pr_TestETA ?p = eta" "pr_ETAUnknown ?p = unknown"
    by (simp_all only: snapshot_def e prod.case Let_def progressSnapshot.simps)
  have issues: "length (SortFunc compareIssues (pageIssues s)) = length (filter isIssue (pageTests s))"
    by (simp add: pageIssues_def)
  show ?thesis
    unfolding Let_def d p
    using pk te names slow issues issues_counted [of "pageTests s"] slowLen
      countIf_split [of ts_done ?tests ts_passed] countIf_split [of ts_done ?tests ts_cached]
      countIf_split [of "\<lambda>ps. ps_exeHash ps \<noteq> []" ?pkgs ps_exeCached]
    by (intro conjI) (simp_all only: length_take length_SortFunc flip: slowLen; simp)+
qed

theorem status_page_consistent_witness:
  "sd_TestsDone (statusPage showInt sampleFlags None 9 sampleServer) = pr_TestsDone (snapshot sampleFlags None 9 sampleServer)"
proof -
  have "gomap_ok (sv_pkgs sampleServer)" by (simp add: gomap_ok_def sampleServer_def)
  from status_page_consistent [OF this, of showInt sampleFlags None 9] show ?thesis by (simp only: Let_def simp_thms)
qed

end
