(* ===== verification/Live_Clients.thy ===== *)
theory Live_Clients
  imports Status_Page
begin

text \<open>
  The live clients of the status page together (\<open>serveLiveWS\<close>, \<open>flushFinalLiveStatus\<close> of \<open>web.go\<close>): registration in \<open>webLive\<close>, the
  client loops of \<open>Status_Page\<close> side by side, and the goroutines that hand the final page to every registered client
  before the run ends. A client is a position in \<open>hub_clients\<close>; every push of a client is one step.
\<close>

section \<open>One client\<close>

datatype clientPhase = Starting | Looping | Closed

text \<open>
  \<open>cl_phase\<close> says where \<open>run\<close> is: before its loop, in it, or returned with the channel \<open>done\<close> closed. \<open>cl_patches\<close> has what was
  written to the connection and \<open>cl_acks\<close> the acknowledgements with which final pushes ended.
\<close>

record liveClient =
  cl_phase :: clientPhase
  cl_state :: liveState
  cl_patches :: "htmlPatch list"
  cl_acks :: "64 word list"

definition newLiveClient :: liveClient where
  "newLiveClient = \<lparr>cl_phase = Starting, cl_state = newLive, cl_patches = [], cl_acks = []\<rparr>"

text \<open>The part of \<open>run\<close> before the loop, and whether the loop returns after an event.\<close>

definition firstPush :: "string + string \<Rightarrow> pushEnv \<Rightarrow> liveClient \<Rightarrow> liveClient" where
  "firstPush rendered env cl =
     (case rendered of
        Inl e \<Rightarrow> cl\<lparr>cl_phase := Looping\<rparr>
      | Inr html \<Rightarrow>
          (case push env html False (cl_state cl) of
             (err, st, ps) \<Rightarrow> cl\<lparr>cl_phase := if err = None then Looping else Closed, cl_state := st, cl_patches := cl_patches cl @ ps\<rparr>))"

definition liveEnds :: "liveEvent \<Rightarrow> liveState \<Rightarrow> bool" where
  "liveEnds ev st =
     (case ev of
        Done \<Rightarrow> True
      | Tick rendered env \<Rightarrow> (case rendered of Inl e \<Rightarrow> True | Inr html \<Rightarrow> fst (push env html False st) \<noteq> None)
      | Command html final env \<Rightarrow> final \<or> fst (push env html final st) \<noteq> None)"

definition eventAcks :: "liveEvent \<Rightarrow> 64 word list" where
  "eventAcks ev = (case ev of Command html final env \<Rightarrow> if final then pe_acks env else [] | _ \<Rightarrow> [])"

definition loopEvent :: "liveEvent \<Rightarrow> liveClient \<Rightarrow> liveClient" where
  "loopEvent ev cl =
     (case liveLoop [ev] (cl_state cl) of
        (st, ps, as) \<Rightarrow>
          cl\<lparr>cl_phase := if liveEnds ev (cl_state cl) then Closed else cl_phase cl, cl_state := st, cl_patches := cl_patches cl @ ps,
             cl_acks := cl_acks cl @ (if as = [None] then eventAcks ev else [])\<rparr>)"

section \<open>All clients and the final flush\<close>

text \<open>
  A goroutine of \<open>flushFinalLiveStatus\<close> offers the command, waits for the answer, or has returned; \<open>ff_answers\<close> has what the clients
  sent to the buffered channels \<open>done\<close>, and \<open>ff_expired\<close> says that the two seconds of its context are over.
\<close>

datatype sender = Sending | Waiting | Ended

record finalFlush =
  ff_html :: string
  ff_expired :: bool
  ff_senders :: "(nat, sender) gomap"
  ff_answers :: "nat \<rightharpoonup> string option"

record liveHub =
  hub_clients :: "liveClient list"
  hub_webLive :: "nat list"
  hub_flush :: "finalFlush option"

definition clientAt :: "nat \<Rightarrow> clientPhase \<Rightarrow> liveHub \<Rightarrow> bool" where
  "clientAt c ph h \<longleftrightarrow> c < length (hub_clients h) \<and> cl_phase (hub_clients h ! c) = ph"

definition updateClient :: "nat \<Rightarrow> (liveClient \<Rightarrow> liveClient) \<Rightarrow> liveHub \<Rightarrow> liveHub" where
  "updateClient c g h = h\<lparr>hub_clients := (hub_clients h)[c := g (hub_clients h ! c)]\<rparr>"

text \<open>\<open>serveLiveWS\<close> of any number of connections: registration, the first push, events that are no commands, and the end.\<close>

inductive ws_step :: "liveHub \<Rightarrow> liveHub \<Rightarrow> bool" where
  registered: "ws_step h (h\<lparr>hub_clients := hub_clients h @ [newLiveClient], hub_webLive := hub_webLive h @ [length (hub_clients h)]\<rparr>)"
| first_push: "clientAt c Starting h \<Longrightarrow> ws_step h (updateClient c (firstPush rendered env) h)"
| ticked: "clientAt c Looping h \<Longrightarrow> ws_step h (updateClient c (loopEvent (Tick rendered env)) h)"
| disconnected: "clientAt c Looping h \<Longrightarrow> ws_step h (updateClient c (loopEvent Done) h)"
| unregistered: "clientAt c Closed h \<Longrightarrow> ws_step h (h\<lparr>hub_webLive := removeAll c (hub_webLive h)\<rparr>)"

text \<open>\<open>rendered\<close> is the final page; without clients or without a page no goroutine starts.\<close>

definition flushFinalLiveStatus :: "nat list \<Rightarrow> string + string \<Rightarrow> finalFlush" where
  "flushFinalLiveStatus clients rendered =
     (case rendered of
        Inl e \<Rightarrow> \<lparr>ff_html = [], ff_expired = False, ff_senders = [], ff_answers = Map.empty\<rparr>
      | Inr html \<Rightarrow> \<lparr>ff_html = html, ff_expired = False, ff_senders = map (\<lambda>c. (c, Sending)) clients, ff_answers = Map.empty\<rparr>)"

definition senderAt :: "nat \<Rightarrow> sender \<Rightarrow> finalFlush \<Rightarrow> bool" where
  "senderAt c w f \<longleftrightarrow> map_of (ff_senders f) c = Some w"

definition setSender :: "nat \<Rightarrow> sender \<Rightarrow> finalFlush \<Rightarrow> finalFlush" where
  "setSender c w f = f\<lparr>ff_senders := AList.update c w (ff_senders f)\<rparr>"

inductive flush_step :: "liveHub \<Rightarrow> liveHub \<Rightarrow> bool" where
  flush_called: "hub_flush h = None \<Longrightarrow> flush_step h (h\<lparr>hub_flush := Some (flushFinalLiveStatus (hub_webLive h) rendered)\<rparr>)"
| command_taken: "hub_flush h = Some f \<Longrightarrow> senderAt c Sending f \<Longrightarrow> clientAt c Looping h \<Longrightarrow>
    liveLoop [Command (ff_html f) True env] (cl_state (hub_clients h ! c)) = (st, ps, [err]) \<Longrightarrow>
    flush_step h ((updateClient c (loopEvent (Command (ff_html f) True env)) h)
      \<lparr>hub_flush := Some ((setSender c Waiting f)\<lparr>ff_answers := (ff_answers f)(c \<mapsto> err)\<rparr>)\<rparr>)"
| answered: "hub_flush h = Some f \<Longrightarrow> senderAt c Waiting f \<Longrightarrow> ff_answers f c \<noteq> None \<Longrightarrow>
    flush_step h (h\<lparr>hub_flush := Some (setSender c Ended f)\<rparr>)"
| client_gone: "hub_flush h = Some f \<Longrightarrow> senderAt c w f \<Longrightarrow> clientAt c Closed h \<Longrightarrow>
    flush_step h (h\<lparr>hub_flush := Some (setSender c Ended f)\<rparr>)"
| deadline: "hub_flush h = Some f \<Longrightarrow> flush_step h (h\<lparr>hub_flush := Some (f\<lparr>ff_expired := True\<rparr>)\<rparr>)"
| timed_out: "hub_flush h = Some f \<Longrightarrow> ff_expired f \<Longrightarrow> senderAt c w f \<Longrightarrow>
    flush_step h (h\<lparr>hub_flush := Some (setSender c Ended f)\<rparr>)"

definition hub_step :: "liveHub \<Rightarrow> liveHub \<Rightarrow> bool" where
  "hub_step h h' \<longleftrightarrow> ws_step h h' \<or> flush_step h h'"

definition hub_start :: "liveHub \<Rightarrow> bool" where
  "hub_start h \<longleftrightarrow> h = \<lparr>hub_clients = [], hub_webLive = [], hub_flush = None\<rparr>"

section \<open>The invariant\<close>

text \<open>\<open>liveLoop\<close> takes its events one at a time.\<close>

lemma liveLoop_step:
  "liveLoop (ev # evs) st =
     (if liveEnds ev st then liveLoop [ev] st
      else (case liveLoop [ev] st of (st1, ps, as) \<Rightarrow> case liveLoop evs st1 of (st2, ps', as') \<Rightarrow> (st2, ps @ ps', as @ as')))"
  by (cases ev) (auto simp: liveEnds_def split: sum.splits prod.splits option.splits)

lemma inSync_extend:
  assumes "inSync s ps st" "lc_seq st = lc_seq s + of_nat (length ps)" "\<forall>p \<in> set ps. \<not> hp_Final p" "inSync st ps' st'"
  shows "inSync s (ps @ ps') st'"
  using assms by (auto simp: inSync_def butlast_append dest: in_set_butlastD)

text \<open>While \<open>run\<close> has not returned, every patch written is counted and none is final.\<close>

definition liveClientOK :: "liveClient \<Rightarrow> bool" where
  "liveClientOK cl \<longleftrightarrow> inSync newLive (cl_patches cl) (cl_state cl)
     \<and> (cl_phase cl \<noteq> Closed \<longrightarrow> lc_seq (cl_state cl) = of_nat (length (cl_patches cl)) \<and> (\<forall>p \<in> set (cl_patches cl). \<not> hp_Final p))"

lemma liveClientOK_newLive [simp]: "liveClientOK newLiveClient"
  by (simp add: liveClientOK_def newLiveClient_def inSync_def)

lemma liveClientOK_extend:
  assumes "liveClientOK cl" "cl_phase cl \<noteq> Closed" "inSync (cl_state cl) ps st"
    and "cl_state cl' = st" "cl_patches cl' = cl_patches cl @ ps"
    and "cl_phase cl' \<noteq> Closed \<Longrightarrow> lc_seq st = lc_seq (cl_state cl) + of_nat (length ps) \<and> (\<forall>p \<in> set ps. \<not> hp_Final p)"
  shows "liveClientOK cl'"
  using assms inSync_extend [of newLive "cl_patches cl" "cl_state cl" ps st] by (auto simp: liveClientOK_def)

lemma liveClientOK_firstPush:
  assumes "liveClientOK cl" "cl_phase cl = Starting"
  shows "liveClientOK (firstPush rendered env cl)"
proof (cases rendered)
  case (Inr html)
  obtain err st ps where p: "push env html False (cl_state cl) = (err, st, ps)" by (metis prod_cases3)
  show ?thesis
    by (rule liveClientOK_extend [OF assms(1) _ inSync_push [OF p]])
      (use assms(2) Inr p push_sync [OF p] in \<open>auto simp: firstPush_def split: if_splits\<close>)
qed (use assms in \<open>simp add: firstPush_def liveClientOK_def\<close>)

lemma liveLoop_single_open:
  assumes "liveLoop [ev] st = (st', ps, as)" "\<not> liveEnds ev st"
  shows "lc_seq st' = lc_seq st + of_nat (length ps) \<and> (\<forall>p \<in> set ps. \<not> hp_Final p)"
proof (cases ev)
  case (Tick rendered env)
  then show ?thesis using assms push_sync [of env _ False st]
    by (auto simp: liveEnds_def split: sum.splits prod.splits option.splits)
next
  case (Command html final env)
  then show ?thesis using assms push_sync [of env html final st] by (auto simp: liveEnds_def split: prod.splits if_splits)
qed (use assms in \<open>simp add: liveEnds_def\<close>)

lemma liveClientOK_loopEvent:
  assumes "liveClientOK cl" "cl_phase cl = Looping"
  shows "liveClientOK (loopEvent ev cl)"
proof -
  obtain st ps as where l: "liveLoop [ev] (cl_state cl) = (st, ps, as)" by (metis prod_cases3)
  show ?thesis
    by (rule liveClientOK_extend [OF assms(1) _ liveLoop_sync [OF l]])
      (use assms(2) l liveLoop_single_open [OF l] in \<open>auto simp: loopEvent_def split: if_splits\<close>)
qed

definition isClosed :: "liveClient list \<Rightarrow> nat \<Rightarrow> bool" where
  "isClosed cls c \<longleftrightarrow> c < length cls \<and> cl_phase (cls ! c) = Closed"

definition shownFinal :: "string \<Rightarrow> liveClient \<Rightarrow> bool" where
  "shownFinal html cl \<longleftrightarrow> browser (cl_patches cl) = runes html
     \<and> (\<exists>ps p. cl_patches cl = ps @ [p] \<and> hp_Final p \<and> hp_Seq p \<in> set (cl_acks cl))"

text \<open>A goroutine that returned in time left a client whose loop has ended; a client that answered without an error shows the final page.\<close>

definition flushOK :: "liveClient list \<Rightarrow> finalFlush \<Rightarrow> bool" where
  "flushOK cls f \<longleftrightarrow>
     (\<forall>c w. senderAt c w f \<longrightarrow> (w = Ended \<and> \<not> ff_expired f \<longrightarrow> isClosed cls c))
     \<and> (\<forall>c a. ff_answers f c = Some a \<longrightarrow> isClosed cls c \<and> (a = None \<longrightarrow> shownFinal (ff_html f) (cls ! c)))"

definition hubOK :: "liveHub \<Rightarrow> bool" where
  "hubOK h \<longleftrightarrow> (\<forall>cl \<in> set (hub_clients h). liveClientOK cl)
     \<and> (\<forall>c < length (hub_clients h). cl_phase (hub_clients h ! c) \<noteq> Closed \<longrightarrow> c \<in> set (hub_webLive h))
     \<and> (\<forall>f. hub_flush h = Some f \<longrightarrow> flushOK (hub_clients h) f)"

lemma flushOK_mono:
  assumes "flushOK cls f" and "length cls \<le> length cls'" and "\<And>c. isClosed cls c \<Longrightarrow> cls' ! c = cls ! c"
  shows "flushOK cls' f"
proof -
  have "isClosed cls' c" if "isClosed cls c" for c
    using that assms(2) assms(3) [OF that] by (simp add: isClosed_def)
  then show ?thesis using assms(1,3) by (auto simp: flushOK_def)
qed

lemma senderAt_setSender [simp]: "senderAt c' w' (setSender c w f) \<longleftrightarrow> (if c' = c then w' = w else senderAt c' w' f)"
  by (auto simp: senderAt_def setSender_def map_of_update)

lemma setSender_simps [simp]:
  "ff_html (setSender c w f) = ff_html f" "ff_expired (setSender c w f) = ff_expired f" "ff_answers (setSender c w f) = ff_answers f"
  by (simp_all add: setSender_def)

text \<open>Only the loops change their clients, and a client whose loop has returned stays as it is.\<close>

lemma hubOK_update:
  assumes "hubOK h" "clientAt c ph h" "ph \<noteq> Closed" "liveClientOK (g (hub_clients h ! c))"
  shows "hubOK (updateClient c g h)"
proof -
  let ?cls = "hub_clients h" and ?cls' = "(hub_clients h)[c := g (hub_clients h ! c)]"
  have kept: "?cls' ! d = ?cls ! d" if "isClosed ?cls d" for d
    using that assms(2,3) by (auto simp: isClosed_def clientAt_def nth_list_update)
  have "flushOK ?cls' f" if "hub_flush h = Some f" for f
    by (rule flushOK_mono [of ?cls]) (use that assms(1) kept in \<open>simp_all add: hubOK_def\<close>)
  moreover have "liveClientOK cl" if "cl \<in> set ?cls'" for cl
  proof -
    have "cl \<in> insert (g (?cls ! c)) (set ?cls)" using that set_update_subset_insert by (rule subsetD [rotated])
    then show ?thesis using assms(1,4) unfolding hubOK_def by blast
  qed
  moreover have "d \<in> set (hub_webLive h)" if "d < length ?cls" "cl_phase (?cls' ! d) \<noteq> Closed" for d
  proof (cases "d = c")
    case True
    then show ?thesis using assms(1,2,3) by (simp add: hubOK_def clientAt_def)
  next
    case False
    then show ?thesis using that assms(1) by (simp add: hubOK_def)
  qed
  ultimately show ?thesis by (simp add: hubOK_def updateClient_def)
qed

lemma hubOK_client: "hubOK h \<Longrightarrow> clientAt c ph h \<Longrightarrow> liveClientOK (hub_clients h ! c) \<and> cl_phase (hub_clients h ! c) = ph"
  by (simp add: hubOK_def clientAt_def)

lemma hubOK_ws: "ws_step h h' \<Longrightarrow> hubOK h \<Longrightarrow> hubOK h'"
proof (induction rule: ws_step.induct)
  case (registered h)
  have "flushOK (hub_clients h @ [newLiveClient]) f" if "hub_flush h = Some f" for f
    by (rule flushOK_mono [of "hub_clients h"]) (use that registered in \<open>simp_all add: hubOK_def isClosed_def nth_append\<close>)
  moreover have "d \<in> set (hub_webLive h @ [length (hub_clients h)])"
    if "d < length (hub_clients h @ [newLiveClient])" "cl_phase ((hub_clients h @ [newLiveClient]) ! d) \<noteq> Closed" for d
    using that registered by (cases "d < length (hub_clients h)") (simp_all add: hubOK_def nth_append)
  moreover have "\<forall>cl \<in> set (hub_clients h @ [newLiveClient]). liveClientOK cl" using registered by (simp add: hubOK_def)
  ultimately show ?case unfolding hubOK_def by simp
next
  case (first_push c h rendered env)
  then show ?case using hubOK_client by (intro hubOK_update) (auto intro: liveClientOK_firstPush)
next
  case (ticked c h rendered env)
  then show ?case using hubOK_client by (intro hubOK_update) (auto intro: liveClientOK_loopEvent)
next
  case (disconnected c h)
  then show ?case using hubOK_client by (intro hubOK_update) (auto intro: liveClientOK_loopEvent)
next
  case (unregistered c h)
  then show ?case by (auto simp: hubOK_def clientAt_def)
qed

text \<open>A client that takes the final command ends, and shows the page when it answers without an error.\<close>

lemma loopEvent_final:
  assumes "liveClientOK cl" "cl_phase cl = Looping" "liveLoop [Command html True env] (cl_state cl) = (st, ps, [err])"
  shows "cl_phase (loopEvent (Command html True env) cl) = Closed
    \<and> (err = None \<longrightarrow> shownFinal html (loopEvent (Command html True env) cl))"
proof -
  have p: "push env html True (cl_state cl) = (err, st, ps)" using assms(3) by (auto split: prod.splits)
  have "shownFinal html (loopEvent (Command html True env) cl)" if none: "err = None"
  proof -
    obtain q where q: "ps = [q]" "hp_Final q" "hp_Seq q \<in> set (pe_acks env)" using push_sync [OF p] none by blast
    have "browser (cl_patches cl @ [q]) = runes html"
      using push_sync [OF p] assms(1) that q(1) by (auto simp: liveClientOK_def inSync_def browser_def)
    then show ?thesis using q assms(3) that by (auto simp: shownFinal_def loopEvent_def eventAcks_def)
  qed
  then show ?thesis using assms(3) by (auto simp: loopEvent_def liveEnds_def)
qed

lemma hubOK_setFlush:
  assumes "hubOK h" "flushOK (hub_clients h) f"
  shows "hubOK (h\<lparr>hub_flush := Some f\<rparr>)"
  using assms by (simp add: hubOK_def)

lemma hubOK_flush: "flush_step h h' \<Longrightarrow> hubOK h \<Longrightarrow> hubOK h'"
proof (induction rule: flush_step.induct)
  case (flush_called h rendered)
  have "flushOK (hub_clients h) (flushFinalLiveStatus (hub_webLive h) rendered)"
    by (auto simp: flushOK_def flushFinalLiveStatus_def senderAt_def split: sum.splits dest!: map_of_SomeD)
  then show ?case using flush_called by (intro hubOK_setFlush)
next
  case (command_taken h f c env st ps err)
  let ?g = "loopEvent (Command (ff_html f) True env)"
  let ?h = "updateClient c ?g h"
  note client = hubOK_client [OF command_taken.prems command_taken.hyps(3)]
  have ok: "hubOK ?h"
    by (rule hubOK_update [OF command_taken.prems command_taken.hyps(3)]) (use client in \<open>auto intro: liveClientOK_loopEvent\<close>)
  then have f: "flushOK (hub_clients ?h) f" using command_taken.hyps(1) by (simp add: hubOK_def updateClient_def)
  have c: "hub_clients ?h ! c = ?g (hub_clients h ! c)" "c < length (hub_clients ?h)"
    using command_taken.hyps(3) by (simp_all add: updateClient_def clientAt_def)
  have "isClosed (hub_clients ?h) c" "err = None \<longrightarrow> shownFinal (ff_html f) (hub_clients ?h ! c)"
    using loopEvent_final [OF _ _ command_taken.hyps(4)] client c by (auto simp: isClosed_def)
  then have "flushOK (hub_clients ?h) ((setSender c Waiting f)\<lparr>ff_answers := (ff_answers f)(c \<mapsto> err)\<rparr>)"
    using f by (auto simp: flushOK_def senderAt_def setSender_def map_of_update)
  then show ?case by (rule hubOK_setFlush [OF ok])
next
  case (answered h f c)
  then have "flushOK (hub_clients h) (setSender c Ended f)" by (auto simp: hubOK_def flushOK_def)
  then show ?case using answered by (intro hubOK_setFlush)
next
  case (client_gone h f c w)
  then have "flushOK (hub_clients h) (setSender c Ended f)" by (auto simp: hubOK_def flushOK_def clientAt_def isClosed_def)
  then show ?case using client_gone by (intro hubOK_setFlush)
next
  case (deadline h f)
  then have "flushOK (hub_clients h) (f\<lparr>ff_expired := True\<rparr>)" by (auto simp: hubOK_def flushOK_def)
  then show ?case using deadline by (intro hubOK_setFlush)
next
  case (timed_out h f c w)
  then have "flushOK (hub_clients h) (setSender c Ended f)" by (auto simp: hubOK_def flushOK_def)
  then show ?case using timed_out by (intro hubOK_setFlush)
qed

interpretation live_hub: invariant_system hub_start hub_step hubOK
proof unfold_locales
  show "hubOK h" if "hub_start h" for h using that by (simp add: hub_start_def hubOK_def)
  show "hubOK h'" if "hubOK h" "hub_step h h'" for h h' using that by (auto simp: hub_step_def intro: hubOK_ws hubOK_flush)
qed

section \<open>The final flush returns\<close>

text \<open>The goroutines the wait group still waits for.\<close>

definition unreturned :: "finalFlush \<Rightarrow> nat list" where
  "unreturned f = filter (\<lambda>c. \<not> senderAt c Ended f) (gokeys (ff_senders f))"

lemma unreturned_set: "c \<in> set (unreturned f) \<longleftrightarrow> (\<exists>w. senderAt c w f \<and> w \<noteq> Ended)"
proof -
  have "c \<in> set (gokeys (ff_senders f)) \<longleftrightarrow> (\<exists>w. senderAt c w f)"
    by (simp add: senderAt_def) (metis domD domI dom_map_of_conv_image_fst)
  then show ?thesis unfolding unreturned_def by (auto simp: senderAt_def)
qed

lemma unreturned_setSender:
  assumes "senderAt c w f"
  shows "set (unreturned (setSender c Ended f)) = set (unreturned f) - {c}"
  by (auto simp: unreturned_set split: if_splits)

lemma flush_can_return:
  assumes "hub_flush h = Some f" "ff_expired f"
  shows "\<exists>h' f'. flush_step\<^sup>*\<^sup>* h h' \<and> hub_flush h' = Some f' \<and> unreturned f' = []
    \<and> hub_clients h' = hub_clients h \<and> ff_answers f' = ff_answers f"
  using assms
proof (induction "card (set (unreturned f))" arbitrary: h f rule: less_induct)
  case less
  show ?case
  proof (cases "unreturned f")
    case Nil
    then show ?thesis using less.prems by blast
  next
    case (Cons c cs)
    then have c: "c \<in> set (unreturned f)" by simp
    then obtain w where w: "senderAt c w f" by (auto simp: unreturned_set)
    let ?f = "setSender c Ended f" and ?h = "h\<lparr>hub_flush := Some (setSender c Ended f)\<rparr>"
    have step: "flush_step h ?h" by (rule timed_out [OF less.prems w])
    have "card (set (unreturned ?f)) < card (set (unreturned f))"
      unfolding unreturned_setSender [OF w] using c by (intro card_Diff1_less) auto
    from less.hyps [OF this, of ?h] less.prems(2) obtain h' f' where
      "flush_step\<^sup>*\<^sup>* ?h h'" "hub_flush h' = Some f'" "unreturned f' = []" "hub_clients h' = hub_clients h" "ff_answers f' = ff_answers f"
      by auto
    then show ?thesis using step by (blast intro: converse_rtranclp_into_rtranclp)
  qed
qed

text \<open>
  C37. The final page reaches the browsers. However connections, ticks, disconnections and the flush interleave, each browser's
  copy equals the last page its client pushed, with patches numbered from one and none final but the last. A client whose loop
  has not returned is registered, so a flush called now starts a goroutine for it. A goroutine of the flush that returned before the two seconds
  were over leaves a client whose loop has ended; a client that answered its command without an error has pushed the final page as its
  last patch, and its browser has acknowledged that patch. Once the two seconds are over the flush returns without the help of any client.
\<close>

theorem final_page_reaches_browsers:
  assumes "reach hub_start hub_step h"
  shows "(\<forall>cl \<in> set (hub_clients h). browser (cl_patches cl) = runes (lc_lastHTML (cl_state cl))
           \<and> numbered 0 (cl_patches cl) \<and> (\<forall>p \<in> set (butlast (cl_patches cl)). \<not> hp_Final p))
    \<and> (\<forall>c ph html. clientAt c ph h \<and> ph \<noteq> Closed \<longrightarrow> senderAt c Sending (flushFinalLiveStatus (hub_webLive h) (Inr html)))
    \<and> (\<forall>f. hub_flush h = Some f \<longrightarrow>
         (\<forall>c. senderAt c Ended f \<and> \<not> ff_expired f \<longrightarrow> clientAt c Closed h)
         \<and> (\<forall>c. ff_answers f c = Some None \<longrightarrow> shownFinal (ff_html f) (hub_clients h ! c))
         \<and> (ff_expired f \<longrightarrow> (\<exists>h' f'. flush_step\<^sup>*\<^sup>* h h' \<and> hub_flush h' = Some f' \<and> unreturned f' = [] \<and> hub_clients h' = hub_clients h)))"
proof -
  have ok: "hubOK h" using live_hub.reach_inv [OF assms] .
  have "browser (cl_patches cl) = runes (lc_lastHTML (cl_state cl)) \<and> numbered 0 (cl_patches cl)
      \<and> (\<forall>p \<in> set (butlast (cl_patches cl)). \<not> hp_Final p)" if "cl \<in> set (hub_clients h)" for cl
    using that ok by (simp add: hubOK_def liveClientOK_def inSync_def browser_def)
  moreover have "senderAt c Sending (flushFinalLiveStatus (hub_webLive h) (Inr html))" if "clientAt c ph h" "ph \<noteq> Closed" for c ph html
    using that ok by (simp add: hubOK_def clientAt_def flushFinalLiveStatus_def senderAt_def map_of_map_restrict)
  moreover have "clientAt c Closed h" if "hub_flush h = Some f" "senderAt c Ended f" "\<not> ff_expired f" for c f
    using that ok by (simp add: hubOK_def flushOK_def isClosed_def clientAt_def)
  moreover have "shownFinal (ff_html f) (hub_clients h ! c)" if "hub_flush h = Some f" "ff_answers f c = Some None" for c f
    using that ok by (simp add: hubOK_def flushOK_def)
  moreover have "\<exists>h' f'. flush_step\<^sup>*\<^sup>* h h' \<and> hub_flush h' = Some f' \<and> unreturned f' = [] \<and> hub_clients h' = hub_clients h"
    if "hub_flush h = Some f" "ff_expired f" for f
    using flush_can_return [OF that] by blast
  ultimately show ?thesis by blast
qed

text \<open>One browser connects, gets the first page, and then the final one, which it acknowledges.\<close>

definition flushedHub :: liveHub where
  "flushedHub =
     (let cl = loopEvent (Command ''acb'' True (quietEnv [2])) (firstPush (Inr ''ab'') (quietEnv []) newLiveClient)
      in \<lparr>hub_clients = [cl], hub_webLive = [0],
          hub_flush = Some \<lparr>ff_html = ''acb'', ff_expired = False, ff_senders = [(0, Waiting)], ff_answers = [0 \<mapsto> None]\<rparr>\<rparr>)"

lemma hub_reach_step: "reach hub_start hub_step h \<Longrightarrow> hub_step h h' \<Longrightarrow> reach hub_start hub_step h'"
  by (rule reach_step)

lemma flushedHub_reachable: "reach hub_start hub_step flushedHub"
proof -
  let ?h0 = "\<lparr>hub_clients = [], hub_webLive = [], hub_flush = None\<rparr>"
  let ?h1 = "?h0\<lparr>hub_clients := hub_clients ?h0 @ [newLiveClient], hub_webLive := hub_webLive ?h0 @ [length (hub_clients ?h0)]\<rparr>"
  let ?h2 = "updateClient 0 (firstPush (Inr ''ab'') (quietEnv [])) ?h1"
  let ?f = "flushFinalLiveStatus (hub_webLive ?h2) (Inr ''acb'')"
  let ?h3 = "?h2\<lparr>hub_flush := Some ?f\<rparr>"
  let ?h4 = "(updateClient 0 (loopEvent (Command (ff_html ?f) True (quietEnv [2]))) ?h3)
      \<lparr>hub_flush := Some ((setSender 0 Waiting ?f)\<lparr>ff_answers := (ff_answers ?f)(0 \<mapsto> None)\<rparr>)\<rparr>"
  have 1: "hub_step ?h0 ?h1" unfolding hub_step_def using registered by blast
  have "clientAt 0 Starting ?h1" by (simp add: clientAt_def newLiveClient_def)
  then have 2: "hub_step ?h1 ?h2" unfolding hub_step_def using first_push by blast
  have 3: "hub_step ?h2 ?h3" unfolding hub_step_def by (rule disjI2, rule flush_called) (simp add: updateClient_def)
  have looping: "clientAt 0 Looping ?h3"
    by (simp add: clientAt_def updateClient_def firstPush_def push_def newLiveClient_def quietEnv_def Let_def)
  obtain st ps as where l: "liveLoop [Command (ff_html ?f) True (quietEnv [2])] (cl_state (hub_clients ?h3 ! 0)) = (st, ps, as)"
    by (metis prod_cases3)
  then have "as = [None]"
    by (auto simp: updateClient_def firstPush_def push_def newLiveClient_def newLive_def quietEnv_def flushFinalLiveStatus_def Let_def)
  with l have "liveLoop [Command (ff_html ?f) True (quietEnv [2])] (cl_state (hub_clients ?h3 ! 0)) = (st, ps, [None])" by simp
  then have 4: "hub_step ?h3 ?h4" unfolding hub_step_def
    by (intro disjI2 command_taken) (use looping in \<open>simp_all add: senderAt_def flushFinalLiveStatus_def updateClient_def\<close>)
  have eq: "?h4 = flushedHub" by (simp add: flushedHub_def updateClient_def flushFinalLiveStatus_def setSender_def Let_def)
  have 0: "reach hub_start hub_step ?h0" by (rule reach_start) (simp add: hub_start_def)
  have "reach hub_start hub_step ?h4"
    by (rule hub_reach_step [OF hub_reach_step [OF hub_reach_step [OF hub_reach_step [OF 0 1] 2] 3] 4])
  then show ?thesis unfolding eq .
qed

theorem final_page_reaches_browsers_witness:
  "reach hub_start hub_step flushedHub \<and> shownFinal ''acb'' (hub_clients flushedHub ! 0)"
proof -
  have "hub_flush flushedHub = Some \<lparr>ff_html = ''acb'', ff_expired = False, ff_senders = [(0, Waiting)], ff_answers = [0 \<mapsto> None]\<rparr>"
    by (simp add: flushedHub_def Let_def)
  then have "shownFinal ''acb'' (hub_clients flushedHub ! 0)"
    using final_page_reaches_browsers [OF flushedHub_reachable] by fastforce
  then show ?thesis using flushedHub_reachable by blast
qed

end
