(* ===== verification/History_Service.thy ===== *)
theory History_Service
  imports History
begin

text \<open>
  \<open>cmd/testhistoryd\<close>: the service that keeps test history in PostgreSQL. The store of \<open>store.go\<close> works on a \<open>database\<close>, the two
  tables of \<open>schema.sql\<close> as maps from their primary keys; each SQL statement of the code is one definition over
  them. \<open>pgServer\<close> holds what PostgreSQL decides: how it keeps a time, how it collates text, the errors of its calls and
  whether a commit that reported an error took effect. The HTTP handlers of \<open>server.go\<close> work on
  any store; JSON decoding and the answers of \<open>http.ServeMux\<close> to unknown requests are arguments.
\<close>

section \<open>Tables and statements\<close>

record keyRow =
  kr_Key :: histKey
  kr_last_observed_at :: time

record obsRow =
  or_observation_id :: string
  or_key_hash :: string
  or_observed_at :: time
  or_outcome :: Outcome
  or_duration_ns :: int
  or_attempts :: int
  or_peak_rss_bytes :: "int option"
  or_dependencies :: "Dependency list option"

record database =
  test_history_key :: "(string \<times> string, keyRow) gomap"
  test_history_observation :: "(string \<times> string, obsRow) gomap"

record pgServer =
  timestamptz :: "time \<Rightarrow> time"
  collate :: "string \<Rightarrow> string \<Rightarrow> int"
  callErr :: "nat \<Rightarrow> string option"
  commitErr :: "(string \<times> bool) option"

text \<open>The key row and the observation row of the two \<open>INSERT\<close> statements of \<open>Record\<close>.\<close>

definition upsertKey :: "pgServer \<Rightarrow> string \<Rightarrow> string \<Rightarrow> Observation \<Rightarrow> database \<Rightarrow> database" where
  "upsertKey pg scope keyHash obs db =
     db\<lparr>test_history_key :=
       AList.update (scope, keyHash)
         (case map_of (test_history_key db) (scope, keyHash) of
            None \<Rightarrow> \<lparr>kr_Key = obs_Key obs, kr_last_observed_at = timestamptz pg (obs_At obs)\<rparr>
          | Some row \<Rightarrow> row\<lparr>kr_last_observed_at := max (kr_last_observed_at row) (timestamptz pg (obs_At obs))\<rparr>)
         (test_history_key db)\<rparr>"

definition newRow :: "pgServer \<Rightarrow> string \<Rightarrow> Observation \<Rightarrow> obsRow" where
  "newRow pg keyHash obs =
     \<lparr>or_observation_id = obs_ID obs, or_key_hash = keyHash, or_observed_at = timestamptz pg (obs_At obs),
      or_outcome = obs_Outcome obs, or_duration_ns = obs_Duration obs, or_attempts = obs_Attempts obs,
      or_peak_rss_bytes = (if obs_PeakRSS obs = 0 then None else Some (obs_PeakRSS obs)),
      or_dependencies = obs_Dependencies obs\<rparr>"

definition insertObservation :: "pgServer \<Rightarrow> string \<Rightarrow> string \<Rightarrow> Observation \<Rightarrow> database \<Rightarrow> string \<times> database" where
  "insertObservation pg scope keyHash obs db =
     (case map_of (test_history_observation db) (scope, obs_ID obs) of
        Some row \<Rightarrow> (or_key_hash row, db)
      | None \<Rightarrow>
          (keyHash, db\<lparr>test_history_observation :=
             AList.update (scope, obs_ID obs) (newRow pg keyHash obs) (test_history_observation db)\<rparr>))"

text \<open>The lateral subquery of \<open>Lookup\<close>: the newest rows of one requested key.\<close>

definition compareRows :: "pgServer \<Rightarrow> obsRow \<Rightarrow> obsRow \<Rightarrow> int" where
  "compareRows pg a b =
     (if cmpOf (or_observed_at b) (or_observed_at a) \<noteq> 0 then cmpOf (or_observed_at b) (or_observed_at a)
      else collate pg (or_observation_id a) (or_observation_id b))"

definition scopeRows :: "string \<Rightarrow> database \<Rightarrow> obsRow list" where
  "scopeRows scope db = map snd (filter (\<lambda>((sc, _), _). sc = scope) (test_history_observation db))"

definition newestRows :: "pgServer \<Rightarrow> string \<Rightarrow> nat \<Rightarrow> database \<Rightarrow> string \<Rightarrow> obsRow list" where
  "newestRows pg scope limit db keyHash =
     take limit (SortFunc (compareRows pg) (filter (\<lambda>row. or_key_hash row = keyHash) (scopeRows scope db)))"

section \<open>The store\<close>

text \<open>\<open>parseUUID\<close>; \<open>copy\<close> fills the array from the left.\<close>

definition parseUUID :: "string \<Rightarrow> string + string" where
  "parseUUID v =
     (if length v \<noteq> 36 \<or> v ! 8 \<noteq> CHR ''-'' \<or> v ! 13 \<noteq> CHR ''-'' \<or> v ! 18 \<noteq> CHR ''-'' \<or> v ! 23 \<noteq> CHR ''-''
      then Inl ''want UUID''
      else (case hexDecode (filter (\<lambda>c. c \<noteq> CHR ''-'') v) of
              None \<Rightarrow> Inl ''want UUID''
            | Some b \<Rightarrow> Inr (take 16 (b @ replicate 16 (CHR 0x00)))))"

definition validateObservation :: "Observation \<Rightarrow> string option" where
  "validateObservation obs =
     (if obs_ID obs = [] \<or> length (obs_ID obs) > 256 then Some ''observation ID must contain 1 to 256 bytes''
      else if hk_Package (obs_Key obs) = [] \<or> hk_Test (obs_Key obs) = [] \<or> hk_GOOS (obs_Key obs) = [] \<or> hk_GOARCH (obs_Key obs) = []
        then Some ''observation key fields must not be empty''
      else if obs_At obs = 0 then Some ''observed_at must not be zero''
      else if obs_Duration obs < 0 \<or> obs_Attempts obs < 1 \<or> obs_PeakRSS obs < 0
        then Some ''duration and peak RSS must be non-negative and attempts must be positive''
      else (case obs_Outcome obs of
              OtherOutcome o' \<Rightarrow> Some (''invalid outcome '' @ Quote o')
            | _ \<Rightarrow> None))"

text \<open>
  The loop of \<open>Record\<close> inside the transaction. The calls of an operation are numbered: call 0 begins the
  transaction, and observation \<open>i\<close> makes the calls \<open>2 * i + 1\<close> and \<open>2 * i + 2\<close>.
\<close>

fun pgRecordLoop :: "hashing \<Rightarrow> pgServer \<Rightarrow> string \<Rightarrow> nat \<Rightarrow> Observation list \<Rightarrow> database \<Rightarrow> string + database" where
  "pgRecordLoop h pg scope i [] db = Inr db"
| "pgRecordLoop h pg scope i (obs # rest) db =
     (case validateObservation obs of
        Some e \<Rightarrow> Inl e
      | None \<Rightarrow>
          let keyHash = (case hexDecode (histID h (obs_Key obs)) of Some b \<Rightarrow> b | None \<Rightarrow> [])
          in (case callErr pg (2 * i + 1) of
                Some e \<Rightarrow> Inl (''upserting history key: '' @ e)
              | None \<Rightarrow>
                  (case callErr pg (2 * i + 2) of
                     Some e \<Rightarrow> Inl (''inserting observation '' @ Quote (obs_ID obs) @ '': '' @ e)
                   | None \<Rightarrow>
                       let (existingHash, db') = insertObservation pg scope keyHash obs (upsertKey pg scope keyHash obs db)
                       in if existingHash \<noteq> keyHash
                          then Inl (''observation ID '' @ Quote (obs_ID obs) @ '' is already associated with another key'')
                          else pgRecordLoop h pg scope (Suc i) rest db')))"

definition pgRecord :: "hashing \<Rightarrow> pgServer \<Rightarrow> string \<Rightarrow> database \<Rightarrow> Observation list \<Rightarrow> string option \<times> database" where
  "pgRecord h pg scope db observations =
     (if observations = [] then (None, db)
      else (case callErr pg 0 of
              Some e \<Rightarrow> (Some (''beginning history transaction: '' @ e), db)
            | None \<Rightarrow>
                (case pgRecordLoop h pg scope 0 observations db of
                   Inl e \<Rightarrow> (Some e, db)
                 | Inr db' \<Rightarrow>
                     (case commitErr pg of
                        Some (e, committed) \<Rightarrow> (Some (''committing history: '' @ e), if committed then db' else db)
                      | None \<Rightarrow> (None, db')))))"

text \<open>The first loop of \<open>Lookup\<close>: the first requested key of every hash, and the hashes in order.\<close>

fun requestedKeys :: "hashing \<Rightarrow> histKey list \<Rightarrow> (string, histKey) gomap \<Rightarrow> string list
    \<Rightarrow> string + (string, histKey) gomap \<times> string list" where
  "requestedKeys h [] keyByHash hashes = Inr (keyByHash, hashes)"
| "requestedKeys h (key # keys) keyByHash hashes =
     (case hexDecode (histID h key) of
        None \<Rightarrow> Inl ''encoding/hex: invalid byte''
      | Some b \<Rightarrow>
          if map_of keyByHash (hexEncode b) \<noteq> None then requestedKeys h keys keyByHash hashes
          else requestedKeys h keys (keyByHash @ [(hexEncode b, key)]) (hashes @ [b]))"

definition scanRow :: "histKey \<Rightarrow> obsRow \<Rightarrow> Observation" where
  "scanRow key row =
     \<lparr>obs_ID = or_observation_id row, obs_Key = key, obs_At = or_observed_at row, obs_Outcome = or_outcome row,
      obs_Duration = or_duration_ns row, obs_Attempts = or_attempts row,
      obs_PeakRSS = (case or_peak_rss_bytes row of Some n \<Rightarrow> n | None \<Rightarrow> 0), obs_Dependencies = or_dependencies row\<rparr>"

fun scanRows :: "hashing \<Rightarrow> (string, histKey) gomap \<Rightarrow> obsRow list \<Rightarrow> (string, History) gomap
    \<Rightarrow> string + (string, History) gomap" where
  "scanRows h keyByHash [] ret = Inr ret"
| "scanRows h keyByHash (row # rows) ret =
     (case map_of keyByHash (hexEncode (or_key_hash row)) of
        None \<Rightarrow> Inl ''database returned an unrequested history key''
      | Some key \<Rightarrow>
          let i = histID h key;
              hist = (case map_of ret i of Some hist \<Rightarrow> hist
                      | None \<Rightarrow> \<lparr>hist_Version = historyVersion, hist_Key = key, hist_Observations = []\<rparr>)
          in scanRows h keyByHash rows
               (AList.update i (hist\<lparr>hist_Observations := hist_Observations hist @ [scanRow key row]\<rparr>) ret))"

definition pgLimit :: "int \<Rightarrow> nat" where
  "pgLimit recent = (let limit = (if recent \<le> 0 then 32 else recent) in nat (if limit > 256 then 256 else limit))"

definition pgLookup :: "hashing \<Rightarrow> pgServer \<Rightarrow> string \<Rightarrow> database \<Rightarrow> histKey list \<Rightarrow> int \<Rightarrow> string + (string, History) gomap" where
  "pgLookup h pg scope db keys recent =
     (if keys = [] then Inr []
      else (case requestedKeys h keys [] [] of
              Inl e \<Rightarrow> Inl e
            | Inr (keyByHash, hashes) \<Rightarrow>
                (case callErr pg 0 of
                   Some e \<Rightarrow> Inl (''looking up history: '' @ e)
                 | None \<Rightarrow>
                     (case scanRows h keyByHash (concat (map (newestRows pg scope (pgLimit recent) db) hashes)) [] of
                        Inl e \<Rightarrow> Inl e
                      | Inr ret \<Rightarrow> (case callErr pg 1 of Some e \<Rightarrow> Inl (''reading history: '' @ e) | None \<Rightarrow> Inr ret)))))"

definition schemaVersion :: int where "schemaVersion = 1"

text \<open>
  \<open>newPostgresStore\<close>, whose results are an error or the scope of the store; \<open>major\<close> and \<open>version\<close> are what the two
  queries return and \<open>schemaErr\<close> is the error of the schema script.
\<close>

definition newPostgresStore :: "bool \<Rightarrow> (string + int) \<Rightarrow> string option \<Rightarrow> (string + int) \<Rightarrow> string \<Rightarrow> string + string" where
  "newPostgresStore nilPool major schemaErr version scope =
     (if nilPool then Inl ''nil PostgreSQL pool''
      else (case parseUUID scope of
              Inl e \<Rightarrow> Inl (''invalid scope ID: '' @ e)
            | Inr _ \<Rightarrow>
                (case major of
                   Inl e \<Rightarrow> Inl (''checking PostgreSQL version: '' @ e)
                 | Inr n \<Rightarrow>
                     if n \<noteq> 17 then Inl (''PostgreSQL major version is '' @ showInt n @ ''; testhistoryd requires 17'')
                     else (case schemaErr of
                             Some e \<Rightarrow> Inl (''applying history schema: '' @ e)
                           | None \<Rightarrow>
                               (case version of
                                  Inl e \<Rightarrow> Inl (''reading history schema version: '' @ e)
                                | Inr v \<Rightarrow>
                                    if v \<noteq> schemaVersion
                                    then Inl (''database schema version is '' @ showInt v @ ''; testhistoryd supports '' @ showInt schemaVersion)
                                    else Inr scope)))))"

section \<open>The HTTP handlers\<close>

record httpRequest =
  rq_Method :: string
  rq_Path :: string
  rq_Authorization :: string
  rq_Body :: string

datatype payload = PlainText string | ErrorJSON string | LookupJSON LookupResponse | NoPayload

record httpReply =
  re_Status :: int
  re_Payload :: payload

definition maxRequestBytes :: nat where "maxRequestBytes = 16777216"

text \<open>
  \<open>decodeRequest\<close>. The reader holds the bytes up to the limit and whether the body goes on after it. \<open>dec\<close>
  decodes the first value and returns what is left of the reader; \<open>trailing\<close> is the second call of the decoder,
  \<open>None\<close> when it finds another value.
\<close>

type_synonym bodyReader = "string \<times> bool"

definition maxBytesReader :: "string \<Rightarrow> bodyReader" where
  "maxBytesReader body = (take maxRequestBytes body, length body > maxRequestBytes)"

definition decodeRequest :: "(bodyReader \<Rightarrow> string + 'req \<times> bodyReader) \<Rightarrow> (bodyReader \<Rightarrow> string option) \<Rightarrow> string \<Rightarrow> string + 'req" where
  "decodeRequest dec trailing body =
     (case dec (maxBytesReader body) of
        Inl e \<Rightarrow> Inl (''invalid JSON request: '' @ e)
      | Inr (req, rest) \<Rightarrow>
          (case trailing rest of
             None \<Rightarrow> Inl ''request contains multiple JSON values''
           | Some e \<Rightarrow> if e = ''EOF'' then Inr req else Inl (''invalid trailing JSON: '' @ e)))"

definition apiError :: "int \<Rightarrow> string \<Rightarrow> httpReply" where
  "apiError status e = \<lparr>re_Status = status, re_Payload = ErrorJSON e\<rparr>"

definition unsupportedVersion :: "int \<Rightarrow> string" where
  "unsupportedVersion v = ''unsupported protocol version '' @ showInt v"

definition internalError :: httpReply where
  "internalError = apiError 500 ''internal server error''"

text \<open>The handlers, over the lookup and record operations of a store.\<close>

definition serveLookup :: "hashing \<Rightarrow> (histKey list \<Rightarrow> int \<Rightarrow> string + (string, History) gomap) \<Rightarrow> string + LookupRequest \<Rightarrow> httpReply" where
  "serveLookup h lookup decoded =
     (case decoded of
        Inl e \<Rightarrow> apiError 400 e
      | Inr req \<Rightarrow>
          if lq_Version req \<noteq> historyVersion then apiError 400 (unsupportedVersion (lq_Version req))
          else if length (lq_Keys req) > 10000 then apiError 400 ''too many lookup keys; maximum is 10000''
          else if lq_RecentPerKey req < 0 \<or> lq_RecentPerKey req > 256 then apiError 400 ''limit must be between 0 and 256''
          else (case lookup (lq_Keys req) (lq_RecentPerKey req) of
                  Inl e \<Rightarrow> internalError
                | Inr histories \<Rightarrow>
                    \<lparr>re_Status = 200, re_Payload = LookupJSON \<lparr>lr_Version = historyVersion,
                       lr_Histories = filter (\<lambda>x. x \<noteq> None) (map (\<lambda>key. map_of histories (histID h key)) (lq_Keys req))\<rparr>\<rparr>))"

text \<open>The first invalid observation with its position.\<close>

fun firstInvalid :: "nat \<Rightarrow> Observation list \<Rightarrow> string option" where
  "firstInvalid i [] = None"
| "firstInvalid i (obs # rest) =
     (case validateObservation obs of
        Some e \<Rightarrow> Some (''observation '' @ showNat i @ '': '' @ e)
      | None \<Rightarrow> firstInvalid (Suc i) rest)"

definition serveRecord :: "('s \<Rightarrow> Observation list \<Rightarrow> string option \<times> 's) \<Rightarrow> string + RecordRequest \<Rightarrow> 's \<Rightarrow> httpReply \<times> 's" where
  "serveRecord rec decoded s =
     (case decoded of
        Inl e \<Rightarrow> (apiError 400 e, s)
      | Inr req \<Rightarrow>
          if rr_Version req \<noteq> historyVersion then (apiError 400 (unsupportedVersion (rr_Version req)), s)
          else if length (rr_Observations req) > 10000 then (apiError 400 ''too many observations; maximum is 10000'', s)
          else (case firstInvalid 0 (rr_Observations req) of
                  Some e \<Rightarrow> (apiError 400 e, s)
                | None \<Rightarrow>
                    (case rec s (rr_Observations req) of
                       (Some e, s') \<Rightarrow> (internalError, s')
                     | (None, s') \<Rightarrow> (\<lparr>re_Status = 204, re_Payload = NoPayload\<rparr>, s'))))"

definition LookupPath :: string where "LookupPath = ''/v1/history/lookup''"
definition RecordPath :: string where "RecordPath = ''/v1/history/record''"

text \<open>
  What the handler is made of besides its store: the token, the decoders of \<open>decodeRequest\<close> for the two request types, and the
  answer of the mux to a request that no pattern matches.
\<close>

record apiServer =
  as_token :: string
  as_decodeLookup :: "bodyReader \<Rightarrow> string + LookupRequest \<times> bodyReader"
  as_decodeRecord :: "bodyReader \<Rightarrow> string + RecordRequest \<times> bodyReader"
  as_decodeMore :: "bodyReader \<Rightarrow> string option"
  as_unmatched :: "httpRequest \<Rightarrow> httpReply"

definition muxHandler :: "hashing \<Rightarrow> ('s \<Rightarrow> histKey list \<Rightarrow> int \<Rightarrow> string + (string, History) gomap)
    \<Rightarrow> ('s \<Rightarrow> Observation list \<Rightarrow> string option \<times> 's) \<Rightarrow> apiServer \<Rightarrow> httpRequest \<Rightarrow> 's \<Rightarrow> httpReply \<times> 's" where
  "muxHandler h lookup rec api r s =
     (if rq_Path r = ''/healthz'' \<and> (rq_Method r = ''GET'' \<or> rq_Method r = ''HEAD'')
        then (\<lparr>re_Status = 200, re_Payload = PlainText (''ok'' @ [nl])\<rparr>, s)
      else if rq_Path r = LookupPath \<and> rq_Method r = ''POST''
        then (serveLookup h (lookup s) (decodeRequest (as_decodeLookup api) (as_decodeMore api) (rq_Body r)), s)
      else if rq_Path r = RecordPath \<and> rq_Method r = ''POST''
        then serveRecord rec (decodeRequest (as_decodeRecord api) (as_decodeMore api) (rq_Body r)) s
      else (as_unmatched api r, s))"

definition authorized :: "string \<Rightarrow> httpRequest \<Rightarrow> bool" where
  "authorized token r \<longleftrightarrow> CutPrefix (rq_Authorization r) ''Bearer '' = Some token"

definition handler :: "hashing \<Rightarrow> ('s \<Rightarrow> histKey list \<Rightarrow> int \<Rightarrow> string + (string, History) gomap)
    \<Rightarrow> ('s \<Rightarrow> Observation list \<Rightarrow> string option \<times> 's) \<Rightarrow> apiServer \<Rightarrow> httpRequest \<Rightarrow> 's \<Rightarrow> httpReply \<times> 's" where
  "handler h lookup rec api r s =
     (if as_token api = [] \<or> rq_Path r = ''/healthz'' \<or> authorized (as_token api) r
      then muxHandler h lookup rec api r s
      else (\<lparr>re_Status = 401, re_Payload = PlainText (''unauthorized'' @ [nl])\<rparr>, s))"

section \<open>The command\<close>

definition envOr :: "(string \<Rightarrow> string) \<Rightarrow> string \<Rightarrow> string \<Rightarrow> string" where
  "envOr getenv name fallback = (if getenv name \<noteq> [] then getenv name else fallback)"

text \<open>The checks of \<open>main\<close> on its flags: the message and the exit status.\<close>

definition checkServiceFlags :: "string \<Rightarrow> string \<Rightarrow> int \<Rightarrow> (string \<times> int) option" where
  "checkServiceFlags postgresDSN scope maxConns =
     (if postgresDSN = [] then Some (''missing -postgres-dsn or TESTHISTORYD_POSTGRES_DSN'', 2)
      else if scope = [] then Some (''missing -scope-id or TESTHISTORYD_SCOPE_ID'', 2)
      else if maxConns < 1 then Some (''-max-conns must be positive'', 2)
      else None)"

section \<open>Hashes as bytes\<close>

lemma isHexDigit_lowerHex: "lowerHex c \<Longrightarrow> isHexDigit c"
  by (auto simp: lowerHex_def isHexDigit_def)

lemma hexDigit_hexNibble: "lowerHex c \<Longrightarrow> hexDigit (hexNibble c) = c \<and> hexNibble c < 16"
  by (auto simp: lowerHex_def hexNibble_def hexDigit_def Let_def)

lemma hexEncode_hexDecode:
  "\<forall>c \<in> set s. lowerHex c \<Longrightarrow> even (length s) \<Longrightarrow> \<exists>b. hexDecode s = Some b \<and> hexEncode b = s"
proof (induction s rule: hexDecode.induct)
  case (3 a b s)
  from 3(1) 3(2,3) isHexDigit_lowerHex obtain bs where bs: "hexDecode s = Some bs" "hexEncode bs = s" by auto
  have ab: "lowerHex a" "lowerHex b" using 3(2) by auto
  have a: "hexDigit (hexNibble a) = a" "hexNibble a < 16" and b: "hexDigit (hexNibble b) = b" "hexNibble b < 16"
    using hexDigit_hexNibble ab by auto
  have n: "16 * hexNibble a + hexNibble b < 256" using a(2) b(2) by linarith
  then have "(of_char (char_of (16 * hexNibble a + hexNibble b) :: char) :: nat) = 16 * hexNibble a + hexNibble b" by simp
  then have "hexEncode (char_of (16 * hexNibble a + hexNibble b) # bs) = a # b # s"
    using a b bs(2) by (simp add: hexEncode_def)
  then show ?case using bs ab isHexDigit_lowerHex by simp
qed (auto simp: hexEncode_def)

definition keyBytes :: "hashing \<Rightarrow> histKey \<Rightarrow> string" where
  "keyBytes h k = (case hexDecode (histID h k) of Some b \<Rightarrow> b | None \<Rightarrow> [])"

lemma keyBytes:
  assumes "hashOK h"
  shows "hexDecode (histID h k) = Some (keyBytes h k)" and "hexEncode (keyBytes h k) = histID h k"
proof -
  have "\<forall>c \<in> set (histID h k). lowerHex c" "even (length (histID h k))"
    using assms by (auto simp: hashOK_def histID_def)
  then obtain b where "hexDecode (histID h k) = Some b" "hexEncode b = histID h k"
    using hexEncode_hexDecode by blast
  then show "hexDecode (histID h k) = Some (keyBytes h k)" "hexEncode (keyBytes h k) = histID h k"
    by (simp_all add: keyBytes_def)
qed

lemma keyBytes_eq_iff: "hashOK h \<Longrightarrow> keyBytes h k = keyBytes h k' \<longleftrightarrow> histID h k = histID h k'"
  using keyBytes by (metis option.inject)

section \<open>What a lookup returns\<close>

definition firstKey :: "hashing \<Rightarrow> histKey list \<Rightarrow> string \<Rightarrow> histKey option" where
  "firstKey h keys i = find (\<lambda>k. histID h k = i) keys"

text \<open>The history that the store has for identifier \<open>i\<close> among the keys asked for.\<close>

definition pgView :: "hashing \<Rightarrow> pgServer \<Rightarrow> string \<Rightarrow> nat \<Rightarrow> database \<Rightarrow> histKey list \<Rightarrow> string \<Rightarrow> History option" where
  "pgView h pg scope limit db keys i =
     (case firstKey h keys i of
        None \<Rightarrow> None
      | Some key \<Rightarrow>
          (let rows = newestRows pg scope limit db (keyBytes h key)
           in if rows = [] then None
              else Some \<lparr>hist_Version = historyVersion, hist_Key = key, hist_Observations = map (scanRow key) rows\<rparr>))"

lemma requestedKeys_spec:
  assumes "hashOK h"
    and "\<forall>i. map_of kbh i \<noteq> None \<longleftrightarrow> i \<in> hexEncode ` set hs"
    and "distinct hs" and "\<forall>b \<in> set hs. \<exists>k. b = keyBytes h k"
  shows "\<exists>kbh' hs'. requestedKeys h keys kbh hs = Inr (kbh', hs')
    \<and> (\<forall>i. map_of kbh' i = (case map_of kbh i of Some k \<Rightarrow> Some k | None \<Rightarrow> firstKey h keys i))
    \<and> set hs' = set hs \<union> keyBytes h ` set keys \<and> distinct hs'"
  using assms(2-)
proof (induction keys arbitrary: kbh hs)
  case Nil
  then show ?case by (auto simp: firstKey_def split: option.splits)
next
  case (Cons key keys)
  note kb = keyBytes [OF assms(1), of key]
  show ?case
  proof (cases "map_of kbh (histID h key)")
    case (Some k)
    then have old: "keyBytes h key \<in> set hs"
    proof -
      have "histID h key \<in> hexEncode ` set hs" using Cons.prems(1) Some by blast
      then obtain k' where "keyBytes h k' \<in> set hs" "histID h key = hexEncode (keyBytes h k')" using Cons.prems(3) by auto
      then show ?thesis using keyBytes(2) [OF assms(1)] keyBytes_eq_iff [OF assms(1)] by metis
    qed
    from Cons.IH [OF Cons.prems] obtain kbh' hs' where r: "requestedKeys h keys kbh hs = Inr (kbh', hs')"
      "\<forall>i. map_of kbh' i = (case map_of kbh i of Some k \<Rightarrow> Some k | None \<Rightarrow> firstKey h keys i)"
      "set hs' = set hs \<union> keyBytes h ` set keys" "distinct hs'" by blast
    have "\<forall>i. map_of kbh' i = (case map_of kbh i of Some k \<Rightarrow> Some k | None \<Rightarrow> firstKey h (key # keys) i)"
    proof
      fix i
      show "map_of kbh' i = (case map_of kbh i of Some k \<Rightarrow> Some k | None \<Rightarrow> firstKey h (key # keys) i)"
        using r(2) [rule_format, of i] Some by (cases "map_of kbh i") (auto simp: firstKey_def)
    qed
    moreover have "requestedKeys h (key # keys) kbh hs = Inr (kbh', hs')" using r(1) kb Some by simp
    ultimately show ?thesis using r(3,4) old by auto
  next
    case None
    have fresh: "keyBytes h key \<notin> set hs" using None Cons.prems(1) kb by (metis image_eqI)
    have "\<forall>i. map_of (kbh @ [(histID h key, key)]) i \<noteq> None \<longleftrightarrow> i \<in> hexEncode ` set (hs @ [keyBytes h key])"
      using Cons.prems(1) kb by (auto split: if_splits)
    moreover have "\<forall>b \<in> set (hs @ [keyBytes h key]). \<exists>k. b = keyBytes h k" using Cons.prems(3) by auto
    moreover have "distinct (hs @ [keyBytes h key])" using Cons.prems(2) fresh by simp
    ultimately obtain kbh' hs' where r: "requestedKeys h keys (kbh @ [(histID h key, key)]) (hs @ [keyBytes h key]) = Inr (kbh', hs')"
      "\<forall>i. map_of kbh' i = (case map_of (kbh @ [(histID h key, key)]) i of Some k \<Rightarrow> Some k | None \<Rightarrow> firstKey h keys i)"
      "set hs' = set (hs @ [keyBytes h key]) \<union> keyBytes h ` set keys" "distinct hs'"
      using Cons.IH [of "kbh @ [(histID h key, key)]" "hs @ [keyBytes h key]"] by blast
    have "requestedKeys h (key # keys) kbh hs = Inr (kbh', hs')" using r(1) kb None by simp
    moreover have "\<forall>i. map_of kbh' i = (case map_of kbh i of Some k \<Rightarrow> Some k | None \<Rightarrow> firstKey h (key # keys) i)"
      using r(2) None by (auto simp: firstKey_def map_add_def split: option.splits if_splits)
    ultimately show ?thesis using r(3,4) by auto
  qed
qed

text \<open>A block of rows of one key extends one history.\<close>

lemma scanRows_block:
  assumes "map_of kbh (hexEncode b) = Some key" and "histID h key = hexEncode b"
    and "\<forall>row \<in> set rows. or_key_hash row = b" and "rows \<noteq> []"
  shows "scanRows h kbh (rows @ rest) ret =
    scanRows h kbh rest (AList.update (hexEncode b)
      (let hist = (case map_of ret (hexEncode b) of Some hist \<Rightarrow> hist
                   | None \<Rightarrow> \<lparr>hist_Version = historyVersion, hist_Key = key, hist_Observations = []\<rparr>)
       in hist\<lparr>hist_Observations := hist_Observations hist @ map (scanRow key) rows\<rparr>) ret)"
  using assms(3,4)
proof (induction rows arbitrary: ret)
  case (Cons row rows)
  show ?case
  proof (cases "rows = []")
    case True
    then show ?thesis using assms(1,2) Cons.prems by (simp add: Let_def)
  next
    case False
    then show ?thesis using Cons.IH Cons.prems assms(1,2) by (simp add: Let_def split: option.splits)
  qed
qed simp

lemma newestRows_hash: "row \<in> set (newestRows pg scope limit db b) \<Longrightarrow> or_key_hash row = b"
  by (auto simp: newestRows_def dest!: in_set_takeD)

lemma scanRows_blocks:
  assumes "\<forall>b \<in> set hs. \<exists>key. map_of kbh (hexEncode b) = Some key \<and> histID h key = hexEncode b"
    and "distinct (map hexEncode hs)" and "\<forall>b \<in> set hs. map_of ret (hexEncode b) = None"
  shows "\<exists>m. scanRows h kbh (concat (map (newestRows pg scope limit db) hs)) ret = Inr m
    \<and> (\<forall>i. map_of m i =
         (case find (\<lambda>b. hexEncode b = i) hs of
            None \<Rightarrow> map_of ret i
          | Some b \<Rightarrow> if newestRows pg scope limit db b = [] then None
              else Some \<lparr>hist_Version = historyVersion, hist_Key = the (map_of kbh i),
                         hist_Observations = map (scanRow (the (map_of kbh i))) (newestRows pg scope limit db b)\<rparr>))"
  using assms
proof (induction hs arbitrary: ret)
  case (Cons b hs)
  obtain key where key: "map_of kbh (hexEncode b) = Some key" "histID h key = hexEncode b" using Cons.prems(1) by auto
  have ne: "hexEncode b' \<noteq> hexEncode b" if b': "b' \<in> set hs" for b'
    using Cons.prems(2) b' by (metis distinct.simps(2) image_eqI list.simps(9) list.set_map)
  have fresh: "find (\<lambda>b'. hexEncode b' = hexEncode b) hs = None" using ne by (simp add: find_None_iff)
  show ?case
  proof (cases "newestRows pg scope limit db b = []")
    case True
    then obtain m where m: "scanRows h kbh (concat (map (newestRows pg scope limit db) hs)) ret = Inr m"
      "\<forall>i. map_of m i =
         (case find (\<lambda>b. hexEncode b = i) hs of
            None \<Rightarrow> map_of ret i
          | Some b \<Rightarrow> if newestRows pg scope limit db b = [] then None
              else Some \<lparr>hist_Version = historyVersion, hist_Key = the (map_of kbh i),
                         hist_Observations = map (scanRow (the (map_of kbh i))) (newestRows pg scope limit db b)\<rparr>)"
      using Cons.IH [of ret] Cons.prems by auto
    then show ?thesis using m True Cons.prems(3) fresh by auto
  next
    case False
    let ?hist = "\<lparr>hist_Version = historyVersion, hist_Key = key, hist_Observations = map (scanRow key) (newestRows pg scope limit db b)\<rparr>"
    have "scanRows h kbh (concat (map (newestRows pg scope limit db) (b # hs))) ret
      = scanRows h kbh (concat (map (newestRows pg scope limit db) hs)) (AList.update (hexEncode b) ?hist ret)"
      using scanRows_block [OF key _ False] newestRows_hash Cons.prems(3) by simp
    moreover have "\<forall>b' \<in> set hs. map_of (AList.update (hexEncode b) ?hist ret) (hexEncode b') = None"
      using Cons.prems(3) ne by simp
    ultimately obtain m where m: "scanRows h kbh (concat (map (newestRows pg scope limit db) (b # hs))) ret = Inr m"
      "\<forall>i. map_of m i =
         (case find (\<lambda>b. hexEncode b = i) hs of
            None \<Rightarrow> map_of (AList.update (hexEncode b) ?hist ret) i
          | Some b \<Rightarrow> if newestRows pg scope limit db b = [] then None
              else Some \<lparr>hist_Version = historyVersion, hist_Key = the (map_of kbh i),
                         hist_Observations = map (scanRow (the (map_of kbh i))) (newestRows pg scope limit db b)\<rparr>)"
      using Cons.IH [of "AList.update (hexEncode b) ?hist ret"] Cons.prems by auto
    then show ?thesis using m False key fresh by (intro exI [of _ m]) (auto split: option.split)
  qed
qed simp

lemma find_map_first:
  "\<forall>x \<in> set xs. P x \<longrightarrow> x = y \<Longrightarrow> y \<in> set xs \<Longrightarrow> P y \<Longrightarrow> find P xs = Some y"
proof (induction xs)
  case (Cons x xs)
  show ?case
  proof (cases "P x")
    case True
    then have "x = y" using Cons.prems(1) by simp
    with True show ?thesis by simp
  next
    case False
    then have "y \<in> set xs" using Cons.prems(2,3) by auto
    moreover have "\<forall>x \<in> set xs. P x \<longrightarrow> x = y" using Cons.prems(1) by (meson list.set_intros(2))
    ultimately have "find P xs = Some y" using Cons.IH Cons.prems(3) by blast
    then show ?thesis using False by simp
  qed
qed simp

lemma firstKey_Some: "firstKey h keys i = Some key \<Longrightarrow> key \<in> set keys \<and> histID h key = i"
  by (auto simp: firstKey_def find_Some_iff)

lemma firstKey_None: "firstKey h keys i = None \<longleftrightarrow> i \<notin> histID h ` set keys"
  by (auto simp: firstKey_def find_None_iff)

definition noCallErr :: "pgServer \<Rightarrow> bool" where
  "noCallErr pg \<longleftrightarrow> callErr pg = (\<lambda>_. None) \<and> commitErr pg = None"

lemma pgLookup_view:
  assumes h: "hashOK h" and pg: "callErr pg = (\<lambda>_. None)"
  shows "\<exists>m. pgLookup h pg scope db keys n = Inr m \<and> (\<forall>i. map_of m i = pgView h pg scope (pgLimit n) db keys i)"
proof (cases "keys = []")
  case True
  then show ?thesis by (simp add: pgLookup_def pgView_def firstKey_def)
next
  case False
  obtain kbh hs where r: "requestedKeys h keys [] [] = Inr (kbh, hs)" "\<forall>i. map_of kbh i = firstKey h keys i"
    "set hs = keyBytes h ` set keys" "distinct hs"
    using requestedKeys_spec [OF h, of "[]" "[]" keys] by auto
  have inj: "inj_on hexEncode (set hs)"
    using r(3) keyBytes(2) [OF h] keyBytes_eq_iff [OF h] by (auto simp: inj_on_def)
  have dist: "distinct (map hexEncode hs)" using r(4) inj by (simp add: distinct_map)
  have known: "\<exists>key. map_of kbh (hexEncode b) = Some key \<and> histID h key = hexEncode b" if b: "b \<in> set hs" for b
  proof -
    obtain k where "k \<in> set keys" "b = keyBytes h k" using b r(3) by auto
    then have "firstKey h keys (hexEncode b) \<noteq> None" using keyBytes(2) [OF h] by (auto simp: firstKey_None)
    then show ?thesis using r(2) firstKey_Some by fastforce
  qed
  obtain m where m: "scanRows h kbh (concat (map (newestRows pg scope (pgLimit n) db) hs)) [] = Inr m"
    "\<forall>i. map_of m i =
         (case find (\<lambda>b. hexEncode b = i) hs of
            None \<Rightarrow> None
          | Some b \<Rightarrow> if newestRows pg scope (pgLimit n) db b = [] then None
              else Some \<lparr>hist_Version = historyVersion, hist_Key = the (map_of kbh i),
                         hist_Observations = map (scanRow (the (map_of kbh i))) (newestRows pg scope (pgLimit n) db b)\<rparr>)"
    using scanRows_blocks [of hs kbh h "[]" pg scope "pgLimit n" db] known dist unfolding map_of.simps by blast
  have "map_of m i = pgView h pg scope (pgLimit n) db keys i" for i
  proof (cases "firstKey h keys i")
    case None
    then have "\<forall>b \<in> set hs. hexEncode b \<noteq> i" using r(3) keyBytes(2) [OF h] by (auto simp: firstKey_None)
    then have "find (\<lambda>b. hexEncode b = i) hs = None" by (simp add: find_None_iff)
    then show ?thesis using m(2) None by (simp add: pgView_def)
  next
    case (Some key)
    then have key: "key \<in> set keys" "histID h key = i" using firstKey_Some by auto
    then have "find (\<lambda>b. hexEncode b = i) hs = Some (keyBytes h key)"
      using r(3) keyBytes(2) [OF h] keyBytes_eq_iff [OF h] by (intro find_map_first) auto
    then show ?thesis using m(2) Some r(2) by (simp add: pgView_def Let_def)
  qed
  then show ?thesis using False r(1) m(1) pg by (simp add: pgLookup_def)
qed

section \<open>What a record stores\<close>

text \<open>The first observation of a batch with an identifier is the one stored under it.\<close>

definition storeOne :: "hashing \<Rightarrow> pgServer \<Rightarrow> string \<Rightarrow> Observation \<Rightarrow> (string \<times> string, obsRow) gomap \<Rightarrow> (string \<times> string, obsRow) gomap" where
  "storeOne h pg scope obs t =
     (if map_of t (scope, obs_ID obs) = None
      then AList.update (scope, obs_ID obs) (newRow pg (keyBytes h (obs_Key obs)) obs) t else t)"

lemma storeOne_keep: "map_of t k = Some row \<Longrightarrow> map_of (storeOne h pg scope ob t) k = Some row"
  by (cases "k = (scope, obs_ID ob)") (auto simp: storeOne_def)

lemma fold_storeOne_keep: "map_of t k = Some row \<Longrightarrow> map_of (fold (storeOne h pg scope) obs t) k = Some row"
  by (induction obs arbitrary: t) (simp_all add: storeOne_keep)

lemma pgRecordLoop_stores:
  assumes "pgRecordLoop h pg scope i obs db = Inr db'"
  shows "test_history_observation db' = fold (storeOne h pg scope) obs (test_history_observation db)
    \<and> (\<forall>ob \<in> set obs. validateObservation ob = None
         \<and> (\<exists>row. map_of (test_history_observation db') (scope, obs_ID ob) = Some row \<and> or_key_hash row = keyBytes h (obs_Key ob)))"
  using assms
proof (induction obs arbitrary: i db)
  case (Cons ob obs)
  let ?kb = "keyBytes h (obs_Key ob)"
  let ?db = "snd (insertObservation pg scope ?kb ob (upsertKey pg scope ?kb ob db))"
  have kb: "(case hexDecode (histID h (obs_Key ob)) of Some b \<Rightarrow> b | None \<Rightarrow> []) = ?kb"
    by (simp add: keyBytes_def split: option.split)
  have step: "pgRecordLoop h pg scope (Suc i) obs ?db = Inr db'" "validateObservation ob = None"
    "fst (insertObservation pg scope ?kb ob (upsertKey pg scope ?kb ob db)) = ?kb"
    using Cons.prems kb by (auto simp: Let_def split: option.splits prod.splits if_splits)
  have tab: "test_history_observation ?db = storeOne h pg scope ob (test_history_observation db)"
    by (auto simp: insertObservation_def upsertKey_def storeOne_def split: option.split)
  have row: "\<exists>row. map_of (storeOne h pg scope ob (test_history_observation db)) (scope, obs_ID ob) = Some row \<and> or_key_hash row = ?kb"
    using step(3) by (auto simp: insertObservation_def upsertKey_def storeOne_def newRow_def split: option.splits)
  note IH = Cons.IH [OF step(1)]
  show ?case using IH tab row fold_storeOne_keep step(2) by auto
qed simp

lemma pgRecordLoop_again:
  assumes "\<forall>ob \<in> set obs. validateObservation ob = None
      \<and> (\<exists>row. map_of (test_history_observation db) (scope, obs_ID ob) = Some row \<and> or_key_hash row = keyBytes h (obs_Key ob))"
    and "callErr pg = (\<lambda>_. None)"
  shows "\<exists>db'. pgRecordLoop h pg scope i obs db = Inr db' \<and> test_history_observation db' = test_history_observation db"
  using assms(1)
proof (induction obs arbitrary: i db)
  case (Cons ob obs)
  let ?db = "upsertKey pg scope (keyBytes h (obs_Key ob)) ob db"
  have same: "test_history_observation ?db = test_history_observation db" by (simp add: upsertKey_def)
  have kb: "(case hexDecode (histID h (obs_Key ob)) of Some b \<Rightarrow> b | None \<Rightarrow> []) = keyBytes h (obs_Key ob)"
    by (simp add: keyBytes_def split: option.split)
  have "insertObservation pg scope (keyBytes h (obs_Key ob)) ob ?db = (keyBytes h (obs_Key ob), ?db)"
    using Cons.prems same by (auto simp: insertObservation_def)
  then show ?case using Cons.IH [of ?db "Suc i"] Cons.prems same kb assms(2) by (auto simp: Let_def)
qed simp

lemma pgRecordLoop_faults:
  "pgRecordLoop h pg scope i obs db = Inr db' \<Longrightarrow> timestamptz pg' = timestamptz pg \<Longrightarrow> callErr pg' = (\<lambda>_. None)
    \<Longrightarrow> pgRecordLoop h pg' scope i obs db = Inr db'"
  by (induction obs arbitrary: i db)
    (auto simp: Let_def insertObservation_def upsertKey_def newRow_def split: option.splits prod.splits if_splits)

section \<open>The store is a history store\<close>

definition pgClean :: "(time \<Rightarrow> time) \<Rightarrow> pgServer" where
  "pgClean ts = \<lparr>timestamptz = ts, collate = cmpOf, callErr = (\<lambda>_. None), commitErr = None\<rparr>"

lemma pgClean_simps [simp]:
  "timestamptz (pgClean ts) = ts" "collate (pgClean ts) = cmpOf" "callErr (pgClean ts) = (\<lambda>_. None)" "noCallErr (pgClean ts)"
  by (simp_all add: pgClean_def noCallErr_def)

text \<open>
  Both tables have one row per primary key, an observation is stored under its own identifier, and its
  key has a row: the constraints of the schema.
\<close>

definition dbOK :: "database \<Rightarrow> bool" where
  "dbOK db \<longleftrightarrow> gomap_ok (test_history_key db) \<and> gomap_ok (test_history_observation db)
     \<and> (\<forall>sc i row. map_of (test_history_observation db) (sc, i) = Some row
          \<longrightarrow> or_observation_id row = i \<and> map_of (test_history_key db) (sc, or_key_hash row) \<noteq> None)"

lemma dbOK_step:
  assumes "dbOK db"
  shows "dbOK (snd (insertObservation pg scope b ob (upsertKey pg scope b ob db)))"
  using assms
  by (auto simp: dbOK_def insertObservation_def upsertKey_def newRow_def split: option.splits if_splits)

lemma dbOK_loop: "pgRecordLoop h pg scope i obs db = Inr db' \<Longrightarrow> dbOK db \<Longrightarrow> dbOK db'"
proof (induction obs arbitrary: i db)
  case (Cons ob obs)
  let ?b = "case hexDecode (histID h (obs_Key ob)) of Some b \<Rightarrow> b | None \<Rightarrow> []"
  have "pgRecordLoop h pg scope (Suc i) obs (snd (insertObservation pg scope ?b ob (upsertKey pg scope ?b ob db))) = Inr db'"
    using Cons.prems(1) by (auto simp: Let_def split: option.splits prod.splits if_splits)
  then show ?case using Cons.IH Cons.prems(2) dbOK_step by blast
qed simp

lemma dbOK_record: "dbOK db \<Longrightarrow> dbOK (snd (pgRecord h pg scope db obs))"
  using dbOK_loop by (auto simp: pgRecord_def split: option.split sum.split)

lemma pgRecord_cases:
  obtains "snd (pgRecord h pg scope db obs) = db"
  | db' where "pgRecordLoop h pg scope 0 obs db = Inr db'" and "snd (pgRecord h pg scope db obs) = db'"
proof -
  have "snd (pgRecord h pg scope db obs) = db
      \<or> pgRecordLoop h pg scope 0 obs db = Inr (snd (pgRecord h pg scope db obs))"
    by (simp add: pgRecord_def split: option.split sum.split)
  then show thesis using that by blast
qed

lemma pgRecord_clean:
  assumes "noCallErr pg"
  shows "pgRecord h pg scope db obs =
    (case pgRecordLoop h pg scope 0 obs db of Inl e \<Rightarrow> (Some e, db) | Inr db' \<Rightarrow> (None, db'))"
  using assms by (cases obs) (auto simp: pgRecord_def noCallErr_def split: sum.splits)

lemma pgRecord_again:
  assumes pg: "noCallErr pg'" "timestamptz pg' = timestamptz pg" and loop: "pgRecordLoop h pg scope 0 obs db = Inr db'"
  shows "\<exists>db2. pgRecord h pg' scope db' obs = (None, db2) \<and> test_history_observation db2 = test_history_observation db'"
proof -
  have "\<forall>ob \<in> set obs. validateObservation ob = None
      \<and> (\<exists>row. map_of (test_history_observation db') (scope, obs_ID ob) = Some row \<and> or_key_hash row = keyBytes h (obs_Key ob))"
    using pgRecordLoop_stores [OF loop] by blast
  then obtain db2 where "pgRecordLoop h pg' scope 0 obs db' = Inr db2" "test_history_observation db2 = test_history_observation db'"
    using pgRecordLoop_again [of obs db' scope h pg' 0] pg(1) by (auto simp: noCallErr_def)
  then show ?thesis using pgRecord_clean [OF pg(1)] by simp
qed

text \<open>A lookup depends on the rows of its scope only.\<close>

lemma pgLookup_rows:
  assumes "scopeRows scope db = scopeRows scope db'"
  shows "pgLookup h pg scope db keys n = pgLookup h pg scope db' keys n"
proof -
  have rows: "newestRows pg scope limit db = newestRows pg scope limit db'" for limit
    by (simp add: newestRows_def assms fun_eq_iff)
  show ?thesis unfolding pgLookup_def rows by (rule refl)
qed

lemma scopeRows_table: "test_history_observation db = test_history_observation db' \<Longrightarrow> scopeRows scope db = scopeRows scope db'"
  by (simp add: scopeRows_def)

lemmas pgLookup_table = pgLookup_rows [OF scopeRows_table]

lemma compareRows_scan:
  "collate pg = cmpOf \<Longrightarrow> compareRows pg = (\<lambda>a b. compareHistoryObservations (scanRow key a) (scanRow key b))"
  by (simp add: compareRows_def compareHistoryObservations_def scanRow_def fun_eq_iff)

text \<open>The stored observations of a key as the store returns them.\<close>

definition storedFor :: "hashing \<Rightarrow> string \<Rightarrow> database \<Rightarrow> histKey \<Rightarrow> Observation list" where
  "storedFor h scope db key = map (scanRow key) (filter (\<lambda>row. or_key_hash row = keyBytes h key) (scopeRows scope db))"

lemma scan_newestRows:
  assumes "collate pg = cmpOf"
  shows "map (scanRow key) (newestRows pg scope limit db (keyBytes h key))
    = take limit (SortFunc compareHistoryObservations (storedFor h scope db key))"
  unfolding newestRows_def storedFor_def compareRows_scan [OF assms, of key]
  by (simp add: map_SortFunc flip: take_map)

lemma pgLimit_le: "pgLimit n \<le> lookupLimit n"
  by (auto simp: pgLimit_def lookupLimit_def historyRequestLimit_def Let_def)

lemma pgView_Some:
  assumes "pgView h pg scope limit db keys i = Some hist" and "collate pg = cmpOf"
  shows "firstKey h keys i = Some (hist_Key hist) \<and> hist_Version hist = historyVersion
    \<and> hist_Observations hist = take limit (SortFunc compareHistoryObservations (storedFor h scope db (hist_Key hist)))"
  using assms by (auto simp: pgView_def Let_def scan_newestRows split: option.splits if_splits)

interpretation pgh: history_store "pgLookup (sha256With m r) (pgClean ts) scope" "histID (sha256With m r)" dbOK
  "\<lambda>db obs. snd (pgRecord (sha256With m r) (pgClean ts) scope db obs)" for m r ts scope
proof
  let ?h = "sha256With m r"
  fix db keys n ms i hist
  assume "pgLookup ?h (pgClean ts) scope db keys n = Inr ms" and "map_of ms i = Some hist"
  then have "pgView ?h (pgClean ts) scope (pgLimit n) db keys i = Some hist"
    using pgLookup_view [of ?h "pgClean ts" scope db keys n] by auto
  then have v: "firstKey ?h keys i = Some (hist_Key hist)"
    "hist_Observations hist = take (pgLimit n) (SortFunc compareHistoryObservations (storedFor ?h scope db (hist_Key hist)))"
    using pgView_Some by auto
  have "obs_Key ob = hist_Key hist" if "ob \<in> set (hist_Observations hist)" for ob
    using that v(2) by (auto simp: storedFor_def scanRow_def dest!: in_set_takeD)
  then show "i \<in> histID ?h ` set keys \<and> histID ?h (hist_Key hist) = i
      \<and> (\<forall>ob \<in> set (hist_Observations hist). histID ?h (obs_Key ob) = i)"
    using firstKey_Some [OF v(1)] by auto
  show "newestFirst (hist_Observations hist)" using v(2) by simp
  show "length (hist_Observations hist) \<le> lookupLimit n" using v(2) pgLimit_le [of n] by (simp add: le_trans)
next
  let ?h = "sha256With m r"
  let ?rec = "\<lambda>db obs. snd (pgRecord ?h (pgClean ts) scope db obs)"
  fix db obs keys n
  show "dbOK db \<Longrightarrow> dbOK (?rec db obs)" by (rule dbOK_record)
  have "test_history_observation (?rec (?rec db obs) obs) = test_history_observation (?rec db obs)"
  proof (cases rule: pgRecord_cases [of ?h "pgClean ts" scope db obs])
    case 1
    then show ?thesis by simp
  next
    case (2 db')
    then show ?thesis using pgRecord_again [of "pgClean ts" "pgClean ts" ?h scope obs db db'] by auto
  qed
  then show "pgLookup ?h (pgClean ts) scope (?rec (?rec db obs) obs) keys n = pgLookup ?h (pgClean ts) scope (?rec db obs) keys n"
    by (rule pgLookup_table)
  show "\<exists>ms. pgLookup ?h (pgClean ts) scope db keys n = Inr ms"
    using pgLookup_view [of ?h "pgClean ts" scope db keys n] by auto
qed

section \<open>Properties of the store\<close>

lemma fold_storeOne_fresh:
  assumes "ob \<in> set obs" and "distinct (map obs_ID obs)" and "map_of t (scope, obs_ID ob) = None"
  shows "map_of (fold (storeOne h pg scope) obs t) (scope, obs_ID ob) = Some (newRow pg (keyBytes h (obs_Key ob)) ob)"
  using assms
proof (induction obs arbitrary: t)
  case (Cons a obs)
  show ?case
  proof (cases "ob = a")
    case True
    then have "map_of (storeOne h pg scope ob t) (scope, obs_ID ob) = Some (newRow pg (keyBytes h (obs_Key ob)) ob)"
      using Cons.prems(3) by (simp add: storeOne_def)
    then show ?thesis using True fold_storeOne_keep by simp
  next
    case False
    then have "ob \<in> set obs" using Cons.prems(1) by simp
    moreover have "obs_ID ob \<noteq> obs_ID a" using Cons.prems(2) calculation by (metis distinct.simps(2) image_eqI list.set_map list.simps(9))
    ultimately have "ob \<in> set obs" "obs_ID ob \<noteq> obs_ID a" by auto
    then show ?thesis using Cons.IH [of "storeOne h pg scope a t"] Cons.prems by (simp add: storeOne_def)
  qed
qed simp

lemma scanRow_newRow:
  "scanRow key (newRow pg b ob) = ob\<lparr>obs_Key := key, obs_At := timestamptz pg (obs_At ob)\<rparr>"
  by (simp add: scanRow_def newRow_def)

lemma scopeRows_iff:
  assumes "dbOK db"
  shows "row \<in> set (scopeRows scope db) \<longleftrightarrow> (\<exists>i. map_of (test_history_observation db) (scope, i) = Some row)"
proof
  have d: "distinct (map fst (test_history_observation db))" using assms by (simp add: dbOK_def gomap_ok_def)
  assume "row \<in> set (scopeRows scope db)"
  then obtain i where "((scope, i), row) \<in> set (test_history_observation db)" by (auto simp: scopeRows_def)
  then show "\<exists>i. map_of (test_history_observation db) (scope, i) = Some row" using map_of_is_SomeI [OF d] by blast
next
  assume "\<exists>i. map_of (test_history_observation db) (scope, i) = Some row"
  then obtain i where "((scope, i), row) \<in> set (test_history_observation db)" using map_of_SomeD by metis
  then show "row \<in> set (scopeRows scope db)" by (force simp: scopeRows_def)
qed

text \<open>
  After a batch has been recorded, a lookup of one of its keys finds the history of the key: the newest
  stored observations, up to the limit and in order. An observation whose identifier was new is among the stored ones
  exactly as it was sent, except for the precision of the database's time.
\<close>

theorem pg_lookup_after_record:
  assumes h: "hashOK h" and pg: "noCallErr pg" "collate pg = cmpOf" and db: "dbOK db"
    and rec: "pgRecord h pg scope db obs = (None, db')" and ob: "ob \<in> set obs" and key: "obs_Key ob \<in> set keys"
    and fresh: "map_of (test_history_observation db) (scope, obs_ID ob) = None" "distinct (map obs_ID obs)"
  shows "\<exists>m hist. pgLookup h pg scope db' keys n = Inr m \<and> map_of m (histID h (obs_Key ob)) = Some hist
    \<and> hist_Observations hist = take (pgLimit n) (SortFunc compareHistoryObservations (storedFor h scope db' (hist_Key hist)))
    \<and> ob\<lparr>obs_Key := hist_Key hist, obs_At := timestamptz pg (obs_At ob)\<rparr> \<in> set (storedFor h scope db' (hist_Key hist))"
proof -
  have loop: "pgRecordLoop h pg scope 0 obs db = Inr db'"
    using rec pgRecord_clean [OF pg(1), of h scope db obs] by (auto split: sum.splits)
  have db': "dbOK db'" using dbOK_loop [OF loop db] .
  have row: "newRow pg (keyBytes h (obs_Key ob)) ob \<in> set (scopeRows scope db')"
    using fold_storeOne_fresh [OF ob fresh(2,1)] pgRecordLoop_stores [OF loop] scopeRows_iff [OF db'] by auto
  obtain m where m: "pgLookup h pg scope db' keys n = Inr m" "\<forall>i. map_of m i = pgView h pg scope (pgLimit n) db' keys i"
    using pgLookup_view [OF h, of pg scope db' keys n] pg(1) by (auto simp: noCallErr_def)
  obtain k where k: "firstKey h keys (histID h (obs_Key ob)) = Some k" "histID h k = histID h (obs_Key ob)"
    using key firstKey_None firstKey_Some by (metis image_eqI option.exhaust)
  have kb: "keyBytes h k = keyBytes h (obs_Key ob)" using k(2) keyBytes_eq_iff [OF h] by blast
  have stored: "ob\<lparr>obs_Key := k, obs_At := timestamptz pg (obs_At ob)\<rparr> \<in> set (storedFor h scope db' k)"
  proof -
    have "or_key_hash (newRow pg (keyBytes h (obs_Key ob)) ob) = keyBytes h k" by (simp add: newRow_def kb)
    then have "scanRow k (newRow pg (keyBytes h (obs_Key ob)) ob) \<in> set (storedFor h scope db' k)"
      using row by (simp add: storedFor_def)
    then show ?thesis by (simp add: scanRow_newRow)
  qed
  then have "SortFunc compareHistoryObservations (storedFor h scope db' k) \<noteq> []" by auto
  then have ne: "take (pgLimit n) (SortFunc compareHistoryObservations (storedFor h scope db' k)) \<noteq> []"
    by (simp add: pgLimit_def Let_def)
  let ?hist = "\<lparr>hist_Version = historyVersion, hist_Key = k,
    hist_Observations = take (pgLimit n) (SortFunc compareHistoryObservations (storedFor h scope db' k))\<rparr>"
  have "map_of m (histID h (obs_Key ob)) = Some ?hist"
    using m(2) k(1) ne scan_newestRows [OF pg(2), of k scope "pgLimit n" db' h]
    by (auto simp: pgView_def Let_def)
  then show ?thesis using m(1) stored by (intro exI [of _ m] exI [of _ ?hist]) simp
qed

text \<open>
  A batch is recorded at most once, whatever fails. After an error of any database call, a lost answer to a commit
  included, sending the batch again to a working database has the same result and leaves the same observations as if the
  failed attempt had never been made.
\<close>

theorem pg_record_retry_safe:
  assumes failed: "pgRecord h pg scope db obs = (Some e, db1)"
    and pg': "noCallErr pg'" "timestamptz pg' = timestamptz pg"
  shows "fst (pgRecord h pg' scope db1 obs) = fst (pgRecord h pg' scope db obs)
    \<and> test_history_observation (snd (pgRecord h pg' scope db1 obs)) = test_history_observation (snd (pgRecord h pg' scope db obs))"
proof (cases rule: pgRecord_cases [of h pg scope db obs])
  case 1
  then show ?thesis using failed by simp
next
  case (2 db')
  then have db1: "db1 = db'" using failed by simp
  have "pgRecordLoop h pg' scope 0 obs db = Inr db'"
    using pgRecordLoop_faults [OF 2(1) pg'(2)] pg'(1) by (simp add: noCallErr_def)
  then have "pgRecord h pg' scope db obs = (None, db')" using pgRecord_clean [OF pg'(1)] by simp
  then show ?thesis using pgRecord_again [OF pg' 2(1)] db1 by auto
qed

text \<open>
  Scopes are isolated: recording in one scope, successfully or not, changes no answer in another.
\<close>

theorem pg_scopes_isolated:
  assumes "scope \<noteq> scope'"
  shows "pgLookup h pg' scope' (snd (pgRecord h pg scope db obs)) keys n = pgLookup h pg' scope' db keys n"
proof (cases rule: pgRecord_cases [of h pg scope db obs])
  case 1
  then show ?thesis by simp
next
  case (2 db')
  have upd: "filter (\<lambda>((sc, _), _). sc = scope') (AList.update (scope, i) row t) = filter (\<lambda>((sc, _), _). sc = scope') t" for i row t
    using assms by (induction t) auto
  have "filter (\<lambda>((sc, _), _). sc = scope') (fold (storeOne h pg scope) obs t) = filter (\<lambda>((sc, _), _). sc = scope') t" for t
    by (induction obs arbitrary: t) (simp_all add: storeOne_def upd)
  then have "scopeRows scope' db' = scopeRows scope' db"
    using pgRecordLoop_stores [OF 2(1)] by (simp add: scopeRows_def)
  then show ?thesis using 2(2) pgLookup_rows by metis
qed

text \<open>The witnesses record one observation in an empty database, with microseconds as the database's precision.\<close>

definition emptyDatabase :: database where
  "emptyDatabase = \<lparr>test_history_key = [], test_history_observation = []\<rparr>"

definition micros :: "time \<Rightarrow> time" where
  "micros t = t div 1000 * 1000"

definition sampleDatabase :: database where
  "sampleDatabase = snd (pgRecord (sha256With textMarshal showInt) (pgClean micros) ''s'' emptyDatabase [sampleObs])"

lemma emptyDatabase_OK: "dbOK emptyDatabase"
  by (simp add: dbOK_def emptyDatabase_def gomap_ok_def)

lemma sampleRecord: "pgRecord (sha256With textMarshal showInt) (pgClean micros) ''s'' emptyDatabase [sampleObs] = (None, sampleDatabase)"
proof -
  have "fst (pgRecord (sha256With textMarshal showInt) (pgClean micros) ''s'' emptyDatabase [sampleObs]) = None"
    unfolding pgRecord_clean [OF pgClean_simps(4)]
    by (simp add: validateObservation_def sampleObs_def sampleHistKey_def Let_def insertObservation_def upsertKey_def emptyDatabase_def)
  then show ?thesis by (simp add: sampleDatabase_def prod_eq_iff)
qed

theorem pg_lookup_after_record_witness:
  "\<exists>m hist. pgLookup (sha256With textMarshal showInt) (pgClean micros) ''s'' sampleDatabase [sampleHistKey] 5 = Inr m
    \<and> map_of m (histID (sha256With textMarshal showInt) sampleHistKey) = Some hist
    \<and> sampleObs\<lparr>obs_Key := hist_Key hist, obs_At := 0\<rparr> \<in> set (storedFor (sha256With textMarshal showInt) ''s'' sampleDatabase (hist_Key hist))"
  using pg_lookup_after_record [OF hashOK_sha256 pgClean_simps(4) pgClean_simps(2) emptyDatabase_OK sampleRecord, of sampleObs "[sampleHistKey]" 5]
  by (auto simp: emptyDatabase_def sampleObs_def micros_def)

theorem pg_record_retry_safe_witness:
  "let pg = (pgClean micros)\<lparr>commitErr := Some (''timeout'', True)\<rparr>; h = sha256With textMarshal showInt
   in fst (pgRecord h pg ''s'' emptyDatabase [sampleObs]) \<noteq> None
      \<and> fst (pgRecord h (pgClean micros) ''s'' (snd (pgRecord h pg ''s'' emptyDatabase [sampleObs])) [sampleObs]) = None"
proof -
  let ?pg = "(pgClean micros)\<lparr>commitErr := Some (''timeout'', True)\<rparr>" and ?h = "sha256With textMarshal showInt"
  obtain e db1 where f: "pgRecord ?h ?pg ''s'' emptyDatabase [sampleObs] = (Some e, db1)"
    by (simp add: pgRecord_def validateObservation_def sampleObs_def sampleHistKey_def Let_def insertObservation_def upsertKey_def
        emptyDatabase_def)
  have "fst (pgRecord ?h (pgClean micros) ''s'' db1 [sampleObs]) = None"
    using pg_record_retry_safe [OF f, of "pgClean micros"] sampleRecord by simp
  then show ?thesis using f by (simp add: Let_def)
qed

theorem pg_scopes_isolated_witness:
  "pgLookup (sha256With textMarshal showInt) (pgClean micros) ''other'' sampleDatabase [sampleHistKey] 5 = Inr []"
proof -
  have "pgLookup (sha256With textMarshal showInt) (pgClean micros) ''other'' sampleDatabase [sampleHistKey] 5
    = pgLookup (sha256With textMarshal showInt) (pgClean micros) ''other'' emptyDatabase [sampleHistKey] 5"
    unfolding sampleDatabase_def by (rule pg_scopes_isolated) simp
  also have "\<dots> = Inr []"
    using keyBytes [OF hashOK_sha256, of textMarshal showInt sampleHistKey]
    by (simp add: pgLookup_def newestRows_def scopeRows_def emptyDatabase_def)
  finally show ?thesis .
qed

section \<open>The service behind the client\<close>

lemma SortFunc_sorted: "sorted_wrt (\<lambda>a b. cmp a b \<le> 0) xs \<Longrightarrow> SortFunc cmp xs = xs"
proof (induction xs)
  case (Cons x xs)
  then show ?case by (cases xs) auto
qed simp

lemma lookupLimit_idem: "lookupLimit (int (lookupLimit n)) = lookupLimit n"
  by (simp add: lookupLimit_def historyRequestLimit_def)

context history_lookup
begin

text \<open>What the handler answers, the client accepts unchanged.\<close>

lemma accept_served:
  assumes hid: "hid = histID h" and found: "lookup s keys (int (lookupLimit n)) = Inr m"
    and version: "\<forall>i hist. map_of m i = Some hist \<longrightarrow> hist_Version hist = historyVersion"
  shows "\<exists>m'. acceptHistories h (lookupLimit n) (map (histID h) keys)
        (filter (\<lambda>x. x \<noteq> None) (map (\<lambda>key. map_of m (histID h key)) ks)) ret = Inr m'
    \<and> (\<forall>i. map_of m' i = (if i \<in> histID h ` set ks \<and> map_of m i \<noteq> None then map_of m i else map_of ret i))"
proof (induction ks arbitrary: ret)
  case Nil
  then show ?case by simp
next
  case (Cons k ks)
  show ?case
  proof (cases "map_of m (histID h k)")
    case None
    from Cons [of ret] obtain m' where
      "acceptHistories h (lookupLimit n) (map (histID h) keys)
        (filter (\<lambda>x. x \<noteq> None) (map (\<lambda>key. map_of m (histID h key)) ks)) ret = Inr m'"
      "\<forall>i. map_of m' i = (if i \<in> histID h ` set ks \<and> map_of m i \<noteq> None then map_of m i else map_of ret i)" by blast
    then show ?thesis using None by (intro exI [of _ m']) auto
  next
    case (Some hist)
    note laws = lookup_wanted [OF found Some] lookup_newest [OF found Some] lookup_limit [OF found Some] version [rule_format, OF Some]
    have sorted: "SortFunc compareHistoryObservations (hist_Observations hist) = hist_Observations hist"
      using laws(2) by (intro SortFunc_sorted) (simp add: newestFirst_def)
    have short: "take (lookupLimit n) (hist_Observations hist) = hist_Observations hist"
      using laws(3) by (simp add: lookupLimit_idem)
    have "find (\<lambda>obs. histID h (obs_Key obs) \<noteq> histID h (hist_Key hist)) (hist_Observations hist) = None"
      using laws(1) by (simp add: find_None_iff hid)
    then have step: "acceptHistories h (lookupLimit n) (map (histID h) keys)
        (filter (\<lambda>x. x \<noteq> None) (map (\<lambda>key. map_of m (histID h key)) (k # ks))) ret
      = acceptHistories h (lookupLimit n) (map (histID h) keys)
        (filter (\<lambda>x. x \<noteq> None) (map (\<lambda>key. map_of m (histID h key)) ks)) (AList.update (histID h k) hist ret)"
      using Some laws(1,4) sorted short by (simp add: hid)
    from Cons [of "AList.update (histID h k) hist ret"] obtain m' where
      "acceptHistories h (lookupLimit n) (map (histID h) keys)
        (filter (\<lambda>x. x \<noteq> None) (map (\<lambda>key. map_of m (histID h key)) ks)) (AList.update (histID h k) hist ret) = Inr m'"
      "\<forall>i. map_of m' i = (if i \<in> histID h ` set ks \<and> map_of m i \<noteq> None then map_of m i
         else map_of (AList.update (histID h k) hist ret) i)" by blast
    then show ?thesis using step Some by (intro exI [of _ m']) auto
  qed
qed

lemma httpLookup_served:
  assumes "hid = histID h" and "lookup s keys (int (lookupLimit n)) = Inr m"
    and "\<forall>i hist. map_of m i = Some hist \<longrightarrow> hist_Version hist = historyVersion"
    and "call \<lparr>lq_Version = historyVersion, lq_Keys = keys, lq_RecentPerKey = int (lookupLimit n)\<rparr>
      = Inr (Some \<lparr>lr_Version = historyVersion,
            lr_Histories = filter (\<lambda>x. x \<noteq> None) (map (\<lambda>key. map_of m (histID h key)) keys)\<rparr>)"
  shows "\<exists>m'. httpLookup h call keys n = Inr m' \<and> (\<forall>i. map_of m' i = map_of m i)"
proof -
  obtain m' where m': "acceptHistories h (lookupLimit n) (map (histID h) keys)
        (filter (\<lambda>x. x \<noteq> None) (map (\<lambda>key. map_of m (histID h key)) keys)) [] = Inr m'"
    "\<forall>i. map_of m' i = (if i \<in> histID h ` set keys \<and> map_of m i \<noteq> None then map_of m i else None)"
    using accept_served [OF assms(1-3), where ks = keys and ret = "[]"] unfolding map_of.simps by blast
  have "map_of m' i = map_of m i" for i
  proof (cases "map_of m i")
    case (Some hist)
    then show ?thesis using lookup_wanted [OF assms(2) Some] m'(2) assms(1) by simp
  qed (simp add: m'(2))
  then show ?thesis using m'(1) assms(4) by (simp add: httpLookup_def Let_def)
qed

end

text \<open>The transport of the client's \<open>doJSON\<close> when the service answers it; \<open>enc\<close> and \<open>encReply\<close> are the JSON encoders.\<close>

definition postTo :: "(httpRequest \<Rightarrow> 's \<Rightarrow> httpReply \<times> 's) \<Rightarrow> ('req \<Rightarrow> string) \<Rightarrow> (payload \<Rightarrow> string) \<Rightarrow> 's
    \<Rightarrow> string \<Rightarrow> string option \<Rightarrow> 'req \<Rightarrow> string + httpResponse" where
  "postTo serve enc encReply s path auth req =
     (let reply = fst (serve \<lparr>rq_Method = ''POST'', rq_Path = path, rq_Authorization = (case auth of Some a \<Rightarrow> a | None \<Rightarrow> []),
                             rq_Body = enc req\<rparr> s)
      in Inr \<lparr>res_StatusCode = re_Status reply, res_Status = showInt (re_Status reply), res_Body = encReply (re_Payload reply)\<rparr>)"

lemma authorized_bearer [simp]: "authorized token (r\<lparr>rq_Authorization := ''Bearer '' @ token\<rparr>)"
  by (simp add: authorized_def CutPrefix_Some_iff)


definition sampleLookup :: LookupRequest where
  "sampleLookup = \<lparr>lq_Version = historyVersion, lq_Keys = [sampleHistKey], lq_RecentPerKey = 32\<rparr>"

definition sampleApi :: apiServer where
  "sampleApi = \<lparr>as_token = ''t'', as_decodeLookup = (\<lambda>body. Inr (sampleLookup, ([], False))),
     as_decodeRecord = (\<lambda>body. Inl ''unexpected end of JSON input''), as_decodeMore = (\<lambda>rest. Some ''EOF''),
     as_unmatched = (\<lambda>r. apiError 404 ''not found'')\<rparr>"


lemma firstInvalid_None: "firstInvalid i obs = None \<longleftrightarrow> (\<forall>ob \<in> set obs. validateObservation ob = None)"
  by (induction obs arbitrary: i) (auto split: option.splits)

lemma serveRecord_changes:
  assumes "serveRecord rec decoded s = (reply, s')" and "s' \<noteq> s"
  shows "\<exists>req. decoded = Inr req \<and> s' = snd (rec s (rr_Observations req)) \<and> rr_Version req = historyVersion
    \<and> length (rr_Observations req) \<le> 10000 \<and> (\<forall>ob \<in> set (rr_Observations req). validateObservation ob = None)"
  using assms firstInvalid_None
  by (auto simp: serveRecord_def split: sum.splits if_splits option.splits prod.splits)

text \<open>
  C27. The service guards its store. A request without the token is answered with status 401 and changes nothing, and whatever is
  sent, the store changes only by recording, on an authorized request to the record path, at most ten
  thousand observations that are all valid.
\<close>

theorem handler_guards_store:
  assumes served: "handler h lookup rec api r s = (reply, s')"
  shows "(as_token api \<noteq> [] \<and> rq_Path r \<noteq> ''/healthz'' \<and> \<not> authorized (as_token api) r \<longrightarrow> re_Status reply = 401 \<and> s' = s)
    \<and> (s' \<noteq> s \<longrightarrow> (as_token api = [] \<or> authorized (as_token api) r) \<and> rq_Method r = ''POST'' \<and> rq_Path r = RecordPath
         \<and> (\<exists>obs. s' = snd (rec s obs) \<and> length obs \<le> 10000 \<and> (\<forall>ob \<in> set obs. validateObservation ob = None)))"
proof
  show "as_token api \<noteq> [] \<and> rq_Path r \<noteq> ''/healthz'' \<and> \<not> authorized (as_token api) r \<longrightarrow> re_Status reply = 401 \<and> s' = s"
    using served by (auto simp: handler_def)
  show "s' \<noteq> s \<longrightarrow> (as_token api = [] \<or> authorized (as_token api) r) \<and> rq_Method r = ''POST'' \<and> rq_Path r = RecordPath
         \<and> (\<exists>obs. s' = snd (rec s obs) \<and> length obs \<le> 10000 \<and> (\<forall>ob \<in> set obs. validateObservation ob = None))"
  proof
    assume changed: "s' \<noteq> s"
    then have route: "rq_Method r = ''POST''" "rq_Path r = RecordPath"
      and via: "serveRecord rec (decodeRequest (as_decodeRecord api) (as_decodeMore api) (rq_Body r)) s = (reply, s')"
      using served by (auto simp: handler_def muxHandler_def split: if_splits)
    have "as_token api = [] \<or> authorized (as_token api) r"
      using served changed route by (auto simp: handler_def RecordPath_def split: if_splits)
    then show "(as_token api = [] \<or> authorized (as_token api) r) \<and> rq_Method r = ''POST'' \<and> rq_Path r = RecordPath
         \<and> (\<exists>obs. s' = snd (rec s obs) \<and> length obs \<le> 10000 \<and> (\<forall>ob \<in> set obs. validateObservation ob = None))"
      using route serveRecord_changes [OF via changed] by blast
  qed
qed

theorem handler_guards_store_witness:
  "\<exists>reply s'. handler sampleHashing (\<lambda>n keys k. Inr []) (\<lambda>n obs. (None, n + length obs)) sampleApi
      \<lparr>rq_Method = ''POST'', rq_Path = RecordPath, rq_Authorization = ''Bearer x'', rq_Body = ''{}''\<rparr> (0 :: nat) = (reply, s')
    \<and> re_Status reply = 401 \<and> s' = 0"
proof -
  let ?r = "\<lparr>rq_Method = ''POST'', rq_Path = RecordPath, rq_Authorization = ''Bearer x'', rq_Body = ''{}''\<rparr>"
  obtain reply s' where served: "handler sampleHashing (\<lambda>n keys k. Inr []) (\<lambda>n obs. (None, n + length obs)) sampleApi ?r (0 :: nat) = (reply, s')"
    by (cases "handler sampleHashing (\<lambda>n keys k. Inr []) (\<lambda>n obs. (None, n + length obs)) sampleApi ?r (0 :: nat)")
  moreover have "as_token sampleApi \<noteq> []" "\<not> authorized (as_token sampleApi) ?r" "RecordPath \<noteq> ''/healthz''"
    by (simp_all add: sampleApi_def authorized_def CutPrefix_Some_iff RecordPath_def)
  ultimately show ?thesis using handler_guards_store [OF served] by auto
qed

section \<open>Scope identifiers\<close>

text \<open>
  \<open>parseUUID\<close> removes every dash before it decodes, so it accepts strings with dashes in the place of digits.
\<close>

lemma parseUUID_accepts_dashes:
  "parseUUID (''12345678-1234-1234-1234-'' @ replicate 12 (CHR ''-'')) \<noteq> Inl ''want UUID''"
  by (simp add: parseUUID_def isHexDigit_def eval_nat_numeral)

lemma parseUUID_plain:
  assumes "length a = 8" "length b = 4" "length c = 4" "length d = 4" "length e = 12" "\<forall>x \<in> set (a @ b @ c @ d @ e). lowerHex x"
  shows "\<exists>u. parseUUID (a @ ''-'' @ b @ ''-'' @ c @ ''-'' @ d @ ''-'' @ e) = Inr u \<and> hexEncode u = a @ b @ c @ d @ e"
proof -
  let ?v = "a @ ''-'' @ b @ ''-'' @ c @ ''-'' @ d @ ''-'' @ e"
  have keep: "filter (\<lambda>c. c \<noteq> CHR ''-'') xs = xs" if "\<forall>x \<in> set xs. lowerHex x" for xs
    using that by (auto simp: filter_id_conv lowerHex_def)
  have hex: "filter (\<lambda>c. c \<noteq> CHR ''-'') ?v = a @ b @ c @ d @ e" using assms(6) by (simp add: keep)
  obtain u where u: "hexDecode (a @ b @ c @ d @ e) = Some u" "hexEncode u = a @ b @ c @ d @ e"
    using hexEncode_hexDecode [of "a @ b @ c @ d @ e"] assms by auto
  have len: "length u = 16" using arg_cong [OF u(2), of length] assms by simp
  have dashes: "length ?v = 36" "?v ! 8 = CHR ''-''" "?v ! 13 = CHR ''-''" "?v ! 18 = CHR ''-''" "?v ! 23 = CHR ''-''"
    using assms by (simp_all add: nth_append)
  show ?thesis unfolding parseUUID_def hex using dashes u len by simp
qed

end
