(* ===== verification/Test_Pool.thy ===== *)
theory Test_Pool
  imports Fleet
begin

text \<open>
  \<open>runAllTests\<close> of a run without helpers (\<open>gotst.go\<close>): a feeder, up to \<open>-j\<close> workers and a collector, connected by the channels
  \<open>work\<close> and \<open>results\<close>. Each select of the goroutines is one step, taken in any order the channels allow. What a test
  returns is left open: the properties hold for whatever \<open>runTest\<close> returns, and \<open>runTest\<close> may change the server in every
  way but one: only \<open>triggerFailFast\<close> cancels the run.
\<close>

section \<open>Before the workers start\<close>

definition runTasks :: "hashing \<Rightarrow> platform \<Rightarrow> flags \<Rightarrow> (histKey list \<Rightarrow> int \<Rightarrow> string + (string, History) gomap) \<Rightarrow> time \<Rightarrow> Server
    \<Rightarrow> (testTask list \<times> Server) option" where
  "runTasks h pf fl lookup now s =
     (case allTestTasks now s of
        None \<Rightarrow> None
      | Some (tasks, s1) \<Rightarrow>
          let s2 = loadHistory h pf fl lookup tasks s1;
              ordered = orderTestTasksByHistory h pf fl s2 tasks
          in Some (ordered, prepareTestEstimates h pf fl ordered s2))"

section \<open>Feeder, workers and collector\<close>

text \<open>\<open>po_done\<close> is a history variable: the tasks that were run and what \<open>runTest\<close> returned.\<close>

record pool =
  po_srv :: Server
  po_pending :: "testTask list"
  po_feeding :: bool
  po_idle :: nat
  po_busy :: "testTask list"
  po_exited :: nat
  po_results :: "(testErr option \<times> bool) list"
  po_open :: bool
  po_failed :: nat
  po_infra :: "string list"
  po_done :: "(testTask \<times> testErr option) list"

definition startPool :: "flags \<Rightarrow> testTask list \<Rightarrow> Server \<Rightarrow> pool" where
  "startPool fl tasks s =
     \<lparr>po_srv = s, po_pending = tasks, po_feeding = True, po_idle = min (nat (jobs fl)) (length tasks), po_busy = [], po_exited = 0,
      po_results = [], po_open = True, po_failed = 0, po_infra = [], po_done = []\<rparr>"

definition isExit :: "testErr option \<Rightarrow> bool" where
  "isExit err = (case err of Some (ErrExit _) \<Rightarrow> True | _ \<Rightarrow> False)"

text \<open>What a worker does with the error of \<open>runTest\<close>: whether the failure is the primary one, and the server.\<close>

definition reportFailure :: "flags \<Rightarrow> testErr option \<Rightarrow> Server \<Rightarrow> bool \<times> Server" where
  "reportFailure fl err s = (if failFast fl \<and> isExit err then triggerFailFast s else (False, s))"

definition collectResult :: "flags \<Rightarrow> Server \<Rightarrow> testErr option \<times> bool \<Rightarrow> nat \<times> string list \<Rightarrow> nat \<times> string list" where
  "collectResult fl s result acc =
     (case (result, acc) of ((err, primary), (failed, infra)) \<Rightarrow>
        (case err of
           None \<Rightarrow> acc
         | Some e \<Rightarrow>
             if failFast fl \<and> sv_failFastTriggered s \<and> \<not> primary then acc
             else if isExit err then (Suc failed, infra)
             else (failed, infra @ [errText e])))"

definition poolDone :: "pool \<Rightarrow> bool" where
  "poolDone p \<longleftrightarrow> \<not> po_open p \<and> po_results p = []"

definition poolResult :: "pool \<Rightarrow> runError option" where
  "poolResult p =
     (if po_infra p \<noteq> [] then Some (RunInfra (po_infra p))
      else if po_failed p > 0 then Some (RunFailed (int (po_failed p))) else None)"

text \<open>
  What running a test leaves alone: the directories and binaries, the names of the listed tests, the profile, and the state of
  fail-fast, of the phases and of the debug passes. \<open>runTest_frame\<close> below shows that \<open>runTest\<close> does, the context apart, which only \<open>triggerFailFast\<close>
  cancels.
\<close>

definition shape :: "Server \<Rightarrow> (string \<times> string \<times> gopath \<times> string list \<times> string list) list" where
  "shape s = map (\<lambda>(pkg, ps). (pkg, ps_exeHash ps, ps_workDir ps, ps_exeArgs ps, gokeys (testsOf ps))) (sv_pkgs s)"

definition sameRun :: "Server \<Rightarrow> Server \<Rightarrow> bool" where
  "sameRun s s' \<longleftrightarrow> sv_canceled s' = sv_canceled s \<and> sv_failFastTriggered s' = sv_failFastTriggered s
     \<and> sv_cacheDir s' = sv_cacheDir s \<and> sv_profile s' = sv_profile s \<and> sv_debugPass s' = sv_debugPass s
     \<and> sv_debugMisses s' = sv_debugMisses s \<and> sv_phaseStarts s' = sv_phaseStarts s \<and> (sv_testCache s' = None \<longleftrightarrow> sv_testCache s = None)
     \<and> shape s' = shape s"

inductive pool_step :: "flags \<Rightarrow> pool \<Rightarrow> pool \<Rightarrow> bool" for fl where
  hand_out: "po_pending p = task # rest \<Longrightarrow> po_idle p = Suc n \<Longrightarrow>
    pool_step fl p (p\<lparr>po_pending := rest, po_idle := n, po_busy := task # po_busy p\<rparr>)"
| feeder_canceled: "po_feeding p \<Longrightarrow> sv_canceled (po_srv p) \<Longrightarrow> pool_step fl p (p\<lparr>po_pending := [], po_feeding := False\<rparr>)"
| feeder_done: "po_feeding p \<Longrightarrow> po_pending p = [] \<Longrightarrow> pool_step fl p (p\<lparr>po_feeding := False\<rparr>)"
| worker_leaves: "po_idle p = Suc n \<Longrightarrow> \<not> po_feeding p \<or> sv_canceled (po_srv p) \<Longrightarrow>
    pool_step fl p (p\<lparr>po_idle := n, po_exited := Suc (po_exited p)\<rparr>)"
| test_returns: "po_busy p = before @ task # after \<Longrightarrow> sameRun (po_srv p) s \<Longrightarrow> reportFailure fl err s = (primary, s') \<Longrightarrow>
    pool_step fl p (p\<lparr>po_srv := s', po_busy := before @ after, po_idle := Suc (po_idle p),
                      po_results := po_results p @ [(err, primary)], po_done := po_done p @ [(task, err)]\<rparr>)"
| results_closed: "po_open p \<Longrightarrow> po_idle p = 0 \<Longrightarrow> po_busy p = [] \<Longrightarrow> pool_step fl p (p\<lparr>po_open := False\<rparr>)"
| collected: "po_results p = r # rs \<Longrightarrow> collectResult fl (po_srv p) r (po_failed p, po_infra p) = (failed, infra) \<Longrightarrow>
    pool_step fl p (p\<lparr>po_results := rs, po_failed := failed, po_infra := infra\<rparr>)"

inductive_cases pool_stepE: "pool_step fl p q"

abbreviation pool_reach :: "flags \<Rightarrow> testTask list \<Rightarrow> Server \<Rightarrow> pool \<Rightarrow> bool" where
  "pool_reach fl tasks s \<equiv> reach (\<lambda>p. p = startPool fl tasks s) (pool_step fl)"

text \<open>\<open>runAllTests\<close>: an outcome of the whole run, the tests it ran with their errors, and the server after it.\<close>

inductive runAllTests :: "hashing \<Rightarrow> platform \<Rightarrow> flags \<Rightarrow> (histKey list \<Rightarrow> int \<Rightarrow> string + (string, History) gomap) \<Rightarrow> time \<Rightarrow> Server
    \<Rightarrow> runError option \<Rightarrow> (testTask \<times> testErr option) list \<Rightarrow> Server \<Rightarrow> bool" for h pf fl lookup now s where
  no_binaries: "capturedTestBinaries s = [] \<Longrightarrow> runAllTests h pf fl lookup now s None [] s"
| pool_run: "capturedTestBinaries s \<noteq> [] \<Longrightarrow> runTasks h pf fl lookup now s = Some (tasks, s1) \<Longrightarrow> pool_reach fl tasks s1 p \<Longrightarrow> poolDone p
    \<Longrightarrow> runAllTests h pf fl lookup now s (poolResult p) (po_done p) (po_srv p)"

section \<open>The invariant\<close>

definition someError :: "(testTask \<times> testErr option) list \<Rightarrow> bool" where
  "someError done' \<longleftrightarrow> (\<exists>(t, e) \<in> set done'. e \<noteq> None)"

text \<open>No task is lost or repeated; tasks are dropped only after a cancellation.\<close>

definition tasksOK :: "testTask list \<Rightarrow> pool \<Rightarrow> bool" where
  "tasksOK tasks p \<longleftrightarrow>
     (\<exists>dropped. mset (map fst (po_done p)) + mset (po_busy p) + mset (po_pending p) + dropped = mset tasks
        \<and> (dropped \<noteq> {#} \<longrightarrow> sv_canceled (po_srv p)))"

definition crewOK :: "nat \<Rightarrow> pool \<Rightarrow> bool" where
  "crewOK w p \<longleftrightarrow> po_idle p + length (po_busy p) + po_exited p = w
     \<and> (\<not> po_feeding p \<longrightarrow> po_pending p = [])
     \<and> (0 < po_exited p \<longrightarrow> \<not> po_feeding p \<or> sv_canceled (po_srv p))
     \<and> (\<not> po_open p \<longrightarrow> po_idle p = 0 \<and> po_busy p = [])"

text \<open>An error is pending, counted, or overruled by the primary failure, which itself is pending or counted.\<close>

definition errorsOK :: "flags \<Rightarrow> pool \<Rightarrow> bool" where
  "errorsOK fl p \<longleftrightarrow>
     (sv_canceled (po_srv p) \<longrightarrow> sv_failFastTriggered (po_srv p))
     \<and> (sv_failFastTriggered (po_srv p) \<longrightarrow> 0 < po_failed p \<or> (\<exists>e. isExit e \<and> (e, True) \<in> set (po_results p)))
     \<and> (someError (po_done p) \<longrightarrow> sv_failFastTriggered (po_srv p) \<or> 0 < po_failed p \<or> po_infra p \<noteq> [] \<or> (\<exists>r \<in> set (po_results p). fst r \<noteq> None))
     \<and> (0 < po_failed p \<or> po_infra p \<noteq> [] \<or> (\<exists>r \<in> set (po_results p). fst r \<noteq> None) \<longrightarrow> someError (po_done p))"

text \<open>Without \<open>-fail-fast\<close> nothing is cancelled and every error is counted, in the order the tests returned.\<close>

definition infraTexts :: "testErr option list \<Rightarrow> string list" where
  "infraTexts errs = map errText (filter (\<lambda>e. \<not> isExit (Some e)) (map the (filter (\<lambda>e. e \<noteq> None) errs)))"

definition countsOK :: "flags \<Rightarrow> pool \<Rightarrow> bool" where
  "countsOK fl p \<longleftrightarrow> (\<not> failFast fl \<longrightarrow>
     \<not> sv_canceled (po_srv p)
     \<and> po_failed p + length (filter isExit (map fst (po_results p))) = length (filter isExit (map snd (po_done p)))
     \<and> po_infra p @ infraTexts (map fst (po_results p)) = infraTexts (map snd (po_done p)))"

text \<open>With \<open>-fail-fast\<close> exactly one failure is primary, and only it is counted as a failed test.\<close>

definition failFastOK :: "flags \<Rightarrow> pool \<Rightarrow> bool" where
  "failFastOK fl p \<longleftrightarrow> (failFast fl \<longrightarrow>
     po_failed p + length (filter snd (po_results p)) = (if sv_failFastTriggered (po_srv p) then 1 else 0)
     \<and> (\<forall>(e, primary) \<in> set (po_results p). (primary \<longrightarrow> isExit e) \<and> (isExit e \<longrightarrow> sv_failFastTriggered (po_srv p)))
     \<and> ((\<exists>(t, e) \<in> set (po_done p). isExit e) \<longleftrightarrow> sv_failFastTriggered (po_srv p)))"

definition poolOK :: "flags \<Rightarrow> testTask list \<Rightarrow> pool \<Rightarrow> bool" where
  "poolOK fl tasks p \<longleftrightarrow> tasksOK tasks p \<and> crewOK (min (nat (jobs fl)) (length tasks)) p \<and> errorsOK fl p
     \<and> countsOK fl p \<and> failFastOK fl p"

lemma reportFailure_cases:
  "reportFailure fl err s = (primary, s') \<Longrightarrow>
   (\<not> primary \<and> s' = s)
   \<or> (primary \<and> isExit err \<and> failFast fl \<and> \<not> sv_failFastTriggered s \<and> sv_failFastTriggered s' \<and> sv_canceled s')"
  by (auto simp: reportFailure_def triggerFailFast_def split: if_splits)

lemma tasksOK_step:
  assumes "tasksOK tasks p" and "pool_step fl p q"
  shows "tasksOK tasks q"
proof -
  obtain dropped where d: "mset (map fst (po_done p)) + mset (po_busy p) + mset (po_pending p) + dropped = mset tasks"
    "dropped \<noteq> {#} \<longrightarrow> sv_canceled (po_srv p)" using assms(1) by (auto simp: tasksOK_def)
  from assms(2) show ?thesis
  proof cases
    case (feeder_canceled)
    then show ?thesis using d by (auto simp: tasksOK_def ac_simps intro!: exI [of _ "dropped + mset (po_pending p)"])
  next
    case (test_returns before task after s err primary s')
    have "sv_canceled (po_srv p) \<longrightarrow> sv_canceled s'"
      using test_returns(3,4) reportFailure_cases [OF test_returns(4)] by (auto simp: sameRun_def)
    then show ?thesis using d test_returns(1,2) by (auto simp: tasksOK_def ac_simps intro!: exI [of _ dropped])
  qed (use d in \<open>auto simp: tasksOK_def ac_simps intro!: exI [of _ dropped]\<close>)
qed

lemma crewOK_step:
  assumes "crewOK w p" and "pool_step fl p q"
  shows "crewOK w q"
  using assms(2)
proof cases
  case (test_returns before task after s err primary s')
  have "sv_canceled (po_srv p) \<longrightarrow> sv_canceled s'"
    using test_returns(3,4) reportFailure_cases [OF test_returns(4)] by (auto simp: sameRun_def)
  then show ?thesis using assms(1) test_returns(1,2) by (auto simp: crewOK_def)
qed (use assms(1) in \<open>auto simp: crewOK_def\<close>)

lemma someError_simps [simp]:
  "\<not> someError []" "someError (ds @ [(t, e)]) \<longleftrightarrow> someError ds \<or> e \<noteq> None"
  by (auto simp: someError_def)

lemma collectResult_cases:
  assumes "collectResult fl s (err, primary) (failed, infra) = (failed', infra')"
  shows "(err = None \<and> failed' = failed \<and> infra' = infra)
    \<or> (err \<noteq> None \<and> sv_failFastTriggered s \<and> \<not> primary \<and> failed' = failed \<and> infra' = infra)
    \<or> (isExit err \<and> failed' = Suc failed \<and> infra' = infra)
    \<or> (err \<noteq> None \<and> \<not> isExit err \<and> failed' = failed \<and> infra' \<noteq> [])"
  using assms by (auto simp: collectResult_def split: option.splits if_splits)

lemma isExit_error: "isExit err \<Longrightarrow> err \<noteq> None"
  by (auto simp: isExit_def split: option.splits)

lemma errorsOK_step:
  assumes "errorsOK fl p" and "pool_step fl p q"
  shows "errorsOK fl q"
  using assms(2)
proof cases
  case (test_returns before task after s err primary s')
  have "sv_canceled s = sv_canceled (po_srv p)" "sv_failFastTriggered s = sv_failFastTriggered (po_srv p)"
    using test_returns(3) by (auto simp: sameRun_def)
  with assms(1) reportFailure_cases [OF test_returns(4)] show ?thesis
    unfolding test_returns(1) errorsOK_def by (auto dest: isExit_error)
next
  case (collected r rs failed infra)
  obtain err primary where r: "r = (err, primary)" by (cases r)
  from assms(1) collected(2) r collectResult_cases [OF collected(3) [unfolded r]] show ?thesis
    unfolding collected(1) errorsOK_def by (auto dest: isExit_error)
qed (use assms(1) in \<open>auto simp: errorsOK_def\<close>)

lemma infraTexts_simps [simp]:
  "infraTexts [] = []"
  "infraTexts (None # es) = infraTexts es"
  "infraTexts (Some e # es) = (if isExit (Some e) then infraTexts es else errText e # infraTexts es)"
  "infraTexts (es @ es') = infraTexts es @ infraTexts es'"
  by (simp_all add: infraTexts_def)

lemma isExit_None [simp]: "\<not> isExit None"
  by (simp add: isExit_def)

lemma countsOK_step:
  assumes "countsOK fl p" and "pool_step fl p q"
  shows "countsOK fl q"
  using assms(2)
proof cases
  case (test_returns before task after s err primary s')
  with assms(1) show ?thesis
    by (auto simp: countsOK_def sameRun_def reportFailure_def)
next
  case (collected r rs failed infra)
  obtain err primary where r: "r = (err, primary)" by (cases r)
  from assms(1) collected(1,2) collected(3) [unfolded r] r show ?thesis
    by (cases err) (auto simp: countsOK_def collectResult_def split: if_splits)
qed (use assms(1) in \<open>auto simp: countsOK_def\<close>)

lemma failFastOK_step:
  assumes "failFastOK fl p" and "pool_step fl p q"
  shows "failFastOK fl q"
  using assms(2)
proof cases
  case (test_returns before task after s err primary s')
  with assms(1) show ?thesis
    by (auto simp: failFastOK_def sameRun_def reportFailure_def triggerFailFast_def split: if_splits)
next
  case (collected r rs failed infra)
  obtain err primary where r: "r = (err, primary)" by (cases r)
  from assms(1) collected(1,2) collected(3) [unfolded r] r show ?thesis
    by (auto simp: failFastOK_def collectResult_def split: if_splits option.splits)
qed (use assms(1) in \<open>auto simp: failFastOK_def\<close>)

text \<open>A run starts with nothing cancelled and, as \<open>main\<close> checks, with at least one job.\<close>

definition poolStart :: "flags \<Rightarrow> testTask list \<Rightarrow> pool \<Rightarrow> bool" where
  "poolStart fl tasks p \<longleftrightarrow>
     1 \<le> jobs fl \<and> (\<exists>s. p = startPool fl tasks s \<and> \<not> sv_canceled s \<and> \<not> sv_failFastTriggered s)"

interpretation pool_run: invariant_system "poolStart fl tasks" "pool_step fl" "poolOK fl tasks" for fl tasks
proof unfold_locales
  show "poolStart fl tasks p \<Longrightarrow> poolOK fl tasks p" for p
    by (auto simp: poolStart_def startPool_def poolOK_def tasksOK_def crewOK_def errorsOK_def countsOK_def failFastOK_def)
  show "poolOK fl tasks p \<Longrightarrow> pool_step fl p q \<Longrightarrow> poolOK fl tasks q" for p q
    unfolding poolOK_def by (blast intro: tasksOK_step crewOK_step errorsOK_step countsOK_step failFastOK_step)
qed

lemma pool_reach_OK:
  assumes "1 \<le> jobs fl" and "\<not> sv_canceled s" and "\<not> sv_failFastTriggered s" and "pool_reach fl tasks s p"
  shows "poolOK fl tasks p"
proof -
  have "reach (poolStart fl tasks) (pool_step fl) p"
    using assms(4) by induction (use assms(1-3) in \<open>auto simp: poolStart_def intro: reach.intros\<close>)
  then show ?thesis by (rule pool_run.reach_inv)
qed

text \<open>When the collector's loop is over every worker has left, so nothing is pending unless the run was cancelled.\<close>

lemma poolDone_tasks:
  assumes "poolOK fl tasks p" and "poolDone p" and "1 \<le> jobs fl" and "\<not> sv_canceled (po_srv p)"
  shows "mset (map fst (po_done p)) = mset tasks"
proof -
  from assms(1,2,4) have w: "po_exited p = min (nat (jobs fl)) (length tasks)" "po_busy p = []"
    "0 < po_exited p \<longrightarrow> po_pending p = []"
    by (auto simp: poolOK_def crewOK_def poolDone_def)
  from assms(1,4) w(2) have t: "mset (map fst (po_done p)) + mset (po_pending p) = mset tasks"
    by (auto simp: poolOK_def tasksOK_def)
  show ?thesis
  proof (cases "tasks = []")
    case True
    with t show ?thesis by simp
  next
    case False
    with w(1) assms(3) have "0 < po_exited p" by simp
    with w(3) t show ?thesis by simp
  qed
qed

lemma poolDone_result:
  assumes "errorsOK fl p" and "poolDone p"
  shows "poolResult p = None \<longleftrightarrow> \<not> someError (po_done p)"
    and "poolResult p = None \<Longrightarrow> \<not> sv_canceled (po_srv p)"
  using assms by (auto simp: errorsOK_def poolDone_def poolResult_def split: if_splits)

section \<open>Termination\<close>

definition poolWork :: "pool \<Rightarrow> nat" where
  "poolWork p = 3 * length (po_pending p) + 3 * length (po_busy p) + po_idle p + length (po_results p)
     + (if po_feeding p then 1 else 0) + (if po_open p then 1 else 0)"

lemma pool_step_work:
  assumes "pool_step fl p q"
  shows "poolWork q < poolWork p"
  using assms by cases (auto simp: poolWork_def)

lemma pool_progress:
  assumes "\<not> poolDone p"
  obtains q where "pool_step fl p q"
proof (cases "po_results p")
  case (Cons r rs)
  obtain failed infra where "collectResult fl (po_srv p) r (po_failed p, po_infra p) = (failed, infra)" by fastforce
  from pool_step.collected [OF Cons this] show ?thesis by (rule that)
next
  case Nil
  with assms have o: "po_open p" by (simp add: poolDone_def)
  show ?thesis
  proof (cases "po_busy p")
    case (Cons t ts)
    obtain primary s' where r: "reportFailure fl None (po_srv p) = (primary, s')" by fastforce
    have "po_busy p = [] @ t # ts" using Cons by simp
    from pool_step.test_returns [OF this _ r] show ?thesis by (rule that) (simp add: sameRun_def)
  next
    case idle: Nil
    show ?thesis
    proof (cases "po_idle p")
      case 0
      from pool_step.results_closed [OF o 0 idle] show ?thesis by (rule that)
    next
      case (Suc n)
      show ?thesis
      proof (cases "po_pending p")
        case (Cons t ts)
        from pool_step.hand_out [OF this Suc] show ?thesis by (rule that)
      next
        case empty: Nil
        show ?thesis
          using pool_step.feeder_done [OF _ empty] pool_step.worker_leaves [OF Suc] that by blast
      qed
    qed
  qed
qed

lemma pool_reach_done:
  assumes "pool_reach fl tasks s p"
  shows "\<exists>q. pool_reach fl tasks s q \<and> poolDone q"
  using assms
proof (induction "poolWork p" arbitrary: p rule: less_induct)
  case less
  show ?case
  proof (cases "poolDone p")
    case False
    then obtain q where q: "pool_step fl p q" by (rule pool_progress)
    from less.hyps [OF pool_step_work [OF q] reach_step [OF less.prems q]] show ?thesis .
  qed (use less.prems in blast)
qed

section \<open>Running a test keeps the run\<close>

definition exitSrv :: "loopExit \<Rightarrow> Server" where
  "exitSrv x = (case x of Returned e s \<Rightarrow> s | Broke rl \<Rightarrow> rl_srv rl)"

text \<open>A relation that is kept by every operation on the server that \<open>runTest\<close> composes is kept by \<open>runTest\<close>.\<close>

locale server_frame =
  fixes R :: "Server \<Rightarrow> Server \<Rightarrow> bool"
  assumes R_refl: "R s s" and R_trans: "R s t \<Longrightarrow> R t u \<Longrightarrow> R s u"
    and R_attempt: "recordTestAttempt task s = Some s' \<Longrightarrow> R s s'"
    and R_attrs: "recordTestAttrs task attrs s = Some s' \<Longrightarrow> R s s'"
    and R_stop: "stopRunningTest now task s = Some s' \<Longrightarrow> R s s'"
    and R_start: "startTest now task s = Some s' \<Longrightarrow> R s s'"
    and R_finish: "finishTestLocked now task passed d failures err cached s = Some s' \<Longrightarrow> R s s'"
    and R_history: "recordHistory h pf fl now i task outcome d n deps s = Some s' \<Longrightarrow> R s s'"
    and R_canceled: "R s (s\<lparr>sv_canceled := canceled\<rparr>)"
    and R_seed: "R s (setDebugSeedError h key reason s)"
    and R_cache: "sv_testCache s \<noteq> None \<Longrightarrow> R s (s\<lparr>sv_testCache := Some c\<rparr>)"
    and R_counts: "R s (s\<lparr>sv_cacheChecks := a\<rparr>)" "R s (s\<lparr>sv_cacheHits := b\<rparr>)"
begin

lemma frame_attempt:
  assumes "attemptStep env task key args rep retry rl = Some (a, rl')"
  shows "R (rl_srv rl) (rl_srv rl')"
proof -
  from assms obtain s1 s2 s3 where s: "runTestAttempt env task key args rep retry (rl_srv rl) = Some (a, s1)"
    "recordTestAttrs task (at_attrs a) s1 = Some s2" "recordTestAttempt task s2 = Some s3" "rl_srv rl' = s3"
    by (auto simp: attemptStep_def split: option.splits prod.splits)
  from s(1) have "R (rl_srv rl) s1"
    by (auto simp: runTestAttempt_def Let_def intro: R_refl R_canceled R_seed split: if_splits option.splits sum.splits)
  with R_attrs [OF s(2)] R_attempt [OF s(3)] s(4) show ?thesis by (blast intro: R_trans)
qed

lemma frame_giveUp: "giveUp env task e rl = Some x \<Longrightarrow> R (rl_srv rl) (exitSrv x)"
  by (auto simp: giveUp_def exitSrv_def split: option.splits intro: R_trans [OF R_finish R_history])

lemma frame_retry:
  assumes "retryLoop env task key args rep retry rl = Some x"
  shows "R (rl_srv rl) (exitSrv x)"
proof (rule retryLoop.raw_induct [where P = "\<lambda>env task key args rep retry rl x. R (rl_srv rl) (exitSrv x)", OF _ assms], goal_cases)
  case (1 loop env task key args rep retry rl x)
  from 1(2) obtain a rl' where a: "attemptStep env task key args rep retry rl = Some (a, rl')"
    by (auto split: Option.bind_splits)
  have r: "R (rl_srv rl) (rl_srv rl')" by (rule frame_attempt [OF a])
  show ?case
  proof (cases "at_err a")
    case None
    with 1(2) a r show ?thesis by (auto simp: exitSrv_def split: if_splits)
  next
    case (Some e)
    let ?rl = "rl'\<lparr>rl_failures := rl_failures rl' @ [\<lparr>fail_dur = at_d a, fail_out = at_output a\<rparr>]\<rparr>"
    consider "map_option (Returned ErrCanceled) (stopRunningTest (re_now env) task (rl_srv rl')) = Some x"
      | "giveUp env task e ?rl = Some x" | "loop env task key args rep (Suc retry) ?rl = Some x"
      using 1(2) a Some by (auto split: if_splits)
    then show ?thesis
    proof cases
      assume "map_option (Returned ErrCanceled) (stopRunningTest (re_now env) task (rl_srv rl')) = Some x"
      then show ?thesis using R_trans [OF r] R_stop by (auto simp: exitSrv_def)
    next
      assume "giveUp env task e ?rl = Some x"
      from R_trans [OF r] frame_giveUp [OF this] show ?thesis by simp
    next
      assume "loop env task key args rep (Suc retry) ?rl = Some x"
      from R_trans [OF r] 1(1) [OF this] show ?thesis by simp
    qed
  qed
qed

lemma frame_reps: "repLoop env task key args reps rl = Some x \<Longrightarrow> R (rl_srv rl) (exitSrv x)"
proof (induction reps arbitrary: rl)
  case Nil
  then show ?case by (auto simp: exitSrv_def intro: R_refl)
next
  case (Cons rep reps)
  from Cons.prems obtain y where y: "retryLoop env task key args rep 0 rl = Some y"
    by (auto split: option.splits)
  show ?case
  proof (cases y)
    case (Returned e s)
    with y Cons.prems frame_retry [OF y] show ?thesis by simp
  next
    case (Broke rl')
    with y Cons.prems have "R (rl_srv rl') (exitSrv x)" by (intro Cons.IH) simp
    with frame_retry [OF y] Broke show ?thesis by (auto simp: exitSrv_def intro: R_trans)
  qed
qed

lemma frame_store: "R s (storeResult env key rl s)"
  unfolding storeResult_def
  by (auto intro: R_refl R_seed R_cache R_trans [OF R_cache R_seed] split: option.split prod.split)

lemma frame_pass: "passTest env task key rl = Some s' \<Longrightarrow> R (rl_srv rl) s'"
  unfolding passTest_def by (auto split: option.splits intro: R_trans [OF R_trans [OF frame_store R_finish] R_history])

lemma frame_cached: "cachedResult env key s = (r, s') \<Longrightarrow> R s s'"
  unfolding cachedResult_def Let_def
  by (auto split: option.splits sum.splits if_splits intro: R_refl R_counts R_trans [OF R_counts(1) R_counts(2)])

lemma frame_runTest:
  assumes "runTest env task s = Some (res, s')"
  shows "R s s'"
proof (cases "sv_canceled s")
  case True
  with assms show ?thesis by (simp add: runTest_def R_refl)
next
  case False
  let ?key = "cacheKeyForTask (re_fl env) (sv_profile s) task"
  let ?args = "effectiveTestArgs (re_fl env) task (sv_profile s)"
  obtain c s1 where c: "cachedResult env ?key s = (c, s1)" by fastforce
  note r1 = frame_cached [OF c]
  consider "\<exists>d. finishTestLocked (re_now env) task True d [] None True s1 = Some s'"
    | "s' = s1\<lparr>sv_canceled := True\<rparr>"
    | s2 x where "startTest (re_now env) task s1 = Some s2"
        "repLoop env task ?key ?args [0..<nat (testCount (re_fl env))] (zeroLoop s2) = Some x"
        "exitSrv x = s' \<or> (\<exists>rl. x = Broke rl \<and> passTest env task ?key rl = Some s')"
    using assms False c by (auto simp: runTest_def exitSrv_def Let_def split: option.splits if_splits loopExit.splits)
  then show ?thesis
  proof cases
    case 1
    with R_trans [OF r1 R_finish] show ?thesis by blast
  next
    case 2
    with R_trans [OF r1 R_canceled] show ?thesis by simp
  next
    case 3
    have "R s (exitSrv x)"
      using R_trans [OF R_trans [OF r1 R_start [OF 3(1)]]] frame_reps [OF 3(2)] by (simp add: zeroLoop_def)
    with 3(3) show ?thesis by (auto simp: exitSrv_def dest: frame_pass intro: R_trans)
  qed
qed

end

lemma shape_update:
  assumes "map_of (sv_pkgs s) pkg = Some ps" and "ps_exeHash ps' = ps_exeHash ps" and "ps_workDir ps' = ps_workDir ps"
    and "ps_exeArgs ps' = ps_exeArgs ps" and "gokeys (testsOf ps') = gokeys (testsOf ps)"
  shows "shape (s\<lparr>sv_pkgs := AList.update pkg ps' (sv_pkgs s)\<rparr>) = shape s"
proof -
  let ?sh = "\<lambda>(pkg, ps). (pkg, ps_exeHash ps, ps_workDir ps, ps_exeArgs ps, gokeys (testsOf ps))"
  have "map_of m pkg = Some ps \<Longrightarrow> map ?sh (AList.update pkg ps' m) = map ?sh m" for m
    by (induction m) (use assms(2-5) in auto)
  with assms(1) show ?thesis by (simp add: shape_def)
qed

lemma sameRun_refl [simp]: "sameRun s s"
  by (simp add: sameRun_def)

lemma sameRun_trans: "sameRun s t \<Longrightarrow> sameRun t u \<Longrightarrow> sameRun s u"
  by (simp add: sameRun_def)

definition keepsShape :: "(packageStatus \<Rightarrow> packageStatus) \<Rightarrow> bool" where
  "keepsShape g \<longleftrightarrow> (\<forall>ps. ps_exeHash (g ps) = ps_exeHash ps \<and> ps_workDir (g ps) = ps_workDir ps \<and> ps_exeArgs (g ps) = ps_exeArgs ps
     \<and> ps_tests (g ps) = ps_tests ps)"

lemma sameRun_updTest:
  assumes "updTest pkg test f g s = Some s'" and "keepsShape g"
  shows "sameRun s s'"
proof -
  obtain ps ts where u: "map_of (sv_pkgs s) pkg = Some ps" "map_of (testsOf ps) test = Some ts"
    "s' = s\<lparr>sv_pkgs := AList.update pkg (g (ps\<lparr>ps_tests := Some (AList.update test (f ts) (testsOf ps))\<rparr>)) (sv_pkgs s)\<rparr>"
    using updTest_pkgs [OF assms(1)] by blast
  let ?ps' = "ps\<lparr>ps_tests := Some (AList.update test (f ts) (testsOf ps))\<rparr>"
  have "gokeys (testsOf (g ?ps')) = gokeys (testsOf ps)"
    using assms(2) gokeys_update_present [OF u(2)] by (simp add: keepsShape_def testsOf_def)
  then have "shape s' = shape s" unfolding u(3)
    by (intro shape_update [OF u(1)]) (use assms(2) in \<open>simp_all add: keepsShape_def\<close>)
  then show ?thesis by (simp add: sameRun_def u(3))
qed

lemma sameRun_fields:
  "sv_testCache s \<noteq> None \<Longrightarrow> sameRun s (s\<lparr>sv_testCache := Some c\<rparr>)" "sameRun s (s\<lparr>sv_cacheChecks := a\<rparr>)" "sameRun s (s\<lparr>sv_cacheHits := b\<rparr>)"
  "sameRun s (setDebugSeedError h key reason s)"
  "recordHistory h pf fl now i task outcome d n deps s = Some s' \<Longrightarrow> sameRun s s'"
  by (auto simp: sameRun_def shape_def setDebugSeedError_def recordHistory_def split: if_splits option.splits)

lemma sameRun_tests:
  "recordTestAttempt task s = Some s' \<Longrightarrow> sameRun s s'"
  "recordTestAttrs task attrs s = Some s' \<Longrightarrow> sameRun s s'"
  "stopRunningTest now task s = Some s' \<Longrightarrow> sameRun s s'"
  "startTest now task s = Some s' \<Longrightarrow> sameRun s s'"
  "finishTestLocked now task passed d failures err cached s = Some s' \<Longrightarrow> sameRun s s'"
  unfolding recordTestAttempt_def recordTestAttrs_def stopRunningTest_def startTest_def finishTestLocked_def
  by (auto split: if_splits elim!: sameRun_updTest simp: keepsShape_def finishPackage_def Let_def)

text \<open>The same but for the context, which the model of \<open>runTest\<close> marks cancelled when the environment cancels an attempt.\<close>

definition sameButContext :: "Server \<Rightarrow> Server \<Rightarrow> bool" where
  "sameButContext s s' \<longleftrightarrow> sameRun s (s'\<lparr>sv_canceled := sv_canceled s\<rparr>)"

lemma sameRun_weaken: "sameRun s s' \<Longrightarrow> sameButContext s s'"
  by (simp add: sameButContext_def sameRun_def shape_def)

interpretation run_frame: server_frame sameButContext
proof unfold_locales
  show "sameButContext s t \<Longrightarrow> sameButContext t u \<Longrightarrow> sameButContext s u" for s t u
    by (simp add: sameButContext_def sameRun_def shape_def)
  show "sameButContext s (s\<lparr>sv_canceled := canceled\<rparr>)" for s canceled
    by (simp add: sameButContext_def)
qed (auto intro: sameRun_weaken sameRun_tests sameRun_fields)

lemma runTest_frame: "runTest env task s = Some (res, s') \<Longrightarrow> sameRun s (s'\<lparr>sv_canceled := sv_canceled s\<rparr>)"
  using run_frame.frame_runTest by (simp add: sameButContext_def)

section \<open>The tasks of the run\<close>

lemma binTasks_sameRun:
  "foldO (binTasks now) bins (acc, s) = Some (tasks, s') \<Longrightarrow> sameRun s s'"
proof (induction bins arbitrary: acc s)
  case Nil
  then show ?case by simp
next
  case (Cons bin bins)
  from Cons.prems obtain acc1 s1 where b: "binTasks now bin (acc, s) = Some (acc1, s1)"
    "foldO (binTasks now) bins (acc1, s1) = Some (tasks, s')" by (auto split: option.splits)
  from b(1) have "sameRun s s1"
    by (auto simp: binTasks_def sameRun_def Let_def testsOf_def split: option.splits if_splits intro!: shape_update)
  from sameRun_trans [OF this Cons.IH [OF b(2)]] show ?case .
qed

lemma allTestTasks_returns:
  assumes "mapsOK s"
  obtains s' where "allTestTasks now s = Some (tasksOf s (capturedTestBinaries s), s')" and "sameRun s s'"
proof -
  have "\<forall>bin \<in> set (capturedTestBinaries s). map_of (sv_pkgs s) (bin_pkg bin) \<noteq> None"
    using capturedTestBinaries_set [OF assms] by auto
  from binTasks_fold [OF this, of s now "[]"] obtain s' where
    a: "allTestTasks now s = Some (tasksOf s (capturedTestBinaries s), s')"
    by (auto simp: allTestTasks_def)
  from that [OF a binTasks_sameRun [OF a [unfolded allTestTasks_def]]] show ?thesis .
qed

lemma runTasks_complete:
  assumes "mapsOK s"
  obtains tasks s1 where "runTasks h pf fl lookup now s = Some (tasks, s1)" and "mset tasks = mset (tasksOf s (capturedTestBinaries s))"
    and "sameRun s s1"
proof -
  obtain s' where a: "allTestTasks now s = Some (tasksOf s (capturedTestBinaries s), s')" "sameRun s s'"
    by (rule allTestTasks_returns [OF assms])
  let ?tasks = "tasksOf s (capturedTestBinaries s)"
  let ?s2 = "loadHistory h pf fl lookup ?tasks s'"
  let ?ordered = "orderTestTasksByHistory h pf fl ?s2 ?tasks"
  have "runTasks h pf fl lookup now s = Some (?ordered, prepareTestEstimates h pf fl ?ordered ?s2)"
    by (simp add: runTasks_def a(1) Let_def)
  then show ?thesis
  proof (rule that)
    show "mset ?ordered = mset ?tasks" by (simp add: orderTestTasksByHistory_def)
    have "sameRun s' ?s2" by (simp add: loadHistory_def sameRun_def shape_def Let_def split: sum.split)
    moreover have "sameRun ?s2 (prepareTestEstimates h pf fl ts ?s2)" for ts
      by (simp add: prepareTestEstimates_def sameRun_def shape_def Let_def split: prod.split)
    ultimately show "sameRun s (prepareTestEstimates h pf fl ?ordered ?s2)" using a(2) by (blast intro: sameRun_trans)
  qed
qed

lemma distinct_submset:
  assumes "distinct ys" and "mset xs \<subseteq># mset ys"
  shows "distinct xs"
proof -
  obtain zs where "mset zs = mset ys - mset xs" using ex_mset by blast
  with assms(2) have "mset (xs @ zs) = mset ys" by simp
  from mset_eq_imp_distinct_iff [OF this] assms(1) show ?thesis by simp
qed

lemma taskBefore_distinct: "sorted_wrt taskBefore tasks \<Longrightarrow> distinct tasks"
  by (induction tasks) (auto simp: taskBefore_def)

text \<open>The result that a list of errors stands for.\<close>

definition errorsResult :: "testErr option list \<Rightarrow> runError option" where
  "errorsResult errs =
     (if infraTexts errs \<noteq> [] then Some (RunInfra (infraTexts errs))
      else if filter isExit errs \<noteq> [] then Some (RunFailed (int (length (filter isExit errs)))) else None)"

lemma poolDone_counts:
  assumes "countsOK fl p" and "poolDone p" and "\<not> failFast fl"
  shows "poolResult p = errorsResult (map snd (po_done p))" and "\<not> sv_canceled (po_srv p)"
  using assms by (simp_all add: countsOK_def poolDone_def poolResult_def errorsResult_def flip: length_greater_0_conv)

lemma poolDone_failFast:
  assumes "failFastOK fl p" and "poolDone p" and "failFast fl" and "poolResult p = Some (RunFailed n)"
  shows "n = 1"
  using assms by (auto simp: failFastOK_def poolDone_def poolResult_def split: if_splits)

lemma runAllTests_ex:
  assumes "mapsOK s"
  shows "\<exists>res outs s'. runAllTests h pf fl lookup now s res outs s'"
proof (cases "capturedTestBinaries s = []")
  case False
  obtain tasks s1 where t: "runTasks h pf fl lookup now s = Some (tasks, s1)" by (rule runTasks_complete [OF assms])
  have "pool_reach fl tasks s1 (startPool fl tasks s1)" by (rule reach_start) simp
  from pool_reach_done [OF this] obtain q where "pool_reach fl tasks s1 q" "poolDone q" by blast
  from runAllTests.pool_run [OF False t this] show ?thesis by blast
qed (blast intro: runAllTests.no_binaries)

text \<open>A finished run is a finished pool; without binaries it is the empty one.\<close>

lemma runAllTests_pool:
  assumes "mapsOK s" and "1 \<le> jobs fl" and "\<not> sv_canceled s" and "\<not> sv_failFastTriggered s"
    and "runAllTests h pf fl lookup now s res outs s'"
  obtains tasks p where "mset tasks = mset (tasksOf s (capturedTestBinaries s))" and "poolOK fl tasks p" and "poolDone p"
    and "res = poolResult p" and "outs = po_done p"
  using assms(5)
proof cases
  case no_binaries
  let ?p = "(startPool fl [] s)\<lparr>po_open := False\<rparr>"
  show ?thesis
    by (rule that [of "[]" ?p]) (use no_binaries assms(3,4) in \<open>simp_all add: startPool_def tasksOf_def poolOK_def tasksOK_def
      crewOK_def errorsOK_def countsOK_def failFastOK_def poolDone_def poolResult_def\<close>)
next
  case (pool_run tasks s1 p)
  from runTasks_complete [OF assms(1)] pool_run(5) have t: "mset tasks = mset (tasksOf s (capturedTestBinaries s))" "sameRun s s1"
    by (metis option.inject prod.inject)+
  have "poolOK fl tasks p"
    by (rule pool_reach_OK [OF assms(2) _ _ pool_run(6)]) (use t(2) assms(3,4) in \<open>auto simp: sameRun_def\<close>)
  from that [OF t(1) this pool_run(7,1,2)] show ?thesis .
qed

lemma runAllTests_success:
  assumes "mapsOK s" and "1 \<le> jobs fl" and "\<not> sv_canceled s" and "\<not> sv_failFastTriggered s"
    and "runAllTests h pf fl lookup now s res outs s'"
  shows "res = None \<longleftrightarrow> mset (map fst outs) = mset (tasksOf s (capturedTestBinaries s)) \<and> (\<forall>e \<in> set (map snd outs). e = None)"
proof -
  obtain tasks p where p: "mset tasks = mset (tasksOf s (capturedTestBinaries s))" "poolOK fl tasks p" "poolDone p"
    "res = poolResult p" "outs = po_done p" by (rule runAllTests_pool [OF assms])
  have e: "errorsOK fl p" using p(2) by (simp add: poolOK_def)
  have "someError outs \<longleftrightarrow> \<not> (\<forall>e \<in> set (map snd outs). e = None)" by (force simp: someError_def)
  with poolDone_result [OF e p(3)] poolDone_tasks [OF p(2,3) assms(2)] p(1,4,5) show ?thesis by metis
qed

section \<open>Properties\<close>

text \<open>
  C10. A run without helpers reports exactly what its tests did, whatever order the feeder, the workers and the collector
  take their steps in. From a server with consistent maps and with at least one job, no task is run twice and only tasks of the captured
  binaries are; the run succeeds if and only if every task of every captured binary was run and none returned an error. Without
  \<open>-fail-fast\<close> every task is run and the result is the one the errors stand for, all infrastructure errors in the order they
  came or the number of failed tests; with it a run that fails because of tests reports one failure.
\<close>

theorem runAllTests_exact:
  assumes "mapsOK s" and "1 \<le> jobs fl" and "\<not> sv_canceled s" and "\<not> sv_failFastTriggered s"
    and "runAllTests h pf fl lookup now s res outs s'"
  shows "mset (map fst outs) \<subseteq># mset (tasksOf s (capturedTestBinaries s)) \<and> distinct (map fst outs)
    \<and> (res = None \<longleftrightarrow> mset (map fst outs) = mset (tasksOf s (capturedTestBinaries s)) \<and> (\<forall>e \<in> set (map snd outs). e = None))
    \<and> (\<not> failFast fl \<longrightarrow> mset (map fst outs) = mset (tasksOf s (capturedTestBinaries s)) \<and> res = errorsResult (map snd outs))
    \<and> (failFast fl \<longrightarrow> (\<forall>n. res = Some (RunFailed n) \<longrightarrow> n = 1))"
proof -
  obtain tasks p where p: "mset tasks = mset (tasksOf s (capturedTestBinaries s))" "poolOK fl tasks p" "poolDone p"
    "res = poolResult p" "outs = po_done p" by (rule runAllTests_pool [OF assms])
  have sub: "mset (map fst outs) \<subseteq># mset tasks"
    using p(2) unfolding p(5) poolOK_def tasksOK_def by (metis mset_subset_eq_add_left add.assoc)
  have "distinct (tasksOf s (capturedTestBinaries s))"
    by (rule taskBefore_distinct [OF tasksOf_sorted [OF assms(1) capturedTestBinaries_strict [OF assms(1)]]])
  then have "distinct tasks" using p(1) mset_eq_imp_distinct_iff by blast
  then have "distinct (map fst outs)" using sub by (rule distinct_submset)
  moreover have "\<not> failFast fl \<longrightarrow> mset (map fst outs) = mset tasks \<and> res = errorsResult (map snd outs)"
    using poolDone_counts [OF _ p(3)] poolDone_tasks [OF p(2,3) assms(2)] p(2,4,5) by (auto simp: poolOK_def)
  moreover have "failFast fl \<longrightarrow> (\<forall>n. res = Some (RunFailed n) \<longrightarrow> n = 1)"
    using poolDone_failFast [OF _ p(3)] p(2,4) by (auto simp: poolOK_def)
  ultimately show ?thesis using sub p(1) runAllTests_success [OF assms] by simp
qed

theorem runAllTests_exact_witness:
  "\<exists>res outs s'. runAllTests sampleHashing samplePlatform sampleFlags (\<lambda>ks n. Inr []) 5 sampleServer res outs s'
    \<and> distinct (map fst outs) \<and> mset (map fst outs) = mset [sampleTask ''TestA'', sampleTask ''TestB'']
    \<and> res = errorsResult (map snd outs)"
proof -
  have ok: "1 \<le> jobs sampleFlags" "\<not> sv_canceled sampleServer" "\<not> sv_failFastTriggered sampleServer" "\<not> failFast sampleFlags"
    by (simp_all add: sampleFlags_def sampleServer_def)
  obtain res outs s' where run: "runAllTests sampleHashing samplePlatform sampleFlags (\<lambda>ks n. Inr []) 5 sampleServer res outs s'"
    using runAllTests_ex [OF serverOK_maps [OF sampleServer_OK]] by blast
  have "tasksOf sampleServer (capturedTestBinaries sampleServer) = [sampleTask ''TestA'', sampleTask ''TestB'']"
    by code_simp
  with runAllTests_exact [OF serverOK_maps [OF sampleServer_OK] ok(1-3) run] run ok(4) show ?thesis by metis
qed

text \<open>
  C11. Every run without helpers ends and returns. No sequence of steps of the feeder, the workers and the collector is
  infinite, each tests-returns step included, since every step lowers \<open>poolWork\<close>; as long as the collector is not through some
  goroutine can take a step, so no run deadlocks, also when the run is cancelled half way; and at no time more than \<open>-j\<close> tests run.
\<close>

theorem runAllTests_returns:
  assumes "mapsOK s" and "1 \<le> jobs fl" and "\<not> sv_canceled s" and "\<not> sv_failFastTriggered s"
  shows "(\<exists>res outs s'. runAllTests h pf fl lookup now s res outs s')
    \<and> wfp (\<lambda>q p. pool_step fl p q) \<and> (\<forall>p. poolDone p \<or> (\<exists>q. pool_step fl p q))
    \<and> (\<forall>tasks s1 p. runTasks h pf fl lookup now s = Some (tasks, s1) \<and> pool_reach fl tasks s1 p \<longrightarrow> int (length (po_busy p)) \<le> jobs fl)"
proof -
  have "\<exists>res outs s'. runAllTests h pf fl lookup now s res outs s'" by (rule runAllTests_ex [OF assms(1)])
  moreover have "wfp (\<lambda>q p. pool_step fl p q)"
    by (rule wfp_subset [of "\<lambda>q p. poolWork q < poolWork p"]) (auto simp: wfp_if_convertible_to_nat intro: pool_step_work)
  moreover have "int (length (po_busy p)) \<le> jobs fl"
    if t: "runTasks h pf fl lookup now s = Some (tasks, s1)" and r: "pool_reach fl tasks s1 p" for tasks s1 p
  proof -
    from runTasks_complete [OF assms(1)] t have "sameRun s s1" by (metis option.inject prod.inject)
    then have "poolOK fl tasks p"
      by (intro pool_reach_OK [OF assms(2) _ _ r]) (use assms(3,4) in \<open>auto simp: sameRun_def\<close>)
    then show ?thesis using assms(2) by (auto simp: poolOK_def crewOK_def)
  qed
  ultimately show ?thesis using pool_progress by blast
qed

theorem runAllTests_returns_witness:
  "\<exists>res outs s'. runAllTests sampleHashing samplePlatform sampleFlags (\<lambda>ks n. Inr []) 5 sampleServer res outs s'"
  using runAllTests_returns [of sampleServer sampleFlags sampleHashing samplePlatform "\<lambda>ks n. Inr []" 5] serverOK_maps [OF sampleServer_OK]
  by (simp add: sampleFlags_def sampleServer_def)

end
