(* ===== verification/Build_Cache.thy ===== *)
theory Build_Cache
  imports Sha256 Go_Paths
begin

text \<open>
  The message types of the GOCACHEPROG protocol (\<open>cacheprog.go\<close>) and the local build cache that
  speaks it (\<open>localcache.go\<close>): \<open>localBuildCache.get\<close>, \<open>put\<close> and \<open>serve\<close>, and the reader of Go's own
  cache. Files are a map from paths to nodes; the hash and the errors of the operating system are
  parameters.
\<close>

section \<open>The protocol\<close>

datatype cacheProgCommand = CmdGet | CmdPut | CmdClose | CmdOther string

record cacheProgRequest =
  req_ID :: int
  req_Command :: cacheProgCommand
  req_ActionID :: string
  req_OutputID :: string
  req_ObjectID :: string
  req_BodySize :: int
  req_body :: "string option"

record cacheProgResponse =
  res_ID :: int
  res_Err :: string
  res_KnownCommands :: "cacheProgCommand list"
  res_Miss :: bool
  res_OutputID :: string
  res_ObjectID :: string
  res_Size :: int
  res_Time :: "int option"
  res_TimeNanos :: int
  res_DiskPath :: gopath

definition zeroResponse :: cacheProgResponse where
  "zeroResponse = \<lparr>res_ID = 0, res_Err = [], res_KnownCommands = [], res_Miss = False, res_OutputID = [], res_ObjectID = [],
     res_Size = 0, res_Time = None, res_TimeNanos = 0, res_DiskPath = []\<rparr>"

definition missResponse :: cacheProgResponse where
  "missResponse = zeroResponse\<lparr>res_Miss := True\<rparr>"

section \<open>Numbers and hexadecimal\<close>

text \<open>\<open>strconv.ParseInt(s, 10, 64)\<close>.\<close>

definition parseInt64 :: "string \<Rightarrow> int option" where
  "parseInt64 s =
     (let (neg, ds) = (case s of [] \<Rightarrow> (False, [])
                       | c # cs \<Rightarrow> if c = CHR ''-'' then (True, cs) else if c = CHR ''+'' then (False, cs) else (False, s));
          v = foldl (\<lambda>n c. 10 * n + (of_char c - 48)) 0 ds;
          r = (if neg then - v else v)
      in if ds = [] \<or> \<not> list_all (\<lambda>c. 48 \<le> (of_char c :: nat) \<and> (of_char c :: nat) < 58) ds \<or> r < - (2 ^ 63) \<or> 2 ^ 63 \<le> r
         then None else Some r)"

definition validCacheHex :: "string \<Rightarrow> bool" where
  "validCacheHex s \<longleftrightarrow> length s = 64 \<and> hexDecode s \<noteq> None"

section \<open>Files\<close>

record localCacheIndex =
  idx_Version :: int
  idx_OutputID :: string
  idx_Size :: int
  idx_TimeNanos :: int

text \<open>
  What a file holds: bytes, or JSON that decodes to an index (the files that \<open>put\<close> writes below
  \<open>action\<close>; \<open>encoding/json\<close> itself is not modelled). Bytes do not decode to an index. A node is a regular
  file with its modification time and whether its owner may execute it, or something else.
\<close>

datatype content = Bytes string | IndexJson localCacheIndex

datatype node = Reg content int bool | Special

type_synonym files = "(gopath, node) gomap"

text \<open>
  \<open>os_read\<close>, \<open>os_write\<close>: the error that reading or installing a file fails with, if any; \<open>os_now\<close>: the
  modification time that a file installed now gets; \<open>os_sha\<close>: the hash in hexadecimal.
\<close>

record osEnv =
  os_read :: "gopath \<Rightarrow> string option"
  os_write :: "gopath \<Rightarrow> string option"
  os_now :: int
  os_sha :: "string \<Rightarrow> string"

definition notExist :: string where "notExist = ''file does not exist''"

definition readFile :: "osEnv \<Rightarrow> files \<Rightarrow> gopath \<Rightarrow> string + content" where
  "readFile os fs path =
     (case os_read os path of
        Some e \<Rightarrow> Inl e
      | None \<Rightarrow> (case map_of fs path of
                   None \<Rightarrow> Inl notExist | Some (Reg c t x) \<Rightarrow> Inr c | Some Special \<Rightarrow> Inl ''is a directory''))"

text \<open>\<open>os.Stat\<close> restricted to what the cache asks of objects: size and time of a regular file.\<close>

definition statRegular :: "files \<Rightarrow> gopath \<Rightarrow> (int \<times> int) option" where
  "statRegular fs path = (case map_of fs path of Some (Reg (Bytes c) t x) \<Rightarrow> Some (int (length c), t) | _ \<Rightarrow> None)"

text \<open>
  \<open>writeCacheFile\<close>: a file that already has the content is left alone; otherwise the content is written
  to a temporary file and renamed over the path, or an error leaves the path as it was.
\<close>

definition writeCacheFile :: "osEnv \<Rightarrow> gopath \<Rightarrow> content \<Rightarrow> files \<Rightarrow> string option \<times> files" where
  "writeCacheFile os path data fs =
     (if readFile os fs path = Inr data then (None, fs)
      else case os_write os path of
             Some e \<Rightarrow> (Some e, fs)
           | None \<Rightarrow> (None, AList.update path (Reg data (os_now os) False) fs))"

section \<open>The cache\<close>

definition actionPath :: "gopath \<Rightarrow> string \<Rightarrow> gopath" where
  "actionPath dir i = pathJoin [dir, ''action'', take 2 i, i @ ''.json'']"

definition outputPath :: "gopath \<Rightarrow> string \<Rightarrow> gopath" where
  "outputPath dir i = pathJoin [dir, ''object'', take 2 i, i]"

definition readStockGoCache :: "osEnv \<Rightarrow> files \<Rightarrow> gopath \<Rightarrow> string \<Rightarrow> cacheProgResponse option" where
  "readStockGoCache os fs dir actionHex =
     (if \<not> validCacheHex actionHex \<or> \<not> pathIsAbs dir then None
      else case readFile os fs (pathJoin [dir, take 2 actionHex, actionHex @ ''-a'']) of
             Inl _ \<Rightarrow> None
           | Inr (IndexJson _) \<Rightarrow> None
           | Inr (Bytes data) \<Rightarrow>
               (case Fields data of
                  [v, a, out, sz, tm] \<Rightarrow>
                    if v \<noteq> ''v1'' \<or> a \<noteq> actionHex \<or> \<not> validCacheHex out then None
                    else (case (parseInt64 sz, parseInt64 tm) of
                            (Some n, Some nanos) \<Rightarrow>
                              (let path = pathJoin [dir, take 2 out, out @ ''-d'']
                               in if n < 0 \<or> nanos < 0 \<or> map_option fst (statRegular fs path) \<noteq> Some n then None
                                  else map_option (\<lambda>o'. zeroResponse\<lparr>res_OutputID := o', res_Size := n,
                                                          res_Time := Some nanos, res_DiskPath := path\<rparr>)
                                         (hexDecode out))
                          | _ \<Rightarrow> None)
                | _ \<Rightarrow> None))"

text \<open>The lookup in gotst's own index: the part of \<open>get\<close> after the action file was read.\<close>

definition indexHit :: "files \<Rightarrow> gopath \<Rightarrow> content \<Rightarrow> cacheProgResponse option" where
  "indexHit fs dir data =
     (case data of
        Bytes _ \<Rightarrow> None
      | IndexJson idx \<Rightarrow>
          if idx_Version idx = 1 \<and> validCacheHex (idx_OutputID idx)
             \<and> map_option fst (statRegular fs (outputPath dir (idx_OutputID idx))) = Some (idx_Size idx)
          then map_option (\<lambda>o'. zeroResponse\<lparr>res_OutputID := o', res_Size := idx_Size idx,
                                  res_Time := Some (idx_TimeNanos idx), res_DiskPath := outputPath dir (idx_OutputID idx)\<rparr>)
                 (hexDecode (idx_OutputID idx))
          else None)"

definition stockOrMiss :: "osEnv \<Rightarrow> files \<Rightarrow> gopath \<Rightarrow> string \<Rightarrow> cacheProgResponse" where
  "stockOrMiss os fs stockDir actionHex =
     (if stockDir \<noteq> []
      then (case readStockGoCache os fs stockDir actionHex of Some res \<Rightarrow> res | None \<Rightarrow> missResponse)
      else missResponse)"

definition localGet :: "osEnv \<Rightarrow> gopath \<Rightarrow> gopath \<Rightarrow> files \<Rightarrow> string \<Rightarrow> string + cacheProgResponse" where
  "localGet os dir stockDir fs actionID =
     (let actionHex = hexEncode actionID
      in if \<not> validCacheHex actionHex then Inr missResponse
         else case readFile os fs (actionPath dir actionHex) of
                Inr data \<Rightarrow>
                  (case indexHit fs dir data of
                     Some res \<Rightarrow> Inr res | None \<Rightarrow> Inr (stockOrMiss os fs stockDir actionHex))
              | Inl e \<Rightarrow> if e \<noteq> notExist then Inl e else Inr (stockOrMiss os fs stockDir actionHex))"

definition localPut :: "osEnv \<Rightarrow> gopath \<Rightarrow> files \<Rightarrow> string \<Rightarrow> string \<Rightarrow> int \<Rightarrow> string \<Rightarrow> (string + gopath) \<times> files" where
  "localPut os dir fs actionID outputID len body =
     (let actionHex = hexEncode actionID; outputHex = hexEncode outputID
      in if \<not> validCacheHex actionHex \<or> \<not> validCacheHex outputHex \<or> length outputID \<noteq> 32
         then (Inl ''invalid cache action or output ID'', fs)
         else if int (length body) \<noteq> len
         then (Inl (''cache body is '' @ showNat (length body) @ '' bytes; want '' @ showInt len), fs)
         else if os_sha os body \<noteq> outputHex
         then (Inl ''cache body hash does not match output ID'', fs)
         else case writeCacheFile os (outputPath dir outputHex) (Bytes body) fs of
                (Some e, fs1) \<Rightarrow> (Inl e, fs1)
              | (None, fs1) \<Rightarrow>
                  (case statRegular fs1 (outputPath dir outputHex) of
                     None \<Rightarrow> (Inl notExist, fs1)
                   | Some (n, mtime) \<Rightarrow>
                       (case writeCacheFile os (actionPath dir actionHex)
                               (IndexJson \<lparr>idx_Version = 1, idx_OutputID = outputHex, idx_Size = len,
                                            idx_TimeNanos = mtime\<rparr>) fs1 of
                          (Some e, fs2) \<Rightarrow> (Inl e, fs2)
                        | (None, fs2) \<Rightarrow> (Inr (outputPath dir outputHex), fs2))))"

section \<open>Serving requests\<close>

text \<open>
  The body of the goroutine \<open>serve\<close> starts for a request. \<open>None\<close> is the nil dereference of
  \<open>res.ID = req.ID\<close>: \<open>get\<close> returns a nil response with its error.
\<close>

definition commandText :: "cacheProgCommand \<Rightarrow> string" where
  "commandText c = (case c of CmdGet \<Rightarrow> ''get'' | CmdPut \<Rightarrow> ''put'' | CmdClose \<Rightarrow> ''close'' | CmdOther s \<Rightarrow> s)"

definition serveRequest :: "osEnv \<Rightarrow> gopath \<Rightarrow> gopath \<Rightarrow> cacheProgRequest \<Rightarrow> string \<Rightarrow> files
    \<Rightarrow> (cacheProgResponse \<times> files) option" where
  "serveRequest os dir stockDir req body fs =
     (case req_Command req of
        CmdGet \<Rightarrow> (case localGet os dir stockDir fs (req_ActionID req) of
                     Inl e \<Rightarrow> None
                   | Inr res \<Rightarrow> Some (res\<lparr>res_ID := req_ID req\<rparr>, fs))
      | CmdPut \<Rightarrow> (case localPut os dir fs (req_ActionID req) (req_OutputID req) (req_BodySize req) body of
                     (Inl e, fs') \<Rightarrow> Some (zeroResponse\<lparr>res_ID := req_ID req, res_Err := e\<rparr>, fs')
                   | (Inr path, fs') \<Rightarrow> Some (zeroResponse\<lparr>res_ID := req_ID req, res_DiskPath := path\<rparr>, fs'))
      | c \<Rightarrow> Some (zeroResponse\<lparr>res_ID := req_ID req,
                      res_Err := ''unsupported cache command '' @ Quote (commandText c)\<rparr>, fs))"

text \<open>\<open>OutputID\<close> defaults to the older \<open>ObjectID\<close>.\<close>

definition withObjectID :: "cacheProgRequest \<Rightarrow> cacheProgRequest" where
  "withObjectID req =
     (if req_OutputID req = [] \<and> req_ObjectID req \<noteq> [] then req\<lparr>req_OutputID := req_ObjectID req\<rparr> else req)"

text \<open>
  The loop of \<open>serve\<close> over the requests it decodes, in the order in which their goroutines take
  effect. A \<open>put\<close> with a body of the wrong size, and one whose body does not decode (\<open>req_body\<close> is
  \<open>None\<close>), end the loop with an error.
\<close>

fun serveLoop :: "osEnv \<Rightarrow> gopath \<Rightarrow> gopath \<Rightarrow> cacheProgRequest list \<Rightarrow> files
    \<Rightarrow> (cacheProgResponse list \<times> string option \<times> files) option" where
  "serveLoop os dir stockDir [] fs = Some ([], None, fs)"
| "serveLoop os dir stockDir (req0 # reqs) fs =
     (let req = withObjectID req0;
          hasBody = (req_Command req = CmdPut \<and> req_BodySize req > 0)
      in if hasBody \<and> req_body req = None then Some ([], Some ''decoding body'', fs)
         else let body = (if hasBody then the (req_body req) else [])
              in if hasBody \<and> int (length body) \<noteq> req_BodySize req
                 then Some ([], Some (''cache put body is '' @ showNat (length body) @ '' bytes; want ''
                                      @ showInt (req_BodySize req)), fs)
                 else if req_Command req = CmdClose then Some ([zeroResponse\<lparr>res_ID := req_ID req\<rparr>], None, fs)
                 else case serveRequest os dir stockDir req body fs of
                        None \<Rightarrow> None
                      | Some (res, fs') \<Rightarrow>
                          map_option (\<lambda>(rs, e, fs''). (res # rs, e, fs'')) (serveLoop os dir stockDir reqs fs'))"

definition serveHello :: cacheProgResponse where
  "serveHello = zeroResponse\<lparr>res_KnownCommands := [CmdGet, CmdPut, CmdClose]\<rparr>"

definition localServe :: "osEnv \<Rightarrow> gopath \<Rightarrow> gopath \<Rightarrow> cacheProgRequest list \<Rightarrow> files
    \<Rightarrow> (cacheProgResponse list \<times> string option \<times> files) option" where
  "localServe os dir stockDir reqs fs =
     map_option (\<lambda>(rs, e, fs'). (serveHello # rs, e, fs')) (serveLoop os dir stockDir reqs fs)"

text \<open>\<open>runLocalCacheProg\<close>, from the values of its two environment variables and the error of \<open>os.MkdirAll\<close>.\<close>

definition runLocalCacheProg :: "osEnv \<Rightarrow> gopath \<Rightarrow> gopath \<Rightarrow> string option \<Rightarrow> cacheProgRequest list \<Rightarrow> files
    \<Rightarrow> (cacheProgResponse list \<times> string option \<times> files) option" where
  "runLocalCacheProg os dir stockDir mkdirErr reqs fs =
     (if dir = [] then Some ([], Some ''missing local build cache directory'', fs)
      else case mkdirErr of Some e \<Rightarrow> Some ([], Some e, fs) | None \<Rightarrow> localServe os dir stockDir reqs fs)"

section \<open>Names of entries\<close>

lemma isHexDigit_hexDigit: "n < 16 \<Longrightarrow> isHexDigit (hexDigit n)"
  by (auto simp: isHexDigit_def hexDigit_def)

lemma hexNibble_hexDigit: "n < 16 \<Longrightarrow> hexNibble (hexDigit n) = n"
  by (auto simp: hexNibble_def hexDigit_def)

lemma hexDecode_hexEncode [simp]: "hexDecode (hexEncode s) = Some s"
proof (induction s)
  case Nil
  then show ?case by (simp add: hexEncode_def)
next
  case (Cons c s)
  have n: "(of_char c :: nat) < 256" by simp
  then have d: "(of_char c :: nat) div 16 < 16" by (intro less_mult_imp_div_less) simp
  have "hexEncode (c # s) = hexDigit (of_char c div 16) # hexDigit (of_char c mod 16) # hexEncode s"
    by (simp add: hexEncode_def)
  then show ?case using Cons d
    by (simp add: isHexDigit_hexDigit hexNibble_hexDigit mult.commute [of 16])
qed

lemma hexEncode_inject [simp]: "hexEncode a = hexEncode b \<longleftrightarrow> a = b"
  by (metis hexDecode_hexEncode option.inject)

lemma validCacheHex_hexEncode [simp]: "validCacheHex (hexEncode s) \<longleftrightarrow> length s = 32"
  by (auto simp: validCacheHex_def)

lemma hexDecode_digits: "hexDecode s \<noteq> None \<Longrightarrow> \<forall>c \<in> set s. isHexDigit c"
proof (induction s rule: hexDecode.induct)
  case (3 c d s)
  show ?case
  proof (cases "isHexDigit c \<and> isHexDigit d")
    case True
    with "3.prems" have "hexDecode s \<noteq> None" by (simp only: hexDecode.simps if_True option.map_disc_iff simp_thms)
    with "3.IH" True show ?thesis by (simp del: not_None_eq)
  next
    case False
    with "3.prems" show ?thesis by (simp only: hexDecode.simps if_False simp_thms)
  qed
qed simp_all

lemma validCacheHex_name:
  assumes "validCacheHex i"
  shows "slash \<notin> set i" "CHR ''.'' \<notin> set i" "length i = 64" "i \<notin> {[], ''.'', ''..''}"
  using assms hexDecode_digits [of i] by (auto simp: validCacheHex_def isHexDigit_def)

lemma lastComp_paths:
  assumes "validCacheHex i"
  shows "lastComp (outputPath dir i) = i" "lastComp (actionPath dir i) = i @ ''.json''"
proof -
  note n = validCacheHex_name [OF assms]
  show "lastComp (outputPath dir i) = i"
    using lastComp_pathJoin [OF n(1,4), of "[dir, ''object'', take 2 i]"] by (simp add: outputPath_def)
  have "slash \<notin> set (i @ ''.json'')" "i @ ''.json'' \<notin> {[], ''.'', ''..''}" using n by auto
  from lastComp_pathJoin [OF this, of "[dir, ''action'', take 2 i]"]
  show "lastComp (actionPath dir i) = i @ ''.json''" by (simp add: actionPath_def)
qed

lemma paths_differ:
  assumes "validCacheHex i" and "validCacheHex j"
  shows "outputPath dir i = outputPath dir j \<longleftrightarrow> i = j" "actionPath dir i = actionPath dir j \<longleftrightarrow> i = j"
    "outputPath dir i \<noteq> actionPath dir j"
  using lastComp_paths [OF assms(1), of dir] lastComp_paths [OF assms(2), of dir] validCacheHex_name(2) [OF assms(1)]
  by (metis, metis append_same_eq, metis append_Cons in_set_conv_decomp)

section \<open>The contract of a build cache\<close>

text \<open>
  What a client of a cache program may rely on: \<open>lookup\<close> answers with a file whose content has the
  promised size and hash, a stored object is found, and storing under another action disturbs
  nothing as long as no two different contents have one hash.
\<close>

locale cacheprog =
  fixes lookup :: "'s \<Rightarrow> string \<Rightarrow> string + cacheProgResponse"
    and store :: "'s \<Rightarrow> string \<Rightarrow> string \<Rightarrow> string \<Rightarrow> (string + gopath) \<times> 's"
    and object :: "'s \<Rightarrow> gopath \<Rightarrow> string option" and inv :: "'s \<Rightarrow> bool" and hash :: "string \<Rightarrow> string"
  assumes store_inv: "inv s \<Longrightarrow> inv (snd (store s a out b))"
    and lookup_object: "inv s \<Longrightarrow> lookup s a = Inr res \<Longrightarrow> \<not> res_Miss res
      \<Longrightarrow> \<exists>c. object s (res_DiskPath res) = Some c \<and> res_Size res = int (length c) \<and> hash c = hexEncode (res_OutputID res)"
    and lookup_stored: "inv s \<Longrightarrow> store s a out b = (Inr p, s')
      \<Longrightarrow> \<exists>res. lookup s' a = Inr res \<and> \<not> res_Miss res \<and> res_OutputID res = out \<and> res_DiskPath res = p \<and> object s' p = Some b"
    and lookup_other: "inv s \<Longrightarrow> a' \<noteq> a \<Longrightarrow> lookup s a' = Inr res \<Longrightarrow> \<not> res_Miss res \<Longrightarrow> object s (res_DiskPath res) = Some c
      \<Longrightarrow> (hash b = hash c \<Longrightarrow> b = c)
      \<Longrightarrow> lookup (snd (store s a out b)) a' = Inr res \<and> object (snd (store s a out b)) (res_DiskPath res) = Some c"
begin

definition stores :: "(string \<times> string \<times> string) list \<Rightarrow> 's \<Rightarrow> 's" where
  "stores ws s = fold (\<lambda>(a, out, b) s. snd (store s a out b)) ws s"

lemma stores_inv: "inv s \<Longrightarrow> inv (stores ws s)"
  by (induction ws arbitrary: s) (auto simp: stores_def store_inv)

lemma lookup_after_stores:
  assumes "inv s" and "lookup s a = Inr res" and "\<not> res_Miss res" and "object s (res_DiskPath res) = Some c"
    and "\<forall>(a', out', b') \<in> set ws. a' \<noteq> a \<and> (hash b' = hash c \<longrightarrow> b' = c)"
  shows "lookup (stores ws s) a = Inr res \<and> object (stores ws s) (res_DiskPath res) = Some c"
  using assms
proof (induction ws arbitrary: s)
  case Nil
  then show ?case by (simp add: stores_def)
next
  case (Cons w ws)
  obtain a' out' b' where w: "w = (a', out', b')" by (cases w)
  have "lookup (snd (store s a' out' b')) a = Inr res \<and> object (snd (store s a' out' b')) (res_DiskPath res) = Some c"
    using Cons.prems w by (intro lookup_other) auto
  then have "lookup (stores ws (snd (store s a' out' b'))) a = Inr res
      \<and> object (stores ws (snd (store s a' out' b'))) (res_DiskPath res) = Some c"
    using Cons.prems w store_inv by (intro Cons.IH) auto
  then show ?case by (simp add: stores_def w)
qed

lemma stored_is_found:
  assumes "inv s" and "store s a out b = (Inr p, s')" and "\<forall>(a', out', b') \<in> set ws. a' \<noteq> a \<and> (hash b' = hash b \<longrightarrow> b' = b)"
  shows "\<exists>res. lookup (stores ws s') a = Inr res \<and> \<not> res_Miss res \<and> res_OutputID res = out \<and> res_DiskPath res = p
    \<and> object (stores ws s') p = Some b"
proof -
  from lookup_stored [OF assms(1,2)] obtain res where
    r: "lookup s' a = Inr res" "\<not> res_Miss res" "res_OutputID res = out" "res_DiskPath res = p" "object s' p = Some b" by blast
  have "inv s'" using store_inv [OF assms(1), of a out b] assms(2) by simp
  from lookup_after_stores [OF this r(1,2) _ assms(3)] r show ?thesis by auto
qed

end

section \<open>The local cache keeps the contract\<close>

text \<open>An operating system on which reading does not fail; writing may.\<close>

definition readable :: "(gopath \<Rightarrow> string option) \<Rightarrow> int \<Rightarrow> (string \<Rightarrow> string) \<Rightarrow> osEnv" where
  "readable w now h = \<lparr>os_read = (\<lambda>_. None), os_write = w, os_now = now, os_sha = h\<rparr>"

definition objectAt :: "files \<Rightarrow> gopath \<Rightarrow> string option" where
  "objectAt fs p = (case map_of fs p of Some (Reg (Bytes c) t x) \<Rightarrow> Some c | _ \<Rightarrow> None)"

definition cacheOK :: "(string \<Rightarrow> string) \<Rightarrow> gopath \<Rightarrow> files \<Rightarrow> bool" where
  "cacheOK h dir fs \<longleftrightarrow> (\<forall>i c. validCacheHex i \<longrightarrow> objectAt fs (outputPath dir i) = Some c \<longrightarrow> h c = hexEncode (the (hexDecode i)))"

lemma statRegular_objectAt: "map_option fst (statRegular fs p) = map_option (\<lambda>c. int (length c)) (objectAt fs p)"
  by (auto simp: statRegular_def objectAt_def split: option.splits node.splits content.splits)

lemma writeCacheFile_effect:
  assumes "writeCacheFile os path data fs = (r, fs')"
  shows "map_of fs' p = map_of fs p \<or> (p = path \<and> map_of fs' p = Some (Reg data (os_now os) False))"
    and "r = None \<Longrightarrow> os_read os path = None \<Longrightarrow> \<exists>t x. map_of fs' path = Some (Reg data t x)"
  using assms unfolding writeCacheFile_def readFile_def
  by (auto simp: update_conv' split: if_splits option.splits node.splits)

lemma localPut_effect:
  assumes "localPut os dir fs a out len b = (r, fs')"
  shows "map_of fs' p = map_of fs p
    \<or> (length out = 32 \<and> os_sha os b = hexEncode out \<and> p = outputPath dir (hexEncode out) \<and> map_of fs' p = Some (Reg (Bytes b) (os_now os) False))
    \<or> (length a = 32 \<and> p = actionPath dir (hexEncode a) \<and> (\<exists>idx. map_of fs' p = Some (Reg (IndexJson idx) (os_now os) False)))"
proof (cases "length a = 32 \<and> length out = 32 \<and> int (length b) = len \<and> os_sha os b = hexEncode out")
  case False
  with assms show ?thesis by (auto simp: localPut_def Let_def split: if_splits)
next
  case True
  obtain e1 fs1 where w1: "writeCacheFile os (outputPath dir (hexEncode out)) (Bytes b) fs = (e1, fs1)" by fastforce
  note one = writeCacheFile_effect(1) [OF w1, of p]
  show ?thesis
  proof (cases "fs' = fs1")
    case eq: True
    with one True show ?thesis by auto
  next
    case neq: False
    with assms True w1 obtain n t e2 where "statRegular fs1 (outputPath dir (hexEncode out)) = Some (n, t)"
      "writeCacheFile os (actionPath dir (hexEncode a))
         (IndexJson \<lparr>idx_Version = 1, idx_OutputID = hexEncode out, idx_Size = len, idx_TimeNanos = t\<rparr>) fs1 = (e2, fs')"
      by (auto simp: localPut_def Let_def split: option.splits prod.splits)
    from writeCacheFile_effect(1) [OF this(2), of p] one True
      paths_differ(3) [of "hexEncode out" "hexEncode a" dir] show ?thesis by auto
  qed
qed

lemma localPut_Inr:
  assumes "localPut os dir fs a out len b = (Inr p, fs')" and "\<And>p. os_read os p = None"
  shows "length a = 32" "length out = 32" "p = outputPath dir (hexEncode out)" "int (length b) = len" "os_sha os b = hexEncode out"
    "\<exists>t t' x x'. map_of fs' p = Some (Reg (Bytes b) t x) \<and> map_of fs' (actionPath dir (hexEncode a))
       = Some (Reg (IndexJson \<lparr>idx_Version = 1, idx_OutputID = hexEncode out, idx_Size = len, idx_TimeNanos = t\<rparr>) t' x')"
proof -
  show g: "length a = 32" "length out = 32" "p = outputPath dir (hexEncode out)" "int (length b) = len" "os_sha os b = hexEncode out"
    using assms(1) by (auto simp: localPut_def Let_def split: if_splits option.splits prod.splits)
  from g assms(1) obtain fs1 n t where
    w: "writeCacheFile os (outputPath dir (hexEncode out)) (Bytes b) fs = (None, fs1)"
    "statRegular fs1 (outputPath dir (hexEncode out)) = Some (n, t)"
    "writeCacheFile os (actionPath dir (hexEncode a))
       (IndexJson \<lparr>idx_Version = 1, idx_OutputID = hexEncode out, idx_Size = len, idx_TimeNanos = t\<rparr>) fs1 = (None, fs')"
    by (auto simp: localPut_def Let_def split: if_splits option.splits prod.splits)
  from writeCacheFile_effect(2) [OF w(1) refl assms(2)] w(2) obtain x where
    "map_of fs1 p = Some (Reg (Bytes b) t x)" by (auto simp: statRegular_def g(3))
  moreover have "map_of fs' p = map_of fs1 p"
    using writeCacheFile_effect(1) [OF w(3), of p] paths_differ(3) [of "hexEncode out" "hexEncode a" dir] g by auto
  ultimately show "\<exists>t t' x x'. map_of fs' p = Some (Reg (Bytes b) t x) \<and> map_of fs' (actionPath dir (hexEncode a))
       = Some (Reg (IndexJson \<lparr>idx_Version = 1, idx_OutputID = hexEncode out, idx_Size = len, idx_TimeNanos = t\<rparr>) t' x')"
    using writeCacheFile_effect(2) [OF w(3) refl assms(2)] by auto
qed

lemma localGet_hit:
  "localGet (readable w now h) dir [] fs a = Inr res \<and> \<not> res_Miss res \<longleftrightarrow>
    length a = 32 \<and> (\<exists>idx t x c out. map_of fs (actionPath dir (hexEncode a)) = Some (Reg (IndexJson idx) t x)
      \<and> idx_Version idx = 1 \<and> validCacheHex (idx_OutputID idx) \<and> hexDecode (idx_OutputID idx) = Some out
      \<and> objectAt fs (outputPath dir (idx_OutputID idx)) = Some c \<and> idx_Size idx = int (length c)
      \<and> res = zeroResponse\<lparr>res_OutputID := out, res_Size := idx_Size idx, res_Time := Some (idx_TimeNanos idx),
                           res_DiskPath := outputPath dir (idx_OutputID idx)\<rparr>)"
  (is "?L \<longleftrightarrow> ?R")
proof
  have miss: "res_Miss missResponse" by (simp add: missResponse_def)
  assume ?L
  then have r: "localGet (readable w now h) dir [] fs a = Inr res" "\<not> res_Miss res" by simp_all
  then have a: "length a = 32" by (auto simp: localGet_def Let_def miss split: if_splits)
  with r obtain data where d: "readFile (readable w now h) fs (actionPath dir (hexEncode a)) = Inr data" "indexHit fs dir data = Some res"
    by (auto simp: localGet_def Let_def stockOrMiss_def miss split: if_splits sum.splits option.splits)
  then show ?R using a
    by (auto simp: readFile_def readable_def indexHit_def statRegular_objectAt split: option.splits node.splits content.splits if_splits)
next
  assume ?R
  then show ?L
    by (auto simp: localGet_def Let_def readFile_def readable_def indexHit_def statRegular_objectAt zeroResponse_def)
qed

lemma localPut_object:
  assumes "localPut (readable w now h) dir fs a out len b = (r, fs')" and "validCacheHex i"
  shows "objectAt fs' (outputPath dir i) = objectAt fs (outputPath dir i)
    \<or> (objectAt fs' (outputPath dir i) = Some b \<and> length out = 32 \<and> h b = hexEncode out \<and> i = hexEncode out)"
  using localPut_effect [OF assms(1), of "outputPath dir i"] paths_differ(1) [OF assms(2), of "hexEncode out" dir]
    paths_differ(3) [OF assms(2), of "hexEncode a" dir]
  by (auto simp: objectAt_def readable_def)

lemma cacheOK_put: "cacheOK h dir fs \<Longrightarrow> cacheOK h dir (snd (localPut (readable w now h) dir fs a out len b))"
proof -
  assume ok: "cacheOK h dir fs"
  obtain r fs' where p: "localPut (readable w now h) dir fs a out len b = (r, fs')" by fastforce
  have "h c = hexEncode (the (hexDecode i))" if "validCacheHex i" "objectAt fs' (outputPath dir i) = Some c" for i c
    using localPut_object [OF p that(1)] that ok by (auto simp: cacheOK_def)
  with p show ?thesis by (simp add: cacheOK_def)
qed

lemma localGet_other:
  assumes ok: "cacheOK h dir fs" and "a' \<noteq> a" and get: "localGet (readable w now h) dir [] fs a' = Inr res" "\<not> res_Miss res"
    and obj: "objectAt fs (res_DiskPath res) = Some c" and coll: "h b = h c \<Longrightarrow> b = c"
    and put: "localPut (readable w' now' h) dir fs a out len b = (r, fs')"
  shows "localGet (readable w now h) dir [] fs' a' = Inr res \<and> objectAt fs' (res_DiskPath res) = Some c"
proof -
  from get localGet_hit [of w now h dir fs a' res] obtain idx t x c' o' where
    i: "length a' = 32" "map_of fs (actionPath dir (hexEncode a')) = Some (Reg (IndexJson idx) t x)"
    "idx_Version idx = 1" "validCacheHex (idx_OutputID idx)" "hexDecode (idx_OutputID idx) = Some o'"
    "objectAt fs (outputPath dir (idx_OutputID idx)) = Some c'" "idx_Size idx = int (length c')"
    "res = zeroResponse\<lparr>res_OutputID := o', res_Size := idx_Size idx, res_Time := Some (idx_TimeNanos idx),
                           res_DiskPath := outputPath dir (idx_OutputID idx)\<rparr>" by blast
  have "c' = c" using i(6,8) obj by simp
  have va: "validCacheHex (hexEncode a')" using i(1) by simp
  have "hexEncode a' \<noteq> hexEncode a" using assms(2) by (metis hexDecode_hexEncode option.inject)
  then have "map_of fs' (actionPath dir (hexEncode a')) = map_of fs (actionPath dir (hexEncode a'))"
    using localPut_effect [OF put, of "actionPath dir (hexEncode a')"] paths_differ(2) [OF va, of "hexEncode a" dir]
      paths_differ(3) [OF _ va, of "hexEncode out" dir] by auto
  moreover have "objectAt fs' (outputPath dir (idx_OutputID idx)) = Some c"
    using localPut_object [OF put i(4)] i(4-6) ok coll \<open>c' = c\<close> by (auto simp: cacheOK_def)
  ultimately show ?thesis using i localGet_hit [of w now h dir fs' a' res] \<open>c' = c\<close> by auto
qed

interpretation local_cache: cacheprog "localGet (readable w now h) dir []"
    "\<lambda>fs a out b. localPut (readable w now h) dir fs a out (int (length b)) b" objectAt "cacheOK h dir" h for w now h dir
proof unfold_locales
  fix fs a out b
  show "cacheOK h dir fs \<Longrightarrow> cacheOK h dir (snd (localPut (readable w now h) dir fs a out (int (length b)) b))"
    by (rule cacheOK_put)
next
  fix fs a res
  assume ok: "cacheOK h dir fs" and "localGet (readable w now h) dir [] fs a = Inr res" "\<not> res_Miss res"
  then show "\<exists>c. objectAt fs (res_DiskPath res) = Some c \<and> res_Size res = int (length c) \<and> h c = hexEncode (res_OutputID res)"
    using localGet_hit [of w now h dir fs a res] by (auto simp: cacheOK_def)
next
  fix fs a out b p fs'
  assume "localPut (readable w now h) dir fs a out (int (length b)) b = (Inr p, fs')"
  note e = localPut_Inr [OF this]
  have rd: "os_read (readable w now h) q = None" for q by (simp add: readable_def)
  from e(6) [OF rd] obtain t t' x x' where "map_of fs' p = Some (Reg (Bytes b) t x)" "map_of fs' (actionPath dir (hexEncode a))
      = Some (Reg (IndexJson \<lparr>idx_Version = 1, idx_OutputID = hexEncode out, idx_Size = int (length b), idx_TimeNanos = t\<rparr>) t' x')"
    by blast
  then show "\<exists>res. localGet (readable w now h) dir [] fs' a = Inr res \<and> \<not> res_Miss res \<and> res_OutputID res = out
      \<and> res_DiskPath res = p \<and> objectAt fs' p = Some b"
    using e(1,2,3) [OF rd] localGet_hit [of w now h dir fs' a
      "zeroResponse\<lparr>res_OutputID := out, res_Size := int (length b), res_Time := Some t, res_DiskPath := p\<rparr>"]
    by (intro exI [of _ "zeroResponse\<lparr>res_OutputID := out, res_Size := int (length b), res_Time := Some t, res_DiskPath := p\<rparr>"])
      (simp add: objectAt_def)
next
  fix fs a' a res c b out
  assume "cacheOK h dir fs" "a' \<noteq> a" "localGet (readable w now h) dir [] fs a' = Inr res" "\<not> res_Miss res"
    "objectAt fs (res_DiskPath res) = Some c" "h b = h c \<Longrightarrow> b = c"
  then show "localGet (readable w now h) dir [] (snd (localPut (readable w now h) dir fs a out (int (length b)) b)) a' = Inr res
      \<and> objectAt (snd (localPut (readable w now h) dir fs a out (int (length b)) b)) (res_DiskPath res) = Some c"
    using localGet_other [of h dir fs a' a w now res c b w now out "int (length b)"]
    by (cases "localPut (readable w now h) dir fs a out (int (length b)) b") auto
qed

section \<open>A small cache for the examples\<close>

definition sampleHash :: "string \<Rightarrow> string" where
  "sampleHash b = hexEncode (take 32 (b @ replicate 32 CHR ''x''))"

definition sampleAction :: string where
  "sampleAction = replicate 32 CHR ''a''"

definition sampleOS :: osEnv where
  "sampleOS = readable (\<lambda>_. None) 5 sampleHash"

lemma samplePut: "fst (localPut sampleOS ''/c'' [] sampleAction (''obj'' @ replicate 29 CHR ''x'') 3 ''obj'')
    = Inr (outputPath ''/c'' (sampleHash ''obj''))"
  by (simp add: localPut_def Let_def sampleOS_def readable_def sampleHash_def writeCacheFile_def readFile_def statRegular_def
      update_conv' sampleAction_def)

section \<open>Properties\<close>



text \<open>
  What was put is found: after a successful put, and any later puts under other actions whose
  bodies do not collide with it, a get of the action answers with the output ID and a file that
  holds exactly the body.
\<close>

theorem local_cache_put_get:
  assumes "cacheOK h dir fs" and "localPut (readable w now h) dir fs a out (int (length b)) b = (Inr p, fs')"
    and "\<forall>(a', out', b') \<in> set puts. a' \<noteq> a \<and> (h b' = h b \<longrightarrow> b' = b)"
  shows "\<exists>res. localGet (readable w now h) dir []
        (fold (\<lambda>(a, out, b) fs. snd (localPut (readable w now h) dir fs a out (int (length b)) b)) puts fs') a = Inr res
    \<and> \<not> res_Miss res \<and> res_OutputID res = out \<and> res_DiskPath res = p
    \<and> objectAt (fold (\<lambda>(a, out, b) fs. snd (localPut (readable w now h) dir fs a out (int (length b)) b)) puts fs') p = Some b"
  using local_cache.stored_is_found [OF assms] by (simp add: local_cache.stores_def)

theorem local_cache_put_get_witness:
  "\<exists>res. localGet sampleOS ''/c'' [] (snd (localPut sampleOS ''/c''
      (snd (localPut sampleOS ''/c'' [] sampleAction (''obj'' @ replicate 29 CHR ''x'') 3 ''obj''))
      (replicate 32 CHR ''b'') (''else'' @ replicate 28 CHR ''x'') 4 ''else'')) sampleAction = Inr res
    \<and> res_OutputID res = ''obj'' @ replicate 29 CHR ''x''"
proof -
  obtain fs' where fs': "localPut sampleOS ''/c'' [] sampleAction (''obj'' @ replicate 29 CHR ''x'') 3 ''obj''
      = (Inr (outputPath ''/c'' (sampleHash ''obj'')), fs')"
    using samplePut by (metis prod.collapse)
  have ok: "cacheOK sampleHash ''/c'' []" by (simp add: cacheOK_def objectAt_def)
  have "\<forall>(a', out', b') \<in> set [(replicate 32 CHR ''b'', ''else'' @ replicate 28 CHR ''x'', ''else'')].
      a' \<noteq> sampleAction \<and> (sampleHash b' = sampleHash ''obj'' \<longrightarrow> b' = ''obj'')"
    by (simp add: sampleHash_def sampleAction_def)
  from local_cache_put_get [OF ok _ this, of "\<lambda>_. None" 5 "''obj'' @ replicate 29 CHR ''x''"] fs' show ?thesis
    by (auto simp: sampleOS_def)
qed



end
