(* ===== verification/Cache_Client.thy ===== *)
theory Cache_Client
  imports Build_Cache
begin

text \<open>
  The client side of the GOCACHEPROG protocol (\<open>cacheprog.go\<close>): splitting and quoting of the helper's
  command line, its environment, and \<open>cacheProgClient\<close>, which multiplexes concurrent requests over
  the helper's standard input and output. A call of \<open>send\<close> is cut into the sections the code runs
  under its locks, so that calls and the reader interleave; channels are cells of a heap.
\<close>

section \<open>Command lines\<close>

text \<open>The cutset \<open>" \t\r\n"\<close>.\<close>

definition isBlank :: "char \<Rightarrow> bool" where
  "isBlank c \<longleftrightarrow> c \<in> {CHR '' '', CHR 0x09, CHR 0x0D, CHR 0x0A}"

abbreviation squote :: char where "squote \<equiv> CHR 0x27"
abbreviation dquote :: char where "dquote \<equiv> CHR 0x22"

function splitQuoted :: "string \<Rightarrow> string + string list" where
  "splitQuoted s =
     (case dropWhile isBlank s of
        [] \<Rightarrow> Inr []
      | c # r \<Rightarrow>
          if c = squote \<or> c = dquote
          then (case CutByte c r of
                  None \<Rightarrow> Inl (''unterminated '' @ [c] @ '' string'')
                | Some (a, b) \<Rightarrow> map_sum id (Cons a) (splitQuoted b))
          else (let w = takeWhile (\<lambda>c. \<not> isBlank c) (c # r); rest = dropWhile (\<lambda>c. \<not> isBlank c) (c # r)
                in if rest = [] then Inr [w] else map_sum id (Cons w) (splitQuoted rest)))"
  by pat_completeness auto

lemma CutByte_shorter: "CutByte c r = Some (a, b) \<Longrightarrow> length b < length r"
  by (auto simp: CutByte_Some_iff)

lemma dropWhile_ConsD: "dropWhile P s = c # r \<Longrightarrow> length r < length s \<and> \<not> P c"
  by (metis dropWhile_eq_Cons_conv hd_dropWhile length_dropWhile_le list.distinct(1) list.sel(1) order_less_le_trans
      length_Cons lessI)

termination splitQuoted
proof (relation "measure length")
  fix s c r a b ab
  assume "dropWhile isBlank s = c # r" "CutByte c r = Some ab" "(a, b) = ab"
  then show "(b, s) \<in> measure length"
    using dropWhile_ConsD [of isBlank s c r] CutByte_shorter [of c r a b] by auto
next
  fix s c r w rest
  assume d: "dropWhile isBlank s = c # r" and "rest = dropWhile (\<lambda>c. \<not> isBlank c) (c # r)"
  moreover have "length (dropWhile (\<lambda>c. \<not> isBlank c) r) \<le> length r" by (rule length_dropWhile_le)
  ultimately show "(rest, s) \<in> measure length"
    using dropWhile_ConsD [of isBlank s c r] by auto
qed auto

declare splitQuoted.simps [simp del]

definition quoteCacheProgArg :: "string \<Rightarrow> string" where
  "quoteCacheProgArg s =
     (if list_all (\<lambda>c. \<not> isBlank c \<and> c \<noteq> squote \<and> c \<noteq> dquote) s then s
      else if squote \<notin> set s then [squote] @ s @ [squote]
      else if dquote \<notin> set s then [dquote] @ s @ [dquote]
      else s)"

definition envWithout :: "string list \<Rightarrow> string list \<Rightarrow> string list" where
  "envWithout env names =
     filter (\<lambda>kv. (case CutByte (CHR ''='') kv of Some (n, _) \<Rightarrow> n | None \<Rightarrow> kv) \<notin> set names) env"

section \<open>The client\<close>

text \<open>
  A channel holds nothing yet, holds its one response, or is closed. The values of the map \<open>pending\<close>
  are positions in \<open>cc_chans\<close>. \<open>cc_out\<close> is what was written to the helper: a request, and the body that
  follows a \<open>put\<close> with whether its closing quote was written.
\<close>

datatype chanState = ChEmpty | ChFull cacheProgResponse | ChClosed

datatype wire = WRequest cacheProgRequest | WBody string bool

record cacheProgClient =
  cc_can :: "cacheProgCommand list"
  cc_nextID :: "64 word"
  cc_pending :: "(int, nat) gomap"
  cc_readErr :: "string option"
  cc_chans :: "chanState list"
  cc_out :: "wire list"

definition newClient :: "cacheProgCommand list \<Rightarrow> cacheProgClient" where
  "newClient can = \<lparr>cc_can = can, cc_nextID = 0, cc_pending = [], cc_readErr = None, cc_chans = [], cc_out = []\<rparr>"

text \<open>
  \<open>startCacheProgClient\<close>: \<open>start\<close> is the outcome of starting the process with the arguments and the
  environment, and then of decoding its first message.
\<close>

definition startCacheProgClient ::
    "(string list \<Rightarrow> string list \<Rightarrow> string + string + cacheProgResponse) \<Rightarrow> string list \<Rightarrow> string \<Rightarrow> string list
      \<Rightarrow> string + cacheProgClient" where
  "startCacheProgClient start environ command extraEnv =
     (case splitQuoted command of
        Inl e \<Rightarrow> Inl (''parsing GOCACHEPROG: '' @ e)
      | Inr args \<Rightarrow>
          if args = [] then Inl ''empty GOCACHEPROG''
          else case start args (envWithout environ [''GOCACHEPROG'', ''GOTST_CACHE_SHIM_SOCKET'',
                                  ''GOTST_LOCAL_BUILD_CACHE'', ''GOTST_STOCK_GO_CACHE''] @ extraEnv) of
                 Inl e \<Rightarrow> Inl e
               | Inr (Inl e) \<Rightarrow> Inl (''reading GOCACHEPROG capabilities: '' @ e)
               | Inr (Inr hello) \<Rightarrow>
                   if res_KnownCommands hello = [] then Inl ''GOCACHEPROG declared no supported commands''
                   else Inr (newClient (res_KnownCommands hello)))"

text \<open>The first section of \<open>send\<close>: it allocates the channel and enters it under a new ID.\<close>

definition sendStart :: "cacheProgRequest \<Rightarrow> cacheProgClient \<Rightarrow> string + cacheProgRequest \<times> nat \<times> cacheProgClient" where
  "sendStart req c =
     (if req_Command req \<notin> set (cc_can c)
      then Inl (''GOCACHEPROG does not support '' @ Quote (commandText (req_Command req)))
      else case cc_readErr c of
             Some e \<Rightarrow> Inl e
           | None \<Rightarrow>
               (let n = cc_nextID c + 1; ch = length (cc_chans c)
                in Inr (req\<lparr>req_ID := sint n\<rparr>, ch,
                        c\<lparr>cc_nextID := n, cc_pending := AList.update (sint n) ch (cc_pending c),
                          cc_chans := cc_chans c @ [ChEmpty]\<rparr>)))"

text \<open>
  The section under \<open>writeMu\<close>. The faults of the stream: encoding the request, the opening quote,
  copying the body (how many bytes were copied before the error), closing the encoder, the final
  quote, and flushing.
\<close>

record wireFaults =
  wf_encode :: "string option"
  wf_open :: "string option"
  wf_copy :: "(nat \<times> string) option"
  wf_close :: "string option"
  wf_end :: "string option"
  wf_flush :: "string option"

definition noWireFaults :: wireFaults where
  "noWireFaults = \<lparr>wf_encode = None, wf_open = None, wf_copy = None, wf_close = None, wf_end = None, wf_flush = None\<rparr>"

definition writeBody :: "wireFaults \<Rightarrow> cacheProgRequest \<Rightarrow> wire list \<times> string option" where
  "writeBody fl req =
     (case req_body req of
        None \<Rightarrow> ([], Some ''cache put has size but no body'')
      | Some b \<Rightarrow>
          (case (wf_open fl, wf_copy fl, wf_close fl) of
             (Some e, _, _) \<Rightarrow> ([], Some e)
           | (None, Some (n, e), _) \<Rightarrow> ([WBody (take n b) False], Some e)
           | (None, None, Some e) \<Rightarrow> ([WBody b False], Some e)
           | (None, None, None) \<Rightarrow>
               if int (length b) \<noteq> req_BodySize req
               then ([WBody b False],
                     Some (''cache put copied '' @ showNat (length b) @ '' bytes; want '' @ showInt (req_BodySize req)))
               else (case wf_end fl of Some e \<Rightarrow> ([WBody b False], Some e) | None \<Rightarrow> ([WBody b True], None))))"

definition writeRequest :: "wireFaults \<Rightarrow> cacheProgRequest \<Rightarrow> wire list \<times> string option" where
  "writeRequest fl req =
     (case wf_encode fl of
        Some e \<Rightarrow> ([], Some e)
      | None \<Rightarrow>
          (let (ws, e) = (if req_BodySize req > 0 then writeBody fl req else ([], None))
           in (WRequest (req\<lparr>req_body := None\<rparr>) # ws, if e = None then wf_flush fl else e)))"

definition sendWrite :: "wireFaults \<Rightarrow> cacheProgRequest \<Rightarrow> cacheProgClient \<Rightarrow> string option \<times> cacheProgClient" where
  "sendWrite fl req c = (let (ws, e) = writeRequest fl req in (e, c\<lparr>cc_out := cc_out c @ ws\<rparr>))"

text \<open>After a failed write.\<close>

definition sendAbort :: "cacheProgRequest \<Rightarrow> cacheProgClient \<Rightarrow> cacheProgClient" where
  "sendAbort req c = c\<lparr>cc_pending := AList.delete (req_ID req) (cc_pending c)\<rparr>"

text \<open>
  The \<open>select\<close> at the end of \<open>send\<close>: \<open>ctxErr\<close> is given when it takes the case of the done context.
  \<open>SendNil\<close> would be a nil response without an error.
\<close>

datatype sendOutcome = Waiting | SendErr string | SendOk cacheProgResponse | SendNil

definition sendResult :: "string option \<Rightarrow> nat \<Rightarrow> cacheProgClient \<Rightarrow> sendOutcome" where
  "sendResult ctxErr ch c =
     (case ctxErr of
        Some e \<Rightarrow> SendErr e
      | None \<Rightarrow>
          (case cc_chans c ! ch of
             ChEmpty \<Rightarrow> Waiting
           | ChClosed \<Rightarrow> (case cc_readErr c of Some e \<Rightarrow> SendErr e | None \<Rightarrow> SendNil)
           | ChFull res \<Rightarrow> if res_Err res \<noteq> [] then SendErr (res_Err res) else SendOk res))"

text \<open>
  One round of \<open>readLoop\<close>. \<open>None\<close>: the send on a channel that is full blocks the reader for ever, and
  so does one on a closed channel (it panics); closing a closed channel panics.
\<close>

definition closeChan :: "nat \<Rightarrow> cacheProgClient \<Rightarrow> cacheProgClient option" where
  "closeChan ch c =
     (case cc_chans c ! ch of
        ChEmpty \<Rightarrow> Some (c\<lparr>cc_chans := (cc_chans c)[ch := ChClosed]\<rparr>)
      | ChFull _ \<Rightarrow> Some c
      | ChClosed \<Rightarrow> None)"

definition readRound :: "string + cacheProgResponse \<Rightarrow> cacheProgClient \<Rightarrow> cacheProgClient option" where
  "readRound r c =
     (case r of
        Inl err \<Rightarrow>
          map_option (\<lambda>c'. c'\<lparr>cc_pending := []\<rparr>)
            (foldO (\<lambda>(i, ch). closeChan ch) (cc_pending c) (c\<lparr>cc_readErr := Some err\<rparr>))
      | Inr res \<Rightarrow>
          (case map_of (cc_pending c) (res_ID res) of
             None \<Rightarrow> Some c
           | Some ch \<Rightarrow>
               if cc_chans c ! ch = ChEmpty
               then Some (c\<lparr>cc_pending := AList.delete (res_ID res) (cc_pending c),
                            cc_chans := (cc_chans c)[ch := ChFull res]\<rparr>)
               else None))"

text \<open>The error of \<open>close\<close>, from the errors of its \<open>close\<close> request and of waiting for the process.\<close>

definition clientClose :: "cacheProgClient \<Rightarrow> string option \<Rightarrow> string option \<Rightarrow> string option" where
  "clientClose c sendErr waitErr =
     (let retErr = (if CmdClose \<in> set (cc_can c) then sendErr else None)
      in if retErr = None \<and> waitErr \<noteq> None then waitErr else retErr)"

text \<open>
  How a helper that follows the protocol reads what the client wrote: a \<open>put\<close> with a size is followed
  by its body, a JSON string. \<open>None\<close>: the decoder fails.
\<close>

fun decodeWire :: "wire list \<Rightarrow> cacheProgRequest list option" where
  "decodeWire [] = Some []"
| "decodeWire (WBody b z # ws) = None"
| "decodeWire (WRequest r # ws) =
     (if req_Command r = CmdPut \<and> req_BodySize r > 0
      then (case ws of
              WBody b z # ws' \<Rightarrow> if z then map_option (Cons (r\<lparr>req_body := Some b\<rparr>)) (decodeWire ws') else None
            | _ \<Rightarrow> None)
      else map_option (Cons r) (decodeWire ws))"

section \<open>Words and quotes\<close>

lemma splitQuoted_Nil [simp]: "splitQuoted [] = Inr []"
  by (simp add: splitQuoted.simps)

lemma splitQuoted_blank [simp]: "isBlank b \<Longrightarrow> splitQuoted (b # r) = splitQuoted r"
  by (subst (1 2) splitQuoted.simps) simp

lemma quote_not_blank [simp]: "\<not> isBlank squote" "\<not> isBlank dquote"
  by (simp_all add: isBlank_def)

lemma CutByte_append: "q \<notin> set w \<Longrightarrow> CutByte q (w @ q # r) = Some (w, r)"
  by (simp add: CutByte_Some_iff)

lemma splitQuoted_quoted:
  "q = squote \<or> q = dquote \<Longrightarrow> q \<notin> set w \<Longrightarrow> splitQuoted (q # w @ q # r) = map_sum id (Cons w) (splitQuoted r)"
  by (subst splitQuoted.simps) (auto simp: CutByte_append)

definition wordEnd :: "string \<Rightarrow> bool" where
  "wordEnd r \<longleftrightarrow> (case r of [] \<Rightarrow> True | b # _ \<Rightarrow> isBlank b)"

lemma splitQuoted_plain:
  assumes "w \<noteq> []" "\<forall>c \<in> set w. \<not> isBlank c" "hd w \<noteq> squote" "hd w \<noteq> dquote" "wordEnd r"
  shows "splitQuoted (w @ r) = map_sum id (Cons w) (splitQuoted r)"
proof -
  obtain c w' where w: "w = c # w'" using assms(1) by (cases w) auto
  have t: "takeWhile (\<lambda>c. \<not> isBlank c) (w' @ r) = w'" "dropWhile (\<lambda>c. \<not> isBlank c) (w' @ r) = r"
    using assms(2,5) by (auto simp: w wordEnd_def split: list.splits)
  show ?thesis using assms
    by (subst splitQuoted.simps) (auto simp: w t Let_def wordEnd_def split: list.splits)
qed

lemma splitQuoted_quote:
  assumes "s \<noteq> []" "squote \<notin> set s \<or> dquote \<notin> set s" "wordEnd r"
  shows "splitQuoted (quoteCacheProgArg s @ r) = map_sum id (Cons s) (splitQuoted r)"
proof (cases "list_all (\<lambda>c. \<not> isBlank c \<and> c \<noteq> squote \<and> c \<noteq> dquote) s")
  case True
  have "\<forall>c \<in> set s. \<not> isBlank c" "hd s \<noteq> squote" "hd s \<noteq> dquote" using True assms(1) by (auto simp: list_all_iff)
  with True assms show ?thesis by (simp add: quoteCacheProgArg_def splitQuoted_plain)
next
  case False
  with assms show ?thesis by (auto simp: quoteCacheProgArg_def splitQuoted_quoted)
qed

lemma splitQuoted_quotes:
  "\<forall>a \<in> set args. a \<noteq> [] \<and> (squote \<notin> set a \<or> dquote \<notin> set a)
    \<Longrightarrow> splitQuoted (Join '' '' (map quoteCacheProgArg args)) = Inr args"
proof (induction args)
  case Nil
  then show ?case by simp
next
  case (Cons a args)
  have sp: "isBlank (CHR '' '')" by (simp add: isBlank_def)
  show ?case
  proof (cases args)
    case Nil
    then show ?thesis using Cons.prems splitQuoted_quote [of a "[]"] by (simp add: wordEnd_def)
  next
    case (Cons a' as)
    have "splitQuoted (quoteCacheProgArg a @ CHR '' '' # Join '' '' (map quoteCacheProgArg args))
        = map_sum id (Cons a) (splitQuoted (Join '' '' (map quoteCacheProgArg args)))"
      using splitQuoted_quote [of a] Cons.prems sp by (simp add: wordEnd_def)
    with Cons Cons.IH Cons.prems show ?thesis by simp
  qed
qed

text \<open>A word that \<open>quoteCacheProgArg\<close> leaves bare splits at its first blank.\<close>

lemma splitQuoted_bare:
  assumes "squote \<in> set s" "dquote \<in> set s" "hd s \<noteq> squote" "hd s \<noteq> dquote" "s = w @ b # r" "w \<noteq> []"
    "\<forall>c \<in> set w. \<not> isBlank c" "isBlank b"
  shows "splitQuoted (quoteCacheProgArg s) = map_sum id (Cons w) (splitQuoted r)"
proof -
  have "quoteCacheProgArg s = w @ b # r" using assms by (auto simp: quoteCacheProgArg_def)
  moreover have "hd w \<noteq> squote" "hd w \<noteq> dquote" using assms(3-6) by auto
  ultimately show ?thesis using assms splitQuoted_plain [of w "b # r"] by (simp add: wordEnd_def)
qed

section \<open>Framing\<close>

lemma decodeWire_written:
  assumes "writeRequest fl req = (ws, None)" and "req_BodySize req > 0 \<longrightarrow> req_Command req = CmdPut"
  shows "decodeWire (ws @ rest)
    = map_option (Cons (if req_BodySize req > 0 then req else req\<lparr>req_body := None\<rparr>)) (decodeWire rest)"
proof (cases "req_BodySize req > 0")
  case True
  with assms obtain b where "req_body req = Some b" "ws = [WRequest (req\<lparr>req_body := None\<rparr>), WBody b True]"
    by (auto simp: writeRequest_def writeBody_def split: option.splits if_splits prod.splits)
  then show ?thesis using True assms(2) by (cases req) simp
next
  case False
  with assms have "ws = [WRequest (req\<lparr>req_body := None\<rparr>)]"
    by (auto simp: writeRequest_def split: option.splits if_splits)
  then show ?thesis using False by simp
qed

text \<open>A \<open>put\<close> that fails while its body is written leaves the stream undecodable from there on.\<close>

lemma decodeWire_broken:
  assumes "writeBody fl req = (ws, Some e)" "wf_encode fl = None" "req_BodySize req > 0" "req_Command req = CmdPut"
    and "rest = [] \<or> (\<exists>r rs. rest = WRequest r # rs)"
  shows "decodeWire (fst (writeRequest fl req) @ rest) = None"
proof -
  have "fst (writeRequest fl req) = WRequest (req\<lparr>req_body := None\<rparr>) # ws"
    using assms by (simp add: writeRequest_def)
  moreover have "ws = [] \<or> (\<exists>b. ws = [WBody b False])"
    using assms(1) by (auto simp: writeBody_def split: option.splits if_splits prod.splits)
  ultimately show ?thesis using assms by auto
qed

section \<open>Concurrent calls\<close>

text \<open>
  A system of one client, its reader and any number of concurrent calls. The calls and the responses
  read so far are kept in order; the call at position \<open>k\<close> owns the channel at position \<open>k\<close>.
\<close>

datatype callPhase = Writing | Aborting | Written | Failed

record clientSystem =
  cs_client :: cacheProgClient
  cs_calls :: "(cacheProgRequest \<times> callPhase) list"
  cs_received :: "cacheProgResponse list"

inductive client_step :: "clientSystem \<Rightarrow> clientSystem \<Rightarrow> bool" where
  started: "sendStart req (cs_client s) = Inr (req', ch, c')
    \<Longrightarrow> client_step s (s\<lparr>cs_client := c', cs_calls := cs_calls s @ [(req', Writing)]\<rparr>)"
| wrote: "k < length (cs_calls s) \<Longrightarrow> cs_calls s ! k = (req, Writing) \<Longrightarrow> sendWrite fl req (cs_client s) = (e, c')
    \<Longrightarrow> client_step s (s\<lparr>cs_client := c', cs_calls := (cs_calls s)[k := (req, if e = None then Written else Aborting)]\<rparr>)"
| aborted: "k < length (cs_calls s) \<Longrightarrow> cs_calls s ! k = (req, Aborting)
    \<Longrightarrow> client_step s (s\<lparr>cs_client := sendAbort req (cs_client s), cs_calls := (cs_calls s)[k := (req, Failed)]\<rparr>)"
| received: "cc_readErr (cs_client s) = None \<Longrightarrow> readRound r (cs_client s) = Some c'
    \<Longrightarrow> client_step s (s\<lparr>cs_client := c', cs_received := cs_received s @ (case r of Inl _ \<Rightarrow> [] | Inr res \<Rightarrow> [res])\<rparr>)"

definition client_start :: "clientSystem \<Rightarrow> bool" where
  "client_start s \<longleftrightarrow> (\<exists>can. s = \<lparr>cs_client = newClient can, cs_calls = [], cs_received = []\<rparr>)"

definition callID :: "nat \<Rightarrow> int" where
  "callID k = sint (word_of_nat (Suc k) :: 64 word)"

lemma callID_inject:
  assumes "k < 2 ^ 64 - 1" "l < 2 ^ 64 - 1" "callID k = callID l"
  shows "k = l"
proof -
  from assms(3) have "(word_of_nat (Suc k) :: 64 word) = word_of_nat (Suc l)"
    unfolding callID_def by (rule signed_word_eqI)
  then have "unat (word_of_nat (Suc k) :: 64 word) = unat (word_of_nat (Suc l) :: 64 word)" by simp
  moreover have "unat (word_of_nat (Suc m) :: 64 word) = Suc m" if "m < 2 ^ 64 - 1" for m
    using that by (simp del: of_nat_Suc add: unat_of_nat)
  ultimately show "k = l" using assms(1,2) by (metis Suc_inject)
qed

definition idsOK :: "64 word \<Rightarrow> (cacheProgRequest \<times> callPhase) list \<Rightarrow> bool" where
  "idsOK nextID calls \<longleftrightarrow> nextID = word_of_nat (length calls) \<and> (\<forall>k < length calls. req_ID (fst (calls ! k)) = callID k)"

definition pendingOK :: "(int, nat) gomap \<Rightarrow> chanState list \<Rightarrow> bool" where
  "pendingOK pend chans \<longleftrightarrow> gomap_ok pend
     \<and> (\<forall>i ch. map_of pend i = Some ch \<longrightarrow> ch < length chans \<and> i = callID ch \<and> chans ! ch = ChEmpty)"

definition answersOK :: "chanState list \<Rightarrow> cacheProgResponse list \<Rightarrow> bool" where
  "answersOK chans recv \<longleftrightarrow>
     (\<forall>k < length chans. \<forall>res. chans ! k = ChFull res \<longrightarrow> res \<in> set recv \<and> res_ID res = callID k)"

definition closedOK :: "chanState list \<Rightarrow> string option \<Rightarrow> (int, nat) gomap \<Rightarrow> bool" where
  "closedOK chans readErr pend \<longleftrightarrow> (readErr = None \<longrightarrow> ChClosed \<notin> set chans) \<and> (readErr \<noteq> None \<longrightarrow> pend = [])"

definition waitingOK :: "chanState list \<Rightarrow> (cacheProgRequest \<times> callPhase) list \<Rightarrow> (int, nat) gomap \<Rightarrow> bool" where
  "waitingOK chans calls pend \<longleftrightarrow> (length calls < 2 ^ 64 \<longrightarrow>
     (\<forall>k < length calls. chans ! k = ChEmpty \<longrightarrow> snd (calls ! k) \<noteq> Failed \<longrightarrow> map_of pend (callID k) = Some k))"

definition clientOK :: "clientSystem \<Rightarrow> bool" where
  "clientOK s \<longleftrightarrow>
     length (cc_chans (cs_client s)) = length (cs_calls s)
     \<and> idsOK (cc_nextID (cs_client s)) (cs_calls s)
     \<and> pendingOK (cc_pending (cs_client s)) (cc_chans (cs_client s))
     \<and> answersOK (cc_chans (cs_client s)) (cs_received s)
     \<and> closedOK (cc_chans (cs_client s)) (cc_readErr (cs_client s)) (cc_pending (cs_client s))
     \<and> waitingOK (cc_chans (cs_client s)) (cs_calls s) (cc_pending (cs_client s))"

lemma clientOK_start: "client_start s \<Longrightarrow> clientOK s"
  by (auto simp: client_start_def clientOK_def newClient_def idsOK_def pendingOK_def answersOK_def closedOK_def waitingOK_def)

lemma callID_fresh: "k < n \<Longrightarrow> n < 2 ^ 64 - 1 \<Longrightarrow> callID k \<noteq> callID n"
  using callID_inject [of k n] by auto

lemma clientOK_started:
  assumes ok: "clientOK s" and st: "sendStart req (cs_client s) = Inr (req', ch, c')"
  shows "clientOK (s\<lparr>cs_client := c', cs_calls := cs_calls s @ [(req', Writing)]\<rparr>)"
proof -
  let ?c = "cs_client s" and ?n = "length (cs_calls s)"
  note o = ok [unfolded clientOK_def]
  have i: "sint (cc_nextID ?c + 1) = callID ?n" using o by (simp add: callID_def idsOK_def add.commute)
  from st o have e: "cc_readErr ?c = None" "req' = req\<lparr>req_ID := callID ?n\<rparr>" "ch = ?n"
    "c' = ?c\<lparr>cc_nextID := cc_nextID ?c + 1, cc_pending := AList.update (callID ?n) ?n (cc_pending ?c),
              cc_chans := cc_chans ?c @ [ChEmpty]\<rparr>"
    by (auto simp: sendStart_def Let_def i split: if_splits option.splits)
  have len: "length (cc_chans ?c) = ?n" using o by simp
  have 1: "idsOK (cc_nextID ?c + 1) (cs_calls s @ [(req', Writing)])"
    using o e(2) by (auto simp: idsOK_def nth_append less_Suc_eq add.commute)
  have 2: "pendingOK (AList.update (callID ?n) ?n (cc_pending ?c)) (cc_chans ?c @ [ChEmpty])"
    using o by (auto simp: pendingOK_def nth_append len less_Suc_eq split: if_splits)
  have 3: "answersOK (cc_chans ?c @ [ChEmpty]) (cs_received s)"
    using o by (auto simp: answersOK_def nth_append less_Suc_eq)
  have 4: "closedOK (cc_chans ?c @ [ChEmpty]) None (AList.update (callID ?n) ?n (cc_pending ?c))"
    using o e(1) by (auto simp: closedOK_def)
  have "waitingOK (cc_chans ?c @ [ChEmpty]) (cs_calls s @ [(req', Writing)]) (AList.update (callID ?n) ?n (cc_pending ?c))"
    unfolding waitingOK_def
  proof (intro impI allI)
    fix k assume b: "length (cs_calls s @ [(req', Writing)]) < 2 ^ 64" "k < length (cs_calls s @ [(req', Writing)])"
      "(cc_chans ?c @ [ChEmpty]) ! k = ChEmpty" "snd ((cs_calls s @ [(req', Writing)]) ! k) \<noteq> Failed"
    show "map_of (AList.update (callID ?n) ?n (cc_pending ?c)) (callID k) = Some k"
    proof (cases "k = ?n")
      case False
      with b have "k < ?n" "?n < 2 ^ 64 - 1" by auto
      moreover from this have "map_of (cc_pending ?c) (callID k) = Some k"
        using o b len by (simp add: waitingOK_def nth_append)
      ultimately show ?thesis using callID_fresh [of k ?n] by simp
    qed simp
  qed
  with 1 2 3 4 len e show ?thesis by (simp add: clientOK_def)
qed

lemma clientOK_wrote:
  assumes ok: "clientOK s" and k: "k < length (cs_calls s)" "cs_calls s ! k = (req, Writing)" and ph: "ph \<noteq> Failed"
    and w: "sendWrite fl req (cs_client s) = (e, c')"
  shows "clientOK (s\<lparr>cs_client := c', cs_calls := (cs_calls s)[k := (req, ph)]\<rparr>)"
proof -
  note o = ok [unfolded clientOK_def]
  have c': "cc_chans c' = cc_chans (cs_client s)" "cc_nextID c' = cc_nextID (cs_client s)"
    "cc_pending c' = cc_pending (cs_client s)" "cc_readErr c' = cc_readErr (cs_client s)"
    using w by (auto simp: sendWrite_def split: prod.splits)
  have "idsOK (cc_nextID (cs_client s)) ((cs_calls s)[k := (req, ph)])"
    using o k by (auto simp: idsOK_def nth_list_update)
  moreover have "waitingOK (cc_chans (cs_client s)) ((cs_calls s)[k := (req, ph)]) (cc_pending (cs_client s))"
    using o k ph by (auto simp: waitingOK_def nth_list_update)
  ultimately show ?thesis using o by (simp add: clientOK_def c')
qed

lemma clientOK_aborted:
  assumes ok: "clientOK s" and k: "k < length (cs_calls s)" "cs_calls s ! k = (req, Aborting)"
  shows "clientOK (s\<lparr>cs_client := sendAbort req (cs_client s), cs_calls := (cs_calls s)[k := (req, Failed)]\<rparr>)"
proof -
  let ?c = "cs_client s"
  note o = ok [unfolded clientOK_def]
  have i: "req_ID req = callID k" using o k by (auto simp: idsOK_def)
  have 1: "idsOK (cc_nextID ?c) ((cs_calls s)[k := (req, Failed)])"
    using o k by (auto simp: idsOK_def nth_list_update)
  have 2: "pendingOK (AList.delete (callID k) (cc_pending ?c)) (cc_chans ?c)"
    using o by (auto simp: pendingOK_def split: if_splits)
  have 3: "closedOK (cc_chans ?c) (cc_readErr ?c) (AList.delete (callID k) (cc_pending ?c))"
    using o by (auto simp: closedOK_def)
  have "waitingOK (cc_chans ?c) ((cs_calls s)[k := (req, Failed)]) (AList.delete (callID k) (cc_pending ?c))"
    unfolding waitingOK_def
  proof (intro impI allI)
    fix l assume b: "length ((cs_calls s)[k := (req, Failed)]) < 2 ^ 64" "l < length ((cs_calls s)[k := (req, Failed)])"
      "cc_chans ?c ! l = ChEmpty" "snd ((cs_calls s)[k := (req, Failed)] ! l) \<noteq> Failed"
    then have "l \<noteq> k" using k by (auto simp: nth_list_update)
    moreover from this b have "map_of (cc_pending ?c) (callID l) = Some l" using o by (simp add: waitingOK_def)
    moreover have "callID l \<noteq> callID k" using callID_inject [of l k] b k \<open>l \<noteq> k\<close> by auto
    ultimately show "map_of (AList.delete (callID k) (cc_pending ?c)) (callID l) = Some l" by simp
  qed
  with 1 2 3 o show ?thesis by (simp add: clientOK_def sendAbort_def i)
qed

lemma pendingOK_Cons:
  "pendingOK ((i, ch) # pend) chans \<Longrightarrow>
     i \<notin> fst ` set pend \<and> ch < length chans \<and> i = callID ch \<and> chans ! ch = ChEmpty \<and> pendingOK pend chans"
proof -
  assume p: "pendingOK ((i, ch) # pend) chans"
  then have i: "i \<notin> fst ` set pend" "gomap_ok pend" by (simp_all add: pendingOK_def gomap_ok_def)
  have h: "map_of ((i, ch) # pend) j = Some d \<Longrightarrow> d < length chans \<and> j = callID d \<and> chans ! d = ChEmpty" for j d
    using p by (simp add: pendingOK_def)
  have "map_of ((i, ch) # pend) j = Some d" if "map_of pend j = Some d" for j d
    using that i(1) by (auto simp: map_of_eq_None_iff [symmetric])
  then have "\<forall>j d. map_of pend j = Some d \<longrightarrow> d < length chans \<and> j = callID d \<and> chans ! d = ChEmpty" using h by blast
  then show ?thesis using i h [of i ch] by (simp add: pendingOK_def)
qed

lemma closeChans:
  assumes "pendingOK pend (cc_chans c)"
  shows "\<exists>c'. foldO (\<lambda>(i, ch). closeChan ch) pend c = Some c' \<and> c' = c\<lparr>cc_chans := cc_chans c'\<rparr>
    \<and> length (cc_chans c') = length (cc_chans c)
    \<and> (\<forall>k < length (cc_chans c). cc_chans c' ! k = (if k \<in> snd ` set pend then ChClosed else cc_chans c ! k))"
  using assms
proof (induction pend arbitrary: c)
  case Nil
  show ?case by simp
next
  case (Cons p pend)
  obtain i ch where p: "p = (i, ch)" by (cases p)
  note ch = pendingOK_Cons [OF Cons.prems [unfolded p]]
  let ?c = "c\<lparr>cc_chans := (cc_chans c)[ch := ChClosed]\<rparr>"
  have "j \<noteq> ch" if "map_of pend k = Some j" for k j
    using ch that by (auto simp: pendingOK_def map_of_eq_None_iff [symmetric])
  then have "pendingOK pend (cc_chans ?c)" using ch by (auto simp: pendingOK_def nth_list_update)
  from Cons.IH [OF this] obtain c' where c': "foldO (\<lambda>(i, ch). closeChan ch) pend ?c = Some c'"
    "c' = ?c\<lparr>cc_chans := cc_chans c'\<rparr>" "length (cc_chans c') = length (cc_chans ?c)"
    "\<forall>k < length (cc_chans ?c). cc_chans c' ! k = (if k \<in> snd ` set pend then ChClosed else cc_chans ?c ! k)" by blast
  have "foldO (\<lambda>(i, ch). closeChan ch) (p # pend) c = Some c'" using c'(1) ch by (simp add: p closeChan_def)
  moreover have "c' = c\<lparr>cc_chans := cc_chans c'\<rparr>" using c'(2) by simp
  moreover have "length (cc_chans c') = length (cc_chans c)" using c'(3) by simp
  moreover have "\<forall>k < length (cc_chans c). cc_chans c' ! k = (if k \<in> snd ` set (p # pend) then ChClosed else cc_chans c ! k)"
    using c'(4) by (auto simp: p nth_list_update)
  ultimately show ?case by blast
qed

lemma readRound_total: "clientOK s \<Longrightarrow> \<exists>c'. readRound r (cs_client s) = Some c'"
proof (cases r)
  case (Inl err)
  assume "clientOK s"
  then have "pendingOK (cc_pending (cs_client s)) (cc_chans ((cs_client s)\<lparr>cc_readErr := Some err\<rparr>))"
    by (simp add: clientOK_def)
  from closeChans [OF this] show ?thesis by (auto simp: readRound_def Inl)
next
  case (Inr res)
  assume "clientOK s"
  then show ?thesis by (auto simp: readRound_def Inr clientOK_def pendingOK_def split: option.splits)
qed

lemma clientOK_read_error:
  assumes ok: "clientOK s" and "cc_readErr (cs_client s) = None" and rd: "readRound (Inl err) (cs_client s) = Some c'"
  shows "clientOK (s\<lparr>cs_client := c'\<rparr>)"
proof -
  let ?c = "cs_client s"
  note o = ok [unfolded clientOK_def]
  have "pendingOK (cc_pending ?c) (cc_chans (?c\<lparr>cc_readErr := Some err\<rparr>))" using o by simp
  from closeChans [OF this] rd obtain d where d: "c' = d\<lparr>cc_pending := []\<rparr>" "d = ?c\<lparr>cc_readErr := Some err, cc_chans := cc_chans d\<rparr>"
    "length (cc_chans d) = length (cc_chans ?c)"
    "\<forall>k < length (cc_chans ?c). cc_chans d ! k = (if k \<in> snd ` set (cc_pending ?c) then ChClosed else cc_chans ?c ! k)"
    by (auto simp: readRound_def)
  have d': "cc_nextID d = cc_nextID ?c" "cc_readErr d = Some err" by (subst d(2), simp)+
  have 1: "answersOK (cc_chans d) (cs_received s)"
    using o d(3,4) by (auto simp: answersOK_def split: if_splits)
  have "waitingOK (cc_chans d) (cs_calls s) []"
    unfolding waitingOK_def
  proof (intro impI allI)
    fix k assume k: "length (cs_calls s) < 2 ^ 64" "k < length (cs_calls s)" "cc_chans d ! k = ChEmpty" "snd (cs_calls s ! k) \<noteq> Failed"
    then have n: "k \<notin> snd ` set (cc_pending ?c)" "cc_chans ?c ! k = ChEmpty" using d(4) o by (auto split: if_splits)
    with k o have "map_of (cc_pending ?c) (callID k) = Some k" by (simp add: waitingOK_def)
    with n(1) show "map_of [] (callID k) = Some k" by (force dest: map_of_SomeD)
  qed
  with 1 o d(1,3) d' show ?thesis by (simp add: clientOK_def pendingOK_def closedOK_def)
qed

lemma clientOK_read_response:
  assumes ok: "clientOK s" and rd: "readRound (Inr res) (cs_client s) = Some c'"
  shows "clientOK (s\<lparr>cs_client := c', cs_received := cs_received s @ [res]\<rparr>)"
proof (cases "map_of (cc_pending (cs_client s)) (res_ID res)")
  case None
  then have "c' = cs_client s" using rd by (simp add: readRound_def)
  then show ?thesis using ok by (auto simp: clientOK_def answersOK_def)
next
  case (Some ch)
  let ?c = "cs_client s"
  let ?pend = "AList.delete (res_ID res) (cc_pending ?c)" and ?chans = "(cc_chans ?c)[ch := ChFull res]"
  note o = ok [unfolded clientOK_def]
  from Some o have ch: "ch < length (cc_chans ?c)" "res_ID res = callID ch" "cc_chans ?c ! ch = ChEmpty"
    by (auto simp: pendingOK_def)
  have c': "c' = ?c\<lparr>cc_pending := ?pend, cc_chans := ?chans\<rparr>" using rd Some ch by (simp add: readRound_def)
  have 1: "pendingOK ?pend ?chans" using o ch by (auto simp: pendingOK_def nth_list_update split: if_splits)
  have 2: "answersOK ?chans (cs_received s @ [res])" using o ch by (auto simp: answersOK_def nth_list_update)
  have 3: "closedOK ?chans (cc_readErr ?c) ?pend"
    using o Some set_update_subset_insert [of "cc_chans ?c" ch "ChFull res"] by (auto simp: closedOK_def)
  have "waitingOK ?chans (cs_calls s) ?pend"
    unfolding waitingOK_def
  proof (intro impI allI)
    fix k assume k: "length (cs_calls s) < 2 ^ 64" "k < length (cs_calls s)" "?chans ! k = ChEmpty" "snd (cs_calls s ! k) \<noteq> Failed"
    then have n: "k \<noteq> ch" "cc_chans ?c ! k = ChEmpty" using o ch by (auto simp: nth_list_update split: if_splits)
    with k o have "map_of (cc_pending ?c) (callID k) = Some k" by (simp add: waitingOK_def)
    moreover have "callID k \<noteq> callID ch" using callID_inject [of k ch] k n o ch by auto
    ultimately show "map_of ?pend (callID k) = Some k" by (simp add: ch(2))
  qed
  with 1 2 3 o show ?thesis by (simp add: clientOK_def c')
qed

interpretation cache_client: invariant_system client_start client_step clientOK
proof unfold_locales
  fix s t
  show "client_start s \<Longrightarrow> clientOK s" by (rule clientOK_start)
  assume ok: "clientOK s" and st: "client_step s t"
  from st show "clientOK t"
  proof cases
    case (started req req' ch c')
    then show ?thesis using clientOK_started [OF ok] by simp
  next
    case (wrote k req fl e c')
    then show ?thesis using clientOK_wrote [OF ok wrote(2,3) _ wrote(4)] by simp
  next
    case (aborted k req)
    then show ?thesis using clientOK_aborted [OF ok] by simp
  next
    case (received r c')
    then show ?thesis using clientOK_read_error [OF ok] clientOK_read_response [OF ok] by (cases r) auto
  qed
qed

section \<open>A small system for the examples\<close>

definition sampleGet :: cacheProgRequest where
  "sampleGet = \<lparr>req_ID = 0, req_Command = CmdGet, req_ActionID = ''a'', req_OutputID = [], req_ObjectID = [],
     req_BodySize = 0, req_body = None\<rparr>"

definition samplePutRequest :: "int \<Rightarrow> cacheProgRequest" where
  "samplePutRequest n = \<lparr>req_ID = 1, req_Command = CmdPut, req_ActionID = ''a'', req_OutputID = ''o'', req_ObjectID = [],
     req_BodySize = n, req_body = Some ''xy''\<rparr>"

definition sampleSystem :: clientSystem where
  "sampleSystem =
     \<lparr>cs_client = (newClient [CmdGet])\<lparr>cc_nextID := 1, cc_chans := [ChFull (missResponse\<lparr>res_ID := 1\<rparr>)], cc_out := [WRequest (sampleGet\<lparr>req_ID := 1\<rparr>)]\<rparr>,
      cs_calls = [(sampleGet\<lparr>req_ID := 1\<rparr>, Written)], cs_received = [missResponse\<lparr>res_ID := 1\<rparr>]\<rparr>"

lemma sampleSystem_reach: "reach client_start client_step sampleSystem"
proof -
  let ?r = "sampleGet\<lparr>req_ID := 1\<rparr>"
  let ?s0 = "\<lparr>cs_client = newClient [CmdGet], cs_calls = [], cs_received = []\<rparr>"
  let ?c1 = "(newClient [CmdGet])\<lparr>cc_nextID := 1, cc_pending := [(1, 0)], cc_chans := [ChEmpty]\<rparr>"
  have "reach client_start client_step ?s0" by (rule reach_start) (auto simp: client_start_def)
  then have 1: "reach client_start client_step (?s0\<lparr>cs_client := ?c1, cs_calls := [(?r, Writing)]\<rparr>)"
    by (rule reach_step) (use client_step.started [of sampleGet ?s0 ?r 0 ?c1] in
        \<open>simp add: sendStart_def sampleGet_def newClient_def Let_def\<close>)
  let ?c2 = "?c1\<lparr>cc_out := [WRequest ?r]\<rparr>"
  have 2: "reach client_start client_step (?s0\<lparr>cs_client := ?c2, cs_calls := [(?r, Written)]\<rparr>)"
    using client_step.wrote [of 0 "?s0\<lparr>cs_client := ?c1, cs_calls := [(?r, Writing)]\<rparr>" ?r noWireFaults None ?c2]
    by (intro reach_step [OF 1]) (simp add: sendWrite_def writeRequest_def noWireFaults_def sampleGet_def newClient_def)
  let ?c3 = "?c2\<lparr>cc_pending := [], cc_chans := [ChFull (missResponse\<lparr>res_ID := 1\<rparr>)]\<rparr>"
  have 3: "reach client_start client_step
      (?s0\<lparr>cs_client := ?c3, cs_calls := [(?r, Written)], cs_received := [missResponse\<lparr>res_ID := 1\<rparr>]\<rparr>)"
    using client_step.received [of "?s0\<lparr>cs_client := ?c2, cs_calls := [(?r, Written)]\<rparr>" "Inr (missResponse\<lparr>res_ID := 1\<rparr>)" ?c3]
    by (intro reach_step [OF 2]) (simp add: readRound_def newClient_def missResponse_def zeroResponse_def)
  then show ?thesis by (simp add: sampleSystem_def newClient_def)
qed

section \<open>Properties\<close>

text \<open>
  C33. Concurrent requests to a cache helper get their own answers: in every state the client, its
  reader and its callers can reach, the reader can take any further message without blocking or
  panicking; a call that returns a response returns one that the helper sent, without an error and
  with the ID of that very call; a call never returns a nil response without an error; and once the
  stream has failed, no call that has written its request waits for ever (for fewer than \<open>2 ^ 64\<close>
  calls, whose IDs are then distinct).
\<close>

theorem client_answers_match:
  assumes "reach client_start client_step s"
  shows "(\<forall>r. \<exists>c'. readRound r (cs_client s) = Some c')
    \<and> (\<forall>k < length (cs_calls s).
          sendResult None k (cs_client s) \<noteq> SendNil
        \<and> (\<forall>res. sendResult None k (cs_client s) = SendOk res \<longrightarrow>
              res \<in> set (cs_received s) \<and> res_Err res = [] \<and> res_ID res = req_ID (fst (cs_calls s ! k))))
    \<and> (length (cs_calls s) < 2 ^ 64 \<longrightarrow>
          distinct (map (req_ID \<circ> fst) (cs_calls s))
        \<and> (\<forall>k < length (cs_calls s). cc_readErr (cs_client s) \<noteq> None \<longrightarrow> snd (cs_calls s ! k) = Written
              \<longrightarrow> sendResult None k (cs_client s) \<noteq> Waiting))"
proof -
  note ok = cache_client.reach_inv [OF assms]
  note o = ok [unfolded clientOK_def]
  have closed: "cc_readErr (cs_client s) = None \<Longrightarrow> k < length (cs_calls s) \<Longrightarrow> cc_chans (cs_client s) ! k \<noteq> ChClosed" for k
    using o by (metis closedOK_def nth_mem)
  have "sendResult None k (cs_client s) \<noteq> SendNil" if "k < length (cs_calls s)" for k
    using closed that by (auto simp: sendResult_def split: chanState.splits option.splits)
  moreover have "res \<in> set (cs_received s) \<and> res_Err res = [] \<and> res_ID res = req_ID (fst (cs_calls s ! k))"
    if "k < length (cs_calls s)" "sendResult None k (cs_client s) = SendOk res" for k res
    using o that by (auto simp: sendResult_def answersOK_def idsOK_def split: chanState.splits option.splits if_splits)
  moreover have "sendResult None k (cs_client s) \<noteq> Waiting"
    if "length (cs_calls s) < 2 ^ 64" "k < length (cs_calls s)" "cc_readErr (cs_client s) \<noteq> None" "snd (cs_calls s ! k) = Written" for k
    using o that by (auto simp: sendResult_def waitingOK_def closedOK_def split: chanState.splits option.splits if_splits)
  moreover have "distinct (map (req_ID \<circ> fst) (cs_calls s))" if "length (cs_calls s) < 2 ^ 64"
    using o callID_inject that by (auto simp: idsOK_def distinct_conv_nth)
  ultimately show ?thesis using readRound_total [OF ok] by blast
qed

theorem client_answers_match_witness:
  "sendResult None 0 (cs_client sampleSystem) = SendOk (missResponse\<lparr>res_ID := 1\<rparr>)
   \<and> missResponse\<lparr>res_ID := 1\<rparr> \<in> set (cs_received sampleSystem)"
proof -
  have k: "0 < length (cs_calls sampleSystem)"
    "sendResult None 0 (cs_client sampleSystem) = SendOk (missResponse\<lparr>res_ID := 1\<rparr>)"
    by (simp_all add: sampleSystem_def sendResult_def newClient_def missResponse_def zeroResponse_def)
  from client_answers_match [OF sampleSystem_reach] k show ?thesis by blast
qed

text \<open>
  A command line built from quoted arguments is split back into exactly these arguments, as long
  as none is empty and none contains both kinds of quotes. An argument with both quotes that starts
  with neither and contains a blank is not reported as an error: the part before the blank becomes
  the program that is run.
\<close>

theorem quoted_arguments_split:
  "((\<forall>a \<in> set args. a \<noteq> [] \<and> (squote \<notin> set a \<or> dquote \<notin> set a))
      \<longrightarrow> splitQuoted (Join '' '' (map quoteCacheProgArg args)) = Inr args)
   \<and> (\<forall>s w b r. squote \<in> set s \<and> dquote \<in> set s \<and> hd s \<noteq> squote \<and> hd s \<noteq> dquote \<and> s = w @ b # r \<and> w \<noteq> []
      \<and> (\<forall>c \<in> set w. \<not> isBlank c) \<and> isBlank b
      \<longrightarrow> splitQuoted (quoteCacheProgArg s) = map_sum id (Cons w) (splitQuoted r))"
  using splitQuoted_quotes splitQuoted_bare by blast

theorem quoted_arguments_split_witness:
  "splitQuoted (Join '' '' (map quoteCacheProgArg [''/my dir/gotst'', ''-x''])) = Inr [''/my dir/gotst'', ''-x'']
   \<and> splitQuoted (quoteCacheProgArg (''/bin/sh '' @ [squote, dquote])) = map_sum id (Cons ''/bin/sh'') (splitQuoted [squote, dquote])"
proof -
  have "\<forall>a \<in> set [''/my dir/gotst'', ''-x'']. a \<noteq> [] \<and> (squote \<notin> set a \<or> dquote \<notin> set a)" by simp
  moreover have "squote \<in> set (''/bin/sh '' @ [squote, dquote]) \<and> dquote \<in> set (''/bin/sh '' @ [squote, dquote])
    \<and> hd (''/bin/sh '' @ [squote, dquote]) \<noteq> squote \<and> hd (''/bin/sh '' @ [squote, dquote]) \<noteq> dquote
    \<and> ''/bin/sh '' @ [squote, dquote] = ''/bin/sh'' @ CHR '' '' # [squote, dquote] \<and> ''/bin/sh'' \<noteq> []
    \<and> (\<forall>c \<in> set ''/bin/sh''. \<not> isBlank c) \<and> isBlank (CHR '' '')" by (simp add: isBlank_def)
  ultimately show ?thesis using quoted_arguments_split [of "[''/my dir/gotst'', ''-x'']"] by blast
qed



end
