(* ===== verification/Cache_Shim.thy ===== *)
theory Cache_Shim
  imports Cache_Client Server
begin

text \<open>
  The GOCACHEPROG shim between cmd/go and a cache helper (\<open>cacheprog.go\<close>, \<open>cacheShim\<close>): it forwards
  cmd/go's requests, remembers the link actions that missed, verifies executables before it hands
  them out, and uploads newly linked test executables under the action that missed. The helper is
  a parameter: the result of \<open>send\<close> and what it does to the files.
\<close>

section \<open>Action IDs and executables\<close>

definition b64Char :: "nat \<Rightarrow> char" where
  "b64Char n = (if n < 26 then char_of (65 + n) else if n < 52 then char_of (71 + n)
                else if n < 62 then char_of (n - 4) else if n = 62 then CHR ''-'' else CHR ''_'')"

text \<open>\<open>base64.RawURLEncoding.EncodeToString\<close>.\<close>

fun b64url :: "nat list \<Rightarrow> string" where
  "b64url [] = []"
| "b64url [a] = [b64Char (a div 4), b64Char (a mod 4 * 16)]"
| "b64url [a, b] = [b64Char (a div 4), b64Char (a mod 4 * 16 + b div 16), b64Char (b mod 16 * 4)]"
| "b64url (a # b # c # s) =
     [b64Char (a div 4), b64Char (a mod 4 * 16 + b div 16), b64Char (b mod 16 * 4 + c div 64), b64Char (c mod 64)] @ b64url s"

definition actionIDPrefix :: "string \<Rightarrow> string" where
  "actionIDPrefix actionID = (if length actionID < 15 then [] else b64url (map of_char (take 15 actionID)))"

text \<open>
  \<open>se_buildID\<close>: what \<open>go tool buildid\<close> prints for a file with the given content; \<open>se_rename\<close>, \<open>se_chmod\<close>: the
  errors of these system calls.
\<close>

record shimEnv =
  se_os :: osEnv
  se_buildID :: "string \<Rightarrow> string + string"
  se_windows :: bool
  se_rename :: "gopath \<Rightarrow> string option"
  se_chmod :: "gopath \<Rightarrow> string option"

definition readGoBuildID :: "shimEnv \<Rightarrow> files \<Rightarrow> gopath \<Rightarrow> string + string" where
  "readGoBuildID se fs path =
     (case readFile (se_os se) fs path of
        Inl e \<Rightarrow> Inl e
      | Inr (IndexJson _) \<Rightarrow> Inl ''unrecognized file format''
      | Inr (Bytes c) \<Rightarrow> map_sum id TrimSpace (se_buildID se c))"

text \<open>\<open>hashFile\<close>; the hash is in hexadecimal.\<close>

definition hashFile :: "shimEnv \<Rightarrow> files \<Rightarrow> gopath \<Rightarrow> string + string \<times> int" where
  "hashFile se fs path =
     (case readFile (se_os se) fs path of
        Inl e \<Rightarrow> Inl e
      | Inr (IndexJson _) \<Rightarrow> Inl ''not an object''
      | Inr (Bytes c) \<Rightarrow> Inr (os_sha (se_os se) c, int (length c)))"

definition executableMagic :: "string \<Rightarrow> bool" where
  "executableMagic c \<longleftrightarrow> length c \<ge> 4 \<and>
     (take 4 c = [CHR 0x7F, CHR ''E'', CHR ''L'', CHR ''F'']
      \<or> take 2 c = ''MZ''
      \<or> take 4 c = [CHR 0x00, CHR ''a'', CHR ''s'', CHR ''m'']
      \<or> take 4 c = [CHR 0xFE, CHR 0xED, CHR 0xFA, CHR 0xCE]
      \<or> take 4 c = [CHR 0xFE, CHR 0xED, CHR 0xFA, CHR 0xCF]
      \<or> take 4 c = [CHR 0xCE, CHR 0xFA, CHR 0xED, CHR 0xFE]
      \<or> take 4 c = [CHR 0xCF, CHR 0xFA, CHR 0xED, CHR 0xFE])"

definition looksLikeExecutable :: "shimEnv \<Rightarrow> files \<Rightarrow> gopath \<Rightarrow> bool" where
  "looksLikeExecutable se fs path =
     (case readFile (se_os se) fs path of Inr (Bytes c) \<Rightarrow> executableMagic c | _ \<Rightarrow> False)"

text \<open>\<open>fi.Mode()&0100 != 0\<close> of a regular file.\<close>

definition isExecutable :: "files \<Rightarrow> gopath \<Rightarrow> bool" where
  "isExecutable fs path = (case map_of fs path of Some (Reg _ _ x) \<Rightarrow> x | _ \<Rightarrow> False)"

text \<open>
  \<open>copyExecutable\<close> copies to a temporary file and renames it. \<open>os_write\<close> is the error of writing the
  temporary file. When the rename fails and something is at the destination, this counts as success.
\<close>

definition copyExecutable :: "shimEnv \<Rightarrow> gopath \<Rightarrow> gopath \<Rightarrow> files \<Rightarrow> string option \<times> files" where
  "copyExecutable se src dst fs =
     (case readFile (se_os se) fs src of
        Inl e \<Rightarrow> (Some e, fs)
      | Inr c \<Rightarrow>
          (case os_write (se_os se) dst of
             Some e \<Rightarrow> (Some e, fs)
           | None \<Rightarrow>
               (case se_rename se dst of
                  Some e \<Rightarrow> (if map_of fs dst \<noteq> None then None else Some e, fs)
                | None \<Rightarrow> (None, AList.update dst (Reg c (os_now (se_os se)) True) fs))))"

definition chmodExec :: "gopath \<Rightarrow> files \<Rightarrow> files" where
  "chmodExec path fs =
     (case map_of fs path of Some (Reg c t _) \<Rightarrow> AList.update path (Reg c t True) fs | _ \<Rightarrow> fs)"

section \<open>The shim\<close>

record executableRegistration =
  er_Path :: gopath
  er_OutputHash :: string
  er_Size :: int

record verifiedExecutable =
  ve_OutputHash :: string
  ve_Size :: int

record cacheLookupEvent =
  cl_ActionID :: string
  cl_Hit :: bool

text \<open>
  \<open>sh_can\<close> is the downstream client's \<open>can\<close>; \<open>sh_toolExec\<close> and \<open>sh_cacheLookup\<close> say whether the callbacks
  are set. The callbacks' events are returned.
\<close>

record cacheShim =
  sh_directExecutables :: bool
  sh_toolExec :: bool
  sh_cacheLookup :: bool
  sh_can :: "cacheProgCommand list"
  sh_execDir :: gopath
  sh_misses :: "(string, string) gomap"
  sh_uploaded :: "string list"
  sh_execHit :: "string list"
  sh_verifiedExec :: "(gopath, verifiedExecutable) gomap"
  sh_execHits :: int
  sh_execPuts :: int

type_synonym downstream = "cacheProgRequest \<Rightarrow> files \<Rightarrow> (string + cacheProgResponse) \<times> files"

definition newShim :: "bool \<Rightarrow> cacheProgCommand list \<Rightarrow> gopath \<Rightarrow> cacheShim" where
  "newShim direct can dir =
     \<lparr>sh_directExecutables = direct, sh_toolExec = True, sh_cacheLookup = True, sh_can = can, sh_execDir = dir,
      sh_misses = [], sh_uploaded = [], sh_execHit = [], sh_verifiedExec = [], sh_execHits = 0, sh_execPuts = 0\<rparr>"

definition executableWasCached :: "cacheShim \<Rightarrow> string \<Rightarrow> bool" where
  "executableWasCached s outputHash \<longleftrightarrow> outputHash \<in> set (sh_execHit s)"

definition recordMiss :: "string \<Rightarrow> cacheShim \<Rightarrow> cacheShim" where
  "recordMiss actionID s =
     (let pre = actionIDPrefix actionID
      in if pre = [] then s else s\<lparr>sh_misses := AList.update pre actionID (sh_misses s)\<rparr>)"

definition verifiedObject :: "shimEnv \<Rightarrow> files \<Rightarrow> string \<Rightarrow> cacheProgResponse \<Rightarrow> bool" where
  "verifiedObject se fs actionID res =
     (res_DiskPath res \<noteq> [] \<and> looksLikeExecutable se fs (res_DiskPath res)
      \<and> (case readGoBuildID se fs (res_DiskPath res) of
           Inl _ \<Rightarrow> False
         | Inr buildID \<Rightarrow> (let parts = SplitByte slash buildID in length parts = 4 \<and> hd parts = actionIDPrefix actionID))
      \<and> (case hashFile se fs (res_DiskPath res) of Inl _ \<Rightarrow> False | Inr (h, _) \<Rightarrow> h = hexEncode (res_OutputID res)))"

definition materializeExecutable :: "shimEnv \<Rightarrow> cacheShim \<Rightarrow> string \<Rightarrow> cacheProgResponse \<Rightarrow> files \<Rightarrow> gopath option \<times> files" where
  "materializeExecutable se s actionID res fs =
     (if \<not> verifiedObject se fs actionID res then (None, fs)
      else if sh_directExecutables s \<and> (se_windows se \<or> isExecutable fs (res_DiskPath res)) then (Some (res_DiskPath res), fs)
      else let target = pathJoin [sh_execDir s, hexEncode (res_OutputID res)]
           in if statRegular fs target \<noteq> None \<and> isExecutable fs target
                 \<and> (case hashFile se fs target of Inl _ \<Rightarrow> False | Inr (h, _) \<Rightarrow> h = hexEncode (res_OutputID res))
              then (Some target, fs)
              else case copyExecutable se (res_DiskPath res) target fs of
                     (Some e, fs') \<Rightarrow> (None, fs')
                   | (None, fs') \<Rightarrow> (Some target, fs'))"

text \<open>\<open>forward\<close>: the response or the error, the events for \<open>cacheLookup\<close>, the shim and the files.\<close>

definition lookupEvent :: "cacheShim \<Rightarrow> string \<Rightarrow> bool \<Rightarrow> cacheLookupEvent list" where
  "lookupEvent s actionID hit = (if sh_cacheLookup s then [\<lparr>cl_ActionID = actionID, cl_Hit = hit\<rparr>] else [])"

definition forwardHit :: "shimEnv \<Rightarrow> string \<Rightarrow> cacheProgResponse \<Rightarrow> cacheShim \<Rightarrow> files \<Rightarrow> cacheProgResponse \<times> cacheShim \<times> files" where
  "forwardHit se actionID res s fs =
     (if \<not> looksLikeExecutable se fs (res_DiskPath res) then (res, s, fs)
      else case materializeExecutable se s actionID res fs of
             (None, fs') \<Rightarrow> (missResponse, recordMiss actionID s, fs')
           | (Some path, fs') \<Rightarrow>
               (case statRegular fs' path of
                  None \<Rightarrow> (missResponse, recordMiss actionID s, fs')
                | Some (sz, _) \<Rightarrow>
                    (let h = hexEncode (res_OutputID res)
                     in (res\<lparr>res_DiskPath := path\<rparr>,
                         s\<lparr>sh_execHit := List.insert h (sh_execHit s),
                           sh_verifiedExec := AList.update (pathClean path) \<lparr>ve_OutputHash = h, ve_Size = sz\<rparr> (sh_verifiedExec s),
                           sh_execHits := sh_execHits s + 1\<rparr>, fs'))))"

definition withOutputID :: "cacheProgResponse \<Rightarrow> cacheProgResponse" where
  "withOutputID res =
     (if res_OutputID res = [] \<and> res_ObjectID res \<noteq> [] then res\<lparr>res_OutputID := res_ObjectID res\<rparr> else res)"

definition forward :: "shimEnv \<Rightarrow> downstream \<Rightarrow> cacheProgRequest \<Rightarrow> cacheShim \<Rightarrow> files
    \<Rightarrow> (string + cacheProgResponse) \<times> cacheLookupEvent list \<times> cacheShim \<times> files" where
  "forward se down req s fs =
     (case (if req_Command req = CmdGet \<and> CmdGet \<notin> set (sh_can s) then (Inr missResponse, fs) else down req fs) of
        (Inl e, fs1) \<Rightarrow> (Inl e, [], s, fs1)
      | (Inr res0, fs1) \<Rightarrow>
          if req_Command req \<noteq> CmdGet then (Inr res0, [], s, fs1)
          else let res = withOutputID res0
               in if res_Miss res
                  then (Inr res, lookupEvent s (req_ActionID req) False, recordMiss (req_ActionID req) s, fs1)
                  else let (r, s', fs') = forwardHit se (req_ActionID req) res s fs1
                       in (Inr r, lookupEvent s (req_ActionID req) True, s', fs'))"

text \<open>
  \<open>serveCmdGo\<close>, over the requests it decodes, in the order in which their goroutines take effect. The
  body of a \<open>put\<close> is decoded as in the local cache's server.
\<close>

fun shimServeLoop :: "shimEnv \<Rightarrow> downstream \<Rightarrow> cacheProgRequest list \<Rightarrow> cacheShim \<Rightarrow> files
    \<Rightarrow> cacheProgResponse list \<times> string option \<times> cacheLookupEvent list \<times> cacheShim \<times> files" where
  "shimServeLoop se down [] s fs = ([], None, [], s, fs)"
| "shimServeLoop se down (req0 # reqs) s fs =
     (let req1 = withObjectID req0;
          hasBody = (req_Command req1 = CmdPut \<and> req_BodySize req1 > 0);
          req = (if hasBody then req1 else req1\<lparr>req_body := None\<rparr>)
      in if hasBody \<and> req_body req = None then ([], Some ''decoding body'', [], s, fs)
         else if hasBody \<and> int (length (the (req_body req))) \<noteq> req_BodySize req
         then ([], Some (''cache put body is '' @ showNat (length (the (req_body req))) @ '' bytes; want ''
                         @ showInt (req_BodySize req)), [], s, fs)
         else if req_Command req = CmdClose then ([zeroResponse\<lparr>res_ID := req_ID req\<rparr>], None, [], s, fs)
         else let (r, evs, s1, fs1) = forward se down req s fs;
                  res = (case r of Inl e \<Rightarrow> zeroResponse\<lparr>res_Err := e\<rparr> | Inr res \<Rightarrow> res);
                  (rs, e, evs', s2, fs2) = shimServeLoop se down reqs s1 fs1
              in (res\<lparr>res_ID := req_ID req\<rparr> # rs, e, evs @ evs', s2, fs2))"

definition serveCmdGo :: "shimEnv \<Rightarrow> downstream \<Rightarrow> cacheProgRequest list \<Rightarrow> cacheShim \<Rightarrow> files
    \<Rightarrow> cacheProgResponse list \<times> string option \<times> cacheLookupEvent list \<times> cacheShim \<times> files" where
  "serveCmdGo se down reqs s fs =
     (let hello = zeroResponse\<lparr>res_KnownCommands := [CmdGet] @ (if CmdPut \<in> set (sh_can s) then [CmdPut] else []) @ [CmdClose]\<rparr>;
          (rs, e, evs, s', fs') = shimServeLoop se down reqs s fs
      in (hello # rs, e, evs, s', fs'))"

section \<open>Uploading linked executables\<close>

text \<open>
  \<open>registerExecutable\<close> is cut where it releases the lock: the checks up to setting \<open>uploaded\<close>, the
  upload itself, and the deferred cleanup or the final count.
\<close>

datatype regCheck = RegDone "string option" | RegUpload string string string

definition registerCheck :: "shimEnv \<Rightarrow> executableRegistration \<Rightarrow> cacheShim \<Rightarrow> files \<Rightarrow> regCheck \<times> cacheShim" where
  "registerCheck se reg s fs =
     (case readGoBuildID se fs (er_Path reg) of
        Inl e \<Rightarrow> (RegDone (Some e), s)
      | Inr buildID \<Rightarrow>
          (let parts = SplitByte slash buildID;
               pre = hd parts;
               actionID = (case map_of (sh_misses s) pre of Some a \<Rightarrow> a | None \<Rightarrow> [])
           in if length parts \<noteq> 4 then (RegDone (Some (''test executable has unexpected Go build ID '' @ Quote buildID)), s)
              else if actionID = [] \<or> CmdPut \<notin> set (sh_can s) then (RegDone None, s)
              else case hexDecode (er_OutputHash reg) of
                     None \<Rightarrow> (RegDone (Some (''invalid executable hash '' @ Quote (er_OutputHash reg))), s)
                   | Some outputID \<Rightarrow>
                       if length outputID \<noteq> 32
                       then (RegDone (Some (''invalid executable hash '' @ Quote (er_OutputHash reg))), s)
                       else (case hashFile se fs (er_Path reg) of
                               Inl e \<Rightarrow> (RegDone (Some e), s)
                             | Inr (h, n) \<Rightarrow>
                                 if h \<noteq> hexEncode outputID \<or> n \<noteq> er_Size reg
                                 then (RegDone (Some ''captured executable changed before cache upload''), s)
                                 else if pre \<in> set (sh_uploaded s) then (RegDone None, s)
                                 else (RegUpload pre actionID outputID, s\<lparr>sh_uploaded := pre # sh_uploaded s\<rparr>))))"

definition putRequest :: "string \<Rightarrow> string \<Rightarrow> int \<Rightarrow> string \<Rightarrow> cacheProgRequest" where
  "putRequest actionID outputID sz body =
     \<lparr>req_ID = 0, req_Command = CmdPut, req_ActionID = actionID, req_OutputID = outputID, req_ObjectID = [],
      req_BodySize = sz, req_body = Some body\<rparr>"

definition registerUpload :: "shimEnv \<Rightarrow> downstream \<Rightarrow> executableRegistration \<Rightarrow> string \<Rightarrow> string \<Rightarrow> bool \<Rightarrow> files
    \<Rightarrow> string option \<times> files" where
  "registerUpload se down reg actionID outputID direct fs =
     (case readFile (se_os se) fs (er_Path reg) of
        Inl e \<Rightarrow> (Some e, fs)
      | Inr (IndexJson _) \<Rightarrow> (Some ''not an object'', fs)
      | Inr (Bytes body) \<Rightarrow>
          (case down (putRequest actionID outputID (er_Size reg) body) fs of
             (Inl e, fs1) \<Rightarrow> (Some e, fs1)
           | (Inr res, fs1) \<Rightarrow>
               if res_DiskPath res = [] then (Some ''GOCACHEPROG executable put returned no disk path'', fs1)
               else if direct \<and> \<not> se_windows se
               then (case se_chmod se (res_DiskPath res) of
                       Some e \<Rightarrow> (Some (''marking cached executable: '' @ e), fs1)
                     | None \<Rightarrow> (None, chmodExec (res_DiskPath res) fs1))
               else (None, fs1)))"

definition registerFinish :: "string \<Rightarrow> string option \<Rightarrow> cacheShim \<Rightarrow> cacheShim" where
  "registerFinish pre err s =
     (case err of
        None \<Rightarrow> s\<lparr>sh_execPuts := sh_execPuts s + 1\<rparr>
      | Some _ \<Rightarrow> s\<lparr>sh_uploaded := filter (\<lambda>p. p \<noteq> pre) (sh_uploaded s)\<rparr>)"

definition registerExecutable :: "shimEnv \<Rightarrow> downstream \<Rightarrow> executableRegistration \<Rightarrow> cacheShim \<Rightarrow> files
    \<Rightarrow> string option \<times> cacheShim \<times> files" where
  "registerExecutable se down reg s fs =
     (case registerCheck se reg s fs of
        (RegDone err, s1) \<Rightarrow> (err, s1, fs)
      | (RegUpload pre actionID outputID, s1) \<Rightarrow>
          (let (err, fs1) = registerUpload se down reg actionID outputID (sh_directExecutables s) fs
           in (err, registerFinish pre err s1, fs1)))"

section \<open>Connections\<close>

text \<open>
  What arrives on a connection of \<open>acceptLoop\<close>: the kind byte, and the message after it, \<open>None\<close> when
  it does not decode.
\<close>

datatype connMessage =
    ConnEOF
  | ConnCmdGo "cacheProgRequest list"
  | ConnVerified "gopath option"
  | ConnToolExec "toolExecEvent option"
  | ConnRegister "executableRegistration option"
  | ConnUnknown

datatype connReply =
    ReplyNone
  | ReplyCmdGo "cacheProgResponse list"
  | ReplyVerified string int
  | ReplyRegister string

datatype shimEvent = EvLookup cacheLookupEvent | EvToolExec toolExecEvent

text \<open>
  The goroutine of \<open>acceptLoop\<close>. The result of \<open>registerExecutable\<close> is assigned to the variable of the
  \<open>if\<close> statement, not to the \<open>err\<close> tested after it, which is that of the successful \<open>Accept\<close>: the reply to
  a registration carries no error.
\<close>

definition serveConn :: "shimEnv \<Rightarrow> downstream \<Rightarrow> connMessage \<Rightarrow> cacheShim \<Rightarrow> files
    \<Rightarrow> connReply \<times> shimEvent list \<times> cacheShim \<times> files" where
  "serveConn se down msg s fs =
     (case msg of
        ConnEOF \<Rightarrow> (ReplyNone, [], s, fs)
      | ConnCmdGo reqs \<Rightarrow>
          (let (rs, e, evs, s', fs') = serveCmdGo se down reqs s fs in (ReplyCmdGo rs, map EvLookup evs, s', fs'))
      | ConnVerified req \<Rightarrow>
          (case req of
             None \<Rightarrow> (ReplyVerified [] 0, [], s, fs)
           | Some path \<Rightarrow>
               (case map_of (sh_verifiedExec s) (pathClean path) of
                  Some v \<Rightarrow> (ReplyVerified (ve_OutputHash v) (ve_Size v), [], s, fs)
                | None \<Rightarrow> (ReplyVerified [] 0, [], s, fs)))
      | ConnToolExec req \<Rightarrow>
          (case req of
             Some ev \<Rightarrow> (ReplyNone, if sh_toolExec s then [EvToolExec ev] else [], s, fs)
           | None \<Rightarrow> (ReplyNone, [], s, fs))
      | ConnRegister req \<Rightarrow>
          (case req of
             None \<Rightarrow> (ReplyRegister [], [], s, fs)
           | Some reg \<Rightarrow> (let (err, s', fs') = registerExecutable se down reg s fs in (ReplyRegister [], [], s', fs')))
      | ConnUnknown \<Rightarrow> (ReplyNone, [], s, fs))"

text \<open>
  The wrappers' side: \<open>registerTestExecutable\<close> and \<open>lookupVerifiedTestExecutable\<close>, from the reply they
  decode, or the error of the connection.
\<close>

definition registerTestExecutable :: "string + connReply \<Rightarrow> string option" where
  "registerTestExecutable reply =
     (case reply of
        Inl e \<Rightarrow> Some e
      | Inr (ReplyRegister err) \<Rightarrow> if err \<noteq> [] then Some err else None
      | Inr _ \<Rightarrow> Some ''EOF'')"

definition lookupVerifiedTestExecutable :: "string + connReply \<Rightarrow> (string \<times> int) option" where
  "lookupVerifiedTestExecutable reply =
     (case reply of
        Inr (ReplyVerified h n) \<Rightarrow> if \<not> validCacheHex h \<or> n < 0 then None else Some (h, n)
      | _ \<Rightarrow> None)"

text \<open>\<open>dialCacheEndpoint\<close>: the network and the address.\<close>

definition dialCacheEndpoint :: "string \<Rightarrow> string \<times> string" where
  "dialCacheEndpoint endpoint =
     (case CutPrefix endpoint ''tcp:'' of Some addr \<Rightarrow> (''tcp'', addr) | None \<Rightarrow> (''unix'', endpoint))"

text \<open>The callbacks that \<open>buildAllTestBinaries\<close> installs.\<close>

definition applyShimEvent :: "shimEvent \<Rightarrow> Server \<Rightarrow> Server" where
  "applyShimEvent ev srv =
     (case ev of
        EvLookup l \<Rightarrow> recordCacheLookup (cl_Hit l) (actionIDPrefix (cl_ActionID l)) srv
      | EvToolExec t \<Rightarrow> recordToolExec t srv)"

text \<open>The local build cache behind its client, as the downstream helper of a shim.\<close>

definition localDown :: "osEnv \<Rightarrow> gopath \<Rightarrow> gopath \<Rightarrow> downstream" where
  "localDown os dir stockDir req fs =
     (case serveRequest os dir stockDir req (case req_body req of Some b \<Rightarrow> if req_BodySize req > 0 then b else [] | None \<Rightarrow> []) fs of
        None \<Rightarrow> (Inl ''unexpected EOF'', fs)
      | Some (res, fs') \<Rightarrow> (if res_Err res \<noteq> [] then Inl (res_Err res) else Inr res, fs'))"

section \<open>Prefixes of action IDs\<close>

lemma b64Char_inject: "m < 64 \<Longrightarrow> n < 64 \<Longrightarrow> b64Char m = b64Char n \<Longrightarrow> m = n"
proof -
  have c: "(of_char (b64Char k) :: nat) = (if k < 26 then 65 + k else if k < 52 then 71 + k else if k < 62 then k - 4
      else if k = 62 then 45 else 95)" if "k < 64" for k
    using that by (simp add: b64Char_def)
  assume "m < 64" "n < 64" "b64Char m = b64Char n"
  then have "(of_char (b64Char m) :: nat) = of_char (b64Char n)" by simp
  with \<open>m < 64\<close> \<open>n < 64\<close> show "m = n" by (simp add: c split: if_splits)
qed

lemma digit_split:
  fixes k :: nat
  assumes "x * k + y = x' * k + y'" "y < k" "y' < k"
  shows "x = x' \<and> y = y'"
proof -
  have "(x * k + y) div k = x" "(x' * k + y') div k = x'" using assms(2,3) by simp_all
  with assms(1) show ?thesis by simp
qed

lemma b64_bytes:
  fixes a b c :: nat
  assumes "a < 256" "b < 256" "c < 256" "a' < 256" "b' < 256" "c' < 256" "a div 4 = a' div 4"
    "a mod 4 * 16 + b div 16 = a' mod 4 * 16 + b' div 16" "b mod 16 * 4 + c div 64 = b' mod 16 * 4 + c' div 64" "c mod 64 = c' mod 64"
  shows "a = a' \<and> b = b' \<and> c = c'"
proof -
  have "b div 16 < 16" "b' div 16 < 16" "c div 64 < 4" "c' div 64 < 4" using assms(1-6) by auto
  then have "a mod 4 = a' mod 4 \<and> b div 16 = b' div 16" "b mod 16 = b' mod 16 \<and> c div 64 = c' div 64"
    using digit_split [OF assms(8)] digit_split [OF assms(9)] by blast+
  then show ?thesis using assms(7,10) by (metis div_mult_mod_eq)
qed

lemma b64_six:
  fixes x y :: nat
  assumes "x < 256" "y < 256"
  shows "x mod 4 * 16 + y div 16 < 64" "y mod 16 * 4 + x div 64 < 64" "x div 4 < 64" "x mod 64 < 64"
proof -
  have "x mod 4 \<le> 3" "y div 16 \<le> 15" "y mod 16 \<le> 15" "x div 64 \<le> 3" using assms by auto
  then show "x mod 4 * 16 + y div 16 < 64" "y mod 16 * 4 + x div 64 < 64" by linarith+
qed (use assms in auto)

lemma b64url_inject:
  "length xs = length ys \<Longrightarrow> 3 dvd length xs \<Longrightarrow> \<forall>x \<in> set xs. x < 256 \<Longrightarrow> \<forall>y \<in> set ys. y < 256 \<Longrightarrow>
    b64url xs = b64url ys \<Longrightarrow> xs = ys"
proof (induction xs arbitrary: ys rule: b64url.induct)
  case (4 a b c s)
  then obtain a' b' c' s' where ys: "ys = a' # b' # c' # s'"
    by (metis length_Cons length_Suc_conv)
  from 4(6) have e: "b64Char (a div 4) = b64Char (a' div 4)" "b64Char (a mod 4 * 16 + b div 16) = b64Char (a' mod 4 * 16 + b' div 16)"
    "b64Char (b mod 16 * 4 + c div 64) = b64Char (b' mod 16 * 4 + c' div 64)" "b64Char (c mod 64) = b64Char (c' mod 64)"
    "b64url s = b64url s'" by (simp_all add: ys)
  have lt: "a < 256" "b < 256" "c < 256" "a' < 256" "b' < 256" "c' < 256" using 4(4,5) by (auto simp: ys)
  have "a = a' \<and> b = b' \<and> c = c'"
    using b64Char_inject [OF _ _ e(1)] b64Char_inject [OF _ _ e(2)] b64Char_inject [OF _ _ e(3)] b64Char_inject [OF _ _ e(4)] lt
    by (intro b64_bytes [OF lt]) (simp_all add: b64_six)
  moreover have "3 dvd length s" using 4(3) dvd_add_left_iff [of 3 3 "length s"] by (simp add: numeral_3_eq_3)
  then have "s = s'" by (intro 4(1)) (use 4 ys e(5) in auto)
  ultimately show ?case by (simp add: ys)
qed (auto dest: dvd_imp_le)

lemma actionIDPrefix_inject:
  "actionIDPrefix a = actionIDPrefix b \<Longrightarrow> actionIDPrefix a \<noteq> [] \<Longrightarrow> take 15 a = take 15 b"
proof -
  assume e: "actionIDPrefix a = actionIDPrefix b" "actionIDPrefix a \<noteq> []"
  then have l: "15 \<le> length a" "15 \<le> length b" by (auto simp: actionIDPrefix_def split: if_splits)
  have byte: "(of_char c :: nat) < 256" for c :: char by simp
  have "map of_char (take 15 a) = (map of_char (take 15 b) :: nat list)"
    by (rule b64url_inject) (use e l byte in \<open>auto simp: actionIDPrefix_def\<close>)
  then show ?thesis by (simp add: inj_map_eq_map inj_def)
qed

section \<open>Verified executables\<close>

lemma readFile_Bytes: "readFile os fs p = Inr (Bytes c) \<Longrightarrow> objectAt fs p = Some c"
  by (auto simp: readFile_def objectAt_def split: option.splits node.splits)

lemma hashFile_Inr: "hashFile se fs p = Inr (h, n) \<Longrightarrow> \<exists>c. objectAt fs p = Some c \<and> h = os_sha (se_os se) c \<and> n = int (length c)"
  by (auto simp: hashFile_def split: sum.splits content.splits dest!: readFile_Bytes)

definition linkedBy :: "shimEnv \<Rightarrow> string \<Rightarrow> string \<Rightarrow> bool" where
  "linkedBy se actionID c \<longleftrightarrow> (\<exists>out. se_buildID se c = Inr out \<and> length (SplitByte slash (TrimSpace out)) = 4
     \<and> hd (SplitByte slash (TrimSpace out)) = actionIDPrefix actionID)"

lemma verifiedObjectD:
  assumes "verifiedObject se fs actionID res"
  shows "\<exists>c. objectAt fs (res_DiskPath res) = Some c \<and> readFile (se_os se) fs (res_DiskPath res) = Inr (Bytes c)
    \<and> executableMagic c \<and> os_sha (se_os se) c = hexEncode (res_OutputID res) \<and> linkedBy se actionID c"
proof -
  from assms obtain c where c: "readFile (se_os se) fs (res_DiskPath res) = Inr (Bytes c)" "executableMagic c"
    by (auto simp: verifiedObject_def looksLikeExecutable_def split: sum.splits content.splits)
  from assms have "linkedBy se actionID c" "os_sha (se_os se) c = hexEncode (res_OutputID res)"
    by (auto simp: verifiedObject_def readGoBuildID_def hashFile_def c(1) linkedBy_def Let_def map_sum_def split: sum.splits)
  with c readFile_Bytes [OF c(1)] show ?thesis by blast
qed

lemma copyExecutable_done:
  assumes "copyExecutable se src dst fs = (None, fs')" "se_rename se dst = None" "readFile (se_os se) fs src = Inr (Bytes c)"
  shows "objectAt fs' dst = Some c \<and> isExecutable fs' dst"
  using assms by (auto simp: copyExecutable_def objectAt_def isExecutable_def split: option.splits)

lemma materialize_sound:
  assumes m: "materializeExecutable se s a res fs = (Some path, fs')" and rn: "\<forall>p. se_rename se p = None"
  shows "\<exists>c0. objectAt fs (res_DiskPath res) = Some c0 \<and> executableMagic c0 \<and> linkedBy se a c0
      \<and> os_sha (se_os se) c0 = hexEncode (res_OutputID res)"
    and "\<exists>c. objectAt fs' path = Some c \<and> os_sha (se_os se) c = hexEncode (res_OutputID res)"
    and "isExecutable fs' path \<or> se_windows se"
proof -
  let ?t = "pathJoin [sh_execDir s, hexEncode (res_OutputID res)]"
  from m have v: "verifiedObject se fs a res" by (auto simp: materializeExecutable_def split: if_splits)
  from verifiedObjectD [OF v] obtain c0 where c0: "objectAt fs (res_DiskPath res) = Some c0" "executableMagic c0"
    "readFile (se_os se) fs (res_DiskPath res) = Inr (Bytes c0)"
    "os_sha (se_os se) c0 = hexEncode (res_OutputID res)" "linkedBy se a c0" by blast
  then show "\<exists>c0. objectAt fs (res_DiskPath res) = Some c0 \<and> executableMagic c0 \<and> linkedBy se a c0
      \<and> os_sha (se_os se) c0 = hexEncode (res_OutputID res)" by blast
  consider (direct) "path = res_DiskPath res" "fs' = fs" "se_windows se \<or> isExecutable fs path"
    | (reuse) h n where "path = ?t" "fs' = fs" "isExecutable fs ?t" "hashFile se fs ?t = Inr (h, n)" "h = hexEncode (res_OutputID res)"
    | (copy) "path = ?t" "copyExecutable se (res_DiskPath res) ?t fs = (None, fs')"
    using m v by (auto simp: materializeExecutable_def Let_def split: if_splits option.splits prod.splits sum.splits)
  then have "(\<exists>c. objectAt fs' path = Some c \<and> os_sha (se_os se) c = hexEncode (res_OutputID res))
      \<and> (isExecutable fs' path \<or> se_windows se)"
  proof cases
    case direct
    then show ?thesis using c0 by auto
  next
    case reuse
    then show ?thesis using hashFile_Inr [OF reuse(4)] by auto
  next
    case copy
    then show ?thesis using copyExecutable_done [OF copy(2) _ c0(3)] rn c0(4) by auto
  qed
  then show "\<exists>c. objectAt fs' path = Some c \<and> os_sha (se_os se) c = hexEncode (res_OutputID res)"
    "isExecutable fs' path \<or> se_windows se" by simp_all
qed

lemma statRegular_object: "statRegular fs p = Some (n, t) \<Longrightarrow> objectAt fs p = Some c \<Longrightarrow> n = int (length c)"
  using statRegular_objectAt [of fs p] by simp

lemma forwardHit_executable:
  assumes f: "forwardHit se a res s fs = (r, s', fs')" "\<not> res_Miss r" "looksLikeExecutable se fs (res_DiskPath res)"
    and rn: "\<forall>p. se_rename se p = None"
  shows "(\<exists>c0. objectAt fs (res_DiskPath res) = Some c0 \<and> linkedBy se a c0 \<and> os_sha (se_os se) c0 = hexEncode (res_OutputID res))
    \<and> (\<exists>c. objectAt fs' (res_DiskPath r) = Some c \<and> os_sha (se_os se) c = hexEncode (res_OutputID res)
         \<and> map_of (sh_verifiedExec s') (pathClean (res_DiskPath r))
             = Some \<lparr>ve_OutputHash = hexEncode (res_OutputID res), ve_Size = int (length c)\<rparr>)
    \<and> (isExecutable fs' (res_DiskPath r) \<or> se_windows se) \<and> executableWasCached s' (hexEncode (res_OutputID res))
    \<and> res_OutputID r = res_OutputID res"
proof -
  have m: "res_Miss missResponse" by (simp add: missResponse_def)
  from f m obtain path sz t where p: "materializeExecutable se s a res fs = (Some path, fs')"
    "statRegular fs' path = Some (sz, t)" "r = res\<lparr>res_DiskPath := path\<rparr>"
    "s' = s\<lparr>sh_execHit := List.insert (hexEncode (res_OutputID res)) (sh_execHit s),
             sh_verifiedExec := AList.update (pathClean path) \<lparr>ve_OutputHash = hexEncode (res_OutputID res), ve_Size = sz\<rparr> (sh_verifiedExec s),
             sh_execHits := sh_execHits s + 1\<rparr>"
    by (auto simp: forwardHit_def Let_def split: option.splits prod.splits if_splits)
  note ms = materialize_sound [OF p(1) rn]
  from ms(2) obtain c where c: "objectAt fs' path = Some c" "os_sha (se_os se) c = hexEncode (res_OutputID res)" by blast
  from statRegular_object [OF p(2) c(1)] have "sz = int (length c)" .
  with ms c p(3,4) show ?thesis by (auto simp: executableWasCached_def)
qed

section \<open>Concurrent uploads\<close>

text \<open>
  Registrations of several test wrappers run concurrently, and so do the requests of cmd/go. Each is
  a sequence of the sections above; \<open>us_active\<close> holds the uploads under way and \<open>us_done\<close> the prefixes of
  the successful ones.
\<close>

record uploadSystem =
  us_shim :: cacheShim
  us_files :: files
  us_active :: "(executableRegistration \<times> string \<times> string \<times> string) list"
  us_done :: "string list"

inductive upload_step :: "shimEnv \<Rightarrow> downstream \<Rightarrow> uploadSystem \<Rightarrow> uploadSystem \<Rightarrow> bool" for se down where
  checked: "registerCheck se reg (us_shim u) (us_files u) = (RegUpload pre a out, s')
    \<Longrightarrow> upload_step se down u (u\<lparr>us_shim := s', us_active := us_active u @ [(reg, pre, a, out)]\<rparr>)"
| uploaded: "us_active u = xs @ (reg, pre, a, out) # ys
    \<Longrightarrow> registerUpload se down reg a out (sh_directExecutables (us_shim u)) (us_files u) = (err, fs')
    \<Longrightarrow> upload_step se down u (u\<lparr>us_shim := registerFinish pre err (us_shim u), us_files := fs', us_active := xs @ ys,
                               us_done := (if err = None then [pre] else []) @ us_done u\<rparr>)"
| requested: "forward se down req (us_shim u) (us_files u) = (r, evs, s', fs')
    \<Longrightarrow> upload_step se down u (u\<lparr>us_shim := s', us_files := fs'\<rparr>)"
| changed: "upload_step se down u (u\<lparr>us_files := fs'\<rparr>)"

definition upload_start :: "uploadSystem \<Rightarrow> bool" where
  "upload_start u \<longleftrightarrow> (\<exists>direct can dir fs. u = \<lparr>us_shim = newShim direct can dir, us_files = fs, us_active = [], us_done = []\<rparr>)"

definition activePrefixes :: "uploadSystem \<Rightarrow> string list" where
  "activePrefixes u = map (\<lambda>(reg, pre, a, out). pre) (us_active u)"

definition uploadOK :: "uploadSystem \<Rightarrow> bool" where
  "uploadOK u \<longleftrightarrow>
     distinct (activePrefixes u @ us_done u)
     \<and> set (sh_uploaded (us_shim u)) = set (activePrefixes u @ us_done u)
     \<and> sh_execPuts (us_shim u) = int (length (us_done u))
     \<and> (\<forall>pre a. map_of (sh_misses (us_shim u)) pre = Some a \<longrightarrow> actionIDPrefix a = pre)
     \<and> (\<forall>(reg, pre, a, out) \<in> set (us_active u). actionIDPrefix a = pre \<and> length out = 32)"

definition sameUploads :: "cacheShim \<Rightarrow> cacheShim \<Rightarrow> bool" where
  "sameUploads s t \<longleftrightarrow> sh_uploaded t = sh_uploaded s \<and> sh_execPuts t = sh_execPuts s
     \<and> (\<forall>pre b. map_of (sh_misses t) pre = Some b \<longrightarrow> map_of (sh_misses s) pre = Some b \<or> actionIDPrefix b = pre)"

lemma sameUploads_refl [simp]: "sameUploads s s"
  by (simp add: sameUploads_def)

lemma sameUploads_recordMiss [simp]: "sameUploads s (recordMiss a s)"
  by (auto simp: sameUploads_def recordMiss_def Let_def)

lemma sameUploads_forwardHit: "forwardHit se a res s fs = (q, t, fs') \<Longrightarrow> sameUploads s t"
  unfolding forwardHit_def Let_def
  by (auto split: if_splits option.splits prod.splits) (simp add: sameUploads_def)

lemma sameUploads_forward:
  assumes "forward se down req s fs = (r, evs, s', fs')"
  shows "sameUploads s s'"
proof -
  consider "s' = s" | "s' = recordMiss (req_ActionID req) s" | res gs q where "forwardHit se (req_ActionID req) res s gs = (q, s', fs')"
    using assms by (auto simp: forward_def Let_def split: sum.splits prod.splits if_splits)
  then show ?thesis by cases (auto dest: sameUploads_forwardHit)
qed

lemma registerCheck_upload:
  assumes "registerCheck se reg s fs = (RegUpload pre a out, s')"
  shows "pre \<notin> set (sh_uploaded s) \<and> s' = s\<lparr>sh_uploaded := pre # sh_uploaded s\<rparr> \<and> map_of (sh_misses s) pre = Some a \<and> length out = 32
    \<and> CmdPut \<in> set (sh_can s)
    \<and> (\<exists>c. objectAt fs (er_Path reg) = Some c \<and> os_sha (se_os se) c = hexEncode out \<and> int (length c) = er_Size reg)"
  using assms
  by (auto simp: registerCheck_def Let_def split: sum.splits option.splits if_splits prod.splits dest!: hashFile_Inr)

interpretation uploads: invariant_system upload_start "upload_step se down" uploadOK for se down
proof unfold_locales
  fix u v
  show "upload_start u \<Longrightarrow> uploadOK u"
    by (auto simp: upload_start_def uploadOK_def activePrefixes_def newShim_def)
  assume ok: "uploadOK u" and st: "upload_step se down u v"
  from st show "uploadOK v"
  proof cases
    case (checked reg pre a out s')
    note c = registerCheck_upload [OF checked(2)]
    have "pre \<notin> set (activePrefixes u @ us_done u)" using c ok by (auto simp: uploadOK_def)
    then show ?thesis using c ok unfolding checked(1) uploadOK_def activePrefixes_def by auto
  next
    case (uploaded xs reg pre a out ys err fs')
    let ?P = "map (\<lambda>(reg, pre, a, out). pre)"
    have act: "activePrefixes u = ?P xs @ pre # ?P ys" by (simp add: activePrefixes_def uploaded(2))
    have new: "activePrefixes v = ?P xs @ ?P ys" by (simp add: activePrefixes_def uploaded(1))
    have d: "distinct (activePrefixes v @ (if err = None then [pre] else []) @ us_done u)"
      "pre \<notin> set (activePrefixes v @ us_done u)"
      using ok unfolding uploadOK_def act new by (auto simp del: set_map)
    have v: "us_shim v = registerFinish pre err (us_shim u)" "us_done v = (if err = None then [pre] else []) @ us_done u"
      by (simp_all add: uploaded(1))
    have "set (sh_uploaded (us_shim v)) = set (activePrefixes v @ us_done v)"
      using ok d(2) unfolding uploadOK_def act new v by (cases err) (auto simp: registerFinish_def simp del: set_map)
    moreover have "sh_execPuts (us_shim v) = int (length (us_done v))" "sh_misses (us_shim v) = sh_misses (us_shim u)"
      using ok unfolding uploadOK_def uploaded(1) by (cases err; simp add: registerFinish_def)+
    ultimately show ?thesis using ok d(1) uploaded(2) unfolding uploadOK_def by (simp add: uploaded(1))
  next
    case (requested req r evs s' fs')
    note same = sameUploads_forward [OF requested(2), unfolded sameUploads_def]
    then have "\<forall>pre a. map_of (sh_misses s') pre = Some a \<longrightarrow> actionIDPrefix a = pre" using ok unfolding uploadOK_def by blast
    then show ?thesis using ok same unfolding requested(1) uploadOK_def activePrefixes_def by simp
  next
    case (changed fs')
    then show ?thesis using ok unfolding changed uploadOK_def activePrefixes_def by auto
  qed
qed

section \<open>A shim in front of the local build cache\<close>

text \<open>An environment in which no system call fails.\<close>

definition healthyEnv :: "int \<Rightarrow> (string \<Rightarrow> string) \<Rightarrow> (string \<Rightarrow> string + string) \<Rightarrow> shimEnv" where
  "healthyEnv now h bid = \<lparr>se_os = readable (\<lambda>_. None) now h, se_buildID = bid, se_windows = False,
     se_rename = (\<lambda>_. None), se_chmod = (\<lambda>_. None)\<rparr>"

abbreviation healthyDown :: "int \<Rightarrow> (string \<Rightarrow> string) \<Rightarrow> gopath \<Rightarrow> downstream" where
  "healthyDown now h dir \<equiv> localDown (readable (\<lambda>_. None) now h) dir []"

definition getRequest :: "string \<Rightarrow> cacheProgRequest" where
  "getRequest a = \<lparr>req_ID = 0, req_Command = CmdGet, req_ActionID = a, req_OutputID = [], req_ObjectID = [], req_BodySize = 0,
     req_body = None\<rparr>"

lemma readFile_readable: "readFile (readable w now h) fs p = Inr (Bytes c) \<longleftrightarrow> objectAt fs p = Some c"
  by (auto simp: readFile_def readable_def objectAt_def split: option.splits node.splits content.splits)

lemma localPut_healthy:
  assumes "length a = 32" "length out = 32" "h b = hexEncode out"
  shows "\<exists>fs'. localPut (readable (\<lambda>_. None) now h) dir fs a out (int (length b)) b = (Inr (outputPath dir (hexEncode out)), fs')"
proof -
  let ?os = "readable (\<lambda>_. None) now h"
  have w: "\<exists>fs1. writeCacheFile ?os q d gs = (None, fs1)" for q d gs by (simp add: writeCacheFile_def readable_def)
  obtain fs1 where fs1: "writeCacheFile ?os (outputPath dir (hexEncode out)) (Bytes b) fs = (None, fs1)" using w by blast
  from writeCacheFile_effect(2) [OF this] obtain t where "statRegular fs1 (outputPath dir (hexEncode out)) = Some (int (length b), t)"
    by (auto simp: readable_def statRegular_def)
  with fs1 w assms show ?thesis by (auto simp: localPut_def Let_def readable_def) (metis (no_types, lifting) old.prod.case option.case(1))
qed

lemma b64url_Nil [simp]: "b64url xs = [] \<longleftrightarrow> xs = []"
  by (cases xs rule: b64url.cases) auto

lemma actionIDPrefix_Nil: "actionIDPrefix a = [] \<longleftrightarrow> length a < 15"
  by (auto simp: actionIDPrefix_def)

lemma materialize_None: "materializeExecutable se s a res fs = (None, fs') \<Longrightarrow> fs' = fs"
  by (auto simp: materializeExecutable_def copyExecutable_def Let_def split: if_splits option.splits prod.splits sum.splits)

lemma localDown_get: "req_Command req = CmdGet \<Longrightarrow> localDown os dir stock req fs = (r, fs') \<Longrightarrow> fs' = fs"
  by (auto simp: localDown_def serveRequest_def split: sum.splits option.splits)

lemma recordMiss_recorded:
  assumes "length a = 32"
  shows "map_of (sh_misses (recordMiss a s)) (actionIDPrefix a) = Some a \<and> sh_can (recordMiss a s) = sh_can s
    \<and> sh_directExecutables (recordMiss a s) = sh_directExecutables s \<and> sh_uploaded (recordMiss a s) = sh_uploaded s"
  using assms by (simp add: recordMiss_def Let_def actionIDPrefix_Nil)

lemma forwardHit_miss:
  assumes "forwardHit se a res s fs = (r, s', fs')" "res_Miss r" "\<not> res_Miss res" "\<forall>p. se_rename se p = None"
  shows "s' = recordMiss a s \<and> fs' = fs"
proof (cases "materializeExecutable se s a res fs")
  case (Pair po gs)
  show ?thesis
  proof (cases po)
    case None
    then show ?thesis using assms(1-3) Pair materialize_None [of se s a res fs gs]
      by (auto simp: forwardHit_def split: if_splits)
  next
    case (Some path)
    from materialize_sound(2) [OF Pair [unfolded Some] assms(4)] obtain c where "objectAt gs path = Some c" by blast
    then have "statRegular gs path \<noteq> None" using statRegular_objectAt [of gs path] by (auto simp del: not_None_eq)
    then show ?thesis using assms(1-3) Pair Some
      by (auto simp: forwardHit_def Let_def split: if_splits)
  qed
qed

lemma forward_miss_recorded:
  assumes f: "forward se (localDown os dir stock) (getRequest a) s fs = (Inr r, evs, s', fs')" "res_Miss r"
    and "length a = 32" "\<forall>p. se_rename se p = None"
  shows "s' = recordMiss a s \<and> fs' = fs"
proof -
  obtain r0 fs1 where d: "localDown os dir stock (getRequest a) fs = (r0, fs1)" by fastforce
  have "fs1 = fs" by (rule localDown_get [OF _ d]) (simp add: getRequest_def)
  show ?thesis
  proof (cases "CmdGet \<in> set (sh_can s)")
    case False
    then show ?thesis using f by (auto simp: forward_def getRequest_def withOutputID_def missResponse_def zeroResponse_def)
  next
    case True
    with f(1) d obtain res0 where r0: "r0 = Inr res0" by (cases r0) (auto simp: forward_def getRequest_def)
    show ?thesis
    proof (cases "res_Miss (withOutputID res0)")
      case True
      then show ?thesis using f d r0 \<open>fs1 = fs\<close> \<open>CmdGet \<in> set (sh_can s)\<close> by (auto simp: forward_def getRequest_def Let_def)
    next
      case False
      then have "forwardHit se a (withOutputID res0) s fs = (r, s', fs')"
        using f(1) d r0 \<open>fs1 = fs\<close> \<open>CmdGet \<in> set (sh_can s)\<close> by (auto simp: forward_def getRequest_def Let_def split: prod.splits)
      from forwardHit_miss [OF this f(2) False assms(4)] show ?thesis .
    qed
  qed
qed

lemma outputPath_not_Nil:
  assumes "length out = 32"
  shows "outputPath dir (hexEncode out) \<noteq> []"
proof
  assume "outputPath dir (hexEncode out) = []"
  with lastComp_paths(1) [of "hexEncode out" dir] assms have "lastComp [] = hexEncode out" by simp
  moreover have "lastComp [] = []" by (simp add: lastComp_def)
  ultimately have "length (hexEncode out) = 0" by simp
  with assms show False by simp
qed

lemma register_uploads:
  fixes now h bid
  defines "se \<equiv> healthyEnv now h bid"
  assumes c: "objectAt fs p = Some c" "c \<noteq> []" "linkedBy se a c" "h c = hexEncode out" "length out = 32" "length a = 32"
    and s: "map_of (sh_misses s) (actionIDPrefix a) = Some a" "CmdPut \<in> set (sh_can s)" "sh_directExecutables s"
      "actionIDPrefix a \<notin> set (sh_uploaded s)"
    and put: "localPut (readable (\<lambda>_. None) now h) dir fs a out (int (length c)) c = (Inr (outputPath dir (hexEncode out)), fs')"
  shows "registerExecutable se (healthyDown now h dir)
      \<lparr>er_Path = p, er_OutputHash = hexEncode out, er_Size = int (length c)\<rparr> s fs
    = (None, s\<lparr>sh_uploaded := actionIDPrefix a # sh_uploaded s, sh_execPuts := sh_execPuts s + 1\<rparr>,
       chmodExec (outputPath dir (hexEncode out)) fs')"
proof -
  let ?reg = "\<lparr>er_Path = p, er_OutputHash = hexEncode out, er_Size = int (length c)\<rparr>"
  have rd: "readFile (se_os se) fs p = Inr (Bytes c)" using c(1) by (simp add: se_def healthyEnv_def readFile_readable)
  from c(3) obtain b where b: "se_buildID se c = Inr b" "length (SplitByte slash (TrimSpace b)) = 4"
    "hd (SplitByte slash (TrimSpace b)) = actionIDPrefix a" by (auto simp: linkedBy_def)
  have sha: "os_sha (se_os se) c = hexEncode out" using c(4) by (simp add: se_def healthyEnv_def readable_def)
  have ne: "a \<noteq> []" using c(6) by auto
  have check: "registerCheck se ?reg s fs = (RegUpload (actionIDPrefix a) a out, s\<lparr>sh_uploaded := actionIDPrefix a # sh_uploaded s\<rparr>)"
    using s ne c(5) by (simp add: registerCheck_def readGoBuildID_def rd b hashFile_def sha Let_def)
  have "outputPath dir (hexEncode out) \<noteq> []"
    by (rule outputPath_not_Nil [OF c(5)])
  then have "registerUpload se (healthyDown now h dir) ?reg a out (sh_directExecutables s) fs
      = (None, chmodExec (outputPath dir (hexEncode out)) fs')"
    using put s(3) c(2)
    by (simp add: registerUpload_def rd localDown_def putRequest_def serveRequest_def zeroResponse_def)
      (simp add: se_def healthyEnv_def)
  then show ?thesis by (simp add: registerExecutable_def check registerFinish_def)
qed

lemma chmodExec_at: "map_of fs p = Some (Reg c t x) \<Longrightarrow> map_of (chmodExec p fs) p = Some (Reg c t True)"
  by (simp add: chmodExec_def)

lemma chmodExec_other: "q \<noteq> p \<Longrightarrow> map_of (chmodExec p fs) q = map_of fs q"
  by (auto simp: chmodExec_def split: option.splits node.splits)

lemma forward_uploaded:
  fixes now h bid
  defines "se \<equiv> healthyEnv now h bid"
  assumes c: "executableMagic c" "linkedBy se a c" "h c = hexEncode out"
    and s: "CmdGet \<in> set (sh_can s)" "sh_directExecutables s" "sh_cacheLookup s"
    and put: "localPut (readable (\<lambda>_. None) now h) dir fs a out (int (length c)) c = (Inr path, fs')"
  shows "\<exists>res s'. forward se (healthyDown now h dir) (getRequest a) s (chmodExec path fs')
      = (Inr res, [\<lparr>cl_ActionID = a, cl_Hit = True\<rparr>], s', chmodExec path fs')
    \<and> \<not> res_Miss res \<and> res_OutputID res = out \<and> res_DiskPath res = path
    \<and> objectAt (chmodExec path fs') path = Some c \<and> isExecutable (chmodExec path fs') path \<and> executableWasCached s' (hexEncode out)
    \<and> map_of (sh_verifiedExec s') (pathClean path) = Some \<lparr>ve_OutputHash = hexEncode out, ve_Size = int (length c)\<rparr>"
proof -
  let ?fs = "chmodExec path fs'" and ?os = "readable (\<lambda>_. None) now h"
  have "os_read ?os q = None" for q by (simp add: readable_def)
  note e = localPut_Inr [OF put this]
  from e(6) obtain t t' x x' where m: "map_of fs' path = Some (Reg (Bytes c) t x)" "map_of fs' (actionPath dir (hexEncode a))
      = Some (Reg (IndexJson \<lparr>idx_Version = 1, idx_OutputID = hexEncode out, idx_Size = int (length c), idx_TimeNanos = t\<rparr>) t' x')" by blast
  have "actionPath dir (hexEncode a) \<noteq> path" using paths_differ(3) [of "hexEncode out" "hexEncode a" dir] e(1-3) by auto
  then have m2: "map_of ?fs path = Some (Reg (Bytes c) t True)" "map_of ?fs (actionPath dir (hexEncode a))
      = Some (Reg (IndexJson \<lparr>idx_Version = 1, idx_OutputID = hexEncode out, idx_Size = int (length c), idx_TimeNanos = t\<rparr>) t' x')"
    using m by (simp_all add: chmodExec_at chmodExec_other)
  have obj: "objectAt ?fs path = Some c" "isExecutable ?fs path" "statRegular ?fs path = Some (int (length c), t)"
    using m2 by (simp_all add: objectAt_def isExecutable_def statRegular_def)
  let ?res = "zeroResponse\<lparr>res_OutputID := out, res_Size := int (length c), res_Time := Some t, res_DiskPath := path\<rparr>"
  let ?s' = "s\<lparr>sh_execHit := List.insert (hexEncode out) (sh_execHit s),
    sh_verifiedExec := AList.update (pathClean path) \<lparr>ve_OutputHash = hexEncode out, ve_Size = int (length c)\<rparr> (sh_verifiedExec s),
    sh_execHits := sh_execHits s + 1\<rparr>"
  have "localGet ?os dir [] ?fs a = Inr ?res"
    using localGet_hit [of "\<lambda>_. None" now h dir ?fs a ?res] m2(2) obj(1) e(1-3) by (auto simp: zeroResponse_def)
  then have down: "healthyDown now h dir (getRequest a) ?fs = (Inr ?res, ?fs)"
    by (simp add: localDown_def serveRequest_def getRequest_def zeroResponse_def)
  have rd: "readFile (se_os se) ?fs path = Inr (Bytes c)" using obj(1) by (simp add: se_def healthyEnv_def readFile_readable)
  have "out \<noteq> []" using e(2) by auto
  have "path \<noteq> []" using outputPath_not_Nil [OF e(2)] e(3) by simp
  have sha: "os_sha (se_os se) c = hexEncode out" using c(3) by (simp add: se_def healthyEnv_def readable_def)
  have "verifiedObject se ?fs a ?res"
    using c(1,2) \<open>path \<noteq> []\<close> sha
    by (auto simp: verifiedObject_def looksLikeExecutable_def rd readGoBuildID_def hashFile_def linkedBy_def)
  then have "materializeExecutable se s a ?res ?fs = (Some path, ?fs)" using s(2) obj(2) by (simp add: materializeExecutable_def)
  moreover have "looksLikeExecutable se ?fs path" using c(1) by (simp add: looksLikeExecutable_def rd)
  ultimately have hit: "forwardHit se a ?res s ?fs = (?res, ?s', ?fs)"
    using obj(3) by (simp add: forwardHit_def Let_def)
  have "withOutputID ?res = ?res" "\<not> res_Miss ?res" using \<open>out \<noteq> []\<close> by (simp_all add: withOutputID_def zeroResponse_def)
  then have "forward se (healthyDown now h dir) (getRequest a) s ?fs = (Inr ?res, [\<lparr>cl_ActionID = a, cl_Hit = True\<rparr>], ?s', ?fs)"
    using s(1,3) hit by (simp add: forward_def down lookupEvent_def) (simp add: getRequest_def)
  moreover have "executableWasCached ?s' (hexEncode out)" by (simp add: executableWasCached_def)
  ultimately show ?thesis using obj \<open>\<not> res_Miss ?res\<close> by (intro exI [of _ ?res] exI [of _ ?s']) simp
qed

section \<open>An example\<close>

text \<open>A file that starts like an ELF executable, whose build ID names the sample action.\<close>

definition sampleExe :: string where
  "sampleExe = CHR 0x7F # ''ELF''"

definition sampleOut :: string where
  "sampleOut = sampleExe @ replicate 28 CHR ''x''"

definition sampleBuildID :: "string \<Rightarrow> string + string" where
  "sampleBuildID c = Inr (actionIDPrefix sampleAction @ ''/b/c/d'')"

definition sampleShimEnv :: shimEnv where
  "sampleShimEnv = healthyEnv 5 sampleHash sampleBuildID"

definition sampleShim :: cacheShim where
  "sampleShim = newShim True [CmdGet, CmdPut, CmdClose] ''/x''"

definition sampleFiles :: files where
  "sampleFiles = [(''/t/pkg.test'', Reg (Bytes sampleExe) 1 True)]"

lemma sampleExe_linked: "linkedBy sampleShimEnv sampleAction sampleExe"
proof -
  have "actionIDPrefix sampleAction = ''YWFhYWFhYWFhYWFhYWFh''" by code_simp
  then show ?thesis
    by (simp add: linkedBy_def sampleShimEnv_def healthyEnv_def sampleBuildID_def TrimSpace_def isSpace_def)
qed

lemma sampleExe_facts: "executableMagic sampleExe" "sampleHash sampleExe = hexEncode sampleOut" "length sampleOut = 32"
  "length sampleAction = 32" "objectAt sampleFiles ''/t/pkg.test'' = Some sampleExe" "sampleExe \<noteq> []"
  by (simp_all add: executableMagic_def sampleExe_def sampleHash_def sampleOut_def sampleAction_def objectAt_def sampleFiles_def)

lemma sampleShim_miss: "forward sampleShimEnv (healthyDown 5 sampleHash ''/c'') (getRequest sampleAction) sampleShim sampleFiles
    = (Inr missResponse, [\<lparr>cl_ActionID = sampleAction, cl_Hit = False\<rparr>], recordMiss sampleAction sampleShim, sampleFiles)"
proof -
  have "lastComp (actionPath ''/c'' (hexEncode sampleAction)) = hexEncode sampleAction @ ''.json''"
    using lastComp_paths(2) [of "hexEncode sampleAction" "''/c''"] sampleExe_facts(4) by simp
  moreover have "lastComp ''/t/pkg.test'' = ''pkg.test''" by (simp add: lastComp_def)
  moreover have "hexEncode sampleAction @ ''.json'' \<noteq> ''pkg.test''" by (simp add: sampleAction_def hexEncode_def)
  ultimately have "actionPath ''/c'' (hexEncode sampleAction) \<noteq> ''/t/pkg.test''" by metis
  then have "localGet (readable (\<lambda>_. None) 5 sampleHash) ''/c'' [] sampleFiles sampleAction = Inr missResponse"
    by (simp add: localGet_def readFile_def readable_def sampleFiles_def sampleExe_facts(4) stockOrMiss_def)
  then show ?thesis
    by (simp add: forward_def getRequest_def localDown_def serveRequest_def sampleShim_def newShim_def missResponse_def zeroResponse_def
        withOutputID_def lookupEvent_def)
qed

section \<open>Properties\<close>

text \<open>
  C30. A test executable that cmd/go links after a cache miss is cached. With the local build cache
  behind the shim and no failing system call: when a lookup of a link action misses and a wrapper
  then registers the executable that this action produced, the registration succeeds, and the
  next lookup of the action is a hit with the executable's hash as output ID and, at the path in
  the answer, an executable file with exactly its content; that path is then known as verified
  and the hash as that of a cached executable.
\<close>

theorem linked_executable_is_cached:
  fixes now h bid dir
  defines "se \<equiv> healthyEnv now h bid" and "down \<equiv> healthyDown now h dir"
  assumes "executableMagic c" "linkedBy se a c" "h c = hexEncode out" "length out = 32" "length a = 32"
    and "CmdGet \<in> set (sh_can s)" "CmdPut \<in> set (sh_can s)" "sh_directExecutables s" "sh_cacheLookup s"
    and "actionIDPrefix a \<notin> set (sh_uploaded s)"
    and "forward se down (getRequest a) s fs = (Inr r, evs, s1, fs1)" "res_Miss r"
    and "objectAt fs1 p = Some c"
  shows "\<exists>s2 fs2 res s3. registerExecutable se down \<lparr>er_Path = p, er_OutputHash = hexEncode out, er_Size = int (length c)\<rparr> s1 fs1
        = (None, s2, fs2)
    \<and> forward se down (getRequest a) s2 fs2 = (Inr res, [\<lparr>cl_ActionID = a, cl_Hit = True\<rparr>], s3, fs2)
    \<and> \<not> res_Miss res \<and> res_OutputID res = out \<and> objectAt fs2 (res_DiskPath res) = Some c \<and> isExecutable fs2 (res_DiskPath res)
    \<and> executableWasCached s3 (hexEncode out)
    \<and> lookupVerifiedTestExecutable (Inr (fst (serveConn se down (ConnVerified (Some (res_DiskPath res))) s3 fs2)))
        = Some (hexEncode out, int (length c))"
proof -
  have rn: "\<forall>p. se_rename se p = None" by (simp add: se_def healthyEnv_def)
  from forward_miss_recorded [OF assms(13) [unfolded down_def] assms(14,7) rn] have s1: "s1 = recordMiss a s" "fs1 = fs" by simp_all
  note m = recordMiss_recorded [OF assms(7), of s]
  obtain fs' where put: "localPut (readable (\<lambda>_. None) now h) dir fs1 a out (int (length c)) c = (Inr (outputPath dir (hexEncode out)), fs')"
    using localPut_healthy [of a out h c, OF assms(7,6,5)] by blast
  let ?s2 = "s1\<lparr>sh_uploaded := actionIDPrefix a # sh_uploaded s1, sh_execPuts := sh_execPuts s1 + 1\<rparr>"
  let ?fs2 = "chmodExec (outputPath dir (hexEncode out)) fs'"
  have "c \<noteq> []" using assms(3) by (auto simp: executableMagic_def)
  from register_uploads [OF assms(15) this assms(4) [unfolded se_def] assms(5-7), of s1 dir fs'] m assms(9,10,12) put s1
  have reg: "registerExecutable se down \<lparr>er_Path = p, er_OutputHash = hexEncode out, er_Size = int (length c)\<rparr> s1 fs1 = (None, ?s2, ?fs2)"
    by (simp add: se_def down_def)
  have "sh_cacheLookup (recordMiss a s)" using assms(11) by (simp add: recordMiss_def Let_def)
  with forward_uploaded [OF assms(3) assms(4) [unfolded se_def] assms(5), of ?s2, OF _ _ _ put] m assms(8,10) s1
  obtain res s3 where f: "forward se down (getRequest a) ?s2 ?fs2 = (Inr res, [\<lparr>cl_ActionID = a, cl_Hit = True\<rparr>], s3, ?fs2)"
    "\<not> res_Miss res" "res_OutputID res = out" "objectAt ?fs2 (res_DiskPath res) = Some c" "isExecutable ?fs2 (res_DiskPath res)"
    "executableWasCached s3 (hexEncode out)"
    "map_of (sh_verifiedExec s3) (pathClean (res_DiskPath res)) = Some \<lparr>ve_OutputHash = hexEncode out, ve_Size = int (length c)\<rparr>"
    by (auto simp: se_def down_def)
  moreover have "lookupVerifiedTestExecutable (Inr (fst (serveConn se down (ConnVerified (Some (res_DiskPath res))) s3 ?fs2)))
        = Some (hexEncode out, int (length c))"
    using f(7) assms(6) by (simp add: serveConn_def lookupVerifiedTestExecutable_def)
  ultimately show ?thesis using reg by blast
qed

theorem linked_executable_is_cached_witness:
  "\<exists>s2 fs2 res s3. registerExecutable sampleShimEnv (healthyDown 5 sampleHash ''/c'')
      \<lparr>er_Path = ''/t/pkg.test'', er_OutputHash = hexEncode sampleOut, er_Size = int (length sampleExe)\<rparr>
      (recordMiss sampleAction sampleShim) sampleFiles = (None, s2, fs2)
    \<and> forward sampleShimEnv (healthyDown 5 sampleHash ''/c'') (getRequest sampleAction) s2 fs2
      = (Inr res, [\<lparr>cl_ActionID = sampleAction, cl_Hit = True\<rparr>], s3, fs2)
    \<and> objectAt fs2 (res_DiskPath res) = Some sampleExe"
proof -
  have s: "CmdGet \<in> set (sh_can sampleShim)" "CmdPut \<in> set (sh_can sampleShim)" "sh_directExecutables sampleShim" "sh_cacheLookup sampleShim"
    "actionIDPrefix sampleAction \<notin> set (sh_uploaded sampleShim)" by (simp_all add: sampleShim_def newShim_def)
  have miss: "res_Miss missResponse" by (simp add: missResponse_def)
  from linked_executable_is_cached [OF sampleExe_facts(1) sampleExe_linked [unfolded sampleShimEnv_def] sampleExe_facts(2-4) s
      sampleShim_miss [unfolded sampleShimEnv_def] miss sampleExe_facts(5)]
  show ?thesis unfolding sampleShimEnv_def by blast
qed





end
