(* ===== verification/Processes.thy ===== *)
theory Processes
  imports Cache_Shim
begin

text \<open>
  The process side of gotst: the directory of a run and the removal of those of dead runs (\<open>cache.go\<close>), the search for the
  module root and for the \<open>go\<close> command, the end of a command (\<open>util.go\<close>), the \<open>-toolexec\<close> wrapper (\<open>toolexec.go\<close>), and the
  \<open>-exec\<close> wrapper that captures a test binary (\<open>storeTestExecBinary\<close> of \<open>gotst.go\<close>). Files are those of \<open>Build_Cache\<close>.
\<close>

section \<open>Directories of runs\<close>

text \<open>What the system says about processes: \<open>os.FindProcess\<close> and signal 0.\<close>

record procTable =
  pt_windows :: bool
  pt_findProcess :: "int \<Rightarrow> bool"
  pt_signal0 :: "int \<Rightarrow> string option"

definition pidStillrunning :: "procTable \<Rightarrow> int \<Rightarrow> bool" where
  "pidStillrunning pt pid =
     (if \<not> pt_findProcess pt pid then False else if pt_windows pt then True else pt_signal0 pt pid = None)"

definition cacheDirName :: "int \<Rightarrow> int \<Rightarrow> string" where
  "cacheDirName pid t = ''pid'' @ showInt pid @ ''-t'' @ showInt t"

definition allDigits :: "string \<Rightarrow> bool" where
  "allDigits ds \<longleftrightarrow> ds \<noteq> [] \<and> list_all isDigit ds"

text \<open>The regular expression \<open>^pid(\d+)-t(\d+)$\<close>.\<close>

definition matchCacheDir :: "string \<Rightarrow> (string \<times> string) option" where
  "matchCacheDir name =
     (case CutPrefix name ''pid'' of
        None \<Rightarrow> None
      | Some rest \<Rightarrow>
          (case CutPrefix (dropWhile isDigit rest) ''-t'' of
             None \<Rightarrow> None
           | Some t \<Rightarrow> if takeWhile isDigit rest \<noteq> [] \<and> allDigits t then Some (takeWhile isDigit rest, t) else None))"

text \<open>The names that \<open>cleanOldCaches\<close> removes, from the entries of the directory and whether each is a directory.\<close>

definition removable :: "procTable \<Rightarrow> string \<times> bool \<Rightarrow> bool" where
  "removable pt ent =
     (case ent of (name, isDir) \<Rightarrow>
        if \<not> isDir then False
        else case matchCacheDir name of
               None \<Rightarrow> False
             | Some (p, t) \<Rightarrow>
                 (case parseInt64 p of
                    None \<Rightarrow> False
                  | Some pid \<Rightarrow> (case parseInt64 t of None \<Rightarrow> False | Some _ \<Rightarrow> \<not> pidStillrunning pt pid)))"

definition cleanOldCaches :: "procTable \<Rightarrow> gopath \<Rightarrow> string + (string \<times> bool) list \<Rightarrow> string + gopath list" where
  "cleanOldCaches pt cacheRoot ents =
     (if cacheRoot = [] then Inr []
      else case ents of
             Inl e \<Rightarrow> Inl (''error reading cache dir '' @ Quote cacheRoot @ '' to clean it: '' @ e)
           | Inr es \<Rightarrow> Inr (map (\<lambda>(name, d). pathJoin [cacheRoot, name]) (filter (removable pt) es)))"

text \<open>\<open>mustCacheRoot\<close>, from the flag, \<open>filepath.Abs\<close>, \<open>os.UserCacheDir\<close> and \<open>os.MkdirAll\<close>.\<close>

definition mustCacheRoot :: "gopath \<Rightarrow> (gopath \<Rightarrow> string + gopath) \<Rightarrow> string + gopath \<Rightarrow> (gopath \<Rightarrow> string option) \<Rightarrow> string + gopath" where
  "mustCacheRoot flag absPath userCacheDir mkdirAll =
     (let create = (\<lambda>s. case mkdirAll s of Some e \<Rightarrow> Inl (''creating cache dir '' @ Quote s @ '': '' @ e) | None \<Rightarrow> Inr s)
      in if flag \<noteq> []
         then (case absPath flag of Inl e \<Rightarrow> Inl (''resolving cache dir '' @ Quote flag @ '': '' @ e) | Inr s \<Rightarrow> create s)
         else (case userCacheDir of Inl e \<Rightarrow> Inl (''getting user cache dir: '' @ e) | Inr ucd \<Rightarrow> create (pathJoin [ucd, ''gotst''])))"

text \<open>\<open>mustNewCacheDir\<close>: the directories it removes and the one it makes.\<close>

definition mustNewCacheDir :: "procTable \<Rightarrow> gopath \<Rightarrow> string + (string \<times> bool) list \<Rightarrow> int \<Rightarrow> int \<Rightarrow> (gopath \<Rightarrow> string option)
    \<Rightarrow> string + gopath list \<times> gopath" where
  "mustNewCacheDir pt cacheRoot ents pid now mkdir =
     (case cleanOldCaches pt cacheRoot ents of
        Inl e \<Rightarrow> Inl e
      | Inr removed \<Rightarrow>
          (let cacheDir = pathJoin [cacheRoot, cacheDirName pid now]
           in case mkdir cacheDir of
                Some e \<Rightarrow> Inl (''creating per-run cache dir '' @ Quote cacheDir @ '': '' @ e)
              | None \<Rightarrow> Inr (removed, cacheDir)))"

section \<open>Commands\<close>

text \<open>
  A command: the errors of the pipe and of the start, what its output amounts to, and the error of \<open>Wait\<close> with the text on
  standard error.
\<close>

record 'a cmdRun =
  cr_pipeErr :: "string option"
  cr_startErr :: "string option"
  cr_out :: 'a
  cr_waitErr :: "(string \<times> string) option"

text \<open>
  \<open>processCmdOutput\<close>. The reading function changes a state and returns an error, or the process ends (\<open>Inl\<close>). When the command did
  not start, the deferred \<open>Wait\<close> fails too and its error is dropped.
\<close>

definition processCmdOutput :: "'a cmdRun \<Rightarrow> ('a \<Rightarrow> 's \<Rightarrow> string + string option \<times> 's) \<Rightarrow> 's \<Rightarrow> string + string option \<times> 's" where
  "processCmdOutput cmd fn s =
     (case cr_pipeErr cmd of
        Some e \<Rightarrow> Inr (Some e, s)
      | None \<Rightarrow>
          (case cr_startErr cmd of
             Some e \<Rightarrow> Inr (Some e, s)
           | None \<Rightarrow>
               (case fn (cr_out cmd) s of
                  Inl fatal \<Rightarrow> Inl fatal
                | Inr (Some e, s') \<Rightarrow> Inr (Some e, s')
                | Inr (None, s') \<Rightarrow> Inr (map_option (\<lambda>(werr, stderr). werr @ '': '' @ stderr) (cr_waitErr cmd), s'))))"

text \<open>\<open>goModuleRoot\<close>: the loop upwards from the working directory. It does not return when the root is never reached.\<close>

partial_function (option) moduleRootLoop :: "(gopath \<Rightarrow> bool) \<Rightarrow> gopath \<Rightarrow> (string + gopath) option" where
  "moduleRootLoop present pwd =
     (if present (pathJoin [pwd, ''go.mod'']) then Some (Inr pwd)
      else if pwd = ''/'' then Some (Inl ''no go.mod found'')
      else moduleRootLoop present (pathDir pwd))"

definition goModuleRoot :: "(gopath \<Rightarrow> bool) \<Rightarrow> string + gopath \<Rightarrow> (string + gopath) option" where
  "goModuleRoot present wd = (case wd of Inl e \<Rightarrow> Some (Inl e) | Inr pwd \<Rightarrow> moduleRootLoop present pwd)"

definition goCandidates :: "string + gopath \<Rightarrow> string \<Rightarrow> string + gopath \<Rightarrow> gopath list" where
  "goCandidates moduleRoot home lookPath =
     (case moduleRoot of
        Inl _ \<Rightarrow> []
      | Inr md \<Rightarrow>
          if HasSuffix md ''/src'' then [pathJoin [md, ''..'', ''bin'', ''go'']]
          else if HasSuffix md ''/src/cmd'' then [pathJoin [md, ''..'', ''..'', ''bin'', ''go'']]
          else [pathJoin [md, ''tool'', ''go'']])
     @ [pathJoin [home, ''sdk'', ''go'', ''bin'', ''go''], ''/usr/local/go/bin/go'', ''/usr/local/bin/go'', ''/usr/bin/go'']
     @ (case lookPath of Inl _ \<Rightarrow> [] | Inr path \<Rightarrow> [path])"

definition findGo :: "(gopath \<Rightarrow> bool) \<Rightarrow> string + gopath \<Rightarrow> string \<Rightarrow> string + gopath \<Rightarrow> (gopath list + gopath) option" where
  "findGo present wd home lookPath =
     map_option (\<lambda>root. let cands = goCandidates root home lookPath
                        in case find present cands of Some c \<Rightarrow> Inr c | None \<Rightarrow> Inl cands)
       (goModuleRoot present wd)"

section \<open>The toolexec wrapper\<close>

fun flagValue :: "string list \<Rightarrow> string \<Rightarrow> string" where
  "flagValue [] name = []"
| "flagValue (arg # args) name =
     (if arg = name \<and> args \<noteq> [] then hd args
      else case CutPrefix arg (name @ ''='') of Some value \<Rightarrow> value | None \<Rightarrow> flagValue args name)"

definition TrimSuffix :: "string \<Rightarrow> string \<Rightarrow> string" where
  "TrimSuffix s suf = (if HasSuffix s suf then take (length s - length suf) s else s)"

datatype toolRun = ToolOK | ToolExit int | ToolFailed string

datatype toolResult = TeReturned "string option" | TeExited int

text \<open>\<open>runToolExec\<close>: how the wrapper ends, and the event it reports.\<close>

definition runToolExec :: "string list \<Rightarrow> string \<Rightarrow> (string \<Rightarrow> string list \<Rightarrow> toolRun) \<Rightarrow> toolResult \<times> toolExecEvent option" where
  "runToolExec osArgs importPath run =
     (if length osArgs < 3 then (TeReturned (Some ''toolexec wrapper missing tool argument''), None)
      else let tool = osArgs ! 2; args = drop 3 osArgs;
               toolName = TrimSuffix (pathBase tool) ''.exe'';
               isCompile = (toolName = ''compile'' \<and> ''-V=full'' \<notin> set args);
               ev = \<lparr>te_Tool = toolName, te_ImportPath = importPath, te_BuildID = flagValue args ''-buildid''\<rparr>
           in case run tool args of
                ToolExit c \<Rightarrow> (TeExited c, None)
              | ToolFailed e \<Rightarrow> (TeReturned (Some e), None)
              | ToolOK \<Rightarrow> (TeReturned None, if isCompile then Some ev else None))"

section \<open>Capturing a test binary\<close>

text \<open>
  What the wrapper meets: its arguments, the working directory, whether the capture directory is usable, the shim's reply about
  the binary, whether a socket is set, the error of the hard link, and that of writing the copy.
\<close>

record captureEnv =
  ce_os :: osEnv
  ce_args :: "string list"
  ce_wd :: "string + gopath"
  ce_dirErr :: "string option"
  ce_isDir :: bool
  ce_socket :: bool
  ce_reply :: "string + connReply"
  ce_linkErr :: "string option"
  ce_copyErr :: "string option"

record capture =
  cp_snarf :: ExecSnarf
  cp_register :: "executableRegistration option"
  cp_files :: files

text \<open>The link, which fails when the target exists, or else the copy that is renamed over the target.\<close>

definition linkOrCopy :: "captureEnv \<Rightarrow> gopath \<Rightarrow> gopath \<Rightarrow> files \<Rightarrow> string + files" where
  "linkOrCopy ce binPath target fs =
     (case (ce_linkErr ce, map_of fs target, map_of fs binPath) of
        (None, None, Some node) \<Rightarrow> Inr (AList.update target node fs)
      | _ \<Rightarrow>
          (case readFile (ce_os ce) fs binPath of
             Inl e \<Rightarrow> Inl (''opening test binary for copy: '' @ e)
           | Inr c \<Rightarrow>
               (case ce_copyErr ce of
                  Some e \<Rightarrow> Inl e
                | None \<Rightarrow> Inr (AList.update target (Reg c (os_now (ce_os ce)) True) fs))))"

definition fileSize :: "files \<Rightarrow> gopath \<Rightarrow> int option" where
  "fileSize fs p = map_option (\<lambda>c. int (length c)) (objectAt fs p)"

text \<open>\<open>storeTestExecBinary\<close>: the message of \<open>log.Fatal\<close>, or what was captured and sent to the shim.\<close>

definition storeTestExecBinary :: "captureEnv \<Rightarrow> gopath \<Rightarrow> files \<Rightarrow> string + capture" where
  "storeTestExecBinary ce dir fs =
     (case ce_dirErr ce of
        Some e \<Rightarrow> Inl (''invalid capture directory: '' @ e)
      | None \<Rightarrow>
          if \<not> ce_isDir ce then Inl (''capture path '' @ Quote dir @ '' is not a directory'')
          else if length (ce_args ce) < 2 then Inl ''missing argument(s); need path to test binary and its args''
          else case ce_wd ce of
            Inl e \<Rightarrow> Inl (''getting working directory: '' @ e)
          | Inr pwd \<Rightarrow>
              (let binPath = ce_args ce ! 1;
                   verified = (if ce_socket ce then lookupVerifiedTestExecutable (ce_reply ce) else None);
                   hashed = (case verified of
                               Some (h, n) \<Rightarrow> Inr h
                             | None \<Rightarrow>
                                 (case readFile (ce_os ce) fs binPath of
                                    Inl e \<Rightarrow> Inl (''opening test binary: '' @ e)
                                  | Inr (Bytes c) \<Rightarrow> Inr (os_sha (ce_os ce) c)
                                  | Inr (IndexJson _) \<Rightarrow> Inl ''hashing test binary: not an object''))
               in case hashed of
                    Inl e \<Rightarrow> Inl e
                  | Inr exeHash \<Rightarrow>
                      (let co = \<lparr>WorkingDir = pwd, ExeHash = exeHash, Args = drop 2 (ce_args ce)\<rparr>;
                           target = pathJoin [dir, exeHash]
                       in case linkOrCopy ce binPath target fs of
                            Inl e \<Rightarrow> Inl e
                          | Inr fs1 \<Rightarrow>
                              (case verified of
                                 None \<Rightarrow>
                                   if \<not> ce_socket ce then Inr \<lparr>cp_snarf = co, cp_register = None, cp_files = fs1\<rparr>
                                   else (case fileSize fs1 target of
                                           None \<Rightarrow> Inl ''statting captured test binary''
                                         | Some n \<Rightarrow> Inr \<lparr>cp_snarf = co,
                                             cp_register = Some \<lparr>er_Path = target, er_OutputHash = exeHash, er_Size = n\<rparr>,
                                             cp_files = fs1\<rparr>)
                               | Some (h, n) \<Rightarrow>
                                   if fileSize fs1 target \<noteq> Some n then Inl ''captured verified executable changed size''
                                   else Inr \<lparr>cp_snarf = co, cp_register = None, cp_files = fs1\<rparr>))))"

definition snarfLine :: "(ExecSnarf \<Rightarrow> string) \<Rightarrow> ExecSnarf \<Rightarrow> string" where
  "snarfLine encode co = ''ExecSnarf:'' @ encode co @ [nl]"

section \<open>Names of directories\<close>

lemma isDigit_digits: "c \<in> set (showNat n) \<Longrightarrow> isDigit c"
  using showNat_digits [of c n] by (simp add: isDigit_def)

lemma showInt_digits: "0 \<le> i \<Longrightarrow> allDigits (showInt i)"
  by (auto simp: showInt_def allDigits_def list_all_iff intro: isDigit_digits)

lemma matchCacheDir_iff:
  "matchCacheDir name = Some (p, t) \<longleftrightarrow> name = ''pid'' @ p @ ''-t'' @ t \<and> allDigits p \<and> allDigits t"
proof
  assume m: "matchCacheDir name = Some (p, t)"
  then obtain rest where r: "name = ''pid'' @ rest" "p = takeWhile isDigit rest" "p \<noteq> []" "allDigits t"
    "dropWhile isDigit rest = ''-t'' @ t"
    by (auto simp: matchCacheDir_def CutPrefix_Some_iff split: option.splits if_splits)
  have "rest = p @ ''-t'' @ t" by (metis r(2,5) takeWhile_dropWhile_id)
  moreover have "allDigits p" using r(2,3) by (auto simp: allDigits_def list_all_iff dest: set_takeWhileD)
  ultimately show "name = ''pid'' @ p @ ''-t'' @ t \<and> allDigits p \<and> allDigits t" using r(1,4) by simp
next
  assume n: "name = ''pid'' @ p @ ''-t'' @ t \<and> allDigits p \<and> allDigits t"
  then have d: "\<forall>c \<in> set p. isDigit c" "p \<noteq> []" by (auto simp: allDigits_def list_all_iff)
  have nd: "\<not> isDigit CHR ''-''" by (simp add: isDigit_def)
  have "dropWhile isDigit (p @ ''-t'' @ t) = ''-t'' @ t" "takeWhile isDigit (p @ ''-t'' @ t) = p"
    using d nd by (simp_all add: dropWhile_append2 takeWhile_append2)
  moreover have "CutPrefix name ''pid'' = Some (p @ ''-t'' @ t)" "CutPrefix (''-t'' @ t) ''-t'' = Some t"
    using n by (simp_all only: CutPrefix_Some_iff)
  ultimately show "matchCacheDir name = Some (p, t)" using n d(2) by (simp add: matchCacheDir_def)
qed

lemma int_digitChar: "n < 10 \<Longrightarrow> of_char (digitChar n) = 48 + int n"
  using of_nat_of_char [of "digitChar n", where ?'a = int] by (simp add: of_char_digitChar)

lemma foldl_showNat: "foldl (\<lambda>n c. 10 * n + (of_char c - 48)) 0 (showNat n) = int n"
proof (induction n rule: showNat.induct)
  case (1 n)
  show ?case
  proof (cases "n < 10")
    case True
    then show ?thesis by (simp add: showNat.simps [of n] int_digitChar)
  next
    case False
    have "10 * int (n div 10) + int (n mod 10) = int n" by presburger
    with False 1 show ?thesis by (simp add: showNat.simps [of n] int_digitChar)
  qed
qed

lemma parseInt64_showInt:
  assumes "0 \<le> i" and "i < 2 ^ 63"
  shows "parseInt64 (showInt i) = Some i"
proof -
  obtain d ds where d: "showNat (nat i) = d # ds" by (cases "showNat (nat i)") auto
  have digits: "48 \<le> (of_char c :: nat) \<and> (of_char c :: nat) < 58" if "c \<in> set (d # ds)" for c
    using showNat_digits that d by metis
  have "of_char CHR ''-'' < (48::nat)" "of_char CHR ''+'' < (48::nat)" by simp_all
  then have "d \<noteq> CHR ''-''" "d \<noteq> CHR ''+''" using digits [of d] by (auto simp del: of_char_Char)
  moreover have "list_all (\<lambda>c. 48 \<le> (of_char c :: nat) \<and> (of_char c :: nat) < 58) (d # ds)"
    using digits by (auto simp: list_all_iff)
  moreover have "foldl (\<lambda>n c. 10 * n + (of_char c - 48)) 0 (d # ds) = i"
    using foldl_showNat [of "nat i"] assms(1) by (simp only: d)
  ultimately show ?thesis using assms by (simp add: parseInt64_def showInt_def d Let_def del: foldl_Cons list.pred_inject(2))
qed

lemma removable_iff:
  "removable pt (name, d) \<longleftrightarrow>
     d \<and> (\<exists>p t pid n. matchCacheDir name = Some (p, t) \<and> parseInt64 p = Some pid \<and> parseInt64 t = Some n \<and> \<not> pidStillrunning pt pid)"
  by (auto simp: removable_def split: option.splits)

lemma matchCacheDir_name:
  "0 \<le> pid \<Longrightarrow> 0 \<le> t \<Longrightarrow> matchCacheDir (cacheDirName pid t) = Some (showInt pid, showInt t)"
  by (simp add: matchCacheDir_iff cacheDirName_def showInt_digits)

section \<open>The module root\<close>

lemma moduleRootLoop_unfold:
  "moduleRootLoop present pwd =
     (if present (pathJoin [pwd, ''go.mod'']) then Some (Inr pwd)
      else if pwd = ''/'' then Some (Inl ''no go.mod found'')
      else moduleRootLoop present (pathDir pwd))"
  by (rule moduleRootLoop.simps)

lemma pathDir_absolute:
  assumes "pathIsAbs p"
  shows "pathIsAbs (pathDir p)" and "p \<noteq> ''/'' \<Longrightarrow> pathDir p \<noteq> p"
proof -
  obtain q where p: "p = slash # q" using assms by (cases p) (auto simp: pathIsAbs_def)
  then obtain a b where ab: "CutLast slash p = Some (a, b)" by (cases "CutLast slash p") (auto simp: CutLast_None_iff)
  then have e: "p = a @ slash # b" by (simp add: CutLast_Some_iff)
  with p have "a = [] \<or> hd a = slash" by (cases a) auto
  then show "pathIsAbs (pathDir p)" using ab by (auto simp: pathDir_def pathIsAbs_def)
  show "p \<noteq> ''/'' \<Longrightarrow> pathDir p \<noteq> p" using ab e by (auto simp: pathDir_def)
qed

lemma pathDir_root [simp]: "pathDir ''/'' = ''/''"
  by (simp add: pathDir_def CutLast_def)

lemma pathDir_pow_root [simp]: "(pathDir ^^ n) ''/'' = ''/''"
  by (induction n) simp_all

text \<open>The result that the loop has to find: the nearest directory, going up, that has the file.\<close>

definition nearestRoot :: "(gopath \<Rightarrow> bool) \<Rightarrow> gopath \<Rightarrow> string + gopath \<Rightarrow> bool" where
  "nearestRoot present pwd r =
     (let has = (\<lambda>n. present (pathJoin [(pathDir ^^ n) pwd, ''go.mod'']))
      in case r of
           Inr d \<Rightarrow> (\<exists>n. d = (pathDir ^^ n) pwd \<and> has n \<and> (\<forall>m < n. \<not> has m))
         | Inl e \<Rightarrow> \<forall>n. \<not> has n)"

lemma nearestRoot_here: "present (pathJoin [pwd, ''go.mod'']) \<Longrightarrow> nearestRoot present pwd (Inr pwd)"
  by (auto simp: nearestRoot_def intro!: exI [of _ 0])

lemma nearestRoot_up:
  assumes "\<not> present (pathJoin [pwd, ''go.mod''])" and "nearestRoot present (pathDir pwd) r"
  shows "nearestRoot present pwd r"
proof -
  have shift: "(pathDir ^^ Suc n) pwd = (pathDir ^^ n) (pathDir pwd)" for n by (simp add: funpow_swap1)
  show ?thesis
  proof (cases r)
    case (Inl e)
    with assms have "\<not> present (pathJoin [(pathDir ^^ n) pwd, ''go.mod''])" for n
      by (cases n) (auto simp: nearestRoot_def Let_def shift simp del: funpow.simps(2))
    with Inl show ?thesis by (simp add: nearestRoot_def Let_def)
  next
    case (Inr d)
    with assms(2) obtain n where n: "d = (pathDir ^^ n) (pathDir pwd)" "present (pathJoin [d, ''go.mod''])"
      "\<forall>m < n. \<not> present (pathJoin [(pathDir ^^ m) (pathDir pwd), ''go.mod''])"
      by (auto simp: nearestRoot_def Let_def)
    have "\<not> present (pathJoin [(pathDir ^^ m) pwd, ''go.mod''])" if "m < Suc n" for m
      using that n(3) assms(1) by (cases m) (auto simp: shift simp del: funpow.simps(2))
    with n(1,2) Inr show ?thesis
      unfolding nearestRoot_def Let_def by (auto simp: shift simp del: funpow.simps(2) intro!: exI [of _ "Suc n"])
  qed
qed

lemma moduleRootLoop_returns:
  "pathIsAbs pwd \<Longrightarrow> \<exists>r. moduleRootLoop present pwd = Some r \<and> nearestRoot present pwd r"
proof (induction "pathRank pwd" arbitrary: pwd rule: less_induct)
  case less
  consider "present (pathJoin [pwd, ''go.mod''])" | "\<not> present (pathJoin [pwd, ''go.mod''])" "pwd = ''/''"
    | "\<not> present (pathJoin [pwd, ''go.mod''])" "pwd \<noteq> ''/''" by blast
  then show ?case
  proof cases
    case 1
    then show ?thesis using nearestRoot_here by (simp add: moduleRootLoop_unfold)
  next
    case 2
    then show ?thesis by (simp add: moduleRootLoop_unfold nearestRoot_def)
  next
    case 3
    from pathDir_decreases [OF pathDir_absolute(2) [OF less.prems 3(2)]] pathDir_absolute(1) [OF less.prems]
    obtain r where "moduleRootLoop present (pathDir pwd) = Some r" "nearestRoot present (pathDir pwd) r"
      using less.hyps by blast
    with nearestRoot_up [of present pwd r, OF 3(1)] 3 show ?thesis by (simp add: moduleRootLoop_unfold [of present pwd])
  qed
qed

section \<open>Captured files\<close>

lemma readFile_objectAt: "readFile os fs p = Inr (Bytes c) \<Longrightarrow> objectAt fs p = Some c"
  by (auto simp: readFile_def objectAt_def split: option.splits node.splits)

lemma linkOrCopy_object:
  assumes "linkOrCopy ce b target fs = Inr fs'"
  shows "objectAt fs' target = objectAt fs b" and "p \<noteq> target \<Longrightarrow> map_of fs' p = map_of fs p"
proof -
  consider node where "map_of fs b = Some node" "fs' = AList.update target node fs"
    | c where "readFile (ce_os ce) fs b = Inr c" "fs' = AList.update target (Reg c (os_now (ce_os ce)) True) fs"
    using assms by (auto simp: linkOrCopy_def split: option.splits sum.splits)
  then show "objectAt fs' target = objectAt fs b"
    by cases (auto simp: objectAt_def readFile_def split: option.splits node.splits content.splits)
  show "p \<noteq> target \<Longrightarrow> map_of fs' p = map_of fs p"
    using assms by (auto simp: linkOrCopy_def split: option.splits sum.splits)
qed

text \<open>What a successful capture went through.\<close>

lemma storeTestExecBinary_cases:
  assumes "storeTestExecBinary ce dir fs = Inr cap"
  defines "target \<equiv> pathJoin [dir, ExeHash (cp_snarf cap)]" and "binPath \<equiv> ce_args ce ! 1"
  shows "linkOrCopy ce binPath target fs = Inr (cp_files cap)"
    and "ce_wd ce = Inr (WorkingDir (cp_snarf cap))" and "Args (cp_snarf cap) = drop 2 (ce_args ce)"
    and "(ce_socket ce \<and> (\<exists>n. lookupVerifiedTestExecutable (ce_reply ce) = Some (ExeHash (cp_snarf cap), n)
            \<and> fileSize (cp_files cap) target = Some n) \<and> cp_register cap = None)
         \<or> (\<exists>c. readFile (ce_os ce) fs binPath = Inr (Bytes c) \<and> ExeHash (cp_snarf cap) = os_sha (ce_os ce) c
              \<and> (\<not> ce_socket ce \<and> cp_register cap = None
                 \<or> ce_socket ce \<and> (\<exists>n. fileSize (cp_files cap) target = Some n
                     \<and> cp_register cap = Some \<lparr>er_Path = target, er_OutputHash = ExeHash (cp_snarf cap), er_Size = n\<rparr>)))"
  using assms by (auto simp: storeTestExecBinary_def Let_def split: option.splits if_splits sum.splits content.splits)

lemma findExecSnarf_line:
  assumes "nl \<notin> set (encode co)" and "unmarshal (encode co) = Inr co"
  shows "findExecSnarf unmarshal (snarfLine encode co @ rest) = (True, Inr co)"
proof -
  have "nl \<notin> set (''ExecSnarf:'' @ encode co)" using assms(1) by simp
  then have "SplitByte nl (''ExecSnarf:'' @ encode co) = [''ExecSnarf:'' @ encode co]" by (rule SplitByte_single)
  then have "SplitByte nl (snarfLine encode co @ rest) = (''ExecSnarf:'' @ encode co) # SplitByte nl rest"
    using SplitByte_append [of nl "''ExecSnarf:'' @ encode co" rest] by (simp add: snarfLine_def)
  moreover have "CutPrefix (''ExecSnarf:'' @ encode co) ''ExecSnarf:'' = Some (encode co)" by (simp only: CutPrefix_Some_iff)
  ultimately show ?thesis using assms(2) by (simp add: findExecSnarf_def)
qed

section \<open>Properties\<close>



text \<open>
  The search for the \<open>go\<close> command returns: from an absolute working directory \<open>goModuleRoot\<close> ends, with the nearest
  directory going up that has a \<open>go.mod\<close> or an error when there is none up to the root, and \<open>findGo\<close> then returns the first
  candidate that exists or the list of those that do not.
\<close>

theorem findGo_returns:
  assumes "pathIsAbs pwd"
  shows "\<exists>root res. goModuleRoot present (Inr pwd) = Some root \<and> nearestRoot present pwd root
    \<and> findGo present (Inr pwd) home lookPath = Some res
    \<and> (case res of
         Inr c \<Rightarrow> present c \<and> (\<exists>before after. goCandidates root home lookPath = before @ c # after \<and> (\<forall>b \<in> set before. \<not> present b))
       | Inl cands \<Rightarrow> cands = goCandidates root home lookPath \<and> (\<forall>c \<in> set cands. \<not> present c))"
proof -
  obtain root where r: "moduleRootLoop present pwd = Some root" "nearestRoot present pwd root"
    using moduleRootLoop_returns [OF assms] by blast
  show ?thesis
  proof (cases "find present (goCandidates root home lookPath)")
    case None
    then have "\<forall>c \<in> set (goCandidates root home lookPath). \<not> present c" by (auto simp: find_None_iff)
    with None r show ?thesis by (simp add: goModuleRoot_def findGo_def)
  next
    case (Some c)
    then obtain i where i: "i < length (goCandidates root home lookPath)" "present c" "c = goCandidates root home lookPath ! i"
      "\<forall>j < i. \<not> present (goCandidates root home lookPath ! j)" by (auto simp: find_Some_iff)
    have "goCandidates root home lookPath = take i (goCandidates root home lookPath) @ c # drop (Suc i) (goCandidates root home lookPath)"
      unfolding i(3) by (rule id_take_nth_drop [OF i(1)])
    moreover have "\<forall>b \<in> set (take i (goCandidates root home lookPath)). \<not> present b"
      using i(1,4) by (auto simp: in_set_conv_nth)
    ultimately show ?thesis using r Some i(2) by (auto simp: goModuleRoot_def findGo_def)
  qed
qed

theorem findGo_returns_witness:
  "\<exists>root. goModuleRoot (\<lambda>p. p = ''/a/go.mod'') (Inr ''/a/b'') = Some root \<and> nearestRoot (\<lambda>p. p = ''/a/go.mod'') ''/a/b'' root"
proof -
  have "pathIsAbs ''/a/b''" by code_simp
  from findGo_returns [OF this] show ?thesis by blast
qed

text \<open>
  C14. A captured test binary is the binary that was built. When the \<open>-exec\<close> wrapper succeeds, the file that the capture directory
  has under the reported hash holds exactly the bytes of the test binary, by link or by copy; the hash is the one the shim verified
  for a file of that size, or the hash of those bytes, which is then what the wrapper registers; no other file changes; and the
  line the wrapper prints is read back by \<open>findExecSnarf\<close> as the directory, hash and arguments, provided the JSON text decodes
  to what was encoded and has no line break.
\<close>

theorem captured_binary_is_the_test_binary:
  assumes "storeTestExecBinary ce dir fs = Inr cap"
    and "unmarshal (encode (cp_snarf cap)) = Inr (cp_snarf cap)" and "nl \<notin> set (encode (cp_snarf cap))"
  shows "\<exists>c. objectAt fs (ce_args ce ! 1) = Some c
      \<and> objectAt (cp_files cap) (pathJoin [dir, ExeHash (cp_snarf cap)]) = Some c
      \<and> (lookupVerifiedTestExecutable (ce_reply ce) = Some (ExeHash (cp_snarf cap), int (length c)) \<and> cp_register cap = None
         \<or> ExeHash (cp_snarf cap) = os_sha (ce_os ce) c
           \<and> cp_register cap = (if ce_socket ce
               then Some \<lparr>er_Path = pathJoin [dir, ExeHash (cp_snarf cap)], er_OutputHash = ExeHash (cp_snarf cap), er_Size = int (length c)\<rparr>
               else None))
      \<and> (\<forall>p. p \<noteq> pathJoin [dir, ExeHash (cp_snarf cap)] \<longrightarrow> map_of (cp_files cap) p = map_of fs p)
      \<and> Args (cp_snarf cap) = drop 2 (ce_args ce) \<and> ce_wd ce = Inr (WorkingDir (cp_snarf cap))
      \<and> findExecSnarf unmarshal (snarfLine encode (cp_snarf cap) @ rest) = (True, Inr (cp_snarf cap))"
proof -
  note c = storeTestExecBinary_cases [OF assms(1)]
  note l = linkOrCopy_object [OF c(1)]
  from c(4) obtain b where b: "objectAt fs (ce_args ce ! 1) = Some b"
    using l(1) by (auto simp: fileSize_def dest: readFile_objectAt)
  have r: "readFile (ce_os ce) fs (ce_args ce ! 1) = Inr (Bytes b') \<Longrightarrow> b' = b" for b'
    using b by (auto dest: readFile_objectAt)
  have size: "fileSize (cp_files cap) (pathJoin [dir, ExeHash (cp_snarf cap)]) = Some (int (length b))"
    using l(1) b by (simp add: fileSize_def)
  show ?thesis
    using c(2-4) l b r size findExecSnarf_line [of encode "cp_snarf cap" unmarshal rest, OF assms(3,2)]
    by (intro exI [of _ b]) auto
qed

definition sampleCapture :: captureEnv where
  "sampleCapture = \<lparr>ce_os = readable (\<lambda>_. None) 5 sampleHash, ce_args = [''gotst'', ''/b/p.test'', ''-test.v''], ce_wd = Inr ''/m/p'',
     ce_dirErr = None, ce_isDir = True, ce_socket = True, ce_reply = Inl ''refused'', ce_linkErr = None, ce_copyErr = None\<rparr>"

theorem captured_binary_is_the_test_binary_witness:
  "\<exists>cap. storeTestExecBinary sampleCapture ''/t'' [(''/b/p.test'', Reg (Bytes ''elf'') 3 True)] = Inr cap
    \<and> objectAt (cp_files cap) (pathJoin [''/t'', ExeHash (cp_snarf cap)]) = Some ''elf''"
proof -
  have ok: "\<not> isl (storeTestExecBinary sampleCapture ''/t'' [(''/b/p.test'', Reg (Bytes ''elf'') 3 True)])" by code_simp
  obtain cap where cap: "storeTestExecBinary sampleCapture ''/t'' [(''/b/p.test'', Reg (Bytes ''elf'') 3 True)] = Inr cap"
    using ok by (cases "storeTestExecBinary sampleCapture ''/t'' [(''/b/p.test'', Reg (Bytes ''elf'') 3 True)]") auto
  from captured_binary_is_the_test_binary [OF this, of "\<lambda>_. Inr (cp_snarf cap)" "\<lambda>_. ''{}''"] cap show ?thesis
    by (auto simp: sampleCapture_def objectAt_def)
qed

end
