(* ===== verification/Build_Run.thy ===== *)
theory Build_Run
  imports Processes Fleet
begin

text \<open>
  Discovery and build (\<open>gotst.go\<close>): \<open>resolveExcludedPackages\<close>, \<open>learnPackagesWithTests\<close> and \<open>buildAllTestBinaries\<close> with the
  arguments and the environment they give to the go command, and the helper's builder, which uses them for one package at a time
  (\<open>worker.go\<close>). The go command and the shim's processes are fields of a record; what the server does with their output is the code's.
\<close>

section \<open>The go command\<close>

record goRun =
  gr_err :: "string option"
  gr_stdout :: string
  gr_stderr :: string
  gr_combined :: string

text \<open>What the build loop meets, in the order it happens: lines of \<open>go test -json\<close> and events of the cache shim.\<close>

datatype buildInput = EventLine "string + goTestEvent" | ShimCall shimEvent

record goTool =
  gt_run :: "string list \<Rightarrow> goRun"
  gt_list :: "string list \<Rightarrow> (goListPackage list \<times> string option) cmdRun"
  gt_test :: "string list \<Rightarrow> string list \<Rightarrow> (buildInput list \<times> string option) cmdRun"
  gt_self :: "string + gopath"
  gt_environ :: "string list"
  gt_cacheProg :: string
  gt_startShim :: "string \<Rightarrow> bool \<Rightarrow> string list \<Rightarrow> string + string"
  gt_shimClose :: "string option"
  gt_wasCached :: "string \<Rightarrow> bool"
  gt_unmarshal :: "string \<Rightarrow> string + ExecSnarf"
  gt_binStat :: "gopath \<Rightarrow> string + int"
  gt_sources :: sourceDir
  gt_cacheRoot :: gopath

definition tagsArg :: "runProfile \<Rightarrow> string" where
  "tagsArg p = ''--tags='' @ Join '','' (Tags p)"

section \<open>Discovery\<close>

definition qualifiedList :: "goTool \<Rightarrow> runProfile \<Rightarrow> string \<Rightarrow> string + string" where
  "qualifiedList gt p spec =
     (let r = gt_run gt [''list'', ''-buildvcs=false'', tagsArg p, ''-f={{.ImportPath}}'', spec]
      in case gr_err r of Some e \<Rightarrow> Inl (e @ '': '' @ TrimSpace (gr_combined r)) | None \<Rightarrow> Inr (gr_combined r))"

definition resolveExcludedPackages :: "goTool \<Rightarrow> Server \<Rightarrow> string + string list" where
  "resolveExcludedPackages gt s =
     (let p = sv_profile s
      in if ExcludePackages p = [] then Inr []
         else let r = gt_run gt ([''list'', ''-buildvcs=false'', tagsArg p, ''-f={{.ImportPath}}''] @ ExcludePackages p)
              in case gr_err r of
                   Some e \<Rightarrow> Inl (''resolving excluded packages: '' @ e @ '': '' @ gr_stderr r)
                 | None \<Rightarrow> Inr (Fields (gr_stdout r)))"

text \<open>The packages that were decoded are added also when the decoder or the command fails in the end.\<close>

definition learnPackagesWithTests :: "goTool \<Rightarrow> time \<Rightarrow> Server \<Rightarrow> string option \<times> Server" where
  "learnPackagesWithTests gt now s =
     (case resolveExcludedPackages gt s of
        Inl e \<Rightarrow> (Some e, s)
      | Inr excluded \<Rightarrow>
          (let args = [''list'', ''-buildvcs=false'', tagsArg (sv_profile s), ''--json''] @ Packages (sv_profile s);
               readAll = (\<lambda>(pkgs, err) s. Inr (map_option (\<lambda>e. ''decoding package: '' @ e) err,
                                               addListedPackages (gt_sources gt) now excluded pkgs s))
           in case processCmdOutput (gt_list gt args) readAll s of
                Inl fatal \<Rightarrow> (Some fatal, s)
              | Inr res \<Rightarrow> res))"

definition learnDependencies :: "goTool \<Rightarrow> string list \<Rightarrow> Server \<Rightarrow> Server" where
  "learnDependencies gt pkgs s =
     (let r = gt_run gt ([''list'', ''-buildvcs=false'', ''-deps'', ''-test'', tagsArg (sv_profile s), ''-f={{.ImportPath}}''] @ pkgs)
      in case gr_err r of Some _ \<Rightarrow> s | None \<Rightarrow> learnBuildDependencyCount (gr_combined r) s)"

section \<open>The build\<close>

definition toolExecArg :: string where "toolExecArg = ''-gotst-toolexec''"
definition cacheShimArg :: string where "cacheShimArg = ''-gotst-cache-shim''"
definition localCacheProgArg :: string where "localCacheProgArg = ''-gotst-local-cache-prog''"
definition cacheShimSocketEnv :: string where "cacheShimSocketEnv = ''GOTST_CACHE_SHIM_SOCKET''"
definition localCacheDirEnv :: string where "localCacheDirEnv = ''GOTST_LOCAL_BUILD_CACHE''"
definition stockGoCacheDirEnv :: string where "stockGoCacheDirEnv = ''GOTST_STOCK_GO_CACHE''"

definition goTestArgs :: "flags \<Rightarrow> gopath \<Rightarrow> runProfile \<Rightarrow> string list \<Rightarrow> string list" where
  "goTestArgs fl selfExe p pkgs =
     [''test'', ''-count=1'', ''-p='' @ showInt (jobs fl), ''--trimpath'', tagsArg p, ''--json'', ''--exec='' @ selfExe,
      ''--toolexec='' @ quoteCacheProgArg selfExe @ '' '' @ toolExecArg]
     @ (if Race p then [''--race''] else []) @ pkgs"

definition goBuildCacheDir :: "goTool \<Rightarrow> string + gopath" where
  "goBuildCacheDir gt =
     (let r = gt_run gt [''env'', ''GOCACHE''] in
      case gr_err r of
        Some e \<Rightarrow> Inl e
      | None \<Rightarrow>
          (let dir = TrimSpace (gr_stdout r)
           in if dir = ''off'' then Inr []
              else if \<not> pathIsAbs dir then Inl (''go env GOCACHE returned non-absolute path '' @ Quote dir)
              else Inr dir))"

text \<open>The shim of a build: the endpoint, or the error of starting it.\<close>

definition startBuildShim :: "goTool \<Rightarrow> gopath \<Rightarrow> string + string" where
  "startBuildShim gt selfExe =
     (if gt_cacheProg gt \<noteq> []
      then map_sum (\<lambda>e. ''starting GOCACHEPROG shim: '' @ e) id (gt_startShim gt (gt_cacheProg gt) False [])
      else case goBuildCacheDir gt of
             Inl e \<Rightarrow> Inl (''locating Go build cache: '' @ e)
           | Inr stockCache \<Rightarrow>
               map_sum (\<lambda>e. ''starting local build cache: '' @ e) id
                 (gt_startShim gt (quoteCacheProgArg selfExe @ '' '' @ localCacheProgArg) True
                    [localCacheDirEnv @ ''='' @ pathJoin [gt_cacheRoot gt, ''build-cache'', ''v1''], stockGoCacheDirEnv @ ''='' @ stockCache]))"

definition goTestEnv :: "goTool \<Rightarrow> gopath \<Rightarrow> string \<Rightarrow> gopath \<Rightarrow> string list" where
  "goTestEnv gt selfExe endpoint cacheDir =
     envWithout (envWithout (gt_environ gt) [''GOTST_EXEC_DEST''] @ [''GOTST_EXEC_DEST='' @ cacheDir]) [''GOCACHEPROG'', cacheShimSocketEnv]
     @ [''GOCACHEPROG='' @ quoteCacheProgArg selfExe @ '' '' @ cacheShimArg, cacheShimSocketEnv @ ''='' @ endpoint]"

text \<open>The loop over the events. A line that does not parse ends it, and its error replaces those collected so far.\<close>

fun handleEvents :: "goTool \<Rightarrow> time \<Rightarrow> buildInput list \<Rightarrow> buildLoop \<Rightarrow> string + bool \<times> buildLoop" where
  "handleEvents gt now [] bl = Inr (True, bl)"
| "handleEvents gt now (ShimCall ev # evs) bl = handleEvents gt now evs (bl\<lparr>bl_srv := applyShimEvent ev (bl_srv bl)\<rparr>)"
| "handleEvents gt now (EventLine (Inl e) # evs) bl = Inr (False, bl\<lparr>bl_errs := [''parsing event: '' @ e]\<rparr>)"
| "handleEvents gt now (EventLine (Inr ev) # evs) bl =
     (case handleEvent (gt_unmarshal gt) (gt_binStat gt) (gt_wasCached gt) now ev bl of
        Inl fatal \<Rightarrow> Inl fatal
      | Inr bl' \<Rightarrow> handleEvents gt now evs bl')"

definition joinErrors :: "string list \<Rightarrow> string option" where
  "joinErrors errs = (if errs = [] then None else Some (Join [nl] errs))"

definition buildEvents :: "goTool \<Rightarrow> flags \<Rightarrow> time \<Rightarrow> buildInput list \<times> string option \<Rightarrow> Server \<Rightarrow> string + string option \<times> Server" where
  "buildEvents gt fl now inp s =
     (case handleEvents gt now (fst inp)
             \<lparr>bl_errs = [], bl_testOut = \<lparr>om_max = 1048576, om_m = []\<rparr>,
              bl_buildOut = \<lparr>om_max = maxOutput fl, om_m = []\<rparr>, bl_srv = s\<rparr> of
        Inl fatal \<Rightarrow> Inl fatal
      | Inr (scanned, bl) \<Rightarrow>
          Inr (if scanned \<and> snd inp \<noteq> None then snd inp else joinErrors (bl_errs bl), bl_srv bl))"

definition buildAllTestBinaries :: "goTool \<Rightarrow> flags \<Rightarrow> time \<Rightarrow> Server \<Rightarrow> string + string option \<times> Server" where
  "buildAllTestBinaries gt fl now s =
     (case gt_self gt of
        Inl e \<Rightarrow> Inr (Some (''getting self executable path: '' @ e), s)
      | Inr selfExe \<Rightarrow>
          (let pkgs = packagesWithTests s
           in if pkgs = [] then Inr (None, s)
              else let s1 = learnDependencies gt pkgs s
                   in case startBuildShim gt selfExe of
                        Inl e \<Rightarrow> Inr (Some e, s1)
                      | Inr endpoint \<Rightarrow>
                          (case processCmdOutput (gt_test gt (goTestArgs fl selfExe (sv_profile s1) pkgs)
                                                   (goTestEnv gt selfExe endpoint (sv_cacheDir s1)))
                                  (buildEvents gt fl now) s1 of
                             Inl fatal \<Rightarrow> Inl fatal
                           | Inr (err, s2) \<Rightarrow>
                               Inr (joinErrors ((case err of None \<Rightarrow> [] | Some e \<Rightarrow> [e])
                                      @ (case gt_shimClose gt of None \<Rightarrow> [] | Some e \<Rightarrow> [e])), s2))))"

section \<open>The helper's builder\<close>

record helperBuilder =
  hb_srv :: Server
  hb_bins :: "(string, capturedTestBinary) gomap"

text \<open>The separate server that discovers and builds one package.\<close>

definition buildServer :: "Server \<Rightarrow> string \<Rightarrow> Server" where
  "buildServer s pkg =
     \<lparr>sv_start = 0, sv_cacheDir = sv_cacheDir s, sv_canceled = sv_canceled s, sv_profile = (sv_profile s)\<lparr>Packages := [pkg]\<rparr>,
      sv_tests = \<lparr>sel_unqualified = [], sel_qualified = []\<rparr>, sv_testCache = None, sv_history = False, sv_captureHistory = False,
      sv_pkgs = [], sv_pkgsWithTests = 0, sv_buildDepsTotal = 0, sv_buildDepsFresh = 0, sv_buildDepsCached = 0,
      sv_buildDepFresh = [], sv_buildDepCached = [], sv_buildActionToPkg = [], sv_actionMap = sv_actionMap s,
      sv_phase = phaseDiscovering, sv_phaseStarts = [], sv_testsTotal = 0, sv_cacheChecks = 0, sv_cacheHits = 0,
      sv_failFastTriggered = False, sv_debugPass = 0, sv_debugMisses = 0, sv_debugSeedErrors = [], sv_historyLoaded = False,
      sv_histories = [], sv_historyPending = [], sv_testSchedule = [], sv_testEstimates = [], sv_testEstimateBase = 0,
      sv_testEstimateReady = False\<rparr>"

text \<open>\<open>helperBuilder.binary\<close>; the outer \<open>Inl\<close> is the end of the process in \<open>addTestBinary\<close>.\<close>

definition helperBinary :: "goTool \<Rightarrow> flags \<Rightarrow> time \<Rightarrow> workerWork \<Rightarrow> helperBuilder \<Rightarrow> string + (string + capturedTestBinary) \<times> helperBuilder" where
  "helperBinary gt fl now work b =
     (case map_of (hb_bins b) (ww_Package work) of
        Some bin \<Rightarrow> Inr (Inr bin, b)
      | None \<Rightarrow>
          (case learnPackagesWithTests gt now (buildServer (hb_srv b) (ww_Package work)) of
             (Some e, _) \<Rightarrow> Inr (Inl e, b)
           | (None, bs1) \<Rightarrow>
               (case buildAllTestBinaries gt fl now bs1 of
                  Inl fatal \<Rightarrow> Inl fatal
                | Inr (Some e, _) \<Rightarrow> Inr (Inl e, b)
                | Inr (None, bs2) \<Rightarrow>
                    (case capturedTestBinaries bs2 of
                       [bin] \<Rightarrow>
                         if bin_pkg bin \<noteq> ww_Package work
                         then Inr (Inl (''package '' @ Quote (ww_Package work) @ '' did not produce a test binary''), b)
                         else if binHash (absBin bin) \<noteq> ww_Binary work
                         then Inr (Inl (''binary mismatch for '' @ ww_Package work
                                @ ''; helper must have the same source, toolchain, and build environment as leader''), b)
                         else (case map_of (sv_pkgs bs2) (ww_Package work) of
                                 None \<Rightarrow> Inr (Inr bin, b)
                               | Some ps \<Rightarrow>
                                   Inr (Inr bin,
                                     \<lparr>hb_srv = (hb_srv b)\<lparr>sv_pkgs := AList.update (ww_Package work) ps (sv_pkgs (hb_srv b))\<rparr>,
                                      hb_bins = AList.update (ww_Package work) bin (hb_bins b)\<rparr>))
                     | _ \<Rightarrow> Inr (Inl (''package '' @ Quote (ww_Package work) @ '' did not produce a test binary''), b)))))"

section \<open>A server before its tests run\<close>

text \<open>Nothing is done or cancelled yet, and the phases so far are those of the list; \<open>c\<close> is the result cache.\<close>

definition freshPkg :: "packageStatus \<Rightarrow> bool" where
  "freshPkg ps \<longleftrightarrow> gomap_ok (testsOf ps) \<and> ps_numFails ps = 0 \<and> (\<forall>(name, ts) \<in> set (testsOf ps). \<not> ts_done ts)"

definition freshServer :: "runPhase list \<Rightarrow> (gopath \<times> cacheFS) option \<Rightarrow> Server \<Rightarrow> bool" where
  "freshServer ph c s \<longleftrightarrow> map fst (sv_phaseStarts s) = ph \<and> sv_testCache s = c \<and> gomap_ok (sv_pkgs s) \<and> (\<forall>pkg ps. map_of (sv_pkgs s) pkg = Some ps \<longrightarrow> freshPkg ps)
     \<and> \<not> sv_canceled s \<and> \<not> sv_failFastTriggered s \<and> sv_debugMisses s = 0"

lemma freshServer_OK: "freshServer ph c s \<Longrightarrow> serverOK s"
  by (fastforce simp: freshServer_def freshPkg_def serverOK_def pkgOK_def failedTests_def filter_empty_conv)

lemma freshServer_cong:
  assumes "freshServer ph c s" and "sv_pkgs s' = sv_pkgs s" and "sv_canceled s' = sv_canceled s"
    and "sv_phaseStarts s' = sv_phaseStarts s" and "sv_testCache s' = sv_testCache s" and "sv_failFastTriggered s' = sv_failFastTriggered s" and "sv_debugMisses s' = sv_debugMisses s"
  shows "freshServer ph c s'"
  using assms by (simp add: freshServer_def)

lemma freshServer_update:
  assumes "freshServer ph c s" and "freshPkg ps" and "sv_pkgs s' = AList.update pkg ps (sv_pkgs s)" and "sv_canceled s' = sv_canceled s"
    and "sv_phaseStarts s' = sv_phaseStarts s" and "sv_testCache s' = sv_testCache s" and "sv_failFastTriggered s' = sv_failFastTriggered s" and "sv_debugMisses s' = sv_debugMisses s"
  shows "freshServer ph c s'"
  using assms by (auto simp: freshServer_def split: if_splits)

lemma freshServer_pkg: "freshServer ph c s \<Longrightarrow> map_of (sv_pkgs s) pkg = Some ps \<Longrightarrow> freshPkg ps"
  by (auto simp: freshServer_def)

lemma freshServer_phase: "freshServer ph c s \<Longrightarrow> freshServer (ph @ [phase]) c (setPhase now phase s)"
  by (simp add: freshServer_def setPhase_def)

lemma freshServer_resolve: "resolveQualifiedTests goList s = Inr s' \<Longrightarrow> freshServer ph c s \<Longrightarrow> freshServer ph c s'"
  by (rule freshServer_cong [of ph c s]) (auto simp: resolveQualifiedTests_def split: sum.splits prod.splits)

lemma freshServer_addPackage: "freshServer ph c s \<Longrightarrow> freshServer ph c (addPackage now glp s)"
  by (erule freshServer_update [where ps = "newPackageStatus glp now"])
    (simp_all add: addPackage_def freshPkg_def newPackageStatus_def testsOf_def)

lemma freshServer_addListed: "freshServer ph c s \<Longrightarrow> freshServer ph c (addListedPackages rd now excluded pkgs s)"
  unfolding addListedPackages_def by (induction pkgs arbitrary: s) (auto intro: freshServer_addPackage)

lemma freshServer_learn: "learnPackagesWithTests gt now s = (err, s') \<Longrightarrow> freshServer ph c s \<Longrightarrow> freshServer ph c s'"
  by (auto simp: learnPackagesWithTests_def processCmdOutput_def Let_def intro: freshServer_addListed
      split: sum.splits option.splits prod.splits)

lemma freshServer_dependencies: "freshServer ph c s \<Longrightarrow> freshServer ph c (learnDependencies gt pkgs s)"
  by (erule freshServer_cong) (auto simp: learnDependencies_def learnBuildDependencyCount_def Let_def split: option.split)

lemma freshServer_shim: "freshServer ph c s \<Longrightarrow> freshServer ph c (applyShimEvent ev s)"
  by (erule freshServer_cong)
    (auto simp: applyShimEvent_def recordCacheLookup_def recordToolExec_def Let_def split: shimEvent.split)

lemma freshServer_binary: "addTestBinary st now pkg es cached s = Inr s' \<Longrightarrow> freshServer ph c s \<Longrightarrow> freshServer ph c s'"
proof (cases "map_of (sv_pkgs s) pkg")
  case None
  moreover assume "addTestBinary st now pkg es cached s = Inr s'" "freshServer ph c s"
  ultimately show ?thesis by (simp add: addTestBinary_def)
next
  case (Some ps)
  assume a: "addTestBinary st now pkg es cached s = Inr s'" and f: "freshServer ph c s"
  from a Some obtain ps' where u: "s' = s\<lparr>sv_pkgs := AList.update pkg ps' (sv_pkgs s)\<rparr>" "ps_tests ps' = ps_tests ps" "ps_numFails ps' = ps_numFails ps"
    by (auto simp: addTestBinary_def split: sum.splits if_splits)
  have "freshPkg ps'" using freshServer_pkg [OF f Some] u(2,3) by (simp add: freshPkg_def testsOf_def)
  from freshServer_update [OF f this] u(1) show ?thesis by simp
qed

lemma map_sum_eq_Inr: "map_sum f g x = Inr y \<longleftrightarrow> (\<exists>z. x = Inr z \<and> y = g z)"
  by (cases x) auto

lemma freshServer_event:
  "handleEvent unm st wc now ev bl = Inr bl' \<Longrightarrow> freshServer ph c (bl_srv bl) \<Longrightarrow> freshServer ph c (bl_srv bl')"
  by (auto simp: handleEvent_def split: goTestEvent.splits if_splits prod.splits bool.splits sum.splits
      dest: freshServer_binary simp: map_sum_eq_Inr)

lemma freshServer_events: "handleEvents gt now evs bl = Inr (ok, bl') \<Longrightarrow> freshServer ph c (bl_srv bl) \<Longrightarrow> freshServer ph c (bl_srv bl')"
  by (induction gt now evs bl rule: handleEvents.induct)
    (auto split: sum.splits dest: freshServer_event freshServer_shim)

lemma freshServer_build: "buildAllTestBinaries gt fl now s = Inr (err, s') \<Longrightarrow> freshServer ph c s \<Longrightarrow> freshServer ph c s'"
  by (auto simp: buildAllTestBinaries_def processCmdOutput_def buildEvents_def Let_def
      split: sum.splits if_splits option.splits prod.splits dest!: freshServer_events intro: freshServer_dependencies)

lemma set_update_sub: "set (AList.update k v m) \<subseteq> insert (k, v) (set m)"
  by (induction m) auto

lemma addListed_fold:
  "gomap_ok (fst acc) \<Longrightarrow> \<forall>(name, ts) \<in> set (fst acc). \<not> ts_done ts \<Longrightarrow>
   gomap_ok (fst (fold (addListed sel pkg now) listed acc)) \<and> (\<forall>(name, ts) \<in> set (fst (fold (addListed sel pkg now) listed acc)). \<not> ts_done ts)"
proof (induction listed arbitrary: acc)
  case (Cons t ts)
  have "gomap_ok (fst (addListed sel pkg now t acc)) \<and> (\<forall>(name, st) \<in> set (fst (addListed sel pkg now t acc)). \<not> ts_done st)"
    using Cons.prems set_update_sub [of t "zeroTestStatus\<lparr>ts_changed := now\<rparr>" "fst acc"]
    by (auto simp: addListed_def zeroTestStatus_def)
  then have "gomap_ok (fst (addListed sel pkg now t acc))" "\<forall>(name, st) \<in> set (fst (addListed sel pkg now t acc)). \<not> ts_done st"
    by simp_all
  from Cons.IH [OF this] show ?case by simp
qed simp

lemma freshServer_setTests: "setPackageTests now pkg listed s = Inr s' \<Longrightarrow> freshServer ph c s \<Longrightarrow> freshServer ph c s'"
proof -
  assume a: "setPackageTests now pkg listed s = Inr s'" and f: "freshServer ph c s"
  then obtain ps m n where u: "map_of (sv_pkgs s) pkg = Some ps" "fold (addListed (sv_tests s) pkg now) listed ([], 0) = (m, n)"
    "s' = s\<lparr>sv_pkgs := AList.update pkg (ps\<lparr>ps_tests := Some m, ps_changed := now\<rparr>) (sv_pkgs s), sv_testsTotal := sv_testsTotal s + n\<rparr>"
    by (auto simp: setPackageTests_def split: option.splits prod.splits)
  have "freshPkg (ps\<lparr>ps_tests := Some m, ps_changed := now\<rparr>)"
    using addListed_fold [of "([], 0)" "sv_tests s" pkg now listed] freshServer_pkg [OF f u(1)] u(2)
    by (simp add: freshPkg_def testsOf_def)
  from freshServer_update [OF f this] u(3) show ?thesis by simp
qed

lemma freshServer_listLoop: "listLoop now runs s errs = Inr (errs', s') \<Longrightarrow> freshServer ph c s \<Longrightarrow> freshServer ph c s'"
  by (induction now runs s errs rule: listLoop.induct) (auto split: sum.splits dest: freshServer_setTests)

lemma freshServer_list: "listAllTests now runs s = Inr (errs, s') \<Longrightarrow> freshServer ph c s \<Longrightarrow> freshServer ph c s'"
  by (auto simp: listAllTests_def split: sum.splits if_splits prod.splits dest: freshServer_listLoop)

end
