(* ===== verification/Full_Run.thy ===== *)
theory Full_Run
  imports Test_Pool Build_Run
begin

text \<open>
  The whole run (\<open>gotst.go\<close>): \<open>main\<close>, \<open>NewServer\<close>, the phases of \<open>Run\<close> of a run without helpers, and the two passes of \<open>-debug-uncached\<close>.
  One time stands for the readings of the clock; printing, the progress reporter and \<open>-extra-sleep\<close> do not change the server and are
  left out.
\<close>

section \<open>A new server\<close>

record parsedURL =
  pu_Scheme :: string
  pu_Host :: string

text \<open>
  What \<open>NewServer\<close> meets: the cache root, the errors of \<open>os.MkdirAll\<close>, \<open>url.Parse\<close>, the files of the test cache and of the
  action map on disk, and the result of \<open>mustNewCacheDir\<close>.
\<close>

record serverEnv =
  nv_root :: gopath
  nv_mkdirAll :: "gopath \<Rightarrow> string option"
  nv_parseURL :: "string \<Rightarrow> string + parsedURL"
  nv_cacheFiles :: "(gopath, cacheFile) gomap"
  nv_actions :: "(string, string) gomap"
  nv_newDir :: "string + gopath"

definition newDiskTestCache :: "serverEnv \<Rightarrow> string + gopath \<times> (gopath, cacheFile) gomap" where
  "newDiskTestCache nv =
     (let dir = pathJoin [nv_root nv, ''test-results'', ''v2'']
      in case nv_mkdirAll nv dir of
           Some e \<Rightarrow> Inl (''creating test cache directory: '' @ e)
         | None \<Rightarrow> Inr (dir, nv_cacheFiles nv))"

definition newDiskHistoryStore :: "serverEnv \<Rightarrow> string + gopath" where
  "newDiskHistoryStore nv =
     (let dir = pathJoin [nv_root nv, ''history'', CHR ''v'' # showInt historyVersion]
      in case nv_mkdirAll nv dir of Some e \<Rightarrow> Inl e | None \<Rightarrow> Inr dir)"

definition newHTTPHistoryStore :: "serverEnv \<Rightarrow> string \<Rightarrow> string + parsedURL" where
  "newHTTPHistoryStore nv rawURL =
     (case nv_parseURL nv rawURL of
        Inl e \<Rightarrow> Inl e
      | Inr u \<Rightarrow>
          if pu_Scheme u \<noteq> ''http'' \<and> pu_Scheme u \<noteq> ''https'' then Inl ''history URL scheme must be http or https''
          else if pu_Host u = [] then Inl ''history URL has no host''
          else Inr u)"

datatype historyStore = NoHistory | LocalHistory gopath | HTTPHistory parsedURL

text \<open>The value of \<open>-history\<close>; \<open>Inl\<close> ends the process.\<close>

definition historyStoreFor :: "serverEnv \<Rightarrow> string \<Rightarrow> string + historyStore" where
  "historyStoreFor nv config =
     (if config = ''off'' then Inr NoHistory
      else if config = ''local'' \<or> config = [] then Inr (case newDiskHistoryStore nv of Inl e \<Rightarrow> NoHistory | Inr dir \<Rightarrow> LocalHistory dir)
      else if HasPrefix config ''http://'' \<or> HasPrefix config ''https://''
      then (case newHTTPHistoryStore nv config of Inl e \<Rightarrow> Inl (''initializing HTTP test history: '' @ e) | Inr u \<Rightarrow> Inr (HTTPHistory u))
      else Inl (''invalid -history value '' @ Quote config @ ''; want local, off, or an http(s) URL''))"

definition NewServer :: "flags \<Rightarrow> time \<Rightarrow> serverEnv \<Rightarrow> string \<Rightarrow> runProfile \<Rightarrow> testSelection \<Rightarrow> string + Server" where
  "NewServer fl now nv config profile tests =
     (case (if useCache fl \<and> \<not> testCountSet fl then map_sum id Some (newDiskTestCache nv) else Inr None) of
        Inl e \<Rightarrow> Inl (''initializing test result cache: '' @ e)
      | Inr cache \<Rightarrow>
          (case historyStoreFor nv config of
             Inl e \<Rightarrow> Inl e
           | Inr store \<Rightarrow>
               map_sum id (\<lambda>dir.
                 \<lparr>sv_start = now, sv_cacheDir = dir, sv_canceled = False, sv_profile = profile, sv_tests = tests,
                  sv_testCache = cache, sv_history = (store \<noteq> NoHistory), sv_captureHistory = False, sv_pkgs = [],
                  sv_pkgsWithTests = 0, sv_buildDepsTotal = 0, sv_buildDepsFresh = 0, sv_buildDepsCached = 0, sv_buildDepFresh = [],
                  sv_buildDepCached = [], sv_buildActionToPkg = [], sv_actionMap = nv_actions nv, sv_phase = phaseDiscovering,
                  sv_phaseStarts = [], sv_testsTotal = 0, sv_cacheChecks = 0, sv_cacheHits = 0, sv_failFastTriggered = False,
                  sv_debugPass = 0, sv_debugMisses = 0, sv_debugSeedErrors = [], sv_historyLoaded = False, sv_histories = [],
                  sv_historyPending = [], sv_testSchedule = [], sv_testEstimates = [], sv_testEstimateBase = 0,
                  sv_testEstimateReady = False\<rparr>) (nv_newDir nv)))"

section \<open>The main function\<close>

text \<open>What the process is started as, from \<open>os.Args\<close> and \<open>GOTST_EXEC_DEST\<close>.\<close>

datatype processMode = ShimMode | LocalCacheMode | ToolExecMode | CaptureMode gopath | RunMode

definition mainMode :: "string list \<Rightarrow> string \<Rightarrow> processMode" where
  "mainMode osArgs execDest =
     (if length osArgs = 2 \<and> osArgs ! 1 = cacheShimArg then ShimMode
      else if length osArgs = 2 \<and> osArgs ! 1 = localCacheProgArg then LocalCacheMode
      else if length osArgs \<ge> 3 \<and> osArgs ! 1 = toolExecArg then ToolExecMode
      else if execDest \<noteq> [] then CaptureMode execDest else RunMode)"

definition mainProfile :: "string \<Rightarrow> bool \<Rightarrow> runProfile \<Rightarrow> runProfile" where
  "mainProfile tags race p =
     (let p1 = (if tags \<noteq> [] then p\<lparr>Tags := appendUnique (Tags p) (splitCommaList tags)\<rparr> else p)
      in if race then p1\<lparr>Race := True\<rparr> else p1)"

datatype mainError = FlagError string | ProfileFailed profileError | ServerFailed string

text \<open>
  \<open>main\<close> up to the server of a run: an error that ends the process, no server for a helper, or the server. \<open>None\<close> would be a profile
  whose resolution does not return.
\<close>

definition mainServer :: "flags \<Rightarrow> string list \<Rightarrow> string \<Rightarrow> bool \<Rightarrow> parseDuration \<Rightarrow> profileError + profileDefinitions
    \<Rightarrow> (runProfile \<Rightarrow> testSelection \<Rightarrow> string + Server) \<Rightarrow> (mainError + Server option) option" where
  "mainServer fl args tags race parse defs newServer =
     (case checkFlags fl (length args) of
        Fatal e \<Rightarrow> Some (Inl (FlagError e))
      | RunHelper \<Rightarrow> Some (Inr None)
      | Proceed \<Rightarrow>
          (case defs of
             Inl e \<Rightarrow> Some (Inl (ProfileFailed e))
           | Inr d \<Rightarrow>
               map_option (\<lambda>r. case r of
                   Inl e \<Rightarrow> Inl (ProfileFailed e)
                 | Inr iv \<Rightarrow> map_sum ServerFailed Some (newServer (mainProfile tags race (inv_profile iv)) (inv_tests iv)))
                 (parseInvocation parse d args)))"

text \<open>\<open>Cleanup\<close>: the directory that is removed, and the cancelled server.\<close>

definition Cleanup :: "Server \<Rightarrow> gopath option \<times> Server" where
  "Cleanup s = (if sv_cacheDir s \<noteq> [] then Some (sv_cacheDir s) else None, s\<lparr>sv_canceled := True\<rparr>)"

text \<open>\<open>printTestResult\<close>, the text it writes.\<close>

definition printTestResult :: "bool \<Rightarrow> bool \<Rightarrow> testTask \<Rightarrow> duration \<Rightarrow> bool \<Rightarrow> bool \<Rightarrow> string \<Rightarrow> string" where
  "printTestResult quiet verbose task d cached passed output =
     (let tab = [CHR 0x09]; place = task_pkg task @ tab @ task_test task @ tab
      in if quiet \<or> passed \<and> \<not> verbose then []
         else if \<not> passed
         then ''FAILED: '' @ task_pkg task @ ''.'' @ task_test task @ [nl] @ output @ ''FAIL'' @ tab @ place @ durationString d @ [nl]
         else if cached then ''ok  '' @ tab @ place @ ''(cached)'' @ [nl]
         else ''ok  '' @ tab @ place @ durationString d @ [nl])"

section \<open>The two passes of debug-uncached\<close>

datatype debugError = SeedPass runError | NotReused int int int

text \<open>
  \<open>verifyDebugCache\<close>: the workers take the tasks in turn and verify them concurrently; \<open>order\<close> is the order in which their
  results reach the server. A task reads only the seed errors and the cache, which nobody writes in this pass, so its steps
  can be taken at once.
\<close>

definition verifyDebugCache :: "hashing \<Rightarrow> world \<Rightarrow> string option \<Rightarrow> flags \<Rightarrow> time \<Rightarrow> testTask list \<Rightarrow> Server \<Rightarrow> Server option" where
  "verifyDebugCache h w fault fl now order s = foldO (verifyDebugCacheTask h w fault fl now) order s"

definition debugVerdict :: "Server \<Rightarrow> debugError option" where
  "debugVerdict s =
     (if sv_debugMisses s \<noteq> 0 then Some (NotReused (sv_debugMisses s) (sv_cacheChecks s) (sv_cacheHits s)) else None)"

inductive runDebugUncached :: "hashing \<Rightarrow> platform \<Rightarrow> world \<Rightarrow> string option \<Rightarrow> flags \<Rightarrow> (histKey list \<Rightarrow> int \<Rightarrow> string + (string, History) gomap)
    \<Rightarrow> time \<Rightarrow> Server \<Rightarrow> debugError option \<Rightarrow> Server \<Rightarrow> bool" for h pf w fault fl lookup now s where
  seed_fails: "runAllTests h pf fl lookup now (s\<lparr>sv_debugPass := 1\<rparr>) (Some e) outs s1
    \<Longrightarrow> runDebugUncached h pf w fault fl lookup now s (Some (SeedPass e)) s1"
| second_pass: "runAllTests h pf fl lookup now (s\<lparr>sv_debugPass := 1\<rparr>) None outs s1
    \<Longrightarrow> allTestTasks now (resetForSecondPass now s1) = Some (tasks, s2) \<Longrightarrow> mset order = mset tasks
    \<Longrightarrow> verifyDebugCache h w fault fl now order s2 = Some s3
    \<Longrightarrow> runDebugUncached h pf w fault fl lookup now s (debugVerdict s3) s3"

section \<open>The phases\<close>

datatype runFailure = ResolveFailed string | LearnFailed string | BuildFailed string | ListFailed string | TestsFailed runError
  | DebugFailed debugError

text \<open>
  \<open>Run\<close> up to the tests: the end of the process, an early return, or the server at the start of the testing phase. \<open>listed\<close> gives for
  the captured binaries what \<open>-test.list\<close> printed, in the order in which the processes end.
\<close>

datatype runStart = Early "runFailure option" Server | Ready Server

definition prepareRun :: "goTool \<Rightarrow> flags \<Rightarrow> time \<Rightarrow> (capturedTestBinary list \<Rightarrow> (string \<times> (string + string)) list) \<Rightarrow> Server \<Rightarrow> string + runStart" where
  "prepareRun gt fl now listed s =
     (let s0 = setPhase now phaseDiscovering s
      in case resolveQualifiedTests (qualifiedList gt (sv_profile s0)) s0 of
           Inl e \<Rightarrow> Inr (Early (Some (ResolveFailed e)) s0)
         | Inr s1 \<Rightarrow>
             (case learnPackagesWithTests gt now s1 of
                (Some e, s2) \<Rightarrow> Inr (Early (Some (LearnFailed e)) s2)
              | (None, s2) \<Rightarrow>
                  (case buildAllTestBinaries gt fl now (setPhase now phaseBuilding s2) of
                     Inl fatal \<Rightarrow> Inl fatal
                   | Inr (Some e, s3) \<Rightarrow> Inr (Early (Some (BuildFailed e)) s3)
                   | Inr (None, s3) \<Rightarrow>
                       if buildOnly fl then Inr (Early None s3)
                       else (case listAllTests now (listed (capturedTestBinaries s3)) (setPhase now phaseListing s3) of
                               Inl fatal \<Rightarrow> Inl fatal
                             | Inr (errs, s4) \<Rightarrow>
                                 if errs \<noteq> [] then Inr (Early (Some (ListFailed (Join [nl] errs))) s4)
                                 else Inr (Ready (setPhase now phaseTesting s4))))))"

text \<open>What \<open>Run\<close> does in the end, whatever happened: the last phase, and the history that is written.\<close>

definition finishRun :: "time \<Rightarrow> runFailure option \<Rightarrow> Server \<Rightarrow> Observation list \<times> Server" where
  "finishRun now res s = flushHistory (setPhase now (if res \<noteq> None then phaseFailed else phaseDone) s)"

inductive Run :: "goTool \<Rightarrow> hashing \<Rightarrow> platform \<Rightarrow> world \<Rightarrow> string option \<Rightarrow> flags \<Rightarrow> (histKey list \<Rightarrow> int \<Rightarrow> string + (string, History) gomap)
    \<Rightarrow> (capturedTestBinary list \<Rightarrow> (string \<times> (string + string)) list) \<Rightarrow> time \<Rightarrow> Server
    \<Rightarrow> runFailure option \<Rightarrow> Observation list \<times> Server \<Rightarrow> bool" for gt h pf w fault fl lookup listed now s where
  run_early: "prepareRun gt fl now listed s = Inr (Early res s1)
    \<Longrightarrow> Run gt h pf w fault fl lookup listed now s res (finishRun now res s1)"
| run_tests: "prepareRun gt fl now listed s = Inr (Ready s1) \<Longrightarrow> \<not> debugUncached fl \<Longrightarrow> runAllTests h pf fl lookup now s1 err outs s2
    \<Longrightarrow> res = map_option TestsFailed err
    \<Longrightarrow> Run gt h pf w fault fl lookup listed now s res (finishRun now res s2)"
| run_debug: "prepareRun gt fl now listed s = Inr (Ready s1) \<Longrightarrow> debugUncached fl \<Longrightarrow> runDebugUncached h pf w fault fl lookup now s1 err s2
    \<Longrightarrow> res = map_option DebugFailed err
    \<Longrightarrow> Run gt h pf w fault fl lookup listed now s res (finishRun now res s2)"

section \<open>What a run keeps\<close>

definition sameServerShape :: "Server \<Rightarrow> Server \<Rightarrow> bool" where
  "sameServerShape s s' \<longleftrightarrow> sv_cacheDir s' = sv_cacheDir s \<and> sv_profile s' = sv_profile s \<and> sv_debugPass s' = sv_debugPass s
     \<and> sv_debugMisses s' = sv_debugMisses s \<and> sv_phaseStarts s' = sv_phaseStarts s \<and> (sv_testCache s' = None \<longleftrightarrow> sv_testCache s = None)
     \<and> shape s' = shape s"

lemma sameRun_shape: "sameRun s s' \<Longrightarrow> sameServerShape s s'"
  by (simp add: sameRun_def sameServerShape_def)

lemma sameServerShape_trans: "sameServerShape s t \<Longrightarrow> sameServerShape t u \<Longrightarrow> sameServerShape s u"
  by (simp add: sameServerShape_def)

lemma sameServerShape_report: "reportFailure fl err s = (primary, s') \<Longrightarrow> sameServerShape s s'"
  by (auto simp: reportFailure_def triggerFailFast_def sameServerShape_def shape_def split: if_splits)

lemma pool_reach_shape: "pool_reach fl tasks s p \<Longrightarrow> sameServerShape s (po_srv p)"
proof (induction rule: reach.induct)
  case (reach_start p)
  then show ?case by (simp add: startPool_def sameServerShape_def)
next
  case (reach_step p q)
  from reach_step.hyps(2) show ?case
  proof cases
    case (test_returns before task after s' err primary s'')
    then have "po_srv q = s''" by simp
    with sameServerShape_trans [OF reach_step.IH sameServerShape_trans [OF sameRun_shape [OF test_returns(3)] sameServerShape_report [OF test_returns(4)]]]
    show ?thesis by simp
  qed (use reach_step.IH in simp_all)
qed

lemma runAllTests_shape:
  assumes "runAllTests h pf fl lookup now s res outs s'" and "mapsOK s"
  shows "sameServerShape s s'"
  using assms(1)
proof cases
  case no_binaries
  then show ?thesis by (simp add: sameServerShape_def)
next
  case (pool_run tasks s1 p)
  from runTasks_complete [OF assms(2)] pool_run(5) have "sameRun s s1" by (metis option.inject prod.inject)
  with pool_reach_shape [OF pool_run(6)] pool_run(3) show ?thesis by (auto intro: sameServerShape_trans sameRun_shape)
qed

text \<open>The maps are consistent and the tasks the same whenever the shape is.\<close>

lemma shape_keys: "gokeys (sv_pkgs s) = map fst (shape s)"
  by (simp add: shape_def comp_def case_prod_beta)

lemma map_of_shape: "map_of (shape s) pkg
    = map_option (\<lambda>ps. (ps_exeHash ps, ps_workDir ps, ps_exeArgs ps, gokeys (testsOf ps))) (map_of (sv_pkgs s) pkg)"
  unfolding shape_def by (induction "sv_pkgs s") (auto simp: map_of_map)

lemma shape_mapsOK: "mapsOK s \<longleftrightarrow> distinct (map fst (shape s))
    \<and> (\<forall>pkg a b c ks. map_of (shape s) pkg = Some (a, b, c, ks) \<longrightarrow> distinct ks)"
proof -
  have "(\<forall>ps. x = Some ps \<longrightarrow> distinct (gokeys (testsOf ps))) \<longleftrightarrow>
      (\<forall>a b c ks. map_option (\<lambda>ps. (ps_exeHash ps, ps_workDir ps, ps_exeArgs ps, gokeys (testsOf ps))) x = Some (a, b, c, ks) \<longrightarrow> distinct ks)" for x
    by (cases x) simp_all
  then show ?thesis unfolding mapsOK_def gomap_ok_def shape_keys map_of_shape by simp
qed

lemma shape_captured: "capturedTestBinaries s =
    SortFunc (\<lambda>a b. cmpOf (bin_pkg a) (bin_pkg b))
      (map (\<lambda>(pkg, eh, wd, args, ks). \<lparr>bin_pkg = pkg, absBin = pathJoin [sv_cacheDir s, eh], workDir = wd, bin_args = args\<rparr>)
         (filter (\<lambda>(pkg, eh, wd, args, ks). eh \<noteq> []) (shape s)))"
  by (simp add: capturedTestBinaries_def shape_def filter_map comp_def case_prod_beta')

lemma shape_tasksOf: "tasksOf s bins = concat (map (\<lambda>bin. map (\<lambda>test. \<lparr>task_bin = bin, task_test = test\<rparr>)
    (case map_of (shape s) (bin_pkg bin) of None \<Rightarrow> [] | Some (a, b, c, ks) \<Rightarrow> sortStrings (filter isRunnableTopLevelTest ks))) bins)"
proof -
  have "(case map_of (sv_pkgs s) p of None \<Rightarrow> [] | Some ps \<Rightarrow> runnableTests ps)
      = (case map_of (shape s) p of None \<Rightarrow> [] | Some (a, b, c, ks) \<Rightarrow> sortStrings (filter isRunnableTopLevelTest ks))" for p
    by (simp add: map_of_shape runnableTests_def split: option.split)
  then show ?thesis by (simp add: tasksOf_def)
qed

lemma sameServerShape_same:
  assumes "sameServerShape s s'"
  shows "mapsOK s' \<longleftrightarrow> mapsOK s" and "capturedTestBinaries s' = capturedTestBinaries s" and "tasksOf s' bins = tasksOf s bins"
  using assms by (simp_all add: sameServerShape_def shape_mapsOK shape_captured shape_tasksOf)

section \<open>The second pass\<close>

text \<open>A result that the second pass reuses: seeded cleanly, found, and with every recorded input unchanged.\<close>

definition reusable :: "hashing \<Rightarrow> world \<Rightarrow> string option \<Rightarrow> flags \<Rightarrow> Server \<Rightarrow> testTask \<Rightarrow> bool" where
  "reusable h w fault fl s task =
     (let key = cacheKeyForTask fl (sv_profile s) task
      in (map_of (sv_debugSeedErrors s) (keyId h key) = None \<or> map_of (sv_debugSeedErrors s) (keyId h key) = Some [])
         \<and> (case sv_testCache s of
              None \<Rightarrow> False
            | Some (dir, fs) \<Rightarrow>
                (case cacheGet h dir (sv_canceled s) fault fs key of
                   Inl _ \<Rightarrow> False
                 | Inr entry \<Rightarrow> changedDependencies h w (entry_Dependencies entry) = Inr [])))"

definition verifyFrame :: "Server \<Rightarrow> Server \<Rightarrow> bool" where
  "verifyFrame s s' \<longleftrightarrow> sv_testCache s' = sv_testCache s \<and> sv_debugSeedErrors s' = sv_debugSeedErrors s
     \<and> sv_canceled s' = sv_canceled s \<and> sv_profile s' = sv_profile s \<and> sv_cacheDir s' = sv_cacheDir s
     \<and> sv_phaseStarts s' = sv_phaseStarts s \<and> shape s' = shape s"

lemma verifyFrame_refl [simp]: "verifyFrame s s"
  by (simp add: verifyFrame_def)

lemma verifyFrame_trans: "verifyFrame s t \<Longrightarrow> verifyFrame t u \<Longrightarrow> verifyFrame s u"
  by (simp add: verifyFrame_def)

lemma reusable_cong:
  assumes "sv_testCache s' = sv_testCache s" and "sv_debugSeedErrors s' = sv_debugSeedErrors s" and "sv_canceled s' = sv_canceled s"
    and "sv_profile s' = sv_profile s"
  shows "reusable h w fault fl s' = reusable h w fault fl s"
  by (rule ext) (simp only: reusable_def assms)

lemma verifyFrame_reusable: "verifyFrame s s' \<Longrightarrow> reusable h w fault fl s' = reusable h w fault fl s"
  by (rule reusable_cong) (simp_all add: verifyFrame_def)

lemma finish_verifyFrame:
  assumes "finishTestLocked now task passed d failures err cached s = Some s'"
  shows "verifyFrame s s'" and "sv_cacheChecks s' = sv_cacheChecks s" and "sv_cacheHits s' = sv_cacheHits s"
    and "sv_debugMisses s' = sv_debugMisses s"
  using sameRun_tests(5) [OF assms] updTest_pkgs [OF assms [unfolded finishTestLocked_def]]
  by (auto simp: verifyFrame_def sameRun_def)

definition verified :: "bool \<Rightarrow> testTask \<Rightarrow> Server \<Rightarrow> bool" where
  "verified cached task s \<longleftrightarrow>
     (\<exists>ts. testOf s (task_pkg task) (task_test task) = Some ts \<and> ts_done ts \<and> ts_passed ts \<and> ts_cached ts = cached)"

lemma verifyTask_cases:
  fixes h w fault fl task
  assumes "sv_testCache s \<noteq> None"
  defines "s1 \<equiv> s\<lparr>sv_cacheChecks := sv_cacheChecks s + 1\<rparr>" and "r \<equiv> reusable h w fault fl s task"
  shows "\<exists>d. verifyDebugCacheTask h w fault fl now task s
    = finishTestLocked now task True d [] None r
        (if r then s1\<lparr>sv_cacheHits := sv_cacheHits s + 1\<rparr> else reportDebugCacheMiss s1)"
  using assms(1) unfolding verifyDebugCacheTask_def s1_def r_def reusable_def Let_def
  by (auto split: option.splits sum.splits)

lemma verifyTask:
  fixes h w fault fl task
  assumes "sv_testCache s \<noteq> None" and "taskIn task s"
  defines "r \<equiv> reusable h w fault fl s task"
  obtains s' where "verifyDebugCacheTask h w fault fl now task s = Some s'" and "verifyFrame s s'" and "verified r task s'"
    and "\<And>p t. (p, t) \<noteq> task_id task \<Longrightarrow> testOf s' p t = testOf s p t"
    and "sv_cacheChecks s' = sv_cacheChecks s + 1" and "sv_cacheHits s' = sv_cacheHits s + (if r then 1 else 0)"
    and "sv_debugMisses s' = sv_debugMisses s + (if r then 0 else 1)"
proof -
  let ?s1 = "s\<lparr>sv_cacheChecks := sv_cacheChecks s + 1\<rparr>"
  let ?s2 = "if r then ?s1\<lparr>sv_cacheHits := sv_cacheHits s + 1\<rparr> else reportDebugCacheMiss ?s1"
  obtain d where d: "verifyDebugCacheTask h w fault fl now task s = finishTestLocked now task True d [] None r ?s2"
    using verifyTask_cases [OF assms(1)] unfolding r_def by blast
  have pkgs: "sv_pkgs ?s2 = sv_pkgs s" by (simp add: reportDebugCacheMiss_def)
  then have tests: "testOf ?s2 p t = testOf s p t" for p t by (simp add: testOf_def)
  with assms(2) have "taskIn task ?s2" by (simp add: taskIn_def)
  then obtain s' where s': "finishTestLocked now task True d [] None r ?s2 = Some s'" using ops_return(5) by blast
  note f = finish_verifyFrame [OF s']
  obtain ts where ts: "testOf s (task_pkg task) (task_test task) = Some ts" using assms(2) by (auto simp: taskIn_def)
  show ?thesis
  proof (rule that)
    show "verifyDebugCacheTask h w fault fl now task s = Some s'" using d s' by simp
    have "verifyFrame s ?s2" by (simp add: verifyFrame_def reportDebugCacheMiss_def shape_def)
    from verifyFrame_trans [OF this f(1)] show "verifyFrame s s'" .
    show "verified r task s'"
      using finish_keeps(2) [OF s', of "task_pkg task" "task_test task"] unfolding tests ts by (simp add: verified_def finishStatus_def)
    show "(p, t) \<noteq> task_id task \<Longrightarrow> testOf s' p t = testOf s p t" for p t
      using finish_keeps(2) [OF s', of p t] unfolding tests by auto
  qed (use f in \<open>simp_all add: reportDebugCacheMiss_def\<close>)
qed

lemma verifyAll:
  assumes "sv_testCache s \<noteq> None" and "\<forall>task \<in> set order. taskIn task s" and "distinct (map task_id order)"
  shows "\<exists>s'. verifyDebugCache h w fault fl now order s = Some s' \<and> verifyFrame s s'
    \<and> (\<forall>task \<in> set order. verified (reusable h w fault fl s task) task s')
    \<and> (\<forall>p t. (p, t) \<notin> set (map task_id order) \<longrightarrow> testOf s' p t = testOf s p t)
    \<and> sv_cacheChecks s' = sv_cacheChecks s + int (length order)
    \<and> sv_cacheHits s' = sv_cacheHits s + int (length (filter (reusable h w fault fl s) order))
    \<and> sv_debugMisses s' = sv_debugMisses s + int (length (filter (\<lambda>t. \<not> reusable h w fault fl s t) order))"
  using assms
proof (induction order arbitrary: s)
  case Nil
  then show ?case by (simp add: verifyDebugCache_def)
next
  case (Cons task order)
  have "taskIn task s" using Cons.prems(2) by simp
  from verifyTask [OF Cons.prems(1) this, of h w fault fl now] obtain s1 where
    s1: "verifyDebugCacheTask h w fault fl now task s = Some s1" "verifyFrame s s1"
      "verified (reusable h w fault fl s task) task s1" "\<And>p t. (p, t) \<noteq> task_id task \<Longrightarrow> testOf s1 p t = testOf s p t"
      "sv_cacheChecks s1 = sv_cacheChecks s + 1" "sv_cacheHits s1 = sv_cacheHits s + (if reusable h w fault fl s task then 1 else 0)"
      "sv_debugMisses s1 = sv_debugMisses s + (if reusable h w fault fl s task then 0 else 1)" by blast
  note same = verifyFrame_reusable [OF s1(2), of h w fault fl]
  have c1: "sv_testCache s1 \<noteq> None" using s1(2) Cons.prems(1) by (simp add: verifyFrame_def)
  have new: "task_id task \<notin> set (map task_id order)" using Cons.prems(3) by simp
  have in1: "\<forall>t \<in> set order. taskIn t s1"
  proof
    fix t assume t: "t \<in> set order"
    then have "task_id t \<in> set (map task_id order)" by simp
    with new have "task_id t \<noteq> task_id task" by metis
    with s1(4) Cons.prems(2) t show "taskIn t s1" by (simp add: taskIn_def)
  qed
  have d1: "distinct (map task_id order)" using Cons.prems(3) by simp
  from Cons.IH [OF c1 in1 d1] obtain s2 where
    s2: "verifyDebugCache h w fault fl now order s1 = Some s2" "verifyFrame s1 s2"
      "\<forall>t \<in> set order. verified (reusable h w fault fl s1 t) t s2"
      "\<forall>p t. (p, t) \<notin> set (map task_id order) \<longrightarrow> testOf s2 p t = testOf s1 p t"
      "sv_cacheChecks s2 = sv_cacheChecks s1 + int (length order)"
      "sv_cacheHits s2 = sv_cacheHits s1 + int (length (filter (reusable h w fault fl s1) order))"
      "sv_debugMisses s2 = sv_debugMisses s1 + int (length (filter (\<lambda>t. \<not> reusable h w fault fl s1 t) order))" by blast
  have v: "verified (reusable h w fault fl s task) task s2"
    using s1(3) s2(4) new by (simp add: verified_def)
  have other: "\<forall>p t. (p, t) \<notin> set (map task_id (task # order)) \<longrightarrow> testOf s2 p t = testOf s p t"
    using s2(4) s1(4) by simp
  have "verifyDebugCache h w fault fl now (task # order) s = Some s2" using s1(1) s2(1) by (simp add: verifyDebugCache_def)
  moreover have "\<forall>t \<in> set (task # order). verified (reusable h w fault fl s t) t s2"
    using s2(3) v same by simp
  moreover note verifyFrame_trans [OF s1(2) s2(2)] other
  ultimately show ?case using s2(5-7) s1(5-7) same by (intro exI [of _ s2]) simp
qed

lemma binTasks_counts:
  "foldO (binTasks now) bins (acc, s) = Some (tasks, s') \<Longrightarrow> sv_cacheChecks s' = sv_cacheChecks s \<and> sv_cacheHits s' = sv_cacheHits s"
proof (induction bins arbitrary: acc s)
  case (Cons bin bins)
  from Cons.prems obtain acc1 s1 where b: "binTasks now bin (acc, s) = Some (acc1, s1)"
    "foldO (binTasks now) bins (acc1, s1) = Some (tasks, s')" by (auto split: option.splits)
  from b(1) have "sv_cacheChecks s1 = sv_cacheChecks s \<and> sv_cacheHits s1 = sv_cacheHits s"
    by (auto simp: binTasks_def Let_def split: option.splits if_splits)
  with Cons.IH [OF b(2)] show ?case by simp
qed simp

lemma shape_reset: "shape (resetForSecondPass now s) = shape s"
proof -
  have "gokeys (testsOf (resetPackage now ps)) = gokeys (testsOf ps)" for ps
    by (cases "ps_tests ps") (simp_all add: resetPackage_def testsOf_def comp_def case_prod_beta)
  then show ?thesis
    by (simp add: shape_def resetForSecondPass_def comp_def case_prod_beta') (simp add: resetPackage_def)
qed

lemma taskIn_shape: "taskIn task s \<longleftrightarrow>
    (case map_of (shape s) (task_pkg task) of None \<Rightarrow> False | Some (a, b, c, ks) \<Rightarrow> task_test task \<in> set ks)"
proof (cases "map_of (sv_pkgs s) (task_pkg task)")
  case None
  then show ?thesis by (simp add: taskIn_def testOf_def map_of_shape)
next
  case (Some ps)
  have "map_of (testsOf ps) (task_test task) \<noteq> None \<longleftrightarrow> task_test task \<in> set (gokeys (testsOf ps))" by (simp add: map_of_eq_None_iff)
  with Some show ?thesis by (simp add: taskIn_def testOf_def map_of_shape)
qed

lemma tasksOf_taskIn: "task \<in> set (tasksOf s bins) \<Longrightarrow> taskIn task s"
proof -
  assume "task \<in> set (tasksOf s bins)"
  then obtain bin t where b: "task = \<lparr>task_bin = bin, task_test = t\<rparr>"
    "t \<in> set (case map_of (sv_pkgs s) (bin_pkg bin) of None \<Rightarrow> [] | Some ps \<Rightarrow> runnableTests ps)" by (auto simp: tasksOf_def)
  then obtain ps where "map_of (sv_pkgs s) (bin_pkg bin) = Some ps" "t \<in> set (runnableTests ps)"
    by (cases "map_of (sv_pkgs s) (bin_pkg bin)") auto
  then show ?thesis using b(1) by (simp add: taskIn_def testOf_def runnableTests_set)
qed

lemma taskBefore_ids: "sorted_wrt taskBefore tasks \<Longrightarrow> distinct (map task_id tasks)"
  by (induction tasks) (auto simp: taskBefore_def)

lemma runTask_ids:
  assumes "mapsOK s"
  shows "distinct (map task_id (tasksOf s (capturedTestBinaries s)))"
  by (rule taskBefore_ids [OF tasksOf_sorted [OF assms capturedTestBinaries_strict [OF assms]]])

text \<open>The second pass on a server after the first.\<close>

lemma secondPass:
  fixes s1 h w fault fl
  assumes "mapsOK s1" and "sv_testCache s1 \<noteq> None" and "sv_debugMisses s1 = 0"
    and "allTestTasks now (resetForSecondPass now s1) = Some (tasks, s2)" and "mset order = mset tasks"
  defines "good \<equiv> reusable h w fault fl" and "all \<equiv> tasksOf s1 (capturedTestBinaries s1)"
  obtains s3 where "verifyDebugCache h w fault fl now order s2 = Some s3" and "\<forall>task \<in> set all. verified (good s3 task) task s3"
    and "sv_cacheChecks s3 = int (length all)" and "sv_cacheHits s3 = int (length (filter (good s3) all))"
    and "sv_debugMisses s3 = int (length (filter (\<lambda>t. \<not> good s3 t) all))" and "sv_phaseStarts s3 = sv_phaseStarts s1"
proof -
  let ?r = "resetForSecondPass now s1"
  have r: "sv_testCache ?r = sv_testCache s1" "sv_debugMisses ?r = 0" "sv_cacheDir ?r = sv_cacheDir s1" "sv_cacheChecks ?r = 0"
    "sv_cacheHits ?r = 0" "sv_phaseStarts ?r = sv_phaseStarts s1" using assms(3) by (simp_all add: resetForSecondPass_def)
  have maps: "mapsOK ?r" using assms(1) by (simp add: shape_mapsOK shape_reset)
  have same: "tasksOf ?r (capturedTestBinaries ?r) = all"
    using r(3) by (simp add: all_def shape_tasksOf shape_captured shape_reset)
  from allTestTasks_returns [OF maps, of now] assms(4) same have t: "tasks = all" "sameRun ?r s2"
    by (metis option.inject prod.inject)+
  have counts: "sv_cacheChecks s2 = 0" "sv_cacheHits s2 = 0"
    using binTasks_counts [OF assms(4) [unfolded allTestTasks_def]] r(4,5) by simp_all
  have perm: "mset order = mset all" using assms(5) t(1) by simp
  then have "mset (map task_id order) = mset (map task_id all)" by simp
  then have dist: "distinct (map task_id order)"
    using mset_eq_imp_distinct_iff runTask_ids [OF maps] unfolding same by blast
  have inn: "\<forall>task \<in> set order. taskIn task s2"
  proof
    fix task assume "task \<in> set order"
    then have "task \<in> set all" using perm by (metis set_mset_mset)
    then have "taskIn task ?r" unfolding same [symmetric] by (rule tasksOf_taskIn)
    then show "taskIn task s2" using t(2) by (simp add: taskIn_shape sameRun_def)
  qed
  have c: "sv_testCache s2 \<noteq> None" using t(2) r(1) assms(2) by (simp add: sameRun_def)
  from verifyAll [OF c inn dist, of h w fault fl now] obtain s3 where
    s3: "verifyDebugCache h w fault fl now order s2 = Some s3" "verifyFrame s2 s3"
      "\<forall>task \<in> set order. verified (good s2 task) task s3" "sv_cacheChecks s3 = sv_cacheChecks s2 + int (length order)"
      "sv_cacheHits s3 = sv_cacheHits s2 + int (length (filter (good s2) order))"
      "sv_debugMisses s3 = sv_debugMisses s2 + int (length (filter (\<lambda>t. \<not> good s2 t) order))"
    unfolding good_def by blast
  have g: "good s3 = good s2" unfolding good_def by (rule verifyFrame_reusable [OF s3(2)])
  have lens: "length order = length all" "length (filter P order) = length (filter P all)" "set order = set all" for P
    using perm by (metis size_mset, metis mset_filter size_mset, metis set_mset_mset)
  show ?thesis
    by (rule that [OF s3(1)])
      (use s3 g lens counts t(2) r(2,6) in \<open>simp_all add: sameRun_def verifyFrame_def\<close>)
qed

section \<open>Preparing a run\<close>

definition preparation :: "runPhase list" where
  "preparation = [phaseDiscovering, phaseBuilding, phaseListing, phaseTesting]"

lemma NewServer_fresh:
  "NewServer fl now nv config profile tests = Inr s \<Longrightarrow>
    freshServer [] (sv_testCache s) s \<and> (useCache fl \<and> \<not> testCountSet fl \<longrightarrow> sv_testCache s \<noteq> None)"
  by (auto simp: NewServer_def freshServer_def map_sum_eq_Inr split: sum.splits if_splits)

lemma mainServer_flags:
  assumes "mainServer fl args tags race parse defs newServer = Some (Inr (Some s))"
  obtains p sel where "newServer p sel = Inr s" and "1 \<le> jobs fl" and "debugUncached fl \<longrightarrow> useCache fl \<and> \<not> testCountSet fl"
proof -
  have ok: "checkFlags fl (length args) = Proceed" using assms by (simp add: mainServer_def split: startup.splits)
  then have flags: "1 \<le> jobs fl" "debugUncached fl \<longrightarrow> useCache fl \<and> \<not> testCountSet fl"
    by (auto simp: checkFlags_def split: if_splits)
  obtain d where d: "defs = Inr d" using assms ok by (cases defs) (simp_all add: mainServer_def)
  moreover obtain r where r: "parseInvocation parse d args = Some r" using assms ok d by (auto simp: mainServer_def)
  moreover obtain iv where "r = Inr iv" using assms ok d r by (cases r) (simp_all add: mainServer_def)
  ultimately have "map_sum ServerFailed Some (newServer (mainProfile tags race (inv_profile iv)) (inv_tests iv)) = Inr (Some s)"
    using assms ok by (simp add: mainServer_def)
  then have "newServer (mainProfile tags race (inv_profile iv)) (inv_tests iv) = Inr s" by (auto simp: map_sum_eq_Inr)
  with that flags show ?thesis by blast
qed

lemma prepareRun_fresh:
  assumes "freshServer [] k s"
  shows "prepareRun gt fl now listed s = Inr (Ready s1) \<Longrightarrow> freshServer preparation k s1 \<and> \<not> buildOnly fl"
    and "prepareRun gt fl now listed s = Inr (Early res s1) \<Longrightarrow>
      \<exists>n. 1 \<le> n \<and> n \<le> 3 \<and> freshServer (take n preparation) k s1 \<and> (res = None \<longrightarrow> buildOnly fl)"
proof -
  let ?s0 = "setPhase now phaseDiscovering s"
  have s0: "freshServer [phaseDiscovering] k ?s0" using freshServer_phase [OF assms] by simp
  have ph: "freshServer ps k t \<Longrightarrow> ps @ [x] = ps' \<Longrightarrow> freshServer ps' k (setPhase now x t)" for ps ps' x t
    using freshServer_phase by blast
  note defs = prepareRun_def Let_def preparation_def
  note steps = freshServer_resolve [OF _ s0] freshServer_learn freshServer_build freshServer_list
  show "prepareRun gt fl now listed s = Inr (Ready s1) \<Longrightarrow> freshServer preparation k s1 \<and> \<not> buildOnly fl"
    by (auto simp: defs split: sum.splits prod.splits option.splits if_splits dest!: steps intro!: ph)
  show "prepareRun gt fl now listed s = Inr (Early res s1) \<Longrightarrow>
      \<exists>n. 1 \<le> n \<and> n \<le> 3 \<and> freshServer (take n preparation) k s1 \<and> (res = None \<longrightarrow> buildOnly fl)"
  proof -
    assume "prepareRun gt fl now listed s = Inr (Early res s1)"
    then consider e where "res = Some (ResolveFailed e)" "s1 = ?s0"
      | a e where "res = Some (LearnFailed e)" "resolveQualifiedTests (qualifiedList gt (sv_profile ?s0)) ?s0 = Inr a"
          "learnPackagesWithTests gt now a = (Some e, s1)"
      | a b err where "resolveQualifiedTests (qualifiedList gt (sv_profile ?s0)) ?s0 = Inr a" "learnPackagesWithTests gt now a = (None, b)"
          "buildAllTestBinaries gt fl now (setPhase now phaseBuilding b) = Inr (err, s1)" "res = None \<longrightarrow> buildOnly fl"
      | a b c errs e where "resolveQualifiedTests (qualifiedList gt (sv_profile ?s0)) ?s0 = Inr a" "learnPackagesWithTests gt now a = (None, b)"
          "buildAllTestBinaries gt fl now (setPhase now phaseBuilding b) = Inr (None, c)"
          "listAllTests now (listed (capturedTestBinaries c)) (setPhase now phaseListing c) = Inr (errs, s1)" "res = Some e"
      by (auto simp: prepareRun_def Let_def split: sum.splits prod.splits option.splits if_splits)
    then show ?thesis
    proof cases
      case 1
      then show ?thesis using s0 by (intro exI [of _ 1]) (simp add: preparation_def)
    next
      case 2
      then show ?thesis using freshServer_learn [OF 2(3) freshServer_resolve [OF 2(2) s0]]
        by (intro exI [of _ 1]) (simp add: preparation_def)
    next
      case 3
      have "freshServer [phaseDiscovering] k b" using freshServer_learn [OF 3(2) freshServer_resolve [OF 3(1) s0]] .
      from freshServer_build [OF 3(3) freshServer_phase [OF this]] 3(4) show ?thesis
        by (intro exI [of _ 2]) (simp add: preparation_def)
    next
      case 4
      have "freshServer [phaseDiscovering] k b" using freshServer_learn [OF 4(2) freshServer_resolve [OF 4(1) s0]] .
      from freshServer_list [OF 4(4) freshServer_phase [OF freshServer_build [OF 4(3) freshServer_phase [OF this]]]] 4(5) show ?thesis
        by (intro exI [of _ 3]) (simp add: preparation_def)
    qed
  qed
qed

lemma listLoop_known:
  "listLoop now runs s errs = Inl fatal \<Longrightarrow> \<exists>(pkg, r) \<in> set runs. map_of (sv_pkgs s) pkg = None"
proof (induction now runs s errs rule: listLoop.induct)
  case (3 now pkg out rs s errs)
  show ?case
  proof (cases "setPackageTests now pkg (Fields out) s")
    case (Inl e)
    then show ?thesis by (auto simp: setPackageTests_def split: option.splits prod.splits)
  next
    case (Inr s')
    with 3 obtain q r where "(q, r) \<in> set rs" "map_of (sv_pkgs s') q = None" by fastforce
    moreover from this(2) Inr have "map_of (sv_pkgs s) q = None"
      by (auto simp: setPackageTests_def split: option.splits prod.splits if_splits)
    ultimately show ?thesis by auto
  qed
qed auto

lemma captured_known: "mapsOK s \<Longrightarrow> pkg \<in> set (map bin_pkg (capturedTestBinaries s)) \<Longrightarrow> map_of (sv_pkgs s) pkg \<noteq> None"
  using capturedTestBinaries_set by fastforce

text \<open>The process ends only in the build.\<close>

lemma prepareRun_fatal:
  assumes "freshServer [] k s" and "\<forall>bins. set (map fst (listed bins)) \<subseteq> set (map bin_pkg bins)"
    and "prepareRun gt fl now listed s = Inl fatal"
  shows "\<exists>t. buildAllTestBinaries gt fl now t = Inl fatal"
proof (rule ccontr)
  let ?s0 = "setPhase now phaseDiscovering s"
  assume n: "\<nexists>t. buildAllTestBinaries gt fl now t = Inl fatal"
  with assms(3) obtain a b c where p: "resolveQualifiedTests (qualifiedList gt (sv_profile ?s0)) ?s0 = Inr a"
    "learnPackagesWithTests gt now a = (None, b)" "buildAllTestBinaries gt fl now (setPhase now phaseBuilding b) = Inr (None, c)"
    "listAllTests now (listed (capturedTestBinaries c)) (setPhase now phaseListing c) = Inl fatal"
    by (auto simp: prepareRun_def Let_def split: sum.splits prod.splits option.splits if_splits)
  have "freshServer [phaseDiscovering] k ?s0" using freshServer_phase [OF assms(1)] by simp
  from freshServer_build [OF p(3) freshServer_phase [OF freshServer_learn [OF p(2) freshServer_resolve [OF p(1) this]]]]
  have "mapsOK c" by (rule serverOK_maps [OF freshServer_OK])
  from p(4) obtain pkg r where "(pkg, r) \<in> set (listed (capturedTestBinaries c))" "map_of (sv_pkgs c) pkg = None"
    by (auto simp: listAllTests_def setPhase_def split: sum.splits prod.splits if_splits dest!: listLoop_known)
  moreover from this(1) have "pkg \<in> set (map bin_pkg (capturedTestBinaries c))" using assms(2) by force
  ultimately show False using captured_known [OF \<open>mapsOK c\<close>] by blast
qed

lemma runDebug_first:
  assumes "mapsOK s" and "sv_testCache s \<noteq> None" and "sv_debugMisses s = 0"
    and "runAllTests h pf fl lookup now (s\<lparr>sv_debugPass := 1\<rparr>) res outs s1"
  shows "mapsOK s1" and "sv_testCache s1 \<noteq> None" and "sv_debugMisses s1 = 0" and "sv_phaseStarts s1 = sv_phaseStarts s"
    and "tasksOf s1 (capturedTestBinaries s1) = tasksOf s (capturedTestBinaries s)"
proof -
  let ?s = "s\<lparr>sv_debugPass := 1\<rparr>"
  have sh: "shape ?s = shape s" by (simp add: shape_def)
  then have "mapsOK ?s" using assms(1) by (simp add: shape_mapsOK)
  from runAllTests_shape [OF assms(4) this] have same: "sameServerShape ?s s1" .
  then show "mapsOK s1" "sv_testCache s1 \<noteq> None" "sv_debugMisses s1 = 0" "sv_phaseStarts s1 = sv_phaseStarts s"
    using \<open>mapsOK ?s\<close> sameServerShape_same(1) [OF same] assms(2,3) by (simp_all add: sameServerShape_def)
  have "tasksOf ?s bins = tasksOf s bins" for bins by (simp only: shape_tasksOf sh)
  moreover have "capturedTestBinaries ?s = capturedTestBinaries s" by (simp add: shape_captured sh)
  ultimately show "tasksOf s1 (capturedTestBinaries s1) = tasksOf s (capturedTestBinaries s)"
    using sameServerShape_same(2,3) [OF same] by simp
qed

lemma runDebug_returns:
  assumes "mapsOK s" and "sv_testCache s \<noteq> None" and "sv_debugMisses s = 0"
  shows "\<exists>res s'. runDebugUncached h pf w fault fl lookup now s res s'"
proof -
  have "mapsOK (s\<lparr>sv_debugPass := 1\<rparr>)" using assms(1) by (simp add: mapsOK_def)
  then obtain res outs s1 where r: "runAllTests h pf fl lookup now (s\<lparr>sv_debugPass := 1\<rparr>) res outs s1" using runAllTests_ex by blast
  show ?thesis
  proof (cases res)
    case (Some e)
    with r show ?thesis by (blast intro: runDebugUncached.seed_fails)
  next
    case None
    note f = runDebug_first [OF assms r]
    have "mapsOK (resetForSecondPass now s1)" using f(1) by (simp add: shape_mapsOK shape_reset)
    from allTestTasks_returns [OF this, of now] obtain tasks s2 where t: "allTestTasks now (resetForSecondPass now s1) = Some (tasks, s2)" by blast
    from secondPass [OF f(1-3) t refl, of h w fault fl] obtain s3 where "verifyDebugCache h w fault fl now tasks s2 = Some s3" by blast
    from runDebugUncached.second_pass [OF r [unfolded None] t refl this] show ?thesis by blast
  qed
qed

lemma runDebug_verdict:
  fixes s s' h w fault fl
  assumes "mapsOK s" and "sv_testCache s \<noteq> None" and "sv_debugMisses s = 0" and "runDebugUncached h pf w fault fl lookup now s res s'"
  defines "tasks \<equiv> tasksOf s (capturedTestBinaries s)" and "good \<equiv> reusable h w fault fl s'"
  shows "sv_phaseStarts s' = sv_phaseStarts s \<and> ((\<exists>e. res = Some (SeedPass e)) \<or>
      res = (if \<forall>t \<in> set tasks. good t then None
             else Some (NotReused (int (length (filter (\<lambda>t. \<not> good t) tasks))) (int (length tasks)) (int (length (filter good tasks)))))
      \<and> (\<forall>t \<in> set tasks. verified (good t) t s'))"
  using assms(4)
proof cases
  case (seed_fails e outs)
  then show ?thesis using runDebug_first(4) [OF assms(1-3)] by blast
next
  case (second_pass outs s1 ts s2 order)
  note f = runDebug_first [OF assms(1-3) second_pass(2)]
  from secondPass [OF f(1-3) second_pass(3,4), of h w fault fl] second_pass(5)
  have v: "\<forall>t \<in> set tasks. verified (good t) t s'" "sv_cacheChecks s' = int (length tasks)"
    "sv_cacheHits s' = int (length (filter good tasks))" "sv_debugMisses s' = int (length (filter (\<lambda>t. \<not> good t) tasks))"
    "sv_phaseStarts s' = sv_phaseStarts s1"
    unfolding tasks_def good_def f(5) [symmetric] by (metis option.inject)+
  have "filter (\<lambda>t. \<not> good t) tasks = [] \<longleftrightarrow> (\<forall>t \<in> set tasks. good t)" by (simp add: filter_empty_conv)
  then show ?thesis using second_pass(1) v f(4) by (auto simp: debugVerdict_def)
qed

lemma finishRun_facts:
  assumes "finishRun now res s = (flushed, s')"
  shows "sv_phase s' = (if res = None then phaseDone else phaseFailed)"
    and "map fst (sv_phaseStarts s') = map fst (sv_phaseStarts s) @ [sv_phase s']"
    and "reusable h w fault fl s' = reusable h w fault fl s" and "verified b task s' \<longleftrightarrow> verified b task s"
proof -
  have s': "sv_phase s' = (if res = None then phaseDone else phaseFailed)" "sv_phaseStarts s' = sv_phaseStarts s @ [(sv_phase s', now)]"
    "sv_testCache s' = sv_testCache s" "sv_debugSeedErrors s' = sv_debugSeedErrors s" "sv_canceled s' = sv_canceled s"
    "sv_profile s' = sv_profile s" "sv_pkgs s' = sv_pkgs s"
    using assms by (auto simp: finishRun_def flushHistory_def setPhase_def split: if_splits)
  then show "sv_phase s' = (if res = None then phaseDone else phaseFailed)"
    "map fst (sv_phaseStarts s') = map fst (sv_phaseStarts s) @ [sv_phase s']" "verified b task s' \<longleftrightarrow> verified b task s"
    by (simp_all add: verified_def testOf_def)
  show "reusable h w fault fl s' = reusable h w fault fl s" by (rule reusable_cong) (fact s')+
qed

text \<open>What success means at the end of a run that was not only a build.\<close>

definition allReused :: "hashing \<Rightarrow> world \<Rightarrow> string option \<Rightarrow> flags \<Rightarrow> Server \<Rightarrow> testTask list \<Rightarrow> bool" where
  "allReused h w fault fl s tasks = list_all (\<lambda>t. reusable h w fault fl s t \<and> verified True t s) tasks"

section \<open>Properties\<close>

text \<open>
  C12. \<open>-debug-uncached\<close> tells the truth. From a server with consistent maps, a result cache and no misses so far it returns; when
  the first pass fails, with that failure. Otherwise the second pass checks every task once and the run succeeds if and only
  if every task of every captured binary has a result that was seeded cleanly, is found in the cache, and whose recorded inputs are
  unchanged; the failure gives the numbers of misses, checks and hits, and afterwards every test is done and passed, marked as
  cached exactly when it was a hit.
\<close>

theorem debug_uncached_verdict:
  assumes "mapsOK s" and "sv_testCache s \<noteq> None" and "sv_debugMisses s = 0"
  shows "(\<exists>res s'. runDebugUncached h pf w fault fl lookup now s res s')
    \<and> (\<forall>res s'. runDebugUncached h pf w fault fl lookup now s res s' \<longrightarrow>
         (let tasks = tasksOf s (capturedTestBinaries s); good = reusable h w fault fl s'
          in (\<exists>e. res = Some (SeedPass e))
             \<or> res = (if \<forall>t \<in> set tasks. good t then None
                      else Some (NotReused (int (length (filter (\<lambda>t. \<not> good t) tasks))) (int (length tasks)) (int (length (filter good tasks)))))
               \<and> (\<forall>t \<in> set tasks. verified (good t) t s')))"
  using runDebug_returns [OF assms] runDebug_verdict [OF assms] unfolding Let_def by blast

theorem debug_uncached_verdict_witness:
  "\<exists>res s'. runDebugUncached sampleHashing samplePlatform sampleWorld None sampleFlags (\<lambda>ks n. Inr []) 5 sampleServer res s'"
proof -
  have "sv_testCache sampleServer \<noteq> None" "sv_debugMisses sampleServer = 0" by (simp_all add: sampleServer_def)
  from debug_uncached_verdict [OF serverOK_maps [OF sampleServer_OK] this] show ?thesis by blast
qed



text \<open>A module with one package, whose binary is captured and lists one test.\<close>

definition sampleTool :: goTool where
  "sampleTool = \<lparr>gt_run = (\<lambda>args. \<lparr>gr_err = None, gr_stdout = ''/cache'', gr_stderr = [], gr_combined = ''m/p fmt''\<rparr>),
     gt_list = (\<lambda>args. \<lparr>cr_pipeErr = None, cr_startErr = None, cr_out = ([sampleGlp], None), cr_waitErr = None\<rparr>),
     gt_test = (\<lambda>args env. \<lparr>cr_pipeErr = None, cr_startErr = None,
       cr_out = ([EventLine (Inr (TestEvent ''output'' ''m/p'' (''ExecSnarf:{}'' @ [nl]) [])), EventLine (Inr (TestEvent ''pass'' ''m/p'' [] []))], None),
       cr_waitErr = None\<rparr>),
     gt_self = Inr ''/bin/gotst'', gt_environ = [], gt_cacheProg = [], gt_startShim = (\<lambda>cmd direct env. Inr ''/s''), gt_shimClose = None,
     gt_wasCached = (\<lambda>_. False), gt_unmarshal = (\<lambda>_. Inr \<lparr>WorkingDir = ''/m/p'', ExeHash = ''ab12'', Args = []\<rparr>),
     gt_binStat = (\<lambda>_. Inr 3), gt_sources = (\<lambda>_. Inl ''none''), gt_cacheRoot = ''/c''\<rparr>"

definition sampleDefs :: profileDefinitions where
  "sampleDefs = \<lparr>defs_path = [], defs_root = ''/m'', profiles = [(''default'', emptyRaw\<lparr>raw_Packages := [''./...'']\<rparr>)], implicit = True\<rparr>"

definition sampleServerEnv :: serverEnv where
  "sampleServerEnv = \<lparr>nv_root = ''/c'', nv_mkdirAll = (\<lambda>p. None), nv_parseURL = (\<lambda>u. Inl ''invalid''), nv_cacheFiles = [], nv_actions = [],
     nv_newDir = Inr ''/c/pid7-t1''\<rparr>"

definition sampleMain :: "(mainError + Server option) option" where
  "sampleMain = mainServer sampleFlags [] [] False (\<lambda>_. None) (Inr sampleDefs)
     (NewServer sampleFlags 1 sampleServerEnv ''off'')"

definition sampleListing :: "capturedTestBinary list \<Rightarrow> (string \<times> (string + string)) list" where
  "sampleListing bins = map (\<lambda>bin. (bin_pkg bin, Inr ''TestA'')) bins"

definition readyTests :: "string + runStart \<Rightarrow> string list" where
  "readyTests r = (case r of Inr (Ready s) \<Rightarrow> map task_test (tasksOf s (capturedTestBinaries s)) | _ \<Rightarrow> [])"

lemma sampleMain_runs:
  "case sampleMain of
     Some (Inr (Some s)) \<Rightarrow> readyTests (prepareRun sampleTool sampleFlags 2 sampleListing s) = [''TestA''] | _ \<Rightarrow> False"
  by code_simp

lemma sampleMain_ready:
  obtains s s1 where "sampleMain = Some (Inr (Some s))" and "prepareRun sampleTool sampleFlags 2 sampleListing s = Inr (Ready s1)"
proof -
  obtain x where x: "sampleMain = Some x" using sampleMain_runs by (cases sampleMain) simp_all
  note r = sampleMain_runs [unfolded x option.case]
  obtain y where y: "x = Inr y" using r by (cases x) simp_all
  note r' = r [unfolded y sum.case]
  obtain s where s: "y = Some s" using r' by (cases y) simp_all
  then have "readyTests (prepareRun sampleTool sampleFlags 2 sampleListing s) = [''TestA'']" using r' by simp
  then obtain s1 where "prepareRun sampleTool sampleFlags 2 sampleListing s = Inr (Ready s1)"
    by (auto simp: readyTests_def split: sum.splits runStart.splits)
  with that x y s show ?thesis by simp
qed



end
