(* ===== verification/Shim_Process.thy ===== *)
theory Shim_Process
  imports Processes
begin

text \<open>
  The life of the cache shim (\<open>startCacheShim\<close>, \<open>startRunCacheShim\<close>, \<open>close\<close> of \<open>cacheprog.go\<close>): the helper process, the listener and the
  directories it opens, on every path of the code, and the connections of its clients (\<open>runCacheShim\<close>, \<open>reportToolExec\<close>) down to
  the kind byte that \<open>acceptLoop\<close> reads. What a start opens is a list of resources; the operating system is an argument.
\<close>

section \<open>Paths below a directory\<close>

lemma pathJoin_name:
  assumes "pathClean d = d" "pathIsAbs d" "d \<noteq> ''/''" "slash \<notin> set l" "l \<notin> {[], ''.'', ''..''}"
  shows "pathJoin [d, l] = d @ slash # l"
proof -
  have "d \<noteq> []" using assms(2) by (auto simp: pathIsAbs_def)
  have d: "d = slash # Join ''/'' (cleanComps d)" using assms(1,2) by (simp add: pathClean_def)
  then have "cleanComps d \<noteq> []" using assms(3) by auto
  moreover have "pathIsAbs (d @ slash # l)" using assms(2) \<open>d \<noteq> []\<close> by (simp add: pathIsAbs_def)
  ultimately have "pathClean (d @ slash # l) = (slash # Join ''/'' (cleanComps d)) @ slash # l"
    using cleanComps_append [OF \<open>d \<noteq> []\<close> assms(4,5)] by (simp add: pathClean_def Join_snoc)
  then show ?thesis using d \<open>d \<noteq> []\<close> assms(5) by (simp add: pathJoin_def)
qed

lemma pathDir_name: "d \<noteq> [] \<Longrightarrow> slash \<notin> set l \<Longrightarrow> pathDir (d @ slash # l) = d"
  by (simp add: pathDir_def CutLast_Some_iff [THEN iffD2])

definition underPath :: "gopath \<Rightarrow> gopath \<Rightarrow> bool" where
  "underPath d p \<longleftrightarrow> p = d \<or> HasPrefix p (d @ [slash])"

lemma underPath_refl [simp]: "underPath d d"
  by (simp add: underPath_def)

lemma underPath_name [simp]: "underPath d (d @ slash # l)"
  by (simp add: underPath_def HasPrefix_def)

lemma underPath_trans: "underPath d e \<Longrightarrow> underPath e p \<Longrightarrow> underPath d p"
  by (auto simp: underPath_def HasPrefix_iff)

section \<open>Resources\<close>

datatype resource = HelperProc int | UnixListener gopath | TCPListener string | PathAt gopath

text \<open>\<open>os.RemoveAll\<close> and \<open>os.Remove\<close>, and closing a listener: the one of a Unix socket unlinks its file.\<close>

definition removeTree :: "gopath \<Rightarrow> resource list \<Rightarrow> resource list" where
  "removeTree d rs = filter (\<lambda>r. case r of PathAt p \<Rightarrow> \<not> underPath d p | _ \<Rightarrow> True) rs"

definition removePath :: "gopath \<Rightarrow> resource list \<Rightarrow> resource list" where
  "removePath p rs = removeAll (PathAt p) rs"

definition closeListener :: "resource \<Rightarrow> resource list \<Rightarrow> resource list" where
  "closeListener ln rs =
     (case ln of UnixListener p \<Rightarrow> removePath p (removeAll ln rs) | _ \<Rightarrow> removeAll ln rs)"

text \<open>
  What the start of a shim meets: the platform, the start of the helper process and its process ID, \<open>net.Listen\<close> on a Unix path and on a
  TCP address with the address chosen, \<open>os.MkdirAll\<close> and \<open>os.MkdirTemp\<close>.
\<close>

record shimOS =
  so_windows :: bool
  so_exec :: "string list \<Rightarrow> string list \<Rightarrow> string + string + cacheProgResponse"
  so_environ :: "string list"
  so_pid :: int
  so_listenUnix :: "gopath \<Rightarrow> string option"
  so_listenTCP :: "string \<Rightarrow> string + string"
  so_mkdirAll :: "gopath \<Rightarrow> string option"
  so_mkdirTemp :: "string \<Rightarrow> string + gopath"

record shimProcess =
  sp_shim :: cacheShim
  sp_client :: cacheProgClient
  sp_pid :: int
  sp_listener :: resource
  sp_socket :: gopath
  sp_endpoint :: string
  sp_socketDir :: gopath

section \<open>Start and end of a shim\<close>

definition closeDownstream :: "int \<Rightarrow> resource list \<Rightarrow> resource list" where
  "closeDownstream pid rs = removeAll (HelperProc pid) rs"

definition startCacheShim :: "shimOS \<Rightarrow> string \<Rightarrow> gopath \<Rightarrow> bool \<Rightarrow> string list \<Rightarrow> resource list \<Rightarrow> (string + shimProcess) \<times> resource list" where
  "startCacheShim so command socket direct helperEnv rs =
     (case startCacheProgClient (so_exec so) (so_environ so) command helperEnv of
        Inl e \<Rightarrow> (Inl e, rs)
      | Inr client \<Rightarrow>
          (let rs1 = removePath socket (HelperProc (so_pid so) # rs)
           in case so_listenUnix so socket of
                Some e \<Rightarrow> (Inl e, closeDownstream (so_pid so) rs1)
              | None \<Rightarrow>
                  (let ln = UnixListener socket; rs2 = ln # PathAt socket # rs1;
                       execDir = pathJoin [pathDir socket, ''cache-executables'']
                   in case so_mkdirAll so execDir of
                        Some e \<Rightarrow> (Inl e, closeDownstream (so_pid so) (closeListener ln rs2))
                      | None \<Rightarrow>
                          (Inr \<lparr>sp_shim = newShim direct (cc_can client) execDir, sp_client = client, sp_pid = so_pid so, sp_listener = ln,
                                sp_socket = socket, sp_endpoint = socket, sp_socketDir = []\<rparr>,
                           PathAt execDir # rs2))))"

definition startRunCacheShim :: "shimOS \<Rightarrow> string \<Rightarrow> bool \<Rightarrow> string list \<Rightarrow> resource list \<Rightarrow> (string + shimProcess) \<times> resource list" where
  "startRunCacheShim so command direct helperEnv rs =
     (if so_windows so
      then case startCacheProgClient (so_exec so) (so_environ so) command helperEnv of
             Inl e \<Rightarrow> (Inl e, rs)
           | Inr client \<Rightarrow>
               (let rs1 = HelperProc (so_pid so) # rs
                in case so_listenTCP so ''127.0.0.1:0'' of
                     Inl e \<Rightarrow> (Inl e, closeDownstream (so_pid so) rs1)
                   | Inr addr \<Rightarrow>
                       (let ln = TCPListener addr; rs2 = ln # rs1
                        in case so_mkdirTemp so ''gotst-cache-executables-'' of
                             Inl e \<Rightarrow> (Inl e, closeDownstream (so_pid so) (closeListener ln rs2))
                           | Inr execDir \<Rightarrow>
                               (Inr \<lparr>sp_shim = newShim direct (cc_can client) execDir, sp_client = client, sp_pid = so_pid so,
                                     sp_listener = ln, sp_socket = [], sp_endpoint = ''tcp:'' @ addr, sp_socketDir = execDir\<rparr>,
                                PathAt execDir # rs2)))
      else case so_mkdirTemp so ''gotst-cache-socket-'' of
             Inl e \<Rightarrow> (Inl e, rs)
           | Inr dir \<Rightarrow>
               (case startCacheShim so command (pathJoin [dir, ''cache.sock'']) direct helperEnv (PathAt dir # rs) of
                  (Inl e, rs1) \<Rightarrow> (Inl e, removeTree dir rs1)
                | (Inr sp, rs1) \<Rightarrow> (Inr (sp\<lparr>sp_socketDir := dir\<rparr>), rs1)))"

text \<open>\<open>close\<close>, from the errors that the helper's \<open>close\<close> request and its process end with.\<close>

definition shimClose :: "string option \<Rightarrow> string option \<Rightarrow> shimProcess \<Rightarrow> resource list \<Rightarrow> string option \<times> resource list" where
  "shimClose sendErr waitErr sp rs =
     (let rs1 = closeListener (sp_listener sp) rs;
          rs2 = (if sp_socket sp \<noteq> [] then removePath (sp_socket sp) rs1 else rs1);
          rs3 = (if sp_socketDir sp \<noteq> [] then removeTree (sp_socketDir sp) rs2 else rs2)
      in (clientClose (sp_client sp) sendErr waitErr, closeDownstream (sp_pid sp) rs3))"

section \<open>Connections to the shim\<close>

abbreviation cacheConnCmdGo :: char where "cacheConnCmdGo \<equiv> CHR ''C''"
abbreviation cacheConnRegister :: char where "cacheConnRegister \<equiv> CHR ''R''"
abbreviation cacheConnVerified :: char where "cacheConnVerified \<equiv> CHR ''V''"
abbreviation cacheConnToolExec :: char where "cacheConnToolExec \<equiv> CHR ''T''"

text \<open>JSON of the messages: the decoders of the four kinds, and the encoder of an event.\<close>

record shimCodec =
  sx_requests :: "string \<Rightarrow> cacheProgRequest list"
  sx_verified :: "string \<Rightarrow> gopath option"
  sx_toolExec :: "string \<Rightarrow> toolExecEvent option"
  sx_register :: "string \<Rightarrow> executableRegistration option"
  sx_encode :: "toolExecEvent \<Rightarrow> string"

definition connMessageOf :: "shimCodec \<Rightarrow> string \<Rightarrow> connMessage" where
  "connMessageOf sx bytes =
     (case bytes of
        [] \<Rightarrow> ConnEOF
      | kind # rest \<Rightarrow>
          if kind = cacheConnCmdGo then ConnCmdGo (sx_requests sx rest)
          else if kind = cacheConnVerified then ConnVerified (sx_verified sx rest)
          else if kind = cacheConnToolExec then ConnToolExec (sx_toolExec sx rest)
          else if kind \<noteq> cacheConnRegister then ConnUnknown
          else ConnRegister (sx_register sx rest))"

text \<open>
  The process that cmd/go starts: \<open>dial\<close> gives the error of dialling, \<open>writeErr\<close> that of the first write, \<open>copyErr\<close> that of copying to
  the standard output, and \<open>peer\<close> what the other side answers. The result has the error, the bytes sent and the standard output.
\<close>

definition runCacheShim :: "string \<Rightarrow> (string \<times> string \<Rightarrow> string option) \<Rightarrow> string option \<Rightarrow> string option \<Rightarrow> (string \<Rightarrow> string) \<Rightarrow> string
    \<Rightarrow> string option \<times> string \<times> string" where
  "runCacheShim socket dial writeErr copyErr peer stdin =
     (if socket = [] then (Some ''missing cache shim socket'', [], [])
      else case dial (dialCacheEndpoint socket) of
             Some e \<Rightarrow> (Some e, [], [])
           | None \<Rightarrow>
               (case writeErr of
                  Some e \<Rightarrow> (Some e, [], [])
                | None \<Rightarrow> (let sent = cacheConnCmdGo # stdin in (copyErr, sent, peer sent))))"

definition reportToolExec :: "shimCodec \<Rightarrow> string \<Rightarrow> (string \<times> string \<Rightarrow> string option) \<Rightarrow> string option \<Rightarrow> toolExecEvent \<Rightarrow> string" where
  "reportToolExec sx socket dial writeErr ev =
     (if dial (dialCacheEndpoint socket) \<noteq> None \<or> writeErr \<noteq> None then [] else cacheConnToolExec # sx_encode sx ev)"

section \<open>Nothing leaks\<close>

text \<open>
  \<open>os.MkdirTemp\<close> makes a new directory: its name is a clean absolute path below the root, and nothing is below it. The process ID and the
  addresses of a start are new as well.
\<close>

definition freshStart :: "shimOS \<Rightarrow> resource list \<Rightarrow> bool" where
  "freshStart so rs \<longleftrightarrow> HelperProc (so_pid so) \<notin> set rs
     \<and> (\<forall>p addr. so_listenTCP so p = Inr addr \<longrightarrow> TCPListener addr \<notin> set rs)
     \<and> (\<forall>pat d. so_mkdirTemp so pat = Inr d \<longrightarrow> pathClean d = d \<and> pathIsAbs d \<and> d \<noteq> ''/''
          \<and> (\<forall>p. PathAt p \<in> set rs \<or> UnixListener p \<in> set rs \<longrightarrow> \<not> underPath d p))"

lemma removeTree_set: "set (removeTree d rs) = set rs - {PathAt p | p. underPath d p}"
proof (rule set_eqI)
  show "r \<in> set (removeTree d rs) \<longleftrightarrow> r \<in> set rs - {PathAt p | p. underPath d p}" for r
    by (cases r) (auto simp: removeTree_def)
qed

lemma closeListener_set:
  "set (closeListener (UnixListener p) rs) = set rs - {UnixListener p, PathAt p}"
  "set (closeListener (TCPListener a) rs) = set rs - {TCPListener a}"
  by (auto simp: closeListener_def removePath_def)

lemmas resource_sets = removeTree_set closeListener_set closeDownstream_def removePath_def

text \<open>The listener that the endpoint of a shim leads to.\<close>

definition dialTarget :: "string \<times> string \<Rightarrow> resource" where
  "dialTarget na = (if fst na = ''tcp'' then TCPListener (snd na) else UnixListener (snd na))"

lemma dial_absolute: "pathIsAbs p \<Longrightarrow> dialTarget (dialCacheEndpoint p) = UnixListener p"
  by (auto simp: dialCacheEndpoint_def dialTarget_def CutPrefix_def HasPrefix_iff pathIsAbs_def split: option.splits)

lemma dial_tcp: "dialTarget (dialCacheEndpoint (''tcp:'' @ addr)) = TCPListener addr"
  by (simp add: dialCacheEndpoint_def dialTarget_def CutPrefix_def HasPrefix_def)

text \<open>What a started shim owns: its process, its listener, and everything below its directory.\<close>

definition ownedBy :: "shimProcess \<Rightarrow> resource set" where
  "ownedBy sp = {HelperProc (sp_pid sp), sp_listener sp} \<union> {PathAt p | p. underPath (sp_socketDir sp) p}"

definition startedOK :: "resource list \<Rightarrow> shimProcess \<Rightarrow> resource list \<Rightarrow> bool" where
  "startedOK rs sp rs' \<longleftrightarrow> set rs' - ownedBy sp = set rs
     \<and> {HelperProc (sp_pid sp), sp_listener sp, PathAt (sh_execDir (sp_shim sp))} \<subseteq> set rs'
     \<and> dialTarget (dialCacheEndpoint (sp_endpoint sp)) = sp_listener sp \<and> sp_endpoint sp \<noteq> []
     \<and> sp_socketDir sp \<noteq> [] \<and> underPath (sp_socketDir sp) (sh_execDir (sp_shim sp))
     \<and> (sp_listener sp = UnixListener (sp_socket sp) \<and> underPath (sp_socketDir sp) (sp_socket sp)
        \<or> (\<exists>a. sp_listener sp = TCPListener a) \<and> sp_socket sp = [])"

lemma startWindows:
  assumes "freshStart so rs" "so_windows so" "startRunCacheShim so command direct env rs = (res, rs')"
  shows "case res of Inl e \<Rightarrow> set rs' = set rs | Inr sp \<Rightarrow> startedOK rs sp rs'"
proof (cases "startCacheProgClient (so_exec so) (so_environ so) command env")
  case (Inl e)
  then show ?thesis using assms by (auto simp: startRunCacheShim_def)
next
  case client: (Inr client)
  have pid: "HelperProc (so_pid so) \<notin> set rs" using assms(1) by (simp add: freshStart_def)
  show ?thesis
  proof (cases "so_listenTCP so ''127.0.0.1:0''")
    case (Inl e)
    then show ?thesis using assms(2,3) client pid by (auto simp: startRunCacheShim_def Let_def resource_sets)
  next
    case addr: (Inr addr)
    have ln: "TCPListener addr \<notin> set rs" using assms(1) addr unfolding freshStart_def by blast
    show ?thesis
    proof (cases "so_mkdirTemp so ''gotst-cache-executables-''")
      case (Inl e)
      then show ?thesis using assms(2,3) client addr pid ln by (auto simp: startRunCacheShim_def Let_def resource_sets)
    next
      case (Inr d)
      have d: "d \<noteq> []" "\<forall>p. PathAt p \<in> set rs \<longrightarrow> \<not> underPath d p"
        using assms(1) Inr unfolding freshStart_def pathIsAbs_def by blast+
      show ?thesis using assms(2,3) client addr Inr pid ln d
        by (auto simp: startRunCacheShim_def Let_def startedOK_def ownedBy_def dial_tcp [simplified] newShim_def)
    qed
  qed
qed

text \<open>On Unix all paths of the shim are below the new directory.\<close>

lemma shimPaths:
  assumes "pathClean d = d" "pathIsAbs d" "d \<noteq> ''/''"
  shows "pathJoin [d, ''cache.sock''] = d @ slash # ''cache.sock''"
    and "pathJoin [pathDir (d @ slash # ''cache.sock''), ''cache-executables''] = d @ slash # ''cache-executables''"
    and "pathIsAbs (d @ slash # l)" and "d \<noteq> []"
proof -
  show "d \<noteq> []" using assms(2) by (auto simp: pathIsAbs_def)
  then show "pathIsAbs (d @ slash # l)" using assms(2) by (simp add: pathIsAbs_def)
  show "pathJoin [d, ''cache.sock''] = d @ slash # ''cache.sock''" by (rule pathJoin_name [OF assms]) simp_all
  have "pathDir (d @ slash # ''cache.sock'') = d" by (rule pathDir_name) (use \<open>d \<noteq> []\<close> in simp_all)
  then show "pathJoin [pathDir (d @ slash # ''cache.sock''), ''cache-executables''] = d @ slash # ''cache-executables''"
    using pathJoin_name [OF assms, of "''cache-executables''"] by simp
qed

lemma startUnix:
  assumes "freshStart so rs" "\<not> so_windows so" "startRunCacheShim so command direct env rs = (res, rs')"
  shows "case res of Inl e \<Rightarrow> set rs' = set rs | Inr sp \<Rightarrow> startedOK rs sp rs'"
proof (cases "so_mkdirTemp so ''gotst-cache-socket-''")
  case (Inl e)
  then show ?thesis using assms(2,3) by (auto simp: startRunCacheShim_def)
next
  case temp: (Inr d)
  have pid: "HelperProc (so_pid so) \<notin> set rs" using assms(1) by (simp add: freshStart_def)
  have clean: "pathClean d = d" "pathIsAbs d" "d \<noteq> ''/''"
    and new: "\<forall>p. PathAt p \<in> set rs \<or> UnixListener p \<in> set rs \<longrightarrow> \<not> underPath d p"
    using assms(1) temp unfolding freshStart_def by blast+
  let ?sock = "d @ slash # ''cache.sock''" and ?exec = "d @ slash # ''cache-executables''"
  have paths: "pathJoin [d, ''cache.sock''] = ?sock" "pathJoin [pathDir ?sock, ''cache-executables''] = ?exec" "d \<noteq> []"
    using shimPaths [OF clean] by blast+
  have outside: "PathAt p \<notin> set rs" "UnixListener p \<notin> set rs" if "underPath d p" for p using new that by blast+
  note gone = outside [OF underPath_refl] outside [OF underPath_name [of d "''cache.sock''"]] outside [OF underPath_name [of d "''cache-executables''"]]
  note start = startRunCacheShim_def startCacheShim_def Let_def paths(1,2)
  show ?thesis
  proof (cases "startCacheProgClient (so_exec so) (so_environ so) command env")
    case (Inl e)
    then show ?thesis using assms(2,3) temp outside by (auto simp: start resource_sets)
  next
    case client: (Inr client)
    show ?thesis
    proof (cases "so_listenUnix so ?sock")
      case (Some e)
      then show ?thesis using assms(2,3) temp client pid outside by (auto simp: start resource_sets)
    next
      case listen: None
      show ?thesis
      proof (cases "so_mkdirAll so ?exec")
        case (Some e)
        then show ?thesis using assms(2,3) temp client listen pid outside gone by (auto simp: start resource_sets)
      next
        case None
        have "dialTarget (dialCacheEndpoint ?sock) = UnixListener ?sock" by (rule dial_absolute [OF shimPaths(3) [OF clean]])
        then show ?thesis using assms(2,3) temp client listen None pid outside gone paths(3)
          by (auto simp: start resource_sets startedOK_def ownedBy_def newShim_def)
      qed
    qed
  qed
qed

lemma shimClose_releases:
  assumes "startedOK rs sp rs'"
  shows "set (snd (shimClose sendErr waitErr sp xs)) = set xs - ownedBy sp"
  using assms
  by (auto simp: startedOK_def shimClose_def Let_def resource_sets ownedBy_def)


definition unixOS :: "string option \<Rightarrow> shimOS" where
  "unixOS mkdirErr =
     \<lparr>so_windows = False,
      so_exec = (\<lambda>args e. Inr (Inr (zeroResponse\<lparr>res_KnownCommands := [CmdGet, CmdPut, CmdClose]\<rparr>))),
      so_environ = [], so_pid = 7, so_listenUnix = (\<lambda>p. None), so_listenTCP = (\<lambda>a. Inl ''refused''), so_mkdirAll = (\<lambda>p. mkdirErr),
      so_mkdirTemp = (\<lambda>pat. Inr ''/tmp/x'')\<rparr>"

lemma unixOS_fresh: "freshStart (unixOS e) [PathAt ''/tmp'']"
  by (simp add: freshStart_def unixOS_def underPath_def HasPrefix_def) code_simp


end
