(* ===== verification/Tailcat.thy ===== *)
theory Tailcat
  imports Go_Strings
begin

text \<open>
  The tailcat transport (\<open>tailcatstatus.go\<close>, \<open>startTailcatWorkers\<close> and \<open>runHelper\<close> of \<open>worker.go\<close>): the ports served, the key file, the
  order of the checks before a helper connects, and the listener that turns the callback of the tailcat server into \<open>net.Listener\<close>. The tailcat server and
  client are parameters.
\<close>

section \<open>Servers\<close>

text \<open>
  A server as it is configured: the ports it serves, which its callback \<open>OnTCP\<close> accepts, and the key. \<open>start\<close> gives the error of \<open>Start\<close> or the address.
\<close>

record tailcatKey =
  tk_Private :: string
  tk_PresharedKey :: string
  tk_RegionID :: int

record tailcatServer =
  ts_ports :: "(int \<times> int) list"
  ts_onTCP :: "int \<Rightarrow> bool"
  ts_key :: "tailcatKey option"


definition workerPort :: int where "workerPort = 5526"

definition tailcatStatusServer :: tailcatServer where
  "tailcatStatusServer = \<lparr>ts_ports = [(80, 80)], ts_onTCP = (\<lambda>port. \<not> port \<noteq> 80), ts_key = None\<rparr>"

definition startTailcatStatus :: "(tailcatServer \<Rightarrow> string + string) \<Rightarrow> string + string" where
  "startTailcatStatus start = start tailcatStatusServer"

definition tailcatWorkerServer :: tailcatServer where
  "tailcatWorkerServer = \<lparr>ts_ports = [(workerPort, workerPort)], ts_onTCP = (\<lambda>port. \<not> port \<noteq> workerPort), ts_key = None\<rparr>"

text \<open>\<open>readFile\<close> and \<open>unmarshal\<close> are \<open>os.ReadFile\<close> and \<open>json.Unmarshal\<close> of a key; a key is zero when all its bytes are.\<close>

definition startTailcatWorkers :: "(string \<Rightarrow> string + string) \<Rightarrow> (string \<Rightarrow> string + tailcatKey) \<Rightarrow> (tailcatServer \<Rightarrow> string + string) \<Rightarrow> string
    \<Rightarrow> string + string" where
  "startTailcatWorkers readFile unmarshal start keyFile =
     (if keyFile = [] then start tailcatWorkerServer
      else case readFile keyFile of
             Inl e \<Rightarrow> Inl e
           | Inr j \<Rightarrow>
               (case unmarshal j of
                  Inl e \<Rightarrow> Inl (''parsing '' @ keyFile @ '': '' @ e)
                | Inr k \<Rightarrow>
                    if list_all (\<lambda>c. c = CHR 0x00) (tk_Private k) then Inl (keyFile @ '' has no private key'')
                    else start (tailcatWorkerServer\<lparr>ts_key := Some k\<rparr>)))"

text \<open>\<open>dial\<close> is the result of dialling the leader's worker port, and \<open>work\<close> that of \<open>runWorkerConnection\<close> under a name.\<close>

definition runHelper :: "(string \<Rightarrow> string option) \<Rightarrow> (string \<Rightarrow> int \<Rightarrow> string option) \<Rightarrow> string \<Rightarrow> (string \<Rightarrow> string option) \<Rightarrow> string \<Rightarrow> string \<Rightarrow> string option" where
  "runHelper parseAddr dial hostname work addr name =
     (case parseAddr addr of
        Some e \<Rightarrow> Some (''invalid leader address: '' @ e)
      | None \<Rightarrow>
          (case dial addr workerPort of
             Some e \<Rightarrow> Some (''connecting to leader: '' @ e)
           | None \<Rightarrow> work (if name = [] then hostname else name)))"

section \<open>The listener\<close>

text \<open>
  \<open>connListener\<close> with the calls under way: \<open>ls_delivering\<close> are the connections whose \<open>deliver\<close> waits, \<open>ls_accepting\<close> counts the waiting calls of
  \<open>Accept\<close>, \<open>ls_accepted\<close> and \<open>ls_dropped\<close> are the connections returned and closed, and \<open>ls_errs\<close> counts the results \<open>net.ErrClosed\<close>. The channel
  \<open>conns\<close> has no buffer, so a send and a receive happen together.
\<close>

record connListener =
  ls_closed :: bool
  ls_delivering :: "nat list"
  ls_accepting :: nat
  ls_accepted :: "nat list"
  ls_dropped :: "nat list"
  ls_errs :: nat

definition newListener :: connListener where
  "newListener = \<lparr>ls_closed = False, ls_delivering = [], ls_accepting = 0, ls_accepted = [], ls_dropped = [], ls_errs = 0\<rparr>"

definition listenerClose :: "connListener \<Rightarrow> connListener" where
  "listenerClose l = (if ls_closed l then l else l\<lparr>ls_closed := True\<rparr>)"

inductive listener_step :: "connListener \<Rightarrow> connListener \<Rightarrow> bool" where
  deliver: "c \<notin> set (ls_delivering l @ ls_accepted l @ ls_dropped l) \<Longrightarrow> listener_step l (l\<lparr>ls_delivering := c # ls_delivering l\<rparr>)"
| accept: "listener_step l (l\<lparr>ls_accepting := Suc (ls_accepting l)\<rparr>)"
| handed_over: "c \<in> set (ls_delivering l) \<Longrightarrow> ls_accepting l = Suc n \<Longrightarrow>
    listener_step l (l\<lparr>ls_delivering := removeAll c (ls_delivering l), ls_accepting := n, ls_accepted := ls_accepted l @ [c]\<rparr>)"
| deliver_closed: "c \<in> set (ls_delivering l) \<Longrightarrow> ls_closed l \<Longrightarrow>
    listener_step l (l\<lparr>ls_delivering := removeAll c (ls_delivering l), ls_dropped := ls_dropped l @ [c]\<rparr>)"
| accept_closed: "ls_closed l \<Longrightarrow> ls_accepting l = Suc n \<Longrightarrow> listener_step l (l\<lparr>ls_accepting := n, ls_errs := Suc (ls_errs l)\<rparr>)"
| close_called: "listener_step l (listenerClose l)"

abbreviation listener_reach :: "connListener \<Rightarrow> bool" where
  "listener_reach \<equiv> reach (\<lambda>l. l = newListener) listener_step"

definition listenerOK :: "connListener \<Rightarrow> bool" where
  "listenerOK l \<longleftrightarrow> distinct (ls_delivering l @ ls_accepted l @ ls_dropped l) \<and> (\<not> ls_closed l \<longrightarrow> ls_dropped l = [] \<and> ls_errs l = 0)"

interpretation listener: invariant_system "\<lambda>l. l = newListener" listener_step listenerOK
proof unfold_locales
  show "listenerOK l" if "l = newListener" for l using that by (simp add: listenerOK_def newListener_def)
  show "listenerOK l'" if "listenerOK l" "listener_step l l'" for l l'
    using that(2,1) by (induction rule: listener_step.induct) (auto simp: listenerOK_def listenerClose_def distinct_removeAll)
qed

text \<open>The calls that wait, and that a closed listener lets every one of them return.\<close>

definition waiting :: "connListener \<Rightarrow> nat" where
  "waiting l = length (ls_delivering l) + ls_accepting l"

lemma closed_step:
  assumes "ls_closed l" "waiting l \<noteq> 0"
  obtains l' where "listener_step l l'" "ls_closed l'" "waiting l' < waiting l" "ls_accepted l' = ls_accepted l"
proof (cases "ls_delivering l")
  case (Cons c cs)
  then have "listener_step l (l\<lparr>ls_delivering := removeAll c (ls_delivering l), ls_dropped := ls_dropped l @ [c]\<rparr>)"
    by (intro deliver_closed) (simp_all add: assms(1))
  moreover have "length (removeAll c (ls_delivering l)) < length (ls_delivering l)" using Cons by (intro length_removeAll_less) simp
  ultimately show ?thesis using that assms(1) by (simp add: waiting_def)
next
  case Nil
  then obtain n where "ls_accepting l = Suc n" using assms(2) by (cases "ls_accepting l") (simp_all add: waiting_def)
  with accept_closed [OF assms(1) this] that assms(1) show ?thesis by (simp add: waiting_def)
qed

lemma closed_listener_drains: "ls_closed l \<Longrightarrow> \<exists>l'. listener_step\<^sup>*\<^sup>* l l' \<and> waiting l' = 0 \<and> ls_accepted l' = ls_accepted l"
proof (induction "waiting l" arbitrary: l rule: less_induct)
  case less
  show ?case
  proof (cases "waiting l = 0")
    case False
    then obtain l1 where l1: "listener_step l l1" "ls_closed l1" "waiting l1 < waiting l" "ls_accepted l1 = ls_accepted l"
      by (rule closed_step [OF less.prems])
    with less.hyps obtain l' where "listener_step\<^sup>*\<^sup>* l1 l'" "waiting l' = 0" "ls_accepted l' = ls_accepted l1" by blast
    with l1 show ?thesis by (metis converse_rtranclp_into_rtranclp)
  qed blast
qed

text \<open>
  The listener neither loses nor duplicates a connection: under every interleaving each connection delivered is waiting, was
  returned by one call of \<open>Accept\<close>, or was closed, and only one of these; before \<open>Close\<close> none is closed and no \<open>Accept\<close> fails; closing again changes
  nothing; and after \<open>Close\<close> every waiting call can return, without another connection being accepted.
\<close>

theorem listener_hands_over_once:
  assumes "listener_reach l"
  shows "distinct (ls_delivering l @ ls_accepted l @ ls_dropped l) \<and> (\<not> ls_closed l \<longrightarrow> ls_dropped l = [] \<and> ls_errs l = 0)
    \<and> listenerClose (listenerClose l) = listenerClose l
    \<and> (\<exists>l'. listener_step\<^sup>*\<^sup>* (listenerClose l) l' \<and> waiting l' = 0 \<and> ls_accepted l' = ls_accepted l)"
proof -
  have "ls_closed (listenerClose l)" "ls_accepted (listenerClose l) = ls_accepted l" by (simp_all add: listenerClose_def)
  moreover have "listenerClose (listenerClose l) = listenerClose l" by (simp add: listenerClose_def)
  ultimately show ?thesis
    using listener.reach_inv [OF assms] closed_listener_drains [of "listenerClose l"] unfolding listenerOK_def by simp
qed

text \<open>
  The port a server serves is the port its callback takes, a helper dials the port of the leader's server, and a leader with a key file
  starts only with a key that is not zero.
\<close>

lemma tailcat_ports:
  "ts_onTCP tailcatStatusServer port \<longleftrightarrow> (\<exists>(a, b) \<in> set (ts_ports tailcatStatusServer). a \<le> port \<and> port \<le> b)"
  "ts_onTCP tailcatWorkerServer port \<longleftrightarrow> (\<exists>(a, b) \<in> set (ts_ports tailcatWorkerServer). a \<le> port \<and> port \<le> b)"
  by (auto simp: tailcatStatusServer_def tailcatWorkerServer_def)

lemma runHelper_reaches_leader:
  "runHelper parseAddr dial hostname work addr name = None \<Longrightarrow> \<exists>port. dial addr port = None \<and> ts_onTCP tailcatWorkerServer port"
  by (auto simp: runHelper_def tailcatWorkerServer_def split: option.splits)

lemma startTailcatWorkers_key:
  assumes "startTailcatWorkers readFile unmarshal start keyFile = Inr addr"
  shows "\<exists>srv. start srv = Inr addr \<and> (keyFile = [] \<longleftrightarrow> ts_key srv = None) \<and> (\<forall>k. ts_key srv = Some k \<longrightarrow> (\<exists>c \<in> set (tk_Private k). c \<noteq> CHR 0x00))"
proof (cases "keyFile = []")
  case True
  then show ?thesis using assms by (intro exI [of _ tailcatWorkerServer]) (simp add: startTailcatWorkers_def tailcatWorkerServer_def)
next
  case False
  then obtain j k where k: "readFile keyFile = Inr j" "unmarshal j = Inr k" "\<not> list_all (\<lambda>c. c = CHR 0x00) (tk_Private k)"
    "start (tailcatWorkerServer\<lparr>ts_key := Some k\<rparr>) = Inr addr"
    using assms by (auto simp: startTailcatWorkers_def split: sum.splits if_splits)
  then show ?thesis using False by (intro exI [of _ "tailcatWorkerServer\<lparr>ts_key := Some k\<rparr>"]) (simp add: list_all_iff)
qed

end
