(* ===== verification/Spec2Isabelle.thy ===== *)
theory Spec2Isabelle
  imports Worker_Loop Live_Clients History_Service Full_Run Shim_Process Tailcat
begin

text \<open>
  \<^bold>\<open>Verification library of gotst, a test runner for Go.\<close>

  \<^bold>\<open>The program.\<close> gotst resolves a profile and the tests asked for (\<open>profile.go\<close>, \<open>invocation.go\<close>), lets cmd/go build all
  test binaries in one run, captures them, lists their tests and runs every test as a process of its own
  (\<open>gotst.go\<close>). A cache shim between cmd/go and the build cache (\<open>cacheprog.go\<close>, \<open>localcache.go\<close>) adds the linked
  executables to the cache. Passing results are kept with the files and variables the test read (\<open>testcache.go\<close>);
  durations and outcomes go to a history store on disk or behind HTTP (\<open>history.go\<close>, served by
  \<open>cmd/testhistoryd\<close>), from which the schedule and the estimate of the remaining time are made (\<open>progress.go\<close>). A
  run can be distributed: a leader leases tests to helpers over connections (\<open>distributed.go\<close>, \<open>worker.go\<close>) and
  reports what each did (\<open>summary.go\<close>).

  \<^bold>\<open>Theories, in the order of their imports.\<close>
  \<^item> \<open>Gotst_Prelude\<close>: Go's maps as association lists (\<open>gomap\<close>), durations and times, truncating division, comparison
    functions (the locale \<open>go_compare\<close>) and stable sorting, invariants of transition systems (the locale \<open>invariant_system\<close>).
  \<^item> \<open>Go_Strings\<close>, \<open>Go_Paths\<close>, \<open>Go_Float\<close>, \<open>Sha256\<close>: the parts of Go's library the sources use: strings as byte lists, quoting,
    runes, paths, binary64 rounding and formatting, and SHA-256.
  \<^item> \<open>Profile\<close> (\<open>profile.go\<close>), \<open>Invocation\<close> (\<open>invocation.go\<close>), \<open>Test_Args\<close> (flags, argument lists and output scanners of \<open>gotst.go\<close>).
    Memoised profile resolution equals the recursive meaning of profiles and returns on cycles; an attempt selects one test.
  \<^item> \<open>Test_Cache\<close> (\<open>testcache.go\<close>): keys, the test log, fingerprints, the disk cache. Recorded dependencies validate where
    they were recorded, and validate elsewhere only if both worlds agree on every recorded input.
  \<^item> \<open>History\<close> (\<open>history.go\<close>, \<open>history/history.go\<close>): keys, the disk store and the HTTP client. The interface
    \<open>history.Store\<close> is the pair of locales \<open>history_lookup\<close> and \<open>history_store\<close>, interpreted by the stores.
  \<^item> \<open>History_Service\<close> (\<open>cmd/testhistoryd\<close>): the PostgreSQL store over tables as maps and the HTTP handlers.
  \<^item> \<open>Server\<close> (run state of \<open>gotst.go\<close>), \<open>Schedule\<close> (order and estimates of \<open>history.go\<close>), \<open>Run_Test\<close> (one test with cache, repetitions and
    retries). The verdict of a test, what is cached and what is recorded are stated on every branch.
  \<^item> \<open>Test_Pool\<close> (\<open>runAllTests\<close> of \<open>gotst.go\<close> without helpers): feeder, workers and collector as a transition system with its
    invariant \<open>poolOK\<close>; the result of a run is exact, and every interleaving ends.
  \<^item> \<open>Fleet\<close>, \<open>Fleet_Steps\<close>, \<open>Fleet_Run\<close> (\<open>distributed.go\<close>): the leader as a transition system with its invariant \<open>fleetOK\<close>;
    \<open>Worker_Conn\<close>, \<open>Worker_Loop\<close> (\<open>worker.go\<close>): the handshake, the rounds of a connection and the helper's loop.
  \<^item> \<open>Build_Cache\<close> (\<open>localcache.go\<close>), \<open>Cache_Client\<close> and \<open>Cache_Shim\<close> (\<open>cacheprog.go\<close>): the local build cache, the multiplexing
    protocol client with interleaved calls, and the shim.
  \<^item> \<open>Shim_Process\<close> (\<open>startRunCacheShim\<close>, \<open>close\<close>, \<open>runCacheShim\<close> of \<open>cacheprog.go\<close>): start and end of a shim with the process, listener and
    directories it owns; no path leaks any of them.
  \<^item> \<open>Processes\<close> (\<open>cache.go\<close>, \<open>util.go\<close>, \<open>toolexec.go\<close>, \<open>storeTestExecBinary\<close>): directories of runs, the search for the go command, and
    the wrappers; \<open>Build_Run\<close>: discovery and build with the arguments and the environment of cmd/go, and the helper's builder, with the
    well-formedness \<open>freshServer\<close> that every step keeps.
  \<^item> \<open>Full_Run\<close> (\<open>main\<close>, \<open>NewServer\<close>, \<open>Run\<close>, \<open>runDebugUncached\<close>): the composition of the above from the flags to the last phase; the
    end-to-end properties rest on the pool, the build and the checks of the flags.
  \<^item> \<open>Progress\<close> (\<open>progress.go\<close>), \<open>Fleet_Summary\<close> (\<open>summary.go\<close> and \<open>workerDataLocked\<close>): snapshots, the estimate of the remaining time, and reports.
  \<^item> \<open>Go_Utf8\<close>, \<open>Status_Page\<close> (\<open>web.go\<close>): UTF-8 with decoding as the inverse of encoding; the data of the status page, the patches
    that keep a browser's copy equal to the last page, the bounded failure output and the listening addresses.
  \<^item> \<open>Tailcat\<close> (\<open>tailcatstatus.go\<close>, \<open>startTailcatWorkers\<close>, \<open>runHelper\<close>): ports and keys of the tailcat servers, and the listener
    between their callback and the HTTP server, which hands over every connection once.
  \<^item> \<open>Live_Clients\<close> (\<open>serveLiveWS\<close>, \<open>flushFinalLiveStatus\<close> of \<open>web.go\<close>): all browsers together as a transition system with its
    invariant \<open>hubOK\<close>; the final flush leaves the acknowledged last page in every browser that answers, and returns in time.

  \<^bold>\<open>Conventions.\<close> A struct is a record whose fields carry a prefix, an operation takes the state and returns the new
  one, an error is a value of \<open>string option\<close> or \<open>string + 'a\<close>. A function whose result is \<open>None\<close> where the code's type has no error
  models a panic. A duration is a number of nanoseconds and a time the nanoseconds since the zero time; both
  are integers, and the clock is an argument of every call that reads it. Lease IDs are \<open>uint64\<close> in the code;
  the properties of the fleet assume fewer than \<open>2 ^ 64\<close> leases. Pointers to tasks, workers and leases are positions in lists
  or keys of a heap. An operation under \<open>Server.mu\<close> is one step; calls of the cache client and the shim are
  cut where they release their locks, so their steps interleave. Loops are structural recursions or have a
  termination proof; the retry loop of \<open>runTest\<close> is a \<open>partial_function\<close> and is proved to return.

  \<^bold>\<open>Parameters.\<close> What lies outside the sources is an argument: processes (tests, cmd/go, the cache helper),
  files and their faults (\<open>osFaults\<close>, \<open>world\<close>), hash functions and JSON (\<open>hashing\<close>), the transport, the database server (\<open>pgServer\<close>). Hypotheses on them
  are premises of the properties, and every property with premises has a witness on concrete values.

  \<^bold>\<open>Not modelled.\<close> The HTTP and WebSocket transport of the status page and its HTML template; the tailcat server and client, which are a
  third-party package; the process of
  \<open>cmd/testhistoryd\<close> around its handlers (connection pool, signals); the ticker of the progress reporter; the semaphore \<open>execSem\<close>, of which a test
  sees whether it was acquired. Run with helpers is modelled by the fleet, the composition in \<open>Full_Run\<close> is that of a run without them.
\<close>

end
